(* ===== verification/Kcpev_Prelude.thy ===== *)
theory Kcpev_Prelude
  imports Main "HOL-Library.Word" "HOL-Library.Monad_Syntax" "HOL-Library.Signed_Division"
begin

text \<open>
  Prelude of the development: the machine types of the C code, the C conversions and the
  memory accesses the components share, and the generic lemmas on words, lists and
  optional results that carry the component proofs.

  The C type \<open>int\<close> (and \<open>IINT32\<close>) is modelled by HOL's \<open>int\<close>, with \<open>wrap32\<close> at
  every place where the two's complement result of an arithmetic operation can leave the
  range of the type (the build passes \<open>-fwrapv\<close>). Unsigned types are words of their
  width. An operation that can fail an \<open>assert\<close>, call \<open>abort\<close> or access memory
  outside an object returns an option; \<open>None\<close> is that undefined outcome.
\<close>

unbundle bit_operations_syntax

section \<open>Types\<close>

type_synonym byte = "8 word"
type_synonym u8 = "8 word"
type_synonym u16 = "16 word"
type_synonym u32 = "32 word"
type_synonym u64 = "64 word"

named_theorems outcome_simps \<open>inversion of the optional results of the C operations\<close>
named_theorems word_nat \<open>reading word arithmetic on natural numbers\<close>
named_theorems seq_simps \<open>circular sequence number arithmetic\<close>

section \<open>C conversions and memory accesses\<close>

text \<open>The value an \<open>int\<close> expression has after two's complement wrap-around.\<close>

definition wrap32 :: "int \<Rightarrow> int" where
  "wrap32 x = sint (word_of_int x :: u32)"

text \<open>
  \<open>memcpy(&d[pos], xs, length xs)\<close> into an array \<open>d\<close>: undefined when the write leaves the
  array.
\<close>

definition blit :: "'a list \<Rightarrow> nat \<Rightarrow> 'a list \<Rightarrow> 'a list option" where
  "blit d pos xs =
     (if pos + length xs \<le> length d
      then Some (take pos d @ xs @ drop (pos + length xs) d) else None)"

text \<open>
  \<open>memcpy(dst, &d[pos], len)\<close> out of an array \<open>d\<close>: undefined when the read leaves the
  array.
\<close>

definition fetch :: "'a list \<Rightarrow> nat \<Rightarrow> nat \<Rightarrow> 'a list option" where
  "fetch d pos len = (if pos + len \<le> length d then Some (take len (drop pos d)) else None)"

text \<open>\<open>assert(b)\<close>; the build does not define \<open>NDEBUG\<close>.\<close>

definition c_assert :: "bool \<Rightarrow> unit option" where
  "c_assert b = (if b then Some () else None)"

text \<open>Unsigned division; a zero divisor is undefined.\<close>

definition c_udiv :: "'a::len word \<Rightarrow> 'a word \<Rightarrow> 'a word option" where
  "c_udiv a b = (if b = 0 then None else Some (a div b))"

section \<open>Optional results\<close>

lemma c_udiv_Some [outcome_simps]: "c_udiv a b = Some q \<longleftrightarrow> b \<noteq> 0 \<and> q = a div b"
  by (auto simp: c_udiv_def)

lemma c_assert_Some [outcome_simps]: "c_assert b = Some x \<longleftrightarrow> b"
  by (simp add: c_assert_def)

lemma c_assert_True [simp]: "c_assert True = Some ()"
  by (simp add: c_assert_def)

lemma blit_Some [outcome_simps]:
  "blit d pos xs = Some d' \<longleftrightarrow>
     pos + length xs \<le> length d \<and> d' = take pos d @ xs @ drop (pos + length xs) d"
  by (auto simp: blit_def)

lemma fetch_Some [outcome_simps]:
  "fetch d pos len = Some xs \<longleftrightarrow> pos + len \<le> length d \<and> xs = take len (drop pos d)"
  by (auto simp: fetch_def)

lemmas [outcome_simps] = bind_eq_Some_conv

lemma blit_fits:
  assumes "pos + length xs \<le> length d"
  obtains d' where "blit d pos xs = Some d'"
  using assms by (simp add: blit_def)

lemma blit_length: "blit d pos xs = Some d' \<Longrightarrow> length d' = length d"
  by (auto simp: blit_def split: if_splits)

lemma blit_nth:
  assumes "blit d pos xs = Some d'" and "j < length d"
  shows "d' ! j = (if pos \<le> j \<and> j < pos + length xs then xs ! (j - pos) else d ! j)"
  using assms by (auto simp: outcome_simps nth_append)

section \<open>Lists\<close>

lemma length_filter_neq:
  "distinct (map f xs) \<Longrightarrow>
     length xs = length (filter (\<lambda>s. f s \<noteq> v) xs) + (if v \<in> f ` set xs then 1 else 0)"
proof (induction xs)
  case (Cons x xs)
  then show ?case by (cases "v = f x") (auto simp: filter_id_conv image_iff)
qed simp

section \<open>Words\<close>

lemma wrap32_id: "- (2 ^ 31) \<le> x \<Longrightarrow> x < 2 ^ 31 \<Longrightarrow> wrap32 x = x"
  by (simp add: wrap32_def sint_sbintrunc' signed_take_bit_int_eq_self)

lemma wrap32_range: "- (2 ^ 31) \<le> wrap32 x \<and> wrap32 x < 2 ^ 31"
  using sint_range_size [of "word_of_int x :: u32"] by (simp add: wrap32_def word_size)

lemma unat_sub_le [word_nat]: "b \<le> a \<Longrightarrow> unat (a - b) = unat a - unat b"
  for a b :: "'a::len word"
  by (simp add: unat_sub_if' word_le_nat_alt)

lemma unat_add_lt [word_nat]:
  "unat a + unat b < 2 ^ LENGTH('a) \<Longrightarrow> unat (a + b) = unat a + unat b"
  for a b :: "'a::len word"
  by (simp add: unat_word_ariths)

lemma unat_of_nat_lt [word_nat]: "n < 2 ^ LENGTH('a) \<Longrightarrow> unat (of_nat n :: 'a::len word) = n"
  by (simp add: unat_of_nat take_bit_nat_eq_self)

lemma unat_of_int_lt [word_nat]:
  "0 \<le> i \<Longrightarrow> i < 2 ^ LENGTH('a) \<Longrightarrow> unat (word_of_int i :: 'a::len word) = nat i"
  by (simp add: unsigned_of_int take_bit_int_eq_self)

text \<open>Reading a 32-bit difference as signed, in terms of its unsigned value.\<close>

lemma uint_u32_bounds: "0 \<le> uint (w :: u32)" "uint (w :: u32) < 2 ^ 32"
  using unsigned_less [of w, where ?'a = int] by simp_all

lemma unat_u32_bound: "unat (w :: u32) < 2 ^ 32"
  using unsigned_less [of w, where ?'a = nat] by simp

lemma sint_u32_alt: "sint (w :: u32) = (if uint w < 2 ^ 31 then uint w else uint w - 2 ^ 32)"
proof (cases "uint w < 2 ^ 31")
  case True
  then show ?thesis
    using int_word_sint [of "uint w", where ?'a = 32] uint_u32_bounds [of w] by simp
next
  case False
  have "(uint w + 2 ^ 31) mod 2 ^ 32 = (uint w + 2 ^ 31 - 2 ^ 32) mod 2 ^ 32"
    by (metis minus_mod_self2)
  also have "\<dots> = uint w + 2 ^ 31 - 2 ^ 32"
    using False uint_u32_bounds [of w] by (intro mod_pos_pos_trivial) auto
  finally show ?thesis
    using int_word_sint [of "uint w", where ?'a = 32] False by simp
qed

lemma unat_less_uint: "unat (w :: 'a::len word) < numeral k \<longleftrightarrow> uint w < numeral k"
  unfolding uint_nat by (simp del: of_nat_unat)

lemma sint_u32_nonneg [seq_simps]: "0 \<le> sint (w :: u32) \<longleftrightarrow> unat w < 2 ^ 31"
  using uint_u32_bounds [of w] by (simp add: sint_u32_alt unat_less_uint)

lemma sint_u32_neg [seq_simps]: "sint (w :: u32) < 0 \<longleftrightarrow> 2 ^ 31 \<le> unat w"
  using sint_u32_nonneg [of w] by linarith

lemma sint_u32_pos [seq_simps]: "0 < sint (w :: u32) \<longleftrightarrow> w \<noteq> 0 \<and> unat w < 2 ^ 31"
proof -
  have "sint w = 0 \<longleftrightarrow> w = 0"
    by (simp add: signed_eq_0_iff)
  then show ?thesis
    using sint_u32_nonneg [of w] by linarith
qed

end
