(* ===== verification/Ringbuf.thy ===== *)
theory Ringbuf
  imports Kcpev_Prelude
begin

text \<open>
  The ring buffer of \<open>src/src/kcpev_ringbuf.c\<close>, which reassembles the TCP stream. The
  record \<open>ringbuf\<close> is \<open>struct _ringbuf\<close>, with \<open>size_t\<close> fields as 64-bit words and the
  flexible array member as a list of bytes. Every function of the file is one definition;
  \<open>None\<close> is a failed \<open>assert\<close>, a division by zero or a \<open>memcpy\<close> outside the array.

  The abstraction \<open>rb_contents\<close> reads the pending bytes in order. The lemmas show that
  under the invariant \<open>rb_inv\<close> no operation is undefined, that the ring buffer is a
  bounded FIFO of bytes, and that reading it chunk by chunk yields exactly its contents.
\<close>

section \<open>The model\<close>

record ringbuf =
  rb_n :: u64
  rb_u :: u64
  rb_i :: u64
  rb_o :: u64
  rb_d :: "byte list"

text \<open>
  \<open>ringbuf_new\<close>: the argument \<open>mem\<close> is what \<open>malloc\<close> returns, \<open>None\<close> for a null
  pointer and otherwise the indeterminate contents of the block. The header of the
  structure takes 32 bytes; the size computation \<open>sizeof(*r) + sz\<close> wraps at 64 bits.
\<close>

definition ringbuf_new :: "(nat \<Rightarrow> byte) option \<Rightarrow> u64 \<Rightarrow> ringbuf option" where
  "ringbuf_new mem sz =
     (case mem of None \<Rightarrow> None
      | Some f \<Rightarrow>
          Some \<lparr>rb_n = sz, rb_u = 0, rb_i = 0, rb_o = 0,
                rb_d = map f [0..<unat (32 + sz) - 32]\<rparr>)"

text \<open>The common end of \<open>ringbuf_put\<close>: advance the input position and the used count.\<close>

definition ringbuf_advance :: "ringbuf \<Rightarrow> byte list \<Rightarrow> u64 \<Rightarrow> (int \<times> ringbuf) option" where
  "ringbuf_advance r d' len =
     (if rb_n r = 0 then None
      else Some (0, r\<lparr>rb_d := d', rb_i := (rb_i r + len) mod rb_n r, rb_u := rb_u r + len\<rparr>))"

definition ringbuf_put :: "ringbuf \<Rightarrow> byte list \<Rightarrow> (int \<times> ringbuf) option" where
  "ringbuf_put r data =
     (let len = of_nat (length data) :: u64 in
      if rb_i r < rb_o r then
        (let a = rb_o r - rb_i r in
         do {
           c_assert (a = rb_n r - rb_u r);
           if len > a then Some (-1, r)
           else do {
             d' \<leftarrow> blit (rb_d r) (unat (rb_i r)) data;
             ringbuf_advance r d' len
           }
         })
      else
        (let b = rb_n r - rb_i r;
             c = rb_o r;
             a = (if rb_i r = rb_o r then rb_n r - rb_u r else b + c) in
         do {
           c_assert (a = rb_n r - rb_u r);
           if len > a then Some (-1, r)
           else do {
             d1 \<leftarrow> blit (rb_d r) (unat (rb_i r)) (take (unat (if b < len then b else len)) data);
             d2 \<leftarrow> (if len > b then blit d1 0 (drop (unat b) data) else Some d1);
             ringbuf_advance r d2 len
           }
         }))"

definition ringbuf_get_pending_size :: "ringbuf \<Rightarrow> u64" where
  "ringbuf_get_pending_size r = rb_u r"

text \<open>
  \<open>ringbuf_get_next_chunk\<close> returns the length of the chunk and, through \<open>*data\<close>, a pointer
  into the array: here the offset, \<open>None\<close> for the null pointer.
\<close>

definition ringbuf_get_next_chunk :: "ringbuf \<Rightarrow> (nat option \<times> u64) option" where
  "ringbuf_get_next_chunk r =
     (if rb_o r < rb_i r then
        do { c_assert (rb_u r = rb_i r - rb_o r); Some (Some (unat (rb_o r)), rb_u r) }
      else if rb_o r = rb_i r \<and> rb_u r = 0 then Some (None, 0)
      else
        (let b = rb_n r - rb_o r; c = rb_i r in
         do { c_assert (rb_u r = b + c); Some (Some (unat (rb_o r)), b) }))"

definition ringbuf_mark_consumed :: "ringbuf \<Rightarrow> u64 \<Rightarrow> ringbuf option" where
  "ringbuf_mark_consumed r len =
     do {
       c_assert (len \<le> rb_u r);
       if rb_n r = 0 then None
       else Some (r\<lparr>rb_o := (rb_o r + len) mod rb_n r, rb_u := rb_u r - len\<rparr>)
     }"

definition ringbuf_clear :: "ringbuf \<Rightarrow> ringbuf" where
  "ringbuf_clear r = r\<lparr>rb_u := 0, rb_i := 0, rb_o := 0\<rparr>"

text \<open>\<open>ringbuf_copy_data\<close>: the return code and the bytes written to \<open>data\<close>.\<close>

definition ringbuf_copy_data :: "ringbuf \<Rightarrow> u64 \<Rightarrow> (int \<times> byte list) option" where
  "ringbuf_copy_data r len =
     (if rb_u r < len then Some (-1, [])
      else
        (let b = rb_n r - rb_o r in
         if rb_o r < rb_i r \<or> b \<ge> len then
           do { x \<leftarrow> fetch (rb_d r) (unat (rb_o r)) (unat len); Some (0, x) }
         else
           do {
             x \<leftarrow> fetch (rb_d r) (unat (rb_o r)) (unat b);
             y \<leftarrow> fetch (rb_d r) 0 (unat (len - b));
             Some (0, x @ y)
           }))"

section \<open>Invariant and abstraction\<close>

definition rb_inv :: "ringbuf \<Rightarrow> bool" where
  "rb_inv r \<longleftrightarrow>
     0 < unat (rb_n r) \<and> unat (rb_n r) < 2 ^ 63 \<and> length (rb_d r) = unat (rb_n r) \<and>
     unat (rb_u r) \<le> unat (rb_n r) \<and> unat (rb_o r) < unat (rb_n r) \<and>
     unat (rb_i r) = (unat (rb_o r) + unat (rb_u r)) mod unat (rb_n r)"

definition rb_contents :: "ringbuf \<Rightarrow> byte list" where
  "rb_contents r = take (unat (rb_u r)) (rotate (unat (rb_o r)) (rb_d r))"

definition rb_capacity :: "ringbuf \<Rightarrow> nat" where
  "rb_capacity r = unat (rb_n r)"

section \<open>Positions\<close>

lemma rb_inv_pos:
  assumes "rb_inv r"
  shows "unat (rb_i r) < unat (rb_n r)" "unat (rb_o r) < unat (rb_n r)"
    "unat (rb_u r) \<le> unat (rb_n r)" "length (rb_d r) = unat (rb_n r)"
    "unat (rb_n r) < 2 ^ 63" "rb_n r \<noteq> 0"
  using assms by (auto simp: rb_inv_def)

text \<open>The three relative positions of the input and the output index.\<close>

lemma rb_inv_cases:
  assumes "rb_inv r"
  shows "unat (rb_i r) < unat (rb_o r) \<Longrightarrow>
           unat (rb_u r) = unat (rb_n r) + unat (rb_i r) - unat (rb_o r)"
    and "unat (rb_o r) < unat (rb_i r) \<Longrightarrow> unat (rb_u r) = unat (rb_i r) - unat (rb_o r)"
    and "unat (rb_i r) = unat (rb_o r) \<Longrightarrow>
           unat (rb_u r) = 0 \<or> unat (rb_u r) = unat (rb_n r)"
  using assms by (auto simp: rb_inv_def mod_if split: if_splits)

lemma length_rb_contents: "rb_inv r \<Longrightarrow> length (rb_contents r) = unat (rb_u r)"
  by (simp add: rb_contents_def rb_inv_def)

lemma rb_contents_nth:
  assumes "rb_inv r" and "j < unat (rb_u r)"
  shows "rb_contents r ! j = rb_d r ! ((unat (rb_o r) + j) mod unat (rb_n r))"
  using assms by (simp add: rb_contents_def rb_inv_def nth_rotate)

lemma ring_index_inj:
  fixes a b n p :: nat
  assumes "a < n" "b < n" "(p + a) mod n = (p + b) mod n"
  shows "a = b"
proof -
  let ?p = "p mod n"
  have "(p + c) mod n = (if ?p + c < n then ?p + c else ?p + c - n)" if "c < n" for c
  proof -
    have "(p + c) mod n = (?p + c) mod n" by (simp add: mod_add_left_eq)
    moreover have "?p < n" using that by simp
    ultimately show ?thesis using that by (cases "?p + c < n") (simp_all add: le_mod_geq)
  qed
  from this [OF assms(1)] this [OF assms(2)] assms show ?thesis by (auto split: if_splits)
qed

section \<open>Insertion\<close>

text \<open>
  \<open>ring_store d p xs d'\<close>: the array \<open>d'\<close> is \<open>d\<close> with \<open>xs\<close> written from position \<open>p\<close>
  onwards, wrapping around at the end, and nothing else changed.
\<close>

definition ring_store :: "byte list \<Rightarrow> nat \<Rightarrow> byte list \<Rightarrow> byte list \<Rightarrow> bool" where
  "ring_store d p xs d' \<longleftrightarrow>
     length d' = length d \<and>
     (\<forall>j < length xs. d' ! ((p + j) mod length d) = xs ! j) \<and>
     (\<forall>q < length d. (\<forall>j < length xs. q \<noteq> (p + j) mod length d) \<longrightarrow> d' ! q = d ! q)"

lemma ring_store_straight:
  assumes "p + length xs \<le> length d" "blit d p xs = Some d'"
  shows "ring_store d p xs d'"
proof -
  have "d' ! q = d ! q" if "q < length d" "\<forall>j < length xs. q \<noteq> (p + j) mod length d" for q
  proof -
    have "\<not> (p \<le> q \<and> q < p + length xs)"
    proof
      assume "p \<le> q \<and> q < p + length xs"
      then have "q - p < length xs" and "q = (p + (q - p)) mod length d"
        using that(1) by auto
      then show False using that(2) by blast
    qed
    then show ?thesis
      using blit_nth [OF assms(2) that(1)] by auto
  qed
  then show ?thesis
    using assms by (auto simp: ring_store_def blit_length blit_nth)
qed

lemma ring_store_wrapped:
  assumes "p < length d" "length xs \<le> length d" "length d - p < length xs"
    and "blit d p (take (length d - p) xs) = Some d1"
    and "blit d1 0 (drop (length d - p) xs) = Some d2"
  shows "ring_store d p xs d2"
proof -
  let ?b = "length d - p"
  have len: "length d1 = length d" "length d2 = length d"
    using blit_length [OF assms(4)] blit_length [OF assms(5)] by auto
  have d2: "d2 ! q = (if q < length xs - ?b then xs ! (?b + q) else d1 ! q)" if "q < length d" for q
    using blit_nth [OF assms(5), of q] that len assms(3) by auto
  have d1: "d1 ! q = (if p \<le> q then xs ! (q - p) else d ! q)" if "q < length d" for q
    using blit_nth [OF assms(4), of q] that assms(1,3) by auto
  have "d2 ! ((p + j) mod length d) = xs ! j" if "j < length xs" for j
  proof (cases "p + j < length d")
    case True
    then show ?thesis
      using d1 [of "p + j"] d2 [of "p + j"] that assms(1,2,3) by auto
  next
    case False
    then have "(p + j) mod length d = p + j - length d"
      using that assms(1,2) by (simp add: mod_if)
    then show ?thesis
      using d2 [of "p + j - length d"] that assms False by auto
  qed
  moreover have "d2 ! q = d ! q"
    if q: "q < length d" "\<forall>j < length xs. q \<noteq> (p + j) mod length d" for q
  proof -
    have "q < p"
    proof (rule ccontr)
      assume "\<not> q < p"
      then have "q - p < length xs" and "q = (p + (q - p)) mod length d"
        using q(1) assms(3) by auto
      then show False using q(2) by blast
    qed
    moreover have "length xs - ?b \<le> q"
    proof (rule ccontr)
      assume "\<not> ?thesis"
      then have "?b + q < length xs" and "(p + (?b + q)) mod length d = q"
        using q(1) assms(1) by auto
      then show False using q(2) by metis
    qed
    ultimately show ?thesis
      using d1 d2 q(1) by auto
  qed
  ultimately show ?thesis
    using len by (auto simp: ring_store_def)
qed

lemma ring_store_contents:
  assumes inv: "rb_inv r" and room: "unat (rb_u r) + length xs \<le> unat (rb_n r)"
    and st: "ring_store (rb_d r) (unat (rb_i r)) xs d'"
    and r': "unat (rb_u r') = unat (rb_u r) + length xs" "rb_d r' = d'" "rb_o r' = rb_o r"
  shows "rb_contents r' = rb_contents r @ xs"
proof (rule nth_equalityI)
  let ?n = "unat (rb_n r)" and ?o = "unat (rb_o r)" and ?u = "unat (rb_u r)"
  note pos = rb_inv_pos [OF inv]
  have ld: "length d' = ?n" using st pos by (simp add: ring_store_def)
  show len: "length (rb_contents r') = length (rb_contents r @ xs)"
    using r' ld room length_rb_contents [OF inv] by (simp add: rb_contents_def)
  fix j
  assume "j < length (rb_contents r')"
  then have j: "j < ?u + length xs" using len length_rb_contents [OF inv] by simp
  have nth': "rb_contents r' ! j = d' ! ((?o + j) mod ?n)"
    using r' j ld room pos(2) by (simp add: rb_contents_def nth_rotate)
  show "rb_contents r' ! j = (rb_contents r @ xs) ! j"
  proof (cases "j < ?u")
    case True
    have "(?o + j) mod ?n \<noteq> (unat (rb_i r) + m) mod ?n" if "m < length xs" for m
    proof
      assume "(?o + j) mod ?n = (unat (rb_i r) + m) mod ?n"
      then have "(?o + j) mod ?n = (?o + (?u + m)) mod ?n"
        using inv by (simp add: rb_inv_def mod_add_left_eq add.assoc)
      then show False
        using ring_index_inj [of j ?n "?u + m" ?o] True that room by auto
    qed
    then have "d' ! ((?o + j) mod ?n) = rb_d r ! ((?o + j) mod ?n)"
      using st pos by (simp add: ring_store_def)
    then show ?thesis
      using nth' True rb_contents_nth [OF inv True] length_rb_contents [OF inv]
      by (simp add: nth_append)
  next
    case False
    have "(?o + j) mod ?n = (unat (rb_i r) + (j - ?u)) mod ?n"
    proof -
      have "unat (rb_i r) = (?o + ?u) mod ?n" using inv by (simp add: rb_inv_def)
      then show ?thesis using False mod_add_left_eq [of "?o + ?u" ?n "j - ?u"] by simp
    qed
    moreover have "\<forall>m < length xs. d' ! ((unat (rb_i r) + m) mod ?n) = xs ! m"
      using st pos(4) by (simp add: ring_store_def)
    moreover have "j - ?u < length xs" using j False by simp
    ultimately have "d' ! ((?o + j) mod ?n) = xs ! (j - ?u)" by metis
    then show ?thesis
      using nth' False length_rb_contents [OF inv] by (simp add: nth_append)
  qed
qed

lemma rb_free_space:
  assumes "rb_inv r"
  shows "rb_i r < rb_o r \<Longrightarrow> rb_o r - rb_i r = rb_n r - rb_u r"
    and "\<not> rb_i r < rb_o r \<Longrightarrow>
           (if rb_i r = rb_o r then rb_n r - rb_u r else rb_n r - rb_i r + rb_o r) = rb_n r - rb_u r"
proof -
  note pos = rb_inv_pos [OF assms] and cs = rb_inv_cases [OF assms]
  have le: "rb_u r \<le> rb_n r" "rb_i r \<le> rb_n r"
    using pos by (auto simp: word_le_nat_alt)
  show "rb_i r < rb_o r \<Longrightarrow> rb_o r - rb_i r = rb_n r - rb_u r"
    using cs(1) le pos by (auto simp: word_unat_eq_iff word_nat word_less_nat_alt word_le_nat_alt)
  assume "\<not> rb_i r < rb_o r"
  moreover have "rb_n r - rb_i r + rb_o r = rb_n r - rb_u r" if "unat (rb_o r) < unat (rb_i r)"
  proof -
    have "unat (rb_n r - rb_i r) + unat (rb_o r) < 2 ^ LENGTH(64)"
      using le pos that by (simp add: word_nat)
    then show ?thesis
      using cs(2) [OF that] le pos that by (simp add: word_unat_eq_iff word_nat)
  qed
  ultimately show "(if rb_i r = rb_o r then rb_n r - rb_u r else rb_n r - rb_i r + rb_o r) =
      rb_n r - rb_u r"
    by (auto simp: word_less_nat_alt word_unat_eq_iff)
qed

lemma rb_room_iff:
  assumes "rb_inv r" and "length data < 2 ^ 64"
  shows "of_nat (length data) > rb_n r - rb_u r \<longleftrightarrow> rb_capacity r < unat (rb_u r) + length data"
proof -
  have "rb_u r \<le> rb_n r" using rb_inv_pos [OF assms(1)] by (simp add: word_le_nat_alt)
  moreover have "unat (of_nat (length data) :: u64) = length data"
    using assms(2) by (intro unat_of_nat_lt) simp
  ultimately show ?thesis
    using rb_inv_pos(3) [OF assms(1)]
    by (auto simp: word_less_nat_alt word_nat rb_capacity_def)
qed

text \<open>Without room the buffer is left alone and the function returns -1.\<close>

lemma ringbuf_put_full:
  assumes "rb_inv r" and "length data < 2 ^ 64" and "rb_capacity r < unat (rb_u r) + length data"
  shows "ringbuf_put r data = Some (-1, r)"
  using rb_free_space [OF assms(1)] rb_room_iff [OF assms(1,2)] assms(3)
  by (auto simp: ringbuf_put_def Let_def)

text \<open>With room both copies stay inside the array and together store the data.\<close>

lemma ringbuf_put_stores:
  assumes inv: "rb_inv r" and len: "length data < 2 ^ 64"
    and room: "unat (rb_u r) + length data \<le> rb_capacity r"
  obtains d' where "ringbuf_put r data = ringbuf_advance r d' (of_nat (length data))"
    and "ring_store (rb_d r) (unat (rb_i r)) data d'"
proof -
  note pos = rb_inv_pos [OF inv] and free = rb_free_space [OF inv]
    and cs = rb_inv_cases [OF inv]
  have nroom: "\<not> of_nat (length data) > rb_n r - rb_u r"
    using room by (simp add: rb_room_iff [OF inv len])
  have ul: "unat (of_nat (length data) :: u64) = length data"
    using len by (intro unat_of_nat_lt) simp
  show ?thesis
  proof (cases "rb_i r < rb_o r")
    case True
    then have fits: "unat (rb_i r) + length data \<le> length (rb_d r)"
      using cs(1) room pos by (simp add: word_less_nat_alt rb_capacity_def)
    then obtain d' where d': "blit (rb_d r) (unat (rb_i r)) data = Some d'"
      by (simp add: blit_def)
    show ?thesis
      using that [OF _ ring_store_straight [OF fits d']] free(1) [OF True] True nroom d'
      by (simp add: ringbuf_put_def Let_def)
  next
    case False
    have b: "unat (rb_n r - rb_i r) = unat (rb_n r) - unat (rb_i r)"
      using pos by (intro unat_sub_le) (simp add: word_le_nat_alt)
    show ?thesis
    proof (cases "rb_n r - rb_i r < of_nat (length data)")
      case True
      then have lt: "length (rb_d r) - unat (rb_i r) < length data"
        using b ul pos by (simp add: word_less_nat_alt)
      have le: "length data \<le> length (rb_d r)"
        using room pos by (simp add: rb_capacity_def)
      have "unat (rb_i r) + length (take (length (rb_d r) - unat (rb_i r)) data) \<le> length (rb_d r)"
        using pos(1,4) by simp
      then obtain d1 where d1: "blit (rb_d r) (unat (rb_i r))
          (take (length (rb_d r) - unat (rb_i r)) data) = Some d1"
        by (rule blit_fits)
      have "0 + length (drop (length (rb_d r) - unat (rb_i r)) data) \<le> length d1"
        using le blit_length [OF d1] by simp
      then obtain d2 where d2: "blit d1 0 (drop (length (rb_d r) - unat (rb_i r)) data) = Some d2"
        by (rule blit_fits)
      show ?thesis
        using that [OF _ ring_store_wrapped [OF _ le lt d1 d2]] free(2) [OF False] False True
          nroom d1 d2 b pos
        by (simp add: ringbuf_put_def Let_def)
    next
      case nw: False
      then have fits: "unat (rb_i r) + length data \<le> length (rb_d r)"
        using b ul pos by (simp add: word_less_nat_alt)
      then obtain d' where d': "blit (rb_d r) (unat (rb_i r)) data = Some d'"
        by (simp add: blit_def)
      show ?thesis
        using that [OF _ ring_store_straight [OF fits d']] free(2) [OF False] False nw nroom d' ul
        by (simp add: ringbuf_put_def Let_def)
    qed
  qed
qed

lemma ringbuf_put_ok:
  assumes inv: "rb_inv r" and len: "length data < 2 ^ 64"
    and room: "unat (rb_u r) + length data \<le> rb_capacity r"
  obtains r' where "ringbuf_put r data = Some (0, r')" and "rb_inv r'"
    and "rb_capacity r' = rb_capacity r" and "rb_contents r' = rb_contents r @ data"
proof -
  note pos = rb_inv_pos [OF inv]
  obtain d' where put: "ringbuf_put r data = ringbuf_advance r d' (of_nat (length data))"
    and st: "ring_store (rb_d r) (unat (rb_i r)) data d'"
    using ringbuf_put_stores [OF assms] .
  define r' where "r' = r\<lparr>rb_d := d', rb_i := (rb_i r + of_nat (length data)) mod rb_n r,
     rb_u := rb_u r + of_nat (length data)\<rparr>"
  have l64: "length data < 2 ^ LENGTH(64)" using len by simp
  have u': "unat (rb_u r') = unat (rb_u r) + length data"
    using room pos by (simp add: r'_def rb_capacity_def unat_add_lt unat_of_nat_lt [OF l64])
  have i': "unat (rb_i r') = (unat (rb_i r) + length data) mod unat (rb_n r)"
    using room pos
    by (simp add: r'_def rb_capacity_def unat_mod_distrib unat_add_lt unat_of_nat_lt [OF l64])
  have "rb_inv r'"
  proof -
    have "(unat (rb_i r) + length data) mod unat (rb_n r) =
        (unat (rb_o r) + (unat (rb_u r) + length data)) mod unat (rb_n r)"
      using inv by (simp add: rb_inv_def mod_add_left_eq add.assoc)
    then show ?thesis
      using inv st room i' u'
      by (simp add: rb_inv_def ring_store_def rb_capacity_def) (simp add: r'_def)
  qed
  moreover have "rb_contents r' = rb_contents r @ data"
    using ring_store_contents [OF inv _ st u'] room by (simp add: r'_def rb_capacity_def)
  moreover have "ringbuf_put r data = Some (0, r')"
    using put pos(6) by (simp add: ringbuf_advance_def r'_def)
  ultimately show ?thesis
    using that by (simp add: r'_def rb_capacity_def)
qed

section \<open>Creation, consumption and copies\<close>

lemma ringbuf_new_inv:
  assumes "0 < sz" and "unat sz < 2 ^ 63"
  obtains r where "ringbuf_new (Some f) sz = Some r" and "rb_inv r"
    and "rb_capacity r = unat sz" and "rb_contents r = []"
proof -
  have "unat (32 + sz) = 32 + unat sz"
    using assms(2) by (subst unat_add_lt) simp_all
  then show ?thesis
    using that assms by (simp add: ringbuf_new_def rb_inv_def rb_capacity_def rb_contents_def
        word_less_nat_alt)
qed

lemma ringbuf_clear_inv:
  "rb_inv r \<Longrightarrow> rb_inv (ringbuf_clear r) \<and> rb_contents (ringbuf_clear r) = [] \<and>
     rb_capacity (ringbuf_clear r) = rb_capacity r"
  by (simp add: rb_inv_def ringbuf_clear_def rb_contents_def rb_capacity_def)

lemma rb_contents_split:
  assumes "rb_inv r"
  shows "rb_contents r = take (unat (rb_u r)) (drop (unat (rb_o r)) (rb_d r) @ take (unat (rb_o r)) (rb_d r))"
  using rb_inv_pos [OF assms] by (simp add: rb_contents_def rotate_drop_take)

lemma rb_contents_slice:
  assumes "rb_inv r" and "unat (rb_o r) + m \<le> unat (rb_n r)" and "m \<le> unat (rb_u r)"
  shows "fetch (rb_d r) (unat (rb_o r)) m = Some (take m (rb_contents r))"
  using assms rb_inv_pos [OF assms(1)]
  by (simp add: fetch_def rb_contents_split [OF assms(1)] min_absorb1)

lemma rb_capacity_gap:
  assumes "rb_inv r" shows "unat (rb_n r - rb_o r) = unat (rb_n r) - unat (rb_o r)"
  using rb_inv_pos [OF assms] by (intro unat_sub_le) (simp add: word_le_nat_alt)

lemma ringbuf_copy_data_short:
  "rb_inv r \<Longrightarrow> unat (rb_u r) < unat len \<Longrightarrow> ringbuf_copy_data r len = Some (-1, [])"
  by (simp add: ringbuf_copy_data_def word_less_nat_alt)

lemma ringbuf_copy_data_ok:
  assumes inv: "rb_inv r" and len: "unat len \<le> unat (rb_u r)"
  shows "ringbuf_copy_data r len = Some (0, take (unat len) (rb_contents r))"
proof (cases "rb_o r < rb_i r \<or> rb_n r - rb_o r \<ge> len")
  case True
  have "unat (rb_o r) + unat len \<le> unat (rb_n r)"
    using True rb_inv_cases(2) [OF inv] rb_inv_pos [OF inv] len rb_capacity_gap [OF inv]
    by (auto simp: word_less_nat_alt word_le_nat_alt)
  from rb_contents_slice [OF inv this len] show ?thesis
    using True len by (auto simp: ringbuf_copy_data_def Let_def word_less_nat_alt)
next
  case False
  note pos = rb_inv_pos [OF inv] and gap = rb_capacity_gap [OF inv]
  have lt: "unat (rb_n r) - unat (rb_o r) < unat len"
    using False gap by (simp add: word_less_nat_alt word_le_nat_alt)
  have rest: "unat (len - (rb_n r - rb_o r)) = unat len - (unat (rb_n r) - unat (rb_o r))"
    using lt gap by (subst unat_sub_le) (simp_all add: word_le_nat_alt)
  have "fetch (rb_d r) (unat (rb_o r)) (unat (rb_n r - rb_o r)) = Some (drop (unat (rb_o r)) (rb_d r))"
    using gap pos by (simp add: fetch_def)
  moreover have "fetch (rb_d r) 0 (unat (len - (rb_n r - rb_o r))) =
      Some (take (unat len - (unat (rb_n r) - unat (rb_o r))) (rb_d r))"
    using rest pos len by (simp add: fetch_def)
  moreover have "take (unat len) (rb_contents r) =
      drop (unat (rb_o r)) (rb_d r) @ take (unat len - (unat (rb_n r) - unat (rb_o r))) (rb_d r)"
    using rb_contents_split [OF inv] len lt pos by (simp add: min_absorb1)
  ultimately show ?thesis
    using False len by (auto simp: ringbuf_copy_data_def Let_def word_less_nat_alt)
qed

lemma ringbuf_mark_consumed_ok:
  assumes inv: "rb_inv r" and len: "unat len \<le> unat (rb_u r)"
  obtains r' where "ringbuf_mark_consumed r len = Some r'" and "rb_inv r'"
    and "rb_capacity r' = rb_capacity r" and "rb_contents r' = drop (unat len) (rb_contents r)"
proof -
  note pos = rb_inv_pos [OF inv]
  define r' where "r' = r\<lparr>rb_o := (rb_o r + len) mod rb_n r, rb_u := rb_u r - len\<rparr>"
  have u': "unat (rb_u r') = unat (rb_u r) - unat len"
    using len by (simp add: r'_def word_nat word_le_nat_alt)
  have o': "unat (rb_o r') = (unat (rb_o r) + unat len) mod unat (rb_n r)"
    using pos len by (simp add: r'_def unat_mod_distrib unat_add_lt)
  have "(unat (rb_o r') + unat (rb_u r')) mod unat (rb_n r) =
      (unat (rb_o r) + unat (rb_u r)) mod unat (rb_n r)"
    using mod_add_left_eq [of "unat (rb_o r) + unat len" "unat (rb_n r)" "unat (rb_u r')"] len
    by (simp add: u' o')
  moreover have "unat (rb_u r') \<le> unat (rb_n r)" using u' pos(3) by simp
  ultimately have inv': "rb_inv r'"
    using inv len u' o' by (simp add: rb_inv_def) (simp add: r'_def)
  have "rb_contents r' = drop (unat len) (rb_contents r)"
  proof -
    have "rotate (unat (rb_o r')) (rb_d r) = rotate (unat len) (rotate (unat (rb_o r)) (rb_d r))"
      using o' pos by (metis add.commute rotate_conv_mod rotate_rotate)
    then show ?thesis
      using u' o' pos len by (intro nth_equalityI)
        (auto simp: rb_contents_def r'_def nth_rotate add_ac)
  qed
  then show ?thesis
    using that inv' len pos(6)
    by (simp add: ringbuf_mark_consumed_def r'_def rb_capacity_def word_le_nat_alt)
qed

lemma ringbuf_get_next_chunk_empty:
  assumes "rb_inv r" and "rb_contents r = []"
  shows "ringbuf_get_next_chunk r = Some (None, 0)"
proof -
  have u: "rb_u r = 0"
    using assms length_rb_contents by (fastforce simp: unat_eq_zero)
  then have "rb_o r = rb_i r"
    using assms(1) by (simp add: rb_inv_def word_unat_eq_iff)
  then show ?thesis using u by (simp add: ringbuf_get_next_chunk_def)
qed

lemma ringbuf_get_next_chunk_ok:
  assumes inv: "rb_inv r" and ne: "rb_contents r \<noteq> []"
  obtains sz where "ringbuf_get_next_chunk r = Some (Some (unat (rb_o r)), sz)" and "0 < unat sz"
    and "unat sz \<le> unat (rb_u r)"
    and "fetch (rb_d r) (unat (rb_o r)) (unat sz) = Some (take (unat sz) (rb_contents r))"
proof -
  note pos = rb_inv_pos [OF inv] and cs = rb_inv_cases [OF inv] and gap = rb_capacity_gap [OF inv]
  have u0: "0 < unat (rb_u r)"
    using ne length_rb_contents [OF inv] by (metis length_greater_0_conv)
  show ?thesis
  proof (cases "rb_o r < rb_i r")
    case True
    then have "unat (rb_u r) = unat (rb_i r) - unat (rb_o r)"
      using cs(2) by (simp add: word_less_nat_alt)
    moreover have "rb_u r = rb_i r - rb_o r"
      using True calculation by (simp add: word_unat_eq_iff word_nat word_le_nat_alt word_less_nat_alt)
    ultimately show ?thesis
      using that [of "rb_u r"] True u0 pos rb_contents_slice [OF inv, of "unat (rb_u r)"]
      by (simp add: ringbuf_get_next_chunk_def)
  next
    case False
    have u: "unat (rb_u r) = unat (rb_n r) - unat (rb_o r) + unat (rb_i r)"
      using False cs(1,3) u0 pos by (cases "rb_i r = rb_o r") (auto simp: word_less_nat_alt word_unat_eq_iff)
    then have "rb_u r = rb_n r - rb_o r + rb_i r"
      using gap pos by (simp add: word_unat_eq_iff unat_add_lt)
    then show ?thesis
      using that [of "rb_n r - rb_o r"] False u0 u gap pos
        rb_contents_slice [OF inv, of "unat (rb_n r) - unat (rb_o r)"]
      by (auto simp: ringbuf_get_next_chunk_def Let_def unat_eq_zero)
  qed
qed

section \<open>The FIFO interface\<close>

text \<open>
  What a client of the ring buffer relies on: a bounded byte queue with insertion, a copy
  that does not consume, consumption and a pending count. The lemmas inside the locale are
  what the stream reassembly of \<open>kcpev.c\<close> uses.
\<close>

locale byte_fifo =
  fixes put :: "'q \<Rightarrow> byte list \<Rightarrow> (int \<times> 'q) option"
    and copy :: "'q \<Rightarrow> u64 \<Rightarrow> (int \<times> byte list) option"
    and consume :: "'q \<Rightarrow> u64 \<Rightarrow> 'q option"
    and pending :: "'q \<Rightarrow> u64"
    and invar :: "'q \<Rightarrow> bool"
    and contents :: "'q \<Rightarrow> byte list"
    and cap :: "'q \<Rightarrow> nat"
  assumes pending: "invar q \<Longrightarrow> unat (pending q) = length (contents q)"
    and bounded: "invar q \<Longrightarrow> length (contents q) \<le> cap q"
    and put_room: "invar q \<Longrightarrow> length xs < 2 ^ 64 \<Longrightarrow> length (contents q) + length xs \<le> cap q \<Longrightarrow>
      \<exists>q'. put q xs = Some (0, q') \<and> invar q' \<and> cap q' = cap q \<and> contents q' = contents q @ xs"
    and put_full: "invar q \<Longrightarrow> length xs < 2 ^ 64 \<Longrightarrow> cap q < length (contents q) + length xs \<Longrightarrow>
      put q xs = Some (-1, q)"
    and copy_ok: "invar q \<Longrightarrow> unat len \<le> length (contents q) \<Longrightarrow>
      copy q len = Some (0, take (unat len) (contents q))"
    and copy_short: "invar q \<Longrightarrow> length (contents q) < unat len \<Longrightarrow> copy q len = Some (-1, [])"
    and consume_ok: "invar q \<Longrightarrow> unat len \<le> length (contents q) \<Longrightarrow>
      \<exists>q'. consume q len = Some q' \<and> invar q' \<and> cap q' = cap q \<and>
        contents q' = drop (unat len) (contents q)"
begin

text \<open>Insertion is defined on every input and keeps the invariant.\<close>

lemma put_total:
  assumes "invar q" and "length xs < 2 ^ 64"
  shows "\<exists>rc q'. put q xs = Some (rc, q') \<and> invar q' \<and> cap q' = cap q \<and>
    (rc = 0 \<and> contents q' = contents q @ xs \<or> rc = -1 \<and> q' = q)"
  using put_room [OF assms] put_full [OF assms] assms(1)
  by (cases "length (contents q) + length xs \<le> cap q") auto

text \<open>Copying a frame and consuming it splits the contents at the frame's end.\<close>

lemma take_frame:
  assumes "invar q" and "unat len \<le> length (contents q)"
  obtains q' where "copy q len = Some (0, take (unat len) (contents q))"
    and "consume q len = Some q'" and "invar q'" and "cap q' = cap q"
    and "contents q = take (unat len) (contents q) @ contents q'"
  using copy_ok [OF assms] consume_ok [OF assms] by (metis append_take_drop_id)

lemma put_then_copy:
  assumes "invar q" and "contents q = []" and "length xs \<le> cap q" and "length xs < 2 ^ 64"
  shows "\<exists>q'. put q xs = Some (0, q') \<and> copy q' (of_nat (length xs)) = Some (0, xs)"
proof -
  obtain q' where q': "put q xs = Some (0, q')" "invar q'" "contents q' = xs"
    using put_room [OF assms(1,4)] assms(2,3) by auto
  have "unat (of_nat (length xs) :: u64) = length xs"
    using assms(4) by (intro unat_of_nat_lt) simp
  then show ?thesis
    using q' copy_ok [OF q'(2), of "of_nat (length xs)"] by auto
qed

end

interpretation rb: byte_fifo ringbuf_put ringbuf_copy_data ringbuf_mark_consumed
  ringbuf_get_pending_size rb_inv rb_contents rb_capacity
proof unfold_locales
  fix q :: ringbuf and xs len
  assume inv: "rb_inv q"
  note l = length_rb_contents [OF inv]
  show "unat (ringbuf_get_pending_size q) = length (rb_contents q)"
    using l by (simp add: ringbuf_get_pending_size_def)
  show "length (rb_contents q) \<le> rb_capacity q"
    using l rb_inv_pos [OF inv] by (simp add: rb_capacity_def)
  show "length xs < 2 ^ 64 \<Longrightarrow> length (rb_contents q) + length xs \<le> rb_capacity q \<Longrightarrow>
      \<exists>q'. ringbuf_put q xs = Some (0, q') \<and> rb_inv q' \<and> rb_capacity q' = rb_capacity q \<and>
        rb_contents q' = rb_contents q @ xs"
    using ringbuf_put_ok [OF inv] l by metis
  show "length xs < 2 ^ 64 \<Longrightarrow> rb_capacity q < length (rb_contents q) + length xs \<Longrightarrow>
      ringbuf_put q xs = Some (-1, q)"
    using ringbuf_put_full [OF inv] l by simp
  show "unat len \<le> length (rb_contents q) \<Longrightarrow>
      ringbuf_copy_data q len = Some (0, take (unat len) (rb_contents q))"
    using ringbuf_copy_data_ok [OF inv] l by simp
  show "length (rb_contents q) < unat len \<Longrightarrow> ringbuf_copy_data q len = Some (-1, [])"
    using ringbuf_copy_data_short [OF inv] l by simp
  show "unat len \<le> length (rb_contents q) \<Longrightarrow>
      \<exists>q'. ringbuf_mark_consumed q len = Some q' \<and> rb_inv q' \<and> rb_capacity q' = rb_capacity q \<and>
        rb_contents q' = drop (unat len) (rb_contents q)"
    using ringbuf_mark_consumed_ok [OF inv] l by metis
qed

section \<open>Properties\<close>

text \<open>
  C25: \<open>ringbuf_put\<close> is total on a well-formed buffer and refines insertion into a bounded
  FIFO: with room the bytes are appended to the contents, also when the copy wraps around
  the end of the array; without room it returns -1 and changes nothing.
\<close>

theorem ringbuf_put_refines:
  assumes "rb_inv r" and "length xs < 2 ^ 64"
  shows "\<exists>rc r'. ringbuf_put r xs = Some (rc, r') \<and> rb_inv r' \<and> rb_capacity r' = rb_capacity r \<and>
    (if length (rb_contents r) + length xs \<le> rb_capacity r
     then rc = 0 \<and> rb_contents r' = rb_contents r @ xs else rc = -1 \<and> r' = r)"
  using rb.put_room [OF assms] rb.put_full [OF assms] assms(1)
  by (cases "length (rb_contents r) + length xs \<le> rb_capacity r") auto

text \<open>A buffer of four bytes whose two pending bytes wrap around the end of the array.\<close>

definition demo_ring :: ringbuf where
  "demo_ring = \<lparr>rb_n = 4, rb_u = 2, rb_i = 1, rb_o = 3, rb_d = [10, 20, 30, 40]\<rparr>"

lemma demo_ring_inv: "rb_inv demo_ring" and demo_ring_contents: "rb_contents demo_ring = [40, 10]"
  and demo_ring_capacity: "rb_capacity demo_ring = 4"
  by (simp_all add: demo_ring_def rb_inv_def rb_contents_def rb_capacity_def rotate_drop_take)

theorem ringbuf_put_refines_witness:
  "rb_inv demo_ring \<and> length [50, 60 :: byte] < 2 ^ 64 \<and>
   (\<exists>r'. ringbuf_put demo_ring [50, 60] = Some (0, r') \<and> rb_contents r' = [40, 10, 50, 60])"
  using ringbuf_put_refines [OF demo_ring_inv, of "[50, 60]"]
  by (auto simp: demo_ring_inv demo_ring_contents demo_ring_capacity)

text \<open>
  Reading a frame from a well-formed buffer: \<open>ringbuf_copy_data\<close> returns the first
  \<open>len\<close> pending bytes and \<open>ringbuf_mark_consumed\<close> leaves the rest; asking for more than is
  pending returns -1.
\<close>

theorem ringbuf_frame:
  assumes "rb_inv r"
  shows "if unat len \<le> length (rb_contents r)
    then \<exists>r'. ringbuf_copy_data r len = Some (0, take (unat len) (rb_contents r)) \<and>
      ringbuf_mark_consumed r len = Some r' \<and> rb_inv r' \<and> rb_capacity r' = rb_capacity r \<and>
      rb_contents r = take (unat len) (rb_contents r) @ rb_contents r'
    else ringbuf_copy_data r len = Some (-1, [])"
  using rb.take_frame [OF assms, of len] rb.copy_short [OF assms, of len] by auto

theorem ringbuf_frame_witness:
  "rb_inv demo_ring \<and> ringbuf_copy_data demo_ring 2 = Some (0, [40, 10]) \<and>
   ringbuf_copy_data demo_ring 3 = Some (-1, [])"
  using ringbuf_frame [OF demo_ring_inv, of 2] ringbuf_frame [OF demo_ring_inv, of 3] demo_ring_inv
  by (auto simp: demo_ring_contents)

text \<open>
  \<open>ringbuf_get_next_chunk\<close> points at a non-empty contiguous piece of the array, inside its
  bounds, that holds the first pending bytes; only an empty buffer has no chunk.
\<close>

theorem ringbuf_chunk:
  assumes "rb_inv r"
  shows "if rb_contents r = [] then ringbuf_get_next_chunk r = Some (None, 0)
    else \<exists>at n. ringbuf_get_next_chunk r = Some (Some at, n) \<and> 0 < unat n \<and>
      at + unat n \<le> length (rb_d r) \<and> take (unat n) (drop at (rb_d r)) = take (unat n) (rb_contents r)"
proof (cases "rb_contents r = []")
  case False
  obtain n where "ringbuf_get_next_chunk r = Some (Some (unat (rb_o r)), n)" "0 < unat n"
    "fetch (rb_d r) (unat (rb_o r)) (unat n) = Some (take (unat n) (rb_contents r))"
    using ringbuf_get_next_chunk_ok [OF assms False] by blast
  then show ?thesis using False by (auto simp: fetch_Some)
qed (simp add: ringbuf_get_next_chunk_empty [OF assms])

theorem ringbuf_chunk_witness:
  "rb_inv demo_ring \<and> rb_contents demo_ring \<noteq> [] \<and>
   (\<exists>at n. ringbuf_get_next_chunk demo_ring = Some (Some at, n) \<and> 0 < unat n \<and>
      take (unat n) (drop at (rb_d demo_ring)) = take (unat n) [40, 10])"
  using ringbuf_chunk [OF demo_ring_inv] demo_ring_inv by (auto simp: demo_ring_contents)

end
