(* ===== verification/Iqueue.thy ===== *)
theory Iqueue
  imports Kcpev_Prelude
begin

text \<open>
  The intrusive doubly linked queue of \<open>src/src/ikcp.h\<close> (the \<open>IQUEUE_*\<close> macros), on an
  explicit store: an address is a natural number, 0 is the null pointer, and a store maps
  every address to the \<open>next\<close> and \<open>prev\<close> fields of the node there. The comma expressions
  of the macros become sequences of field updates, each reading the store the previous one
  left.

  The relation \<open>iq_list h q ns\<close> says that the queue headed at \<open>q\<close> holds the nodes \<open>ns\<close> in
  order. The lemmas show that each macro implements the corresponding list operation and
  leaves disjoint queues alone; this is why the protocol engine can be modelled with its
  four queues as lists.
\<close>

section \<open>The model\<close>

record qstore =
  nxt :: "nat \<Rightarrow> nat"
  prv :: "nat \<Rightarrow> nat"

definition set_next :: "nat \<Rightarrow> nat \<Rightarrow> qstore \<Rightarrow> qstore" where
  "set_next p v h = h\<lparr>nxt := (nxt h)(p := v)\<rparr>"

definition set_prev :: "nat \<Rightarrow> nat \<Rightarrow> qstore \<Rightarrow> qstore" where
  "set_prev p v h = h\<lparr>prv := (prv h)(p := v)\<rparr>"

definition iqueue_init :: "nat \<Rightarrow> qstore \<Rightarrow> qstore" where
  "iqueue_init p h = set_prev p p (set_next p p h)"

definition iqueue_add :: "nat \<Rightarrow> nat \<Rightarrow> qstore \<Rightarrow> qstore" where
  "iqueue_add node head h =
     (let h1 = set_prev node head h;
          h2 = set_next node (nxt h1 head) h1;
          h3 = set_prev (nxt h2 head) node h2
      in set_next head node h3)"

definition iqueue_add_tail :: "nat \<Rightarrow> nat \<Rightarrow> qstore \<Rightarrow> qstore" where
  "iqueue_add_tail node head h =
     (let h1 = set_prev node (prv h head) h;
          h2 = set_next node head h1;
          h3 = set_next (prv h2 head) node h2
      in set_prev head node h3)"

definition iqueue_del :: "nat \<Rightarrow> qstore \<Rightarrow> qstore" where
  "iqueue_del entry h =
     (let h1 = set_prev (nxt h entry) (prv h entry) h;
          h2 = set_next (prv h1 entry) (nxt h1 entry) h1;
          h3 = set_next entry 0 h2
      in set_prev entry 0 h3)"

definition iqueue_del_init :: "nat \<Rightarrow> qstore \<Rightarrow> qstore" where
  "iqueue_del_init entry h = iqueue_init entry (iqueue_del entry h)"

definition iqueue_is_empty :: "nat \<Rightarrow> qstore \<Rightarrow> bool" where
  "iqueue_is_empty entry h \<longleftrightarrow> entry = nxt h entry"

definition iqueue_splice_raw :: "nat \<Rightarrow> nat \<Rightarrow> qstore \<Rightarrow> qstore" where
  "iqueue_splice_raw list head h =
     (let first = nxt h list; last = prv h list; at = nxt h head;
          h1 = set_prev first head h;
          h2 = set_next head first h1;
          h3 = set_next last at h2
      in set_prev at last h3)"

definition iqueue_splice :: "nat \<Rightarrow> nat \<Rightarrow> qstore \<Rightarrow> qstore" where
  "iqueue_splice list head h =
     (if \<not> iqueue_is_empty list h then iqueue_splice_raw list head h else h)"

definition iqueue_splice_init :: "nat \<Rightarrow> nat \<Rightarrow> qstore \<Rightarrow> qstore" where
  "iqueue_splice_init list head h = iqueue_init list (iqueue_splice list head h)"

text \<open>
  The loop of \<open>iqueue_foreach\<close>, collecting the nodes it visits; \<open>None\<close> when it has not come
  back to the head after the given number of steps.
\<close>

fun iqueue_foreach :: "nat \<Rightarrow> qstore \<Rightarrow> nat \<Rightarrow> nat \<Rightarrow> nat list option" where
  "iqueue_foreach fuel h head pos =
     (if pos = head then Some []
      else case fuel of 0 \<Rightarrow> None
           | Suc m \<Rightarrow> map_option ((#) pos) (iqueue_foreach m h head (nxt h pos)))"

declare iqueue_foreach.simps [simp del]

text \<open>
  The loop \<open>while (!iqueue_is_empty(q)) { e = q->next; iqueue_del(e); ... }\<close> with which
  \<open>ikcp_release\<close> empties a queue: the entries it removes, in order, and the final store.
\<close>

fun iqueue_drain :: "nat \<Rightarrow> nat \<Rightarrow> qstore \<Rightarrow> (nat list \<times> qstore) option" where
  "iqueue_drain fuel q h =
     (if iqueue_is_empty q h then Some ([], h)
      else case fuel of 0 \<Rightarrow> None
           | Suc m \<Rightarrow>
               (let e = nxt h q in
                map_option (\<lambda>(es, h'). (e # es, h')) (iqueue_drain m q (iqueue_del e h))))"

declare iqueue_drain.simps [simp del]

section \<open>The abstraction\<close>

text \<open>\<open>dpath h a ns b\<close>: from \<open>a\<close> through the nodes \<open>ns\<close> to \<open>b\<close>, linked in both directions.\<close>

fun dpath :: "qstore \<Rightarrow> nat \<Rightarrow> nat list \<Rightarrow> nat \<Rightarrow> bool" where
  "dpath h a [] b \<longleftrightarrow> nxt h a = b \<and> prv h b = a"
| "dpath h a (x # xs) b \<longleftrightarrow> nxt h a = x \<and> prv h x = a \<and> dpath h x xs b"

definition iq_list :: "qstore \<Rightarrow> nat \<Rightarrow> nat list \<Rightarrow> bool" where
  "iq_list h q ns \<longleftrightarrow> distinct (q # ns) \<and> 0 \<notin> set (q # ns) \<and> dpath h q ns q"

lemmas store_defs = set_next_def set_prev_def

lemma dpath_append:
  "dpath h a (xs @ x # ys) b \<longleftrightarrow> dpath h a xs x \<and> dpath h x ys b"
  by (induction xs arbitrary: a) auto

lemma dpath_ends: "dpath h a ns b \<Longrightarrow> nxt h a = hd (ns @ [b]) \<and> prv h b = last (a # ns)"
  by (induction ns arbitrary: a) auto

text \<open>A path depends only on the links it goes through.\<close>

lemma dpath_cong:
  assumes "\<And>x. x \<in> set (a # ns) \<Longrightarrow> nxt h' x = nxt h x"
    and "\<And>x. x \<in> set (ns @ [b]) \<Longrightarrow> prv h' x = prv h x"
  shows "dpath h' a ns b \<longleftrightarrow> dpath h a ns b"
  using assms by (induction ns arbitrary: a) auto

lemma iq_list_empty: "iq_list h q ns \<Longrightarrow> iqueue_is_empty q h \<longleftrightarrow> ns = []"
  by (cases ns) (auto simp: iq_list_def iqueue_is_empty_def)

lemma iq_list_first: "iq_list h q (x # ns) \<Longrightarrow> nxt h q = x"
  by (simp add: iq_list_def)

lemma iq_list_last: "iq_list h q (ns @ [x]) \<Longrightarrow> prv h q = x"
  by (auto simp: iq_list_def dest: dpath_ends)

lemma iq_list_init: "q \<noteq> 0 \<Longrightarrow> iq_list (iqueue_init q h) q []"
  by (simp add: iq_list_def iqueue_init_def store_defs)

section \<open>Insertion and removal\<close>

text \<open>\<open>iqueue_add(node, p)\<close> inserts after \<open>p\<close>, be it the head or a node of the queue.\<close>

lemma iqueue_add_path:
  assumes "dpath h p ys b" and "node \<notin> set (p # ys @ [b])" and "distinct (p # ys)" and "b \<notin> set ys"
  shows "dpath (iqueue_add node p h) p (node # ys) b"
proof (cases ys)
  case Nil
  then show ?thesis
    using assms by (auto simp: iqueue_add_def store_defs Let_def)
next
  case (Cons y zs)
  have "dpath (iqueue_add node p h) y zs b \<longleftrightarrow> dpath h y zs b"
    using assms Cons by (intro dpath_cong) (auto simp: iqueue_add_def store_defs Let_def)
  then show ?thesis
    using assms Cons by (auto simp: iqueue_add_def store_defs Let_def)
qed

lemma iqueue_add_head:
  assumes "iq_list h q ns" and "node \<notin> set (q # ns)" and "node \<noteq> 0"
  shows "iq_list (iqueue_add node q h) q (node # ns)"
  using assms iqueue_add_path [of h q ns q node] by (auto simp: iq_list_def)

lemma iqueue_add_after:
  assumes q: "iq_list h q (xs @ p # ys)" and n: "node \<notin> set (q # xs @ p # ys)" "node \<noteq> 0"
  shows "iq_list (iqueue_add node p h) q (xs @ p # node # ys)"
proof -
  have split: "dpath h q xs p" "dpath h p ys q"
    using q by (auto simp: iq_list_def dpath_append)
  have "nxt h p = hd (ys @ [q])" using dpath_ends [OF split(2)] by simp
  then have np: "nxt h p \<in> set (ys @ [q])" by (metis hd_in_set snoc_eq_iff_butlast)
  have "dpath (iqueue_add node p h) q xs p \<longleftrightarrow> dpath h q xs p"
    using q n np by (intro dpath_cong) (auto simp: iqueue_add_def store_defs Let_def iq_list_def)
  moreover have "dpath (iqueue_add node p h) p (node # ys) q"
    using q n by (intro iqueue_add_path [OF split(2)]) (auto simp: iq_list_def)
  ultimately have "dpath (iqueue_add node p h) q (xs @ p # node # ys) q"
    using split(1) by (simp only: dpath_append simp_thms)
  then show ?thesis
    using q n by (auto simp: iq_list_def)
qed

text \<open>\<open>iqueue_add_tail\<close> is the insertion after the last node.\<close>

lemma iqueue_add_tail_eq:
  assumes "iq_list h q ns" and "node \<notin> set (q # ns)"
  shows "iqueue_add_tail node q h = iqueue_add node (last (q # ns)) h"
proof -
  let ?l = "last (q # ns)"
  have "prv h q = ?l" using assms(1) by (auto simp: iq_list_def dest: dpath_ends)
  moreover have "nxt h ?l = q"
  proof (cases ns rule: rev_cases)
    case Nil
    then show ?thesis using assms(1) by (simp add: iq_list_def)
  next
    case (snoc zs z)
    then show ?thesis
      using assms(1) dpath_append [of h q zs z "[]" q] by (auto simp: iq_list_def)
  qed
  moreover have "node \<noteq> ?l" "node \<noteq> q" using assms(2) by (auto split: if_splits)
  ultimately show ?thesis
    by (simp add: iqueue_add_tail_def iqueue_add_def store_defs Let_def)
qed

lemma iqueue_add_tail_list:
  assumes "iq_list h q ns" and "node \<notin> set (q # ns)" and "node \<noteq> 0"
  shows "iq_list (iqueue_add_tail node q h) q (ns @ [node])"
proof (cases ns rule: rev_cases)
  case Nil
  then show ?thesis
    using iqueue_add_tail_eq [OF assms(1,2)] iqueue_add_head [OF assms] by simp
next
  case (snoc zs z)
  have "iq_list (iqueue_add node z h) q (zs @ z # node # [])"
    using assms snoc by (intro iqueue_add_after) auto
  then show ?thesis
    using iqueue_add_tail_eq [OF assms(1,2)] snoc by simp
qed

text \<open>
  A path cut at its first and at its last link: what remains is the inner path, which an
  update of the two end links does not touch.
\<close>

definition path_front :: "qstore \<Rightarrow> nat \<Rightarrow> nat list \<Rightarrow> bool" where
  "path_front h a xs \<longleftrightarrow> xs = [] \<or> dpath h a (butlast xs) (last xs)"

definition path_back :: "qstore \<Rightarrow> nat list \<Rightarrow> nat \<Rightarrow> bool" where
  "path_back h ys b \<longleftrightarrow> ys = [] \<or> dpath h (hd ys) (tl ys) b"

lemma dpath_front:
  "dpath h a xs e \<longleftrightarrow> path_front h a xs \<and> nxt h (last (a # xs)) = e \<and> prv h e = last (a # xs)"
proof (cases xs rule: rev_cases)
  case (snoc vs v)
  then show ?thesis using dpath_append [of h a vs v "[]" e] by (simp add: path_front_def)
qed (simp add: path_front_def)

lemma dpath_back:
  "dpath h e ys b \<longleftrightarrow> path_back h ys b \<and> nxt h e = hd (ys @ [b]) \<and> prv h (hd (ys @ [b])) = e"
  by (cases ys) (auto simp: path_back_def)

lemma dpath_join:
  "dpath h a (xs @ ys) b \<longleftrightarrow> path_front h a xs \<and> path_back h ys b \<and>
     nxt h (last (a # xs)) = hd (ys @ [b]) \<and> prv h (hd (ys @ [b])) = last (a # xs)"
proof (cases xs rule: rev_cases)
  case (snoc vs v)
  then show ?thesis
    using dpath_append [of h a vs v ys b] dpath_back [of h v ys b] by (simp add: path_front_def)
qed (use dpath_back [of h a ys b] in \<open>auto simp: path_front_def\<close>)

lemma path_front_cong:
  assumes "\<And>x. x \<in> set (butlast (a # xs)) \<Longrightarrow> nxt h' x = nxt h x"
    and "\<And>x. x \<in> set xs \<Longrightarrow> prv h' x = prv h x"
  shows "path_front h' a xs \<longleftrightarrow> path_front h a xs"
proof (cases xs rule: rev_cases)
  case (snoc vs v)
  then show ?thesis
    using assms dpath_cong [of a vs h' h v] by (simp add: path_front_def)
qed (simp add: path_front_def)

lemma path_back_cong:
  assumes "\<And>x. x \<in> set ys \<Longrightarrow> nxt h' x = nxt h x"
    and "\<And>x. x \<in> set (tl (ys @ [b])) \<Longrightarrow> prv h' x = prv h x"
  shows "path_back h' ys b \<longleftrightarrow> path_back h ys b"
proof (cases ys)
  case (Cons y zs)
  then show ?thesis
    using assms dpath_cong [of y zs h' h b] by (simp add: path_back_def)
qed (simp add: path_back_def)

lemma iqueue_del_list:
  assumes q: "iq_list h q (xs @ e # ys)"
  shows "iq_list (iqueue_del e h) q (xs @ ys)"
proof -
  let ?a = "last (q # xs)" and ?b = "hd (ys @ [q])" and ?h = "iqueue_del e h"
  have split: "dpath h q xs e" "dpath h e ys q" and dist: "distinct (q # xs @ e # ys)"
    using q by (auto simp: iq_list_def dpath_append)
  have pe: "prv h e = ?a" and ne: "nxt h e = ?b"
    using split dpath_front [of h q xs e] dpath_back [of h e ys q] by blast+
  have a: "?a \<in> set (q # xs)" and b: "?b \<in> set (ys @ [q])"
    using last_in_set [of "q # xs"] hd_in_set [of "ys @ [q]"] by blast+
  then have ae: "?a \<noteq> e" "?b \<noteq> e" using dist by fastforce+
  have nx: "nxt ?h x = (if x = e then 0 else if x = ?a then ?b else nxt h x)" for x
    using pe ne ae by (simp add: iqueue_del_def store_defs Let_def)
  have pv: "prv ?h x = (if x = e then 0 else if x = ?b then ?a else prv h x)" for x
    using pe ne ae by (simp add: iqueue_del_def store_defs Let_def)
  have "distinct (q # xs)" using dist by simp
  then have "?a \<notin> set (butlast (q # xs))"
    by (metis append_butlast_last_id distinct_append distinct_singleton disjoint_insert(1)
        list.distinct(1) list.set(2) not_distinct_conv_prefix)
  moreover have "?b \<notin> set (tl (ys @ [q]))" using dist by (cases ys) auto
  ultimately have
    "\<And>x. x \<in> set (butlast (q # xs)) \<Longrightarrow> nxt ?h x = nxt h x"
    "\<And>x. x \<in> set (tl (ys @ [q])) \<Longrightarrow> prv ?h x = prv h x"
    using dist by (auto simp: nx pv dest: in_set_butlastD list.set_sel(2) [rotated] split: if_splits)
  moreover have "\<And>x. x \<in> set xs \<Longrightarrow> prv ?h x = prv h x" "\<And>x. x \<in> set ys \<Longrightarrow> nxt ?h x = nxt h x"
    using dist a b by (auto simp: nx pv simp del: last.simps split: if_splits)
  ultimately have "path_front ?h q xs \<longleftrightarrow> path_front h q xs" "path_back ?h ys q \<longleftrightarrow> path_back h ys q"
    by (intro path_front_cong path_back_cong; blast)+
  then have "dpath ?h q (xs @ ys) q"
    using split dpath_front [of h q xs e] dpath_back [of h e ys q] nx pv ae
    unfolding dpath_join by simp
  then show ?thesis using q by (auto simp: iq_list_def)
qed

section \<open>Frame: disjoint queues are not touched\<close>

lemma iq_list_cong:
  assumes "\<And>x. x \<in> set (q # ns) \<Longrightarrow> nxt h' x = nxt h x \<and> prv h' x = prv h x"
  shows "iq_list h' q ns \<longleftrightarrow> iq_list h q ns"
  using assms dpath_cong [of q ns h' h q] by (auto simp: iq_list_def)

lemma iq_list_links:
  assumes "iq_list h q (xs @ e # ys)"
  shows "nxt h e \<in> set (q # xs @ e # ys)" "prv h e \<in> set (q # xs @ e # ys)"
proof -
  have "dpath h q xs e" "dpath h e ys q" using assms by (auto simp: iq_list_def dpath_append)
  then show "nxt h e \<in> set (q # xs @ e # ys)" "prv h e \<in> set (q # xs @ e # ys)"
    using last_in_set [of "q # xs"] hd_in_set [of "ys @ [q]"] by (auto dest!: dpath_ends)
qed

lemma iqueue_del_frame:
  assumes "iq_list h q (xs @ e # ys)" and "iq_list h q' ms"
    and "set (q # xs @ e # ys) \<inter> set (q' # ms) = {}"
  shows "iq_list (iqueue_del e h) q' ms"
proof -
  have off: "x \<noteq> nxt h e \<and> x \<noteq> prv h e \<and> x \<noteq> e" if "x \<in> set (q' # ms)" for x
  proof -
    have "e \<in> set (q # xs @ e # ys)" by simp
    then show ?thesis using iq_list_links [OF assms(1)] that assms(3) by (metis disjoint_iff)
  qed
  have "nxt h e = hd (ys @ [q])" "e \<notin> set (ys @ [q])"
    using assms(1) dpath_ends [of h e ys q] by (auto simp: iq_list_def dpath_append)
  then have e: "e \<noteq> nxt h e" by (metis hd_in_set snoc_eq_iff_butlast)
  have "iq_list (iqueue_del e h) q' ms \<longleftrightarrow> iq_list h q' ms"
    by (intro iq_list_cong) (use off e in \<open>auto simp: iqueue_del_def store_defs Let_def\<close>)
  then show ?thesis using assms(2) by simp
qed

lemma iqueue_add_tail_frame:
  assumes "iq_list h q ns" and "iq_list h q' ms"
    and "set (node # q # ns) \<inter> set (q' # ms) = {}"
  shows "iq_list (iqueue_add_tail node q h) q' ms"
proof -
  have "prv h q \<in> set (q # ns)"
    using assms(1) last_in_set [of "q # ns"] by (auto simp: iq_list_def dest!: dpath_ends)
  then have "iq_list (iqueue_add_tail node q h) q' ms \<longleftrightarrow> iq_list h q' ms"
    using assms(3) by (intro iq_list_cong) (auto simp: iqueue_add_tail_def store_defs Let_def)
  then show ?thesis using assms(2) by simp
qed

section \<open>Loops over a queue\<close>

lemma iqueue_foreach_path:
  "dpath h a ns q \<Longrightarrow> q \<notin> set ns \<Longrightarrow> length ns \<le> fuel \<Longrightarrow>
     iqueue_foreach fuel h q (nxt h a) = Some ns"
proof (induction ns arbitrary: a fuel)
  case Nil
  then show ?case by (simp add: iqueue_foreach.simps)
next
  case (Cons x xs)
  then obtain m where "fuel = Suc m" by (cases fuel) auto
  then show ?case using Cons by (subst iqueue_foreach.simps) auto
qed

lemma iqueue_foreach_list:
  "iq_list h q ns \<Longrightarrow> length ns \<le> fuel \<Longrightarrow> iqueue_foreach fuel h q (nxt h q) = Some ns"
  by (auto simp: iq_list_def intro: iqueue_foreach_path)

text \<open>Emptying a queue removes its nodes in order and leaves disjoint queues as they are.\<close>

lemma iqueue_drain_list:
  assumes "iq_list h q ns" and "length ns \<le> fuel"
  shows "\<exists>h'. iqueue_drain fuel q h = Some (ns, h') \<and> iq_list h' q [] \<and>
    (\<forall>q' ms. iq_list h q' ms \<longrightarrow> set (q # ns) \<inter> set (q' # ms) = {} \<longrightarrow> iq_list h' q' ms)"
  using assms
proof (induction ns arbitrary: h fuel)
  case Nil
  then show ?case by (subst iqueue_drain.simps) (auto simp: iq_list_empty)
next
  case (Cons x xs)
  let ?h1 = "iqueue_del x h"
  obtain m where m: "fuel = Suc m" "length xs \<le> m" using Cons.prems(2) by (cases fuel) auto
  have "iq_list ?h1 q ([] @ xs)"
    using Cons.prems(1) by (intro iqueue_del_list) simp
  then obtain h' where h': "iqueue_drain m q ?h1 = Some (xs, h')" "iq_list h' q []"
    "\<And>q' ms. iq_list ?h1 q' ms \<Longrightarrow> set (q # xs) \<inter> set (q' # ms) = {} \<Longrightarrow> iq_list h' q' ms"
    using Cons.IH [OF _ m(2), of ?h1] by auto
  have "\<not> iqueue_is_empty q h" "nxt h q = x"
    using Cons.prems(1) by (simp_all add: iq_list_empty iq_list_first)
  then have "iqueue_drain fuel q h = Some (x # xs, h')"
    using h'(1) m by (subst iqueue_drain.simps) simp
  moreover have "iq_list h' q' ms"
    if "iq_list h q' ms" "set (q # x # xs) \<inter> set (q' # ms) = {}" for q' ms
  proof -
    have "iq_list ?h1 q' ms"
      using Cons.prems(1) that by (intro iqueue_del_frame [of h q "[]" x xs]) auto
    then show ?thesis using h'(3) that(2) by auto
  qed
  ultimately show ?case using h'(2) by blast
qed

section \<open>Splicing\<close>

lemma iqueue_splice_list:
  assumes l: "iq_list h l xs" and q: "iq_list h q ys" and disj: "set (l # xs) \<inter> set (q # ys) = {}"
  shows "iq_list (iqueue_splice l q h) q (xs @ ys)"
proof (cases "xs = []")
  case True
  then show ?thesis using l q by (simp add: iqueue_splice_def iq_list_empty)
next
  case False
  let ?h = "iqueue_splice_raw l q h"
  have e: "\<not> iqueue_is_empty l h" using l False by (simp add: iq_list_empty)
  have lk: "nxt h l = hd xs" "prv h l = last xs" "nxt h q = hd (ys @ [q])"
    using l q False by (auto simp: iq_list_def dest!: dpath_ends)
  have mem: "hd xs \<in> set xs" "last xs \<in> set xs" "hd (ys @ [q]) \<in> set (q # ys)"
    using False hd_in_set [of "ys @ [q]"] by auto
  then have ne: "hd xs \<noteq> hd (ys @ [q])" "last xs \<noteq> q" using disj by auto
  have nx: "nxt ?h x = (if x = last xs then hd (ys @ [q]) else if x = q then hd xs else nxt h x)" for x
    using lk by (simp add: iqueue_splice_raw_def store_defs Let_def)
  have pv: "prv ?h x = (if x = hd (ys @ [q]) then last xs else if x = hd xs then q else prv h x)" for x
    using lk by (simp add: iqueue_splice_raw_def store_defs Let_def)
  have inner: "path_front h (hd xs) (tl xs)" "path_back h ys q"
    using l q False dpath_back [of h l xs l] dpath_back [of h q ys q] dpath_front [of h "hd xs" "tl xs" l]
    by (auto simp: iq_list_def path_back_def)
  have dist: "distinct xs" "distinct (q # ys)" using l q by (auto simp: iq_list_def)
  have cons: "xs = hd xs # tl xs" using False by simp
  have "last xs \<notin> set (butlast xs)"
    using dist(1) False by (metis append_butlast_last_id disjoint_insert(1) distinct_append list.set(2))
  moreover have "hd xs \<notin> set (tl xs)" using dist(1) cons by (metis distinct.simps(2))
  ultimately have "path_front ?h (hd xs) (tl xs)"
    using disj mem inner(1) cons
    by (subst path_front_cong [where h = h]) (auto simp: nx pv dest: in_set_butlastD list.set_sel(2) [rotated])
  moreover have "hd (ys @ [q]) \<notin> set (tl (ys @ [q]))" "hd xs \<notin> set (tl (ys @ [q]))"
    using dist(2) disj mem(1) by (cases ys; auto)+
  then have "path_back ?h ys q"
    using disj mem inner(2) dist(2) by (subst path_back_cong [where h = h]) (auto simp: nx pv)
  moreover have last: "last (hd xs # tl xs) = last xs" using cons by simp
  moreover have "nxt ?h (last xs) = hd (ys @ [q])" "prv ?h (hd (ys @ [q])) = last xs"
    by (simp_all add: nx pv)
  ultimately have "dpath ?h (hd xs) (tl xs @ ys) q"
    unfolding dpath_join by (simp only: last simp_thms)
  moreover have "nxt ?h q = hd xs" "prv ?h (hd xs) = q"
    using ne by (auto simp: nx pv)
  ultimately have "dpath ?h q (hd xs # tl xs @ ys) q" by simp
  then have "dpath ?h q (xs @ ys) q" using cons by (metis append_Cons)
  then show ?thesis
    using l q disj e by (auto simp: iq_list_def iqueue_splice_def)
qed

lemma iqueue_splice_init_list:
  assumes "iq_list h l xs" and "iq_list h q ys" and "set (l # xs) \<inter> set (q # ys) = {}"
  shows "iq_list (iqueue_splice_init l q h) q (xs @ ys) \<and> iq_list (iqueue_splice_init l q h) l []"
proof -
  have s: "iq_list (iqueue_splice l q h) q (xs @ ys)" by (rule iqueue_splice_list [OF assms])
  have l: "l \<notin> set (q # xs @ ys)" "l \<noteq> 0" using assms by (auto simp: iq_list_def)
  have "iq_list (iqueue_splice_init l q h) q (xs @ ys) \<longleftrightarrow> iq_list (iqueue_splice l q h) q (xs @ ys)"
    using l by (intro iq_list_cong) (auto simp: iqueue_splice_init_def iqueue_init_def store_defs)
  then show ?thesis
    using s l iq_list_init by (simp add: iqueue_splice_init_def)
qed

section \<open>The queue interface\<close>

text \<open>
  What the protocol engine uses of its queues: emptiness, the first entry, removal of an
  entry, insertion after an entry and at the tail, for several queues on one store.
\<close>

locale node_queues =
  fixes rep :: "'h \<Rightarrow> nat \<Rightarrow> nat list \<Rightarrow> bool"
    and is_empty :: "nat \<Rightarrow> 'h \<Rightarrow> bool"
    and first :: "'h \<Rightarrow> nat \<Rightarrow> nat"
    and del :: "nat \<Rightarrow> 'h \<Rightarrow> 'h"
    and add_tail :: "nat \<Rightarrow> nat \<Rightarrow> 'h \<Rightarrow> 'h"
  assumes rep_nodes: "rep h q ns \<Longrightarrow> distinct (q # ns) \<and> 0 \<notin> set (q # ns)"
    and rep_empty: "rep h q ns \<Longrightarrow> is_empty q h \<longleftrightarrow> ns = []"
    and rep_first: "rep h q (e # ns) \<Longrightarrow> first h q = e"
    and rep_del: "rep h q (xs @ e # ys) \<Longrightarrow> rep (del e h) q (xs @ ys)"
    and rep_add_tail: "rep h q ns \<Longrightarrow> n \<notin> set (q # ns) \<Longrightarrow> n \<noteq> 0 \<Longrightarrow> rep (add_tail n q h) q (ns @ [n])"
    and del_frame: "rep h q (xs @ e # ys) \<Longrightarrow> rep h q' ms \<Longrightarrow>
      set (q # xs @ e # ys) \<inter> set (q' # ms) = {} \<Longrightarrow> rep (del e h) q' ms"
    and add_tail_frame: "rep h q ns \<Longrightarrow> rep h q' ms \<Longrightarrow>
      set (n # q # ns) \<inter> set (q' # ms) = {} \<Longrightarrow> rep (add_tail n q h) q' ms"
begin

text \<open>
  Moving the first entry of one queue to the tail of another: the step of the loops
  \<open>rcv_buf -> rcv_queue\<close> and \<open>snd_queue -> snd_buf\<close>.
\<close>

lemma move_first:
  assumes "rep h q (e # ns)" and "rep h q' ms" and "set (q # e # ns) \<inter> set (q' # ms) = {}"
  shows "first h q = e \<and> rep (add_tail e q' (del e h)) q ns \<and>
    rep (add_tail e q' (del e h)) q' (ms @ [e])"
proof -
  have q: "rep (del e h) q ns" using rep_del [of h q "[]" e ns] assms(1) by simp
  have q': "rep (del e h) q' ms" using del_frame [of h q "[]" e ns q' ms] assms by simp
  have "e \<noteq> 0" "e \<notin> set (q # ns)" using rep_nodes [OF assms(1)] by auto
  then show ?thesis
    using rep_first [OF assms(1)] rep_add_tail [OF q', of e] add_tail_frame [OF q' q, of e] assms(3)
    by auto
qed

lemma move_all:
  assumes "rep h q ns" and "rep h q' ms" and "set (q # ns) \<inter> set (q' # ms) = {}"
  shows "\<exists>h'. rep h' q [] \<and> rep h' q' (ms @ ns)"
  using assms
proof (induction ns arbitrary: h ms)
  case Nil
  then show ?case by auto
next
  case (Cons e ns)
  note m = move_first [OF Cons.prems]
  moreover have "set (q # ns) \<inter> set (q' # ms @ [e]) = {}"
    using Cons.prems(3) rep_nodes [OF Cons.prems(1)] by auto
  ultimately show ?case
    using Cons.IH [of "add_tail e q' (del e h)" "ms @ [e]"] by auto
qed

end

interpretation iq: node_queues iq_list iqueue_is_empty nxt iqueue_del iqueue_add_tail
proof (unfold_locales, goal_cases)
  case (1 h q ns)
  then show ?case by (simp add: iq_list_def)
next
  case (2 h q ns)
  then show ?case by (rule iq_list_empty)
next
  case (3 h q e ns)
  then show ?case by (rule iq_list_first)
next
  case (4 h q xs e ys)
  then show ?case by (rule iqueue_del_list)
next
  case (5 h q ns n)
  then show ?case by (rule iqueue_add_tail_list)
next
  case (6 h q xs e ys q' ms)
  then show ?case by (rule iqueue_del_frame)
next
  case (7 h q ns q' ms n)
  then show ?case by (rule iqueue_add_tail_frame)
qed

section \<open>Properties\<close>

text \<open>
  C28: \<open>iqueue_del\<close> of the first entry followed by \<open>iqueue_add_tail\<close> moves it from the front
  of one queue to the end of another, as in the loops that move segments between the queues
  of the protocol engine; both queues stay well-formed.
\<close>

theorem iqueue_move_entry:
  assumes "iq_list h q (e # ns)" and "iq_list h q' ms" and "set (q # e # ns) \<inter> set (q' # ms) = {}"
  shows "nxt h q = e \<and> iq_list (iqueue_add_tail e q' (iqueue_del e h)) q ns \<and>
    iq_list (iqueue_add_tail e q' (iqueue_del e h)) q' (ms @ [e])"
  using assms by (rule iq.move_first)

text \<open>Two queues at the addresses 8 and 9: the nodes 3 and 4, and the node 5.\<close>

definition demo_store :: qstore where
  "demo_store = \<lparr>nxt = (\<lambda>_. 0)(8 := 3, 3 := 4, 4 := 8, 9 := 5, 5 := 9),
     prv = (\<lambda>_. 0)(8 := 4, 3 := 8, 4 := 3, 9 := 5, 5 := 9)\<rparr>"

lemma demo_queues: "iq_list demo_store 8 [3, 4]" "iq_list demo_store 9 [5]"
  by (simp_all add: iq_list_def demo_store_def)

theorem iqueue_move_entry_witness:
  "iq_list demo_store 8 [3, 4] \<and> iq_list demo_store 9 [5] \<and>
   iq_list (iqueue_add_tail 3 9 (iqueue_del 3 demo_store)) 8 [4] \<and>
   iq_list (iqueue_add_tail 3 9 (iqueue_del 3 demo_store)) 9 [5, 3]"
  using iqueue_move_entry [OF demo_queues] by (simp add: demo_queues)

text \<open>
  Insertion after an arbitrary entry, removal of an arbitrary entry and splicing are the
  list operations, for every queue that is well-formed before.
\<close>

theorem iqueue_edit:
  assumes "iq_list h q (xs @ e # ys)" and "n \<notin> set (q # xs @ e # ys)" and "n \<noteq> 0"
    and "iq_list h l zs" and "set (l # zs) \<inter> set (q # xs @ e # ys) = {}"
  shows "iq_list (iqueue_add n e h) q (xs @ e # n # ys) \<and> iq_list (iqueue_del e h) q (xs @ ys) \<and>
    iq_list (iqueue_splice_init l q h) q (zs @ xs @ e # ys) \<and> iq_list (iqueue_splice_init l q h) l []"
  using iqueue_add_after [OF assms(1-3)] iqueue_del_list [OF assms(1)]
    iqueue_splice_init_list [OF assms(4,1,5)] by simp

theorem iqueue_edit_witness:
  "iq_list (iqueue_add 7 3 demo_store) 8 [3, 7, 4] \<and> iq_list (iqueue_del 3 demo_store) 8 [4] \<and>
   iq_list (iqueue_splice_init 9 8 demo_store) 8 [5, 3, 4]"
  using iqueue_edit [of demo_store 8 "[]" 3 "[4]" 7 9 "[5]"] demo_queues by simp

text \<open>
  C35: the loop over a queue visits its entries in order and ends, and the loop that empties a
  queue removes every entry exactly once; as many steps as there are entries are enough.
\<close>

theorem iqueue_loops:
  assumes "iq_list h q ns" and "length ns \<le> fuel"
  shows "iqueue_foreach fuel h q (nxt h q) = Some ns \<and>
    (\<exists>h'. iqueue_drain fuel q h = Some (ns, h') \<and> iq_list h' q [])"
  using iqueue_foreach_list [OF assms] iqueue_drain_list [OF assms] by blast

theorem iqueue_loops_witness:
  "iqueue_foreach 2 demo_store 8 (nxt demo_store 8) = Some [3, 4] \<and>
   (\<exists>h'. iqueue_drain 2 8 demo_store = Some ([3, 4], h') \<and> iq_list h' 8 [])"
  using iqueue_loops [OF demo_queues(1), of 2] by simp

end
