(* ===== verification/Ikcp_Base.thy ===== *)
theory Ikcp_Base
  imports Kcpev_Prelude Iqueue
begin

text \<open>
  The data of the KCP protocol engine (\<open>src/src/ikcp.h\<close>, \<open>src/src/ikcp.c\<close>): the
  constants, the integer helpers, the little-endian codec, the segment \<open>IKCPSEG\<close> and the
  control block \<open>IKCPCB\<close>, with the functions that create, configure and release a control
  block.

  The lemmas show that the codec of a little-endian host and the portable one write the same
  bytes, that decoding inverts encoding, that \<open>_itimediff\<close> orders values in a window of
  less than \<open>2^31\<close>, and what the configuration functions set.
\<close>

section \<open>Constants\<close>

abbreviation (input) IKCP_RTO_NDL :: u32 where "IKCP_RTO_NDL \<equiv> 30"
abbreviation (input) IKCP_RTO_MIN :: u32 where "IKCP_RTO_MIN \<equiv> 100"
abbreviation (input) IKCP_RTO_DEF :: u32 where "IKCP_RTO_DEF \<equiv> 200"
abbreviation (input) IKCP_RTO_MAX :: u32 where "IKCP_RTO_MAX \<equiv> 60000"
abbreviation (input) IKCP_CMD_PUSH :: u32 where "IKCP_CMD_PUSH \<equiv> 81"
abbreviation (input) IKCP_CMD_ACK :: u32 where "IKCP_CMD_ACK \<equiv> 82"
abbreviation (input) IKCP_CMD_WASK :: u32 where "IKCP_CMD_WASK \<equiv> 83"
abbreviation (input) IKCP_CMD_WINS :: u32 where "IKCP_CMD_WINS \<equiv> 84"
abbreviation (input) IKCP_ASK_SEND :: u32 where "IKCP_ASK_SEND \<equiv> 1"
abbreviation (input) IKCP_ASK_TELL :: u32 where "IKCP_ASK_TELL \<equiv> 2"
abbreviation (input) IKCP_WND_SND :: u32 where "IKCP_WND_SND \<equiv> 32"
abbreviation (input) IKCP_WND_RCV :: u32 where "IKCP_WND_RCV \<equiv> 32"
abbreviation (input) IKCP_MTU_DEF :: u32 where "IKCP_MTU_DEF \<equiv> 1400"
abbreviation (input) IKCP_INTERVAL :: u32 where "IKCP_INTERVAL \<equiv> 100"
abbreviation (input) IKCP_OVERHEAD :: u32 where "IKCP_OVERHEAD \<equiv> 24"
abbreviation (input) IKCP_DEADLINK :: u32 where "IKCP_DEADLINK \<equiv> 20"
abbreviation (input) IKCP_THRESH_INIT :: u32 where "IKCP_THRESH_INIT \<equiv> 2"
abbreviation (input) IKCP_THRESH_MIN :: u32 where "IKCP_THRESH_MIN \<equiv> 2"
abbreviation (input) IKCP_PROBE_INIT :: u32 where "IKCP_PROBE_INIT \<equiv> 7000"
abbreviation (input) IKCP_PROBE_LIMIT :: u32 where "IKCP_PROBE_LIMIT \<equiv> 120000"

section \<open>Integer helpers\<close>

definition imin :: "u32 \<Rightarrow> u32 \<Rightarrow> u32" where
  "imin a b = (if a \<le> b then a else b)"

definition imax :: "u32 \<Rightarrow> u32 \<Rightarrow> u32" where
  "imax a b = (if a \<ge> b then a else b)"

definition ibound :: "u32 \<Rightarrow> u32 \<Rightarrow> u32 \<Rightarrow> u32" where
  "ibound lower middle upper = imin (imax lower middle) upper"

definition itimediff :: "u32 \<Rightarrow> u32 \<Rightarrow> int" where
  "itimediff later earlier = sint (later - earlier)"

section \<open>Encoding\<close>

text \<open>
  The pointer argument of an encoder is the list of bytes written so far, the result the
  longer list. On a little-endian host a store through a cast pointer writes the bytes of
  the word from the least significant one.
\<close>

definition le_store16 :: "u16 \<Rightarrow> byte list" where
  "le_store16 w = map (\<lambda>i. ucast (drop_bit (8 * i) w)) [0..<2]"

definition le_store32 :: "u32 \<Rightarrow> byte list" where
  "le_store32 l = map (\<lambda>i. ucast (drop_bit (8 * i) l)) [0..<4]"

definition ikcp_encode8u :: "byte list \<Rightarrow> u8 \<Rightarrow> byte list" where
  "ikcp_encode8u p c = p @ [c]"

definition ikcp_encode16u :: "byte list \<Rightarrow> u16 \<Rightarrow> byte list" where
  "ikcp_encode16u p w = p @ le_store16 w"

definition ikcp_encode32u :: "byte list \<Rightarrow> u32 \<Rightarrow> byte list" where
  "ikcp_encode32u p l = p @ le_store32 l"

text \<open>The branch of the two functions for big-endian hosts.\<close>

definition ikcp_encode16u_be :: "byte list \<Rightarrow> u16 \<Rightarrow> byte list" where
  "ikcp_encode16u_be p w = p @ [ucast (w AND 255), ucast (drop_bit 8 w)]"

definition ikcp_encode32u_be :: "byte list \<Rightarrow> u32 \<Rightarrow> byte list" where
  "ikcp_encode32u_be p l =
     p @ [ucast (drop_bit 0 l AND 0xff), ucast (drop_bit 8 l AND 0xff),
          ucast (drop_bit 16 l AND 0xff), ucast (drop_bit 24 l AND 0xff)]"

text \<open>
  A decoder takes the bytes from its pointer to the end of the data and returns the value
  and the remaining bytes; reading past the end is undefined.
\<close>

fun le_load :: "byte list \<Rightarrow> 'a::len word" where
  "le_load [] = 0"
| "le_load (b # bs) = ucast b OR push_bit 8 (le_load bs)"

fun ikcp_decode8u :: "byte list \<Rightarrow> (u8 \<times> byte list) option" where
  "ikcp_decode8u (c # p) = Some (c, p)"
| "ikcp_decode8u [] = None"

definition ikcp_decode16u :: "byte list \<Rightarrow> (u16 \<times> byte list) option" where
  "ikcp_decode16u p = do { b \<leftarrow> fetch p 0 2; Some (le_load b, drop 2 p) }"

definition ikcp_decode32u :: "byte list \<Rightarrow> (u32 \<times> byte list) option" where
  "ikcp_decode32u p = do { b \<leftarrow> fetch p 0 4; Some (le_load b, drop 4 p) }"

text \<open>The branch of the two functions for big-endian hosts.\<close>

definition ikcp_decode16u_be :: "byte list \<Rightarrow> (u16 \<times> byte list) option" where
  "ikcp_decode16u_be p =
     (case p of p0 # p1 # r \<Rightarrow>
        (let w = ucast p1; w = ucast p0 + push_bit 8 w in Some (w, r))
      | _ \<Rightarrow> None)"

definition ikcp_decode32u_be :: "byte list \<Rightarrow> (u32 \<times> byte list) option" where
  "ikcp_decode32u_be p =
     (case p of p0 # p1 # p2 # p3 # r \<Rightarrow>
        (let l = ucast p3; l = ucast p2 + push_bit 8 l; l = ucast p1 + push_bit 8 l;
             l = ucast p0 + push_bit 8 l in Some (l, r))
      | _ \<Rightarrow> None)"

section \<open>Segments and the control block\<close>

record IKCPSEG =
  sg_conv :: u32
  sg_cmd :: u32
  sg_frg :: u32
  sg_wnd :: u32
  sg_ts :: u32
  sg_sn :: u32
  sg_una :: u32
  sg_len :: u32
  sg_resendts :: u32
  sg_rto :: u32
  sg_fastack :: u32
  sg_xmit :: u32
  sg_data :: "byte list"

text \<open>
  The control block. The queues are lists of segments in queue order; \<open>acklist\<close> is the
  array behind the pointer, \<open>None\<close> for the null pointer; of \<open>buffer\<close> only the size of the
  block matters between calls; \<open>output_cb\<close> and \<open>writelog\<close> say whether the callback is set.
\<close>

record IKCPCB =
  conv :: u32
  mtu :: u32
  mss :: u32
  state :: u32
  snd_una :: u32
  snd_nxt :: u32
  rcv_nxt :: u32
  ts_recent :: u32
  ts_lastack :: u32
  ssthresh :: u32
  rx_rttval :: int
  rx_srtt :: int
  rx_rto :: int
  rx_minrto :: int
  snd_wnd :: u32
  rcv_wnd :: u32
  rmt_wnd :: u32
  cwnd :: u32
  probe :: u32
  current :: u32
  interval :: u32
  ts_flush :: u32
  xmit :: u32
  nrcv_buf :: u32
  nsnd_buf :: u32
  nrcv_que :: u32
  nsnd_que :: u32
  nodelay :: u32
  updated :: u32
  ts_probe :: u32
  probe_wait :: u32
  dead_link :: u32
  incr :: u32
  snd_queue :: "IKCPSEG list"
  rcv_queue :: "IKCPSEG list"
  snd_buf :: "IKCPSEG list"
  rcv_buf :: "IKCPSEG list"
  acklist :: "u32 list option"
  ackcount :: u32
  ackblock :: u32
  user :: nat
  buffer :: "nat option"
  fastresend :: int
  nocwnd :: int
  logmask :: int
  output_cb :: bool
  writelog :: bool

text \<open>\<open>ikcp_encode_seg\<close> writes the 24 byte header of a segment; the payload follows separately.\<close>

definition ikcp_encode_seg :: "byte list \<Rightarrow> IKCPSEG \<Rightarrow> byte list" where
  "ikcp_encode_seg ptr seg =
     (let ptr = ikcp_encode32u ptr (sg_conv seg);
          ptr = ikcp_encode8u ptr (ucast (sg_cmd seg));
          ptr = ikcp_encode8u ptr (ucast (sg_frg seg));
          ptr = ikcp_encode16u ptr (ucast (sg_wnd seg));
          ptr = ikcp_encode32u ptr (sg_ts seg);
          ptr = ikcp_encode32u ptr (sg_sn seg);
          ptr = ikcp_encode32u ptr (sg_una seg)
      in ikcp_encode32u ptr (sg_len seg))"

text \<open>The header fields as \<open>ikcp_input\<close> decodes them into its local variables.\<close>

record seg_header =
  h_conv :: u32
  h_cmd :: u8
  h_frg :: u8
  h_wnd :: u16
  h_ts :: u32
  h_sn :: u32
  h_una :: u32
  h_len :: u32

definition ikcp_decode_header :: "byte list \<Rightarrow> (seg_header \<times> byte list) option" where
  "ikcp_decode_header data =
     do {
       (cnv, data) \<leftarrow> ikcp_decode32u data;
       (cmd, data) \<leftarrow> ikcp_decode8u data;
       (frg, data) \<leftarrow> ikcp_decode8u data;
       (wnd, data) \<leftarrow> ikcp_decode16u data;
       (ts, data) \<leftarrow> ikcp_decode32u data;
       (sn, data) \<leftarrow> ikcp_decode32u data;
       (una, data) \<leftarrow> ikcp_decode32u data;
       (len, data) \<leftarrow> ikcp_decode32u data;
       Some (\<lparr>h_conv = cnv, h_cmd = cmd, h_frg = frg, h_wnd = wnd, h_ts = ts, h_sn = sn,
              h_una = una, h_len = len\<rparr>, data)
     }"

section \<open>Creation and configuration\<close>

text \<open>
  The two flags say whether the first and the second \<open>malloc\<close> succeed; \<open>None\<close> is the null
  pointer the function returns when one of them fails.
\<close>

definition ikcp_create :: "bool \<Rightarrow> bool \<Rightarrow> u32 \<Rightarrow> nat \<Rightarrow> IKCPCB option" where
  "ikcp_create ok_cb ok_buffer cnv usr =
     (if \<not> ok_cb then None
      else if \<not> ok_buffer then None
      else Some
        \<lparr>conv = cnv, mtu = IKCP_MTU_DEF, mss = IKCP_MTU_DEF - IKCP_OVERHEAD, state = 0,
         snd_una = 0, snd_nxt = 0, rcv_nxt = 0, ts_recent = 0, ts_lastack = 0,
         ssthresh = IKCP_THRESH_INIT, rx_rttval = 0, rx_srtt = 0,
         rx_rto = sint IKCP_RTO_DEF, rx_minrto = sint IKCP_RTO_MIN,
         snd_wnd = IKCP_WND_SND, rcv_wnd = IKCP_WND_RCV, rmt_wnd = IKCP_WND_RCV,
         cwnd = 0, probe = 0, current = 0, interval = IKCP_INTERVAL, ts_flush = IKCP_INTERVAL,
         xmit = 0, nrcv_buf = 0, nsnd_buf = 0, nrcv_que = 0, nsnd_que = 0,
         nodelay = 0, updated = 0, ts_probe = 0, probe_wait = 0,
         dead_link = IKCP_DEADLINK, incr = 0,
         snd_queue = [], rcv_queue = [], snd_buf = [], rcv_buf = [],
         acklist = None, ackcount = 0, ackblock = 0, user = usr,
         buffer = Some (unat ((IKCP_MTU_DEF + IKCP_OVERHEAD) * 3)),
         fastresend = 0, nocwnd = 0, logmask = 0, output_cb = False, writelog = False\<rparr>)"

text \<open>\<open>ikcp_setmtu\<close>; the flag says whether \<open>malloc\<close> succeeds.\<close>

definition ikcp_setmtu :: "bool \<Rightarrow> IKCPCB \<Rightarrow> int \<Rightarrow> int \<times> IKCPCB" where
  "ikcp_setmtu ok k m =
     (if m < 50 \<or> m < sint IKCP_OVERHEAD then (-1, k)
      else if \<not> ok then (-2, k)
      else
        (let k1 = k\<lparr>mtu := word_of_int m\<rparr>;
             k2 = k1\<lparr>mss := mtu k1 - IKCP_OVERHEAD\<rparr>
         in (0, k2\<lparr>buffer := Some (unat ((word_of_int m + IKCP_OVERHEAD) * 3))\<rparr>)))"

definition ikcp_interval :: "IKCPCB \<Rightarrow> int \<Rightarrow> int \<times> IKCPCB" where
  "ikcp_interval k i =
     (let i = (if i > 5000 then 5000 else if i < 10 then 10 else i)
      in (0, k\<lparr>interval := word_of_int i\<rparr>))"

definition ikcp_nodelay :: "IKCPCB \<Rightarrow> int \<Rightarrow> int \<Rightarrow> int \<Rightarrow> int \<Rightarrow> int \<times> IKCPCB" where
  "ikcp_nodelay k nodel i resend nc =
     (let k1 = (if nodel \<ge> 0 then
                  k\<lparr>nodelay := word_of_int nodel,
                    rx_minrto := (if nodel \<noteq> 0 then sint IKCP_RTO_NDL else sint IKCP_RTO_MIN)\<rparr>
                else k);
          k2 = (if i \<ge> 0 then
                  k1\<lparr>interval := word_of_int (if i > 5000 then 5000 else if i < 10 then 10 else i)\<rparr>
                else k1);
          k3 = (if resend \<ge> 0 then k2\<lparr>fastresend := resend\<rparr> else k2);
          k4 = (if nc \<ge> 0 then k3\<lparr>nocwnd := nc\<rparr> else k3)
      in (0, k4))"

definition ikcp_wndsize :: "IKCPCB \<Rightarrow> int \<Rightarrow> int \<Rightarrow> int \<times> IKCPCB" where
  "ikcp_wndsize k sndwnd rcvwnd =
     (let k1 = (if sndwnd > 0 then k\<lparr>snd_wnd := word_of_int sndwnd\<rparr> else k);
          k2 = (if rcvwnd > 0 then k1\<lparr>rcv_wnd := word_of_int rcvwnd\<rparr> else k1)
      in (0, k2))"

definition ikcp_waitsnd :: "IKCPCB \<Rightarrow> int" where
  "ikcp_waitsnd k = sint (nsnd_buf k + nsnd_que k)"

definition ikcp_canlog :: "IKCPCB \<Rightarrow> int \<Rightarrow> bool" where
  "ikcp_canlog k m = (if m AND logmask k = 0 \<or> \<not> writelog k then False else True)"

text \<open>
  \<open>ikcp_log\<close> for the text \<open>msg\<close> that \<open>vsprintf\<close> makes: what the callback gets, if anything; the
  outer \<open>None\<close> is a text that overruns the 1024 bytes of the local array.
\<close>

abbreviation (input) IKCP_LOG_IN_DATA :: int where "IKCP_LOG_IN_DATA \<equiv> 16"
abbreviation (input) IKCP_LOG_IN_ACK :: int where "IKCP_LOG_IN_ACK \<equiv> 32"

definition ikcp_log :: "IKCPCB \<Rightarrow> int \<Rightarrow> string \<Rightarrow> string option option" where
  "ikcp_log k m msg =
     (if m AND logmask k = 0 \<or> \<not> writelog k then Some None
      else if length msg + 1 \<le> 1024 then Some (Some msg)
      else None)"

text \<open>The line \<open>ikcp_input\<close> logs for an acknowledgement.\<close>

definition input_ack_log :: "IKCPCB \<Rightarrow> string \<Rightarrow> string option option" where
  "input_ack_log k msg = (if ikcp_canlog k IKCP_LOG_IN_ACK then ikcp_log k IKCP_LOG_IN_DATA msg else Some None)"

lemma ikcp_log_canlog: "length msg < 1024 \<Longrightarrow> ikcp_log k m msg = Some (if ikcp_canlog k m then Some msg else None)"
  by (simp add: ikcp_log_def ikcp_canlog_def)

text \<open>It checks one mask and logs with another, so that alone the mask for acknowledgements logs nothing.\<close>

lemma input_ack_log_dropped:
  "writelog k \<Longrightarrow> logmask k = IKCP_LOG_IN_ACK \<Longrightarrow> ikcp_canlog k IKCP_LOG_IN_ACK \<and> input_ack_log k msg = Some None"
  by (simp add: input_ack_log_def ikcp_log_def ikcp_canlog_def)

definition ikcp_wnd_unused :: "IKCPCB \<Rightarrow> u32" where
  "ikcp_wnd_unused k = (if nrcv_que k < rcv_wnd k then rcv_wnd k - nrcv_que k else 0)"

section \<open>Release\<close>

text \<open>
  \<open>ikcp_release\<close> works on the addresses of the control block: the four queue heads inside
  it, and the two blocks it points to. The result is the sequence of addresses given to
  \<open>ikcp_free\<close>; \<open>fuel\<close> bounds each of the four loops, \<open>None\<close> is a loop that has not ended by
  then or a failed \<open>assert\<close>.
\<close>

record kcp_blocks =
  kb_self :: nat
  kb_snd_buf :: nat
  kb_rcv_buf :: nat
  kb_snd_queue :: nat
  kb_rcv_queue :: nat
  kb_buffer :: nat
  kb_acklist :: nat

definition ikcp_release :: "nat \<Rightarrow> kcp_blocks \<Rightarrow> qstore \<Rightarrow> nat list option" where
  "ikcp_release fuel b h =
     do {
       c_assert (kb_self b \<noteq> 0);
       (s1, h1) \<leftarrow> iqueue_drain fuel (kb_snd_buf b) h;
       (s2, h2) \<leftarrow> iqueue_drain fuel (kb_rcv_buf b) h1;
       (s3, h3) \<leftarrow> iqueue_drain fuel (kb_snd_queue b) h2;
       (s4, h4) \<leftarrow> iqueue_drain fuel (kb_rcv_queue b) h3;
       Some (s1 @ s2 @ s3 @ s4 @
             (if kb_buffer b \<noteq> 0 then [kb_buffer b] else []) @
             (if kb_acklist b \<noteq> 0 then [kb_acklist b] else []) @ [kb_self b])
     }"

section \<open>Lemmas: integer helpers\<close>

lemma imin_unat: "unat (imin a b) = min (unat a) (unat b)"
  by (simp add: imin_def word_le_nat_alt)

lemma imax_unat: "unat (imax a b) = max (unat a) (unat b)"
  by (simp add: imax_def word_le_nat_alt)

lemma ibound_unat: "unat (ibound lo m hi) = min (max (unat lo) (unat m)) (unat hi)"
  by (simp add: ibound_def imin_unat imax_unat)

lemma itimediff_nonneg [seq_simps]: "0 \<le> itimediff a b \<longleftrightarrow> unat (a - b) < 2 ^ 31"
  by (simp add: itimediff_def seq_simps)

lemma itimediff_neg [seq_simps]: "itimediff a b < 0 \<longleftrightarrow> 2 ^ 31 \<le> unat (a - b)"
  by (simp add: itimediff_def seq_simps)

lemma itimediff_pos [seq_simps]: "0 < itimediff a b \<longleftrightarrow> a \<noteq> b \<and> unat (a - b) < 2 ^ 31"
  by (simp add: itimediff_def seq_simps)

text \<open>
  Within half the number space, the signed difference of two sequence numbers is the
  difference of their distances from a common base, across the wrap-around at \<open>2^32\<close>.
\<close>

lemma sint_u32_diff:
  fixes x y :: u32
  assumes "unat x < 2 ^ 31" and "unat y < 2 ^ 31"
  shows "sint (x - y) = uint x - uint y"
proof -
  have u: "uint x < 2147483648" "uint y < 2147483648"
    using assms by (simp_all add: unat_less_uint)
  have p: "0 \<le> uint x" "0 \<le> uint y" by simp_all
  have d: "uint (x - y) = (if uint y \<le> uint x then uint x - uint y else uint x - uint y + 4294967296)"
    using uint_sub_if' [of x y] by simp
  have arith: "(if z < 2147483648 then z else z - 4294967296) = v - w"
    if "0 \<le> v" "0 \<le> w" "v < 2147483648" "w < 2147483648"
      "z = (if w \<le> v then v - w else v - w + 4294967296)" for v w z :: int
    using that by auto
  have "sint (x - y) = (if uint (x - y) < 2147483648 then uint (x - y) else uint (x - y) - 4294967296)"
    using sint_u32_alt [of "x - y"] by simp
  also have "\<dots> = uint x - uint y" by (rule arith [OF p u d])
  finally show ?thesis .
qed

lemma itimediff_window:
  assumes "unat (a - base) < 2 ^ 31" and "unat (b - base) < 2 ^ 31"
  shows "itimediff a b = int (unat (a - base)) - int (unat (b - base))"
  using sint_u32_diff [OF assms] by (simp add: itimediff_def)

lemma itimediff_off:
  assumes "unat (a - base) < 2 ^ 31" and "unat (b - base) < 2 ^ 31"
  shows "0 < itimediff a b \<longleftrightarrow> unat (b - base) < unat (a - base)"
    and "itimediff a b < 0 \<longleftrightarrow> unat (a - base) < unat (b - base)"
  by (simp_all only: itimediff_window [OF assms] of_nat_less_iff diff_gt_0_iff_gt diff_less_0_iff_less)

lemma off_eq_iff: "unat (a - base) = unat (b - base) \<longleftrightarrow> a = (b :: u32)"
  by (simp add: word_unat_eq_iff [symmetric])

lemma unat_diff_shift:
  fixes a b c :: u32
  assumes "unat (b - c) \<le> unat (a - c)"
  shows "unat (a - b) = unat (a - c) - unat (b - c)"
proof -
  have "unat ((a - c) - (b - c)) = unat (a - c) - unat (b - c)"
    using assms by (intro unat_sub_le) (simp add: word_le_nat_alt)
  then show ?thesis by simp
qed

section \<open>Lemmas: codec\<close>

lemma upt_0_2: "[0..<2] = [0, 1]" and upt_0_4: "[0..<4] = [0, 1, 2, 3]"
  by (simp_all add: upt_rec)

lemma ucast_and_255: "(ucast (w AND 255) :: byte) = ucast w" for w :: "'a::len word"
proof -
  have m: "(255 :: 'a word) = mask 8" by (simp add: mask_eq_exp_minus_1)
  show ?thesis
    unfolding m by (rule bit_word_eqI) (auto simp: bit_simps dest: bit_imp_le_length)
qed

lemma byte_shift_or: "ucast b + push_bit 8 x = (ucast b OR push_bit 8 x :: 'a::len word)" for b :: byte
  by (rule disjunctive_add) (auto simp: bit_simps dest: bit_imp_le_length)

lemma encode16u_endian: "ikcp_encode16u_be p w = ikcp_encode16u p w"
  by (simp add: ikcp_encode16u_be_def ikcp_encode16u_def le_store16_def upt_0_2 ucast_and_255)

lemma encode32u_endian: "ikcp_encode32u_be p l = ikcp_encode32u p l"
  by (simp add: ikcp_encode32u_be_def ikcp_encode32u_def le_store32_def upt_0_4 ucast_and_255)

lemma length_le_store [simp]: "length (le_store16 w) = 2" "length (le_store32 l) = 4"
  by (simp_all add: le_store16_def le_store32_def)

lemma le_load_store16: "le_load (le_store16 w) = w"
  by (rule bit_word_eqI) (auto simp: le_store16_def upt_0_2 bit_simps)

lemma le_load_store32: "le_load (le_store32 l) = l"
proof (rule bit_word_eqI)
  fix n
  assume "n < LENGTH(32)"
  then consider "n < 8" | "8 \<le> n \<and> n < 16" | "16 \<le> n \<and> n < 24" | "24 \<le> n \<and> n < 32" by fastforce
  then show "bit (le_load (le_store32 l) :: u32) n = bit l n"
    by cases (auto simp: le_store32_def upt_0_4 bit_simps)
qed

lemma decode8u_encode8u: "ikcp_decode8u (c # r) = Some (c, r)"
  by simp

lemma decode16u_encode16u: "ikcp_decode16u (le_store16 w @ r) = Some (w, r)"
  by (simp add: ikcp_decode16u_def fetch_def le_load_store16)

lemma decode32u_encode32u: "ikcp_decode32u (le_store32 l @ r) = Some (l, r)"
  by (simp add: ikcp_decode32u_def fetch_def le_load_store32)

lemma fetch4:
  "fetch p 0 4 = (case p of p0 # p1 # p2 # p3 # r \<Rightarrow> Some [p0, p1, p2, p3] | _ \<Rightarrow> None)"
  "drop 4 (p0 # p1 # p2 # p3 # r) = r"
  by (simp_all add: fetch_def eval_nat_numeral split: list.split)

lemma decode16u_endian: "ikcp_decode16u_be p = ikcp_decode16u p"
  by (simp add: ikcp_decode16u_be_def ikcp_decode16u_def fetch_def byte_shift_or Let_def
      numeral_2_eq_2 split: list.split)

lemma decode32u_endian: "ikcp_decode32u_be p = ikcp_decode32u p"
  unfolding ikcp_decode32u_be_def ikcp_decode32u_def fetch4(1) byte_shift_or Let_def
  by (simp add: fetch4(2) split: list.split)

text \<open>The header a receiver decodes: command and fragment at 8 bits, the window at 16.\<close>

definition header_of :: "IKCPSEG \<Rightarrow> seg_header" where
  "header_of s = \<lparr>h_conv = sg_conv s, h_cmd = ucast (sg_cmd s), h_frg = ucast (sg_frg s),
     h_wnd = ucast (sg_wnd s), h_ts = sg_ts s, h_sn = sg_sn s, h_una = sg_una s, h_len = sg_len s\<rparr>"

lemma encode_seg_alt:
  "ikcp_encode_seg p s = p @ le_store32 (sg_conv s) @ [ucast (sg_cmd s), ucast (sg_frg s)] @
     le_store16 (ucast (sg_wnd s)) @ le_store32 (sg_ts s) @ le_store32 (sg_sn s) @
     le_store32 (sg_una s) @ le_store32 (sg_len s)"
  by (simp add: ikcp_encode_seg_def ikcp_encode32u_def ikcp_encode16u_def ikcp_encode8u_def Let_def)

lemma length_encode_seg [simp]: "length (ikcp_encode_seg p s) = length p + 24"
  by (simp add: encode_seg_alt)

lemma encode_seg_append: "ikcp_encode_seg p s = p @ ikcp_encode_seg [] s"
  by (simp add: encode_seg_alt)

lemma decode_encode_seg: "ikcp_decode_header (ikcp_encode_seg [] s @ r) = Some (header_of s, r)"
  by (simp add: ikcp_decode_header_def encode_seg_alt header_of_def decode32u_encode32u
      decode16u_encode16u)

lemma decode_header_total: "24 \<le> length d \<Longrightarrow> \<exists>h. ikcp_decode_header d = Some (h, drop 24 d)"
proof -
  assume len: "24 \<le> length d"
  have d8: "\<exists>c. ikcp_decode8u (drop n d) = Some (c, drop (n + 1) d)" if "n < 24" for n
    using that len by (simp add: Cons_nth_drop_Suc [symmetric])
  have d16: "\<exists>c. ikcp_decode16u (drop n d) = Some (c, drop (n + 2) d)" if "n < 23" for n
    using that len by (simp add: ikcp_decode16u_def fetch_def add.commute)
  have d32: "\<exists>c. ikcp_decode32u (drop n d) = Some (c, drop (n + 4) d)" if "n < 21" for n
    using that len by (simp add: ikcp_decode32u_def fetch_def add.commute)
  obtain c1 where "ikcp_decode32u d = Some (c1, drop 4 d)"
    using d32 [of 0] by auto
  moreover obtain c2 where "ikcp_decode8u (drop 4 d) = Some (c2, drop 5 d)"
    using d8 [of 4] by auto
  moreover obtain c3 where "ikcp_decode8u (drop 5 d) = Some (c3, drop 6 d)"
    using d8 [of 5] by auto
  moreover obtain c4 where "ikcp_decode16u (drop 6 d) = Some (c4, drop 8 d)"
    using d16 [of 6] by auto
  moreover obtain c5 where "ikcp_decode32u (drop 8 d) = Some (c5, drop 12 d)"
    using d32 [of 8] by auto
  moreover obtain c6 where "ikcp_decode32u (drop 12 d) = Some (c6, drop 16 d)"
    using d32 [of 12] by auto
  moreover obtain c7 where "ikcp_decode32u (drop 16 d) = Some (c7, drop 20 d)"
    using d32 [of 16] by auto
  moreover obtain c8 where "ikcp_decode32u (drop 20 d) = Some (c8, drop 24 d)"
    using d32 [of 20] by auto
  ultimately show ?thesis by (simp add: ikcp_decode_header_def)
qed

section \<open>Lemmas: release\<close>

lemma ikcp_release_frees:
  assumes "kb_self b \<noteq> 0" and "kb_buffer b \<noteq> 0"
    and q: "iq_list h (kb_snd_buf b) s1" "iq_list h (kb_rcv_buf b) s2"
      "iq_list h (kb_snd_queue b) s3" "iq_list h (kb_rcv_queue b) s4"
    and dist: "distinct ((kb_snd_buf b # s1) @ (kb_rcv_buf b # s2) @ (kb_snd_queue b # s3) @
      (kb_rcv_queue b # s4))"
    and fuel: "length s1 \<le> fuel" "length s2 \<le> fuel" "length s3 \<le> fuel" "length s4 \<le> fuel"
  shows "ikcp_release fuel b h = Some (s1 @ s2 @ s3 @ s4 @ [kb_buffer b] @
    (if kb_acklist b \<noteq> 0 then [kb_acklist b] else []) @ [kb_self b])"
proof -
  obtain h1 where h1: "iqueue_drain fuel (kb_snd_buf b) h = Some (s1, h1)"
    "\<And>q' ms. iq_list h q' ms \<Longrightarrow> set (kb_snd_buf b # s1) \<inter> set (q' # ms) = {} \<Longrightarrow> iq_list h1 q' ms"
    using iqueue_drain_list [OF q(1) fuel(1)] by blast
  have q1: "iq_list h1 (kb_rcv_buf b) s2" "iq_list h1 (kb_snd_queue b) s3" "iq_list h1 (kb_rcv_queue b) s4"
    using dist q by (auto intro!: h1(2))
  obtain h2 where h2: "iqueue_drain fuel (kb_rcv_buf b) h1 = Some (s2, h2)"
    "\<And>q' ms. iq_list h1 q' ms \<Longrightarrow> set (kb_rcv_buf b # s2) \<inter> set (q' # ms) = {} \<Longrightarrow> iq_list h2 q' ms"
    using iqueue_drain_list [OF q1(1) fuel(2)] by blast
  have q2: "iq_list h2 (kb_snd_queue b) s3" "iq_list h2 (kb_rcv_queue b) s4"
    using dist q1 by (auto intro!: h2(2))
  obtain h3 where h3: "iqueue_drain fuel (kb_snd_queue b) h2 = Some (s3, h3)"
    "\<And>q' ms. iq_list h2 q' ms \<Longrightarrow> set (kb_snd_queue b # s3) \<inter> set (q' # ms) = {} \<Longrightarrow> iq_list h3 q' ms"
    using iqueue_drain_list [OF q2(1) fuel(3)] by blast
  have q3: "iq_list h3 (kb_rcv_queue b) s4"
    using dist q2 by (auto intro!: h3(2))
  obtain h4 where "iqueue_drain fuel (kb_rcv_queue b) h3 = Some (s4, h4)"
    using iqueue_drain_list [OF q3 fuel(4)] by blast
  then show ?thesis using h1(1) h2(1) h3(1) assms(1,2) by (simp add: ikcp_release_def)
qed

section \<open>Examples\<close>

text \<open>A segment with all fields zero, and a new control block of conversation 7 with its callback.\<close>

definition blank_seg :: IKCPSEG where
  "blank_seg = \<lparr>sg_conv = 0, sg_cmd = 0, sg_frg = 0, sg_wnd = 0, sg_ts = 0, sg_sn = 0, sg_una = 0, sg_len = 0,
     sg_resendts = 0, sg_rto = 0, sg_fastack = 0, sg_xmit = 0, sg_data = []\<rparr>"

definition demo_kcb :: IKCPCB where
  "demo_kcb = (the (ikcp_create True True 7 0))\<lparr>output_cb := True, nocwnd := 1\<rparr>"

lemma demo_kcb_fields [simp]:
  "conv demo_kcb = 7" "mtu demo_kcb = 1400" "mss demo_kcb = 1376" "snd_una demo_kcb = 0" "snd_nxt demo_kcb = 0"
  "rcv_nxt demo_kcb = 0" "snd_wnd demo_kcb = 32" "rcv_wnd demo_kcb = 32" "rmt_wnd demo_kcb = 32"
  "nsnd_que demo_kcb = 0" "nsnd_buf demo_kcb = 0" "nrcv_que demo_kcb = 0" "nrcv_buf demo_kcb = 0"
  "snd_queue demo_kcb = []" "snd_buf demo_kcb = []" "rcv_queue demo_kcb = []" "rcv_buf demo_kcb = []"
  "acklist demo_kcb = None" "ackcount demo_kcb = 0" "ackblock demo_kcb = 0" "output_cb demo_kcb"
  "buffer demo_kcb = Some 4272" "rx_rto demo_kcb = 200" "rx_minrto demo_kcb = 100" "rx_srtt demo_kcb = 0"
  "interval demo_kcb = 100" "updated demo_kcb = 0" "probe demo_kcb = 0" "probe_wait demo_kcb = 0"
  by (simp_all add: demo_kcb_def ikcp_create_def)

section \<open>Properties\<close>

text \<open>
  Decoding inverts encoding: the header of a segment takes 24 bytes, is appended to what
  was written before, and \<open>ikcp_input\<close> decodes from it the fields of the segment, the
  command and the fragment reduced to 8 bits and the window to 16.
\<close>

theorem segment_header_roundtrip:
  "length (ikcp_encode_seg p s) = length p + 24 \<and> take (length p) (ikcp_encode_seg p s) = p \<and>
   ikcp_decode_header (drop (length p) (ikcp_encode_seg p s) @ rest) =
     Some (\<lparr>h_conv = sg_conv s, h_cmd = ucast (sg_cmd s), h_frg = ucast (sg_frg s), h_wnd = ucast (sg_wnd s),
       h_ts = sg_ts s, h_sn = sg_sn s, h_una = sg_una s, h_len = sg_len s\<rparr>, rest)"
  using decode_encode_seg [of s rest] by (simp add: encode_seg_append [of p s] header_of_def)

text \<open>
  The branches for little-endian and for big-endian hosts agree: both encoders write the
  same bytes and both decoders read the same values and stop at the same place.
\<close>

theorem codec_host_independent:
  "ikcp_encode16u_be p w = ikcp_encode16u p w \<and> ikcp_encode32u_be p l = ikcp_encode32u p l \<and>
   ikcp_decode16u_be d = ikcp_decode16u d \<and> ikcp_decode32u_be d = ikcp_decode32u d"
  by (simp add: encode16u_endian encode32u_endian decode16u_endian decode32u_endian)

text \<open>
  \<open>_itimediff\<close> orders sequence numbers and timestamps across the wrap-around at \<open>2^32\<close>:
  for two values less than \<open>2^31\<close> after a common base it is the difference of their
  distances from it.
\<close>

theorem itimediff_circular:
  assumes "unat (a - base) < 2 ^ 31" and "unat (b - base) < 2 ^ 31"
  shows "itimediff a b = int (unat (a - base)) - int (unat (b - base)) \<and>
    (0 < itimediff a b \<longleftrightarrow> unat (b - base) < unat (a - base)) \<and> (itimediff a b = 0 \<longleftrightarrow> a = b)"
proof -
  have "int (unat (a - base)) = int (unat (b - base)) \<longleftrightarrow> a = b"
    unfolding of_nat_eq_iff by (rule off_eq_iff)
  then show ?thesis using itimediff_window [OF assms] itimediff_off(1) [OF assms] by linarith
qed

theorem itimediff_circular_witness:
  "unat ((5 :: u32) - 0xfffffff0) < 2 ^ 31 \<and> unat ((0xfffffffe :: u32) - 0xfffffff0) < 2 ^ 31 \<and>
   itimediff 5 0xfffffffe = 7"
  using itimediff_circular [of 5 "0xfffffff0" "0xfffffffe"] by simp

text \<open>
  \<open>ikcp_release\<close> frees every segment of the four queues, the output buffer, the
  acknowledgement array if there is one and the control block, each exactly once.
\<close>

theorem ikcp_release_exact:
  assumes "kb_self b \<noteq> 0" and "kb_buffer b \<noteq> 0"
    and "iq_list h (kb_snd_buf b) s1" and "iq_list h (kb_rcv_buf b) s2"
    and "iq_list h (kb_snd_queue b) s3" and "iq_list h (kb_rcv_queue b) s4"
    and "distinct ((kb_snd_buf b # s1) @ (kb_rcv_buf b # s2) @ (kb_snd_queue b # s3) @ (kb_rcv_queue b # s4))"
    and "length s1 \<le> fuel" and "length s2 \<le> fuel" and "length s3 \<le> fuel" and "length s4 \<le> fuel"
  shows "ikcp_release fuel b h = Some (s1 @ s2 @ s3 @ s4 @ [kb_buffer b] @
    (if kb_acklist b \<noteq> 0 then [kb_acklist b] else []) @ [kb_self b])"
  using assms by (rule ikcp_release_frees)

definition demo_blocks :: kcp_blocks where
  "demo_blocks = \<lparr>kb_self = 20, kb_snd_buf = 21, kb_rcv_buf = 22, kb_snd_queue = 23, kb_rcv_queue = 24,
     kb_buffer = 30, kb_acklist = 0\<rparr>"

definition demo_heap :: qstore where
  "demo_heap = \<lparr>nxt = id(21 := 40, 40 := 21, 24 := 41, 41 := 24), prv = id(21 := 40, 40 := 21, 24 := 41, 41 := 24)\<rparr>"

theorem ikcp_release_exact_witness: "ikcp_release 1 demo_blocks demo_heap = Some [40, 41, 30, 20]"
  using ikcp_release_exact [of demo_blocks demo_heap "[40]" "[]" "[]" "[41]" 1]
  by (simp add: demo_blocks_def demo_heap_def iq_list_def)

end
