(* ===== verification/Ikcp_Recv.thy ===== *)
theory Ikcp_Recv
  imports Ikcp_Base "HOL-Library.Multiset"
begin

text \<open>
  The receiving half of the engine: \<open>ikcp_peeksize\<close>, \<open>ikcp_recv\<close> and \<open>ikcp_parse_data\<close> of
  \<open>src/src/ikcp.c\<close>. A new segment is inserted into \<open>rcv_buf\<close> by scanning from the tail; the
  segments that continue \<open>rcv_nxt\<close> move to \<open>rcv_queue\<close>, from which the user reads whole
  messages.

  The invariant \<open>rcv_inv\<close> says that \<open>rcv_buf\<close> is strictly sorted by the distance from
  \<open>rcv_nxt\<close>, inside the window, and that the counters agree with the queues. The lemmas show
  that every operation keeps it, that segments are released to the user in sequence order
  without gap or duplicate, and that \<open>ikcp_recv\<close> returns exactly the next message.
\<close>

section \<open>The model\<close>

text \<open>The summation loop of \<open>ikcp_peeksize\<close>; \<open>length += seg->len\<close> is unsigned and wraps.\<close>

fun peek_sum :: "int \<Rightarrow> IKCPSEG list \<Rightarrow> int" where
  "peek_sum n [] = n"
| "peek_sum n (s # ss) =
     (let n' = sint (word_of_int n + sg_len s)
      in if sg_frg s = 0 then n' else peek_sum n' ss)"

definition ikcp_peeksize :: "IKCPCB \<Rightarrow> int" where
  "ikcp_peeksize k =
     (case rcv_queue k of
        [] \<Rightarrow> -1
      | s # _ \<Rightarrow>
          if sg_frg s = 0 then sint (sg_len s)
          else if nrcv_que k < sg_frg s + 1 then -1
          else peek_sum 0 (rcv_queue k))"

text \<open>
  The merge loop of \<open>ikcp_recv\<close>: the accumulated length, the bytes copied, the rest of the
  queue and the number of segments passed. The \<open>memcpy\<close> of \<open>seg->len\<close> bytes is a prefix of the data
  area, which has exactly that length in every segment the engine stores: that is \<open>seg_ok\<close>, a part of the
  invariant \<open>kcp_inv\<close>.
\<close>

fun recv_merge :: "int \<Rightarrow> IKCPSEG list \<Rightarrow> int \<times> byte list \<times> IKCPSEG list \<times> nat" where
  "recv_merge n [] = (n, [], [], 0)"
| "recv_merge n (s # ss) =
     (let n' = sint (word_of_int n + sg_len s);
          d = take (unat (sg_len s)) (sg_data s)
      in if sg_frg s = 0 then (n', d, ss, 1)
         else let (m, d', rest, c) = recv_merge n' ss in (m, d @ d', rest, Suc c))"

text \<open>The loop that moves available data from \<open>rcv_buf\<close> to \<open>rcv_queue\<close>.\<close>

fun move_ready :: "IKCPSEG list \<Rightarrow> IKCPCB \<Rightarrow> IKCPCB" where
  "move_ready [] k = k"
| "move_ready (s # ss) k =
     (if sg_sn s = rcv_nxt k \<and> nrcv_que k < rcv_wnd k then
        move_ready ss (k\<lparr>rcv_buf := ss, nrcv_buf := nrcv_buf k - 1,
          rcv_queue := rcv_queue k @ [s], nrcv_que := nrcv_que k + 1, rcv_nxt := rcv_nxt k + 1\<rparr>)
      else k)"

text \<open>
  \<open>ikcp_recv\<close>: the flag says whether \<open>buffer\<close> is not null, a negative \<open>len\<close> peeks. The
  result is the return value, the bytes written to the buffer and the control block.
\<close>

definition ikcp_recv :: "IKCPCB \<Rightarrow> bool \<Rightarrow> int \<Rightarrow> (int \<times> byte list \<times> IKCPCB) option" where
  "ikcp_recv k has_buffer len =
     (let ispeek = len < 0 in
      if rcv_queue k = [] then Some (-1, [], k)
      else
        (let len = (if len < 0 then wrap32 (- len) else len);
             peeksize = ikcp_peeksize k in
         if peeksize < 0 then Some (-2, [], k)
         else if peeksize > len then Some (-3, [], k)
         else
           (let recover = nrcv_que k \<ge> rcv_wnd k;
                (n, d, rest, c) = recv_merge 0 (rcv_queue k);
                k1 = (if ispeek then k
                      else k\<lparr>rcv_queue := rest, nrcv_que := nrcv_que k - of_nat c\<rparr>) in
            do {
              c_assert (n = peeksize);
              let k2 = move_ready (rcv_buf k1) k1;
              let k3 = (if nrcv_que k2 < rcv_wnd k2 \<and> recover
                        then k2\<lparr>probe := probe k2 OR IKCP_ASK_TELL\<rparr> else k2);
              Some (n, if has_buffer then d else [], k3)
            })))"

text \<open>
  The backward scan of \<open>ikcp_parse_data\<close> over the reversed buffer: whether the number is
  already there, and the segments before and after the insertion point.
\<close>

fun scan_back :: "u32 \<Rightarrow> IKCPSEG list \<Rightarrow> IKCPSEG list \<Rightarrow> bool \<times> IKCPSEG list \<times> IKCPSEG list" where
  "scan_back sn [] passed = (False, [], passed)"
| "scan_back sn (s # rs) passed =
     (if sg_sn s = sn then (True, rev (s # rs), passed)
      else if itimediff sn (sg_sn s) > 0 then (False, rev (s # rs), passed)
      else scan_back sn rs (s # passed))"

definition ikcp_parse_data :: "IKCPCB \<Rightarrow> IKCPSEG \<Rightarrow> IKCPCB" where
  "ikcp_parse_data k newseg =
     (let sn = sg_sn newseg in
      if itimediff sn (rcv_nxt k + rcv_wnd k) \<ge> 0 \<or> itimediff sn (rcv_nxt k) < 0 then k
      else
        (let (repeat, before, after) = scan_back sn (rev (rcv_buf k)) [];
             k1 = (if \<not> repeat
                   then k\<lparr>rcv_buf := before @ [newseg] @ after, nrcv_buf := nrcv_buf k + 1\<rparr>
                   else k)
         in move_ready (rcv_buf k1) k1))"

section \<open>Invariant\<close>

definition rcv_off :: "IKCPCB \<Rightarrow> IKCPSEG \<Rightarrow> nat" where
  "rcv_off k s = unat (sg_sn s - rcv_nxt k)"

definition rcv_inv :: "IKCPCB \<Rightarrow> bool" where
  "rcv_inv k \<longleftrightarrow>
     unat (rcv_wnd k) < 2 ^ 31 \<and>
     nrcv_buf k = of_nat (length (rcv_buf k)) \<and> nrcv_que k = of_nat (length (rcv_queue k)) \<and>
     length (rcv_queue k) \<le> unat (rcv_wnd k) \<and>
     sorted_wrt (<) (map (rcv_off k) (rcv_buf k)) \<and>
     (\<forall>s \<in> set (rcv_buf k). rcv_off k s < unat (rcv_wnd k))"

text \<open>Nothing more can be released: a gap, an empty buffer or a full queue.\<close>

definition rcv_drained :: "IKCPCB \<Rightarrow> bool" where
  "rcv_drained k \<longleftrightarrow>
     (case rcv_buf k of [] \<Rightarrow> True
      | s # _ \<Rightarrow> sg_sn s \<noteq> rcv_nxt k \<or> nrcv_que k \<ge> rcv_wnd k)"

text \<open>Consecutive sequence numbers from \<open>n\<close> on.\<close>

fun consecutive :: "u32 \<Rightarrow> IKCPSEG list \<Rightarrow> bool" where
  "consecutive n [] = True"
| "consecutive n (s # ss) \<longleftrightarrow> sg_sn s = n \<and> consecutive (n + 1) ss"

lemma consecutive_append:
  "consecutive n (xs @ ys) \<longleftrightarrow> consecutive n xs \<and> consecutive (n + of_nat (length xs)) ys"
  by (induction xs arbitrary: n) (auto simp: algebra_simps)

section \<open>Releasing segments\<close>

text \<open>One round of the loop, as an update of the control block.\<close>

definition release_one :: "IKCPSEG \<Rightarrow> IKCPSEG list \<Rightarrow> IKCPCB \<Rightarrow> IKCPCB" where
  "release_one s ss k = k\<lparr>rcv_buf := ss, nrcv_buf := nrcv_buf k - 1,
     rcv_queue := rcv_queue k @ [s], nrcv_que := nrcv_que k + 1, rcv_nxt := rcv_nxt k + 1\<rparr>"

lemma move_ready_unfold:
  "move_ready (s # ss) k =
     (if sg_sn s = rcv_nxt k \<and> nrcv_que k < rcv_wnd k then move_ready ss (release_one s ss k) else k)"
  by (simp add: release_one_def)

declare move_ready.simps(2) [simp del]

lemma rcv_off_release:
  assumes "0 < rcv_off k t"
  shows "rcv_off (release_one s ss k) t = rcv_off k t - 1"
proof -
  have "unat (sg_sn t - rcv_nxt k - 1) = unat (sg_sn t - rcv_nxt k) - 1"
    using assms by (intro unat_minus_one) (auto simp: rcv_off_def)
  then show ?thesis by (simp add: rcv_off_def release_one_def diff_diff_eq)
qed

lemma release_one_inv:
  assumes inv: "rcv_inv k" and buf: "rcv_buf k = s # ss"
    and ready: "sg_sn s = rcv_nxt k" "nrcv_que k < rcv_wnd k"
  shows "rcv_inv (release_one s ss k)"
proof -
  let ?k = "release_one s ss k"
  have pos: "0 < rcv_off k t" if "t \<in> set ss" for t
    using inv buf that by (fastforce simp: rcv_inv_def)
  have off: "rcv_off ?k t = rcv_off k t - 1" if "t \<in> set ss" for t
    using rcv_off_release [OF pos [OF that]] .
  have "sorted_wrt (<) (map (rcv_off k) ss)" using inv buf by (simp add: rcv_inv_def)
  then have "sorted_wrt (<) (map (rcv_off ?k) ss)"
    unfolding sorted_wrt_map
    by (rule sorted_wrt_mono_rel [rotated]) (use off pos in \<open>auto simp: diff_less_mono Suc_leI\<close>)
  moreover have "length (rcv_queue k) < unat (rcv_wnd k)"
    using inv ready(2) unat_u32_bound [of "rcv_wnd k"]
    by (auto simp: rcv_inv_def word_less_nat_alt unat_of_nat_lt)
  moreover have "\<forall>t \<in> set ss. rcv_off ?k t < unat (rcv_wnd k)"
    using inv buf off by (fastforce simp: rcv_inv_def)
  ultimately show ?thesis
    using inv buf by (simp add: rcv_inv_def) (simp add: release_one_def algebra_simps)
qed

lemma move_ready_inv: "rcv_inv k \<Longrightarrow> rcv_buf k = bs \<Longrightarrow> rcv_inv (move_ready bs k)"
proof (induction bs arbitrary: k)
  case (Cons s ss)
  then show ?case
    using release_one_inv [of k s ss] by (auto simp: move_ready_unfold release_one_def)
qed simp

text \<open>What the loop does to the control block: a consecutive prefix changes queues.\<close>

lemma move_ready_spec:
  assumes "rcv_buf k = bs"
  shows "\<exists>ds rest. bs = ds @ rest \<and> consecutive (rcv_nxt k) ds \<and>
    move_ready bs k = k\<lparr>rcv_buf := rest, nrcv_buf := nrcv_buf k - of_nat (length ds),
      rcv_queue := rcv_queue k @ ds, nrcv_que := nrcv_que k + of_nat (length ds),
      rcv_nxt := rcv_nxt k + of_nat (length ds)\<rparr> \<and> rcv_drained (move_ready bs k)"
  using assms
proof (induction bs arbitrary: k)
  case Nil
  then show ?case by (intro exI [of _ "[]"]) (simp add: rcv_drained_def)
next
  case (Cons s ss)
  show ?case
  proof (cases "sg_sn s = rcv_nxt k \<and> nrcv_que k < rcv_wnd k")
    case True
    let ?k = "release_one s ss k"
    obtain ds rest where IH: "ss = ds @ rest" "consecutive (rcv_nxt ?k) ds"
      "move_ready ss ?k = ?k\<lparr>rcv_buf := rest, nrcv_buf := nrcv_buf ?k - of_nat (length ds),
        rcv_queue := rcv_queue ?k @ ds, nrcv_que := nrcv_que ?k + of_nat (length ds),
        rcv_nxt := rcv_nxt ?k + of_nat (length ds)\<rparr>" "rcv_drained (move_ready ss ?k)"
      using Cons.IH [of ?k] by (auto simp: release_one_def)
    have m: "move_ready (s # ss) k = move_ready ss ?k" using True by (simp add: move_ready_unfold)
    show ?thesis
    proof (rule exI [of _ "s # ds"], rule exI [of _ rest], intro conjI)
      show "consecutive (rcv_nxt k) (s # ds)" using True IH(2) by (simp add: release_one_def)
      show "move_ready (s # ss) k = k\<lparr>rcv_buf := rest, nrcv_buf := nrcv_buf k - of_nat (length (s # ds)),
        rcv_queue := rcv_queue k @ s # ds, nrcv_que := nrcv_que k + of_nat (length (s # ds)),
        rcv_nxt := rcv_nxt k + of_nat (length (s # ds))\<rparr>"
        unfolding m IH(3) by (simp add: release_one_def algebra_simps)
    qed (use IH(1,4) m in simp_all)
  next
    case False
    then have "move_ready (s # ss) k = k" "rcv_drained k"
      using Cons.prems by (auto simp: move_ready_unfold rcv_drained_def)
    with Cons.prems show ?thesis
      by - (rule exI [of _ "[]"], rule exI [of _ "s # ss"], simp)
  qed
qed

section \<open>Insertion\<close>

text \<open>The scan finds the place of the number in the sorted buffer, or the number itself.\<close>

lemma scan_back_sorted:
  assumes "sorted_wrt (\<lambda>s t. unat (sg_sn t - base) < unat (sg_sn s - base)) rs"
    and "\<forall>s \<in> set rs. unat (sg_sn s - base) < 2 ^ 31" and "unat (sn - base) < 2 ^ 31"
    and "scan_back sn rs passed = (rep, bef, aft)"
  shows "\<exists>xs. bef @ xs = rev rs \<and> aft = xs @ passed \<and> (rep \<longleftrightarrow> sn \<in> sg_sn ` set rs) \<and>
    (\<not> rep \<longrightarrow> (\<forall>s \<in> set bef. unat (sg_sn s - base) < unat (sn - base)) \<and>
               (\<forall>s \<in> set xs. unat (sn - base) < unat (sg_sn s - base)))"
  using assms
proof (induction rs arbitrary: passed)
  case Nil
  then show ?case by simp
next
  case (Cons s rs)
  have w: "unat (sg_sn s - base) < 2 ^ 31" using Cons.prems(2) by simp
  note cmp = itimediff_off(1) [OF Cons.prems(3) w]
  consider (eq) "sg_sn s = sn" | (gt) "sg_sn s \<noteq> sn" "unat (sg_sn s - base) < unat (sn - base)"
    | (lt) "sg_sn s \<noteq> sn" "unat (sn - base) < unat (sg_sn s - base)"
    using off_eq_iff [of "sg_sn s" base sn] by linarith
  then show ?case
  proof cases
    case eq
    then show ?thesis using Cons.prems(4) by auto
  next
    case gt
    have "\<forall>t \<in> set (s # rs). unat (sg_sn t - base) < unat (sn - base)"
      using Cons.prems(1) gt(2) by auto
    then show ?thesis using Cons.prems(4) gt cmp by (auto split: if_splits)
  next
    case lt
    then have "scan_back sn rs (s # passed) = (rep, bef, aft)"
      using Cons.prems(4) cmp by (simp split: if_splits)
    then obtain xs where "bef @ xs = rev rs" "aft = xs @ s # passed"
      "rep \<longleftrightarrow> sn \<in> sg_sn ` set rs"
      "\<not> rep \<longrightarrow> (\<forall>s \<in> set bef. unat (sg_sn s - base) < unat (sn - base)) \<and>
        (\<forall>s \<in> set xs. unat (sn - base) < unat (sg_sn s - base))"
      using Cons.IH [of "s # passed"] Cons.prems by auto
    then show ?thesis using lt by (intro exI [of _ "xs @ [s]"]) auto
  qed
qed

text \<open>Inside the receive window, as the two guards of \<open>ikcp_parse_data\<close> test it.\<close>

lemma parse_data_window:
  assumes "unat (rcv_wnd k) < 2 ^ 31"
  shows "\<not> (itimediff sn (rcv_nxt k + rcv_wnd k) \<ge> 0 \<or> itimediff sn (rcv_nxt k) < 0) \<longleftrightarrow>
    unat (sn - rcv_nxt k) < unat (rcv_wnd k)"
proof (cases "unat (sn - rcv_nxt k) < 2 ^ 31")
  case True
  have "itimediff sn (rcv_nxt k + rcv_wnd k) < 0 \<longleftrightarrow> unat (sn - rcv_nxt k) < unat (rcv_wnd k)"
    using itimediff_off(2) [of sn "rcv_nxt k" "rcv_nxt k + rcv_wnd k"] True assms by simp
  moreover have "\<not> itimediff sn (rcv_nxt k) < 0" using True by (simp add: seq_simps)
  ultimately show ?thesis by (metis linorder_not_le)
next
  case False
  then show ?thesis using assms by (simp add: seq_simps)
qed

text \<open>The control block before the final loop of \<open>ikcp_parse_data\<close>.\<close>

definition rcv_insert :: "IKCPCB \<Rightarrow> IKCPSEG \<Rightarrow> IKCPCB" where
  "rcv_insert k s =
     (let (repeat, before, after) = scan_back (sg_sn s) (rev (rcv_buf k)) []
      in if \<not> repeat
         then k\<lparr>rcv_buf := before @ [s] @ after, nrcv_buf := nrcv_buf k + 1\<rparr> else k)"

lemma parse_data_alt:
  assumes "rcv_inv k"
  shows "ikcp_parse_data k s =
    (if rcv_off k s < unat (rcv_wnd k)
     then move_ready (rcv_buf (rcv_insert k s)) (rcv_insert k s) else k)"
  using parse_data_window [of k "sg_sn s"] assms
  by (auto simp: ikcp_parse_data_def rcv_insert_def rcv_inv_def rcv_off_def Let_def split: prod.split)

lemma rcv_insert_spec:
  assumes inv: "rcv_inv k" and win: "rcv_off k s < unat (rcv_wnd k)"
  shows "rcv_inv (rcv_insert k s) \<and>
    (if sg_sn s \<in> sg_sn ` set (rcv_buf k) then rcv_insert k s = k
     else \<exists>xs ys. rcv_buf k = xs @ ys \<and>
       rcv_insert k s = k\<lparr>rcv_buf := xs @ s # ys, nrcv_buf := nrcv_buf k + 1\<rparr>)"
proof -
  obtain rep bef aft where sc: "scan_back (sg_sn s) (rev (rcv_buf k)) [] = (rep, bef, aft)"
    by (metis prod_cases3)
  have wnd: "unat (rcv_wnd k) < 2 ^ 31" using inv by (simp add: rcv_inv_def)
  have "sorted_wrt (\<lambda>s t. unat (sg_sn t - rcv_nxt k) < unat (sg_sn s - rcv_nxt k)) (rev (rcv_buf k))"
    using inv by (simp add: rcv_inv_def rcv_off_def sorted_wrt_rev sorted_wrt_map)
  moreover have "\<forall>t \<in> set (rev (rcv_buf k)). unat (sg_sn t - rcv_nxt k) < 2 ^ 31"
    using inv wnd by (fastforce simp: rcv_inv_def rcv_off_def)
  moreover have "unat (sg_sn s - rcv_nxt k) < 2 ^ 31" using win wnd by (simp add: rcv_off_def)
  ultimately have sp: "bef @ aft = rcv_buf k" "rep \<longleftrightarrow> sg_sn s \<in> sg_sn ` set (rcv_buf k)"
    "\<not> rep \<Longrightarrow> (\<forall>t \<in> set bef. rcv_off k t < rcv_off k s) \<and> (\<forall>t \<in> set aft. rcv_off k s < rcv_off k t)"
    using scan_back_sorted [OF _ _ _ sc, of "rcv_nxt k"] by (auto simp: rcv_off_def)
  show ?thesis
  proof (cases rep)
    case True
    then show ?thesis using sc sp inv by (simp add: rcv_insert_def)
  next
    case False
    then have ins: "rcv_insert k s = k\<lparr>rcv_buf := bef @ s # aft, nrcv_buf := nrcv_buf k + 1\<rparr>"
      using sc by (simp add: rcv_insert_def)
    have "rcv_off (rcv_insert k s) = rcv_off k" by (rule ext) (simp add: rcv_off_def ins)
    moreover have "sorted_wrt (<) (map (rcv_off k) (bef @ aft))"
      using inv sp(1) by (simp add: rcv_inv_def)
    ultimately have "rcv_inv (rcv_insert k s)"
      using inv win sp(3) [OF False] sp(1) [symmetric]
      by (auto simp: rcv_inv_def ins sorted_wrt_append)
    then show ?thesis using False sp ins by metis
  qed
qed

lemma ikcp_parse_data_inv: "rcv_inv k \<Longrightarrow> rcv_inv (ikcp_parse_data k s)"
  using rcv_insert_spec [of k s] by (auto simp: parse_data_alt intro: move_ready_inv)

text \<open>Only the receive fields change.\<close>

lemma parse_data_frame:
  assumes "rcv_inv k"
  obtains ds rest nb nq where "ikcp_parse_data k s = k\<lparr>rcv_buf := rest, nrcv_buf := nb,
    rcv_queue := rcv_queue k @ ds, nrcv_que := nq, rcv_nxt := rcv_nxt k + of_nat (length ds)\<rparr>"
proof (cases "rcv_off k s < unat (rcv_wnd k)")
  case True
  obtain buf n where ins: "rcv_insert k s = k\<lparr>rcv_buf := buf, nrcv_buf := n\<rparr>"
  proof (cases "sg_sn s \<in> sg_sn ` set (rcv_buf k)")
    case t: True
    then have "rcv_insert k s = k\<lparr>rcv_buf := rcv_buf k, nrcv_buf := nrcv_buf k\<rparr>"
      using rcv_insert_spec [OF assms True] by simp
    then show ?thesis by (rule that)
  qed (use rcv_insert_spec [OF assms True] that in auto)
  obtain ds rest where "move_ready (rcv_buf (rcv_insert k s)) (rcv_insert k s) =
    (rcv_insert k s)\<lparr>rcv_buf := rest, nrcv_buf := nrcv_buf (rcv_insert k s) - of_nat (length ds),
      rcv_queue := rcv_queue (rcv_insert k s) @ ds, nrcv_que := nrcv_que (rcv_insert k s) + of_nat (length ds),
      rcv_nxt := rcv_nxt (rcv_insert k s) + of_nat (length ds)\<rparr>"
    using move_ready_spec [of "rcv_insert k s"] by blast
  then show ?thesis
    using True by (intro that) (simp add: parse_data_alt [OF assms] ins)
next
  case False
  have "k = k\<lparr>rcv_buf := rcv_buf k, nrcv_buf := nrcv_buf k, rcv_queue := rcv_queue k @ [],
    nrcv_que := nrcv_que k, rcv_nxt := rcv_nxt k + of_nat (length ([] :: IKCPSEG list))\<rparr>" by simp
  then show ?thesis using False that by (metis parse_data_alt [OF assms])
qed

definition rcv_accepts :: "IKCPCB \<Rightarrow> IKCPSEG \<Rightarrow> bool" where
  "rcv_accepts k s \<longleftrightarrow> rcv_off k s < unat (rcv_wnd k) \<and> sg_sn s \<notin> sg_sn ` set (rcv_buf k)"

lemma parse_data_spec:
  assumes inv: "rcv_inv k" and k': "k' = ikcp_parse_data k s"
  shows "\<exists>ds. rcv_queue k' = rcv_queue k @ ds \<and> consecutive (rcv_nxt k) ds \<and>
    rcv_nxt k' = rcv_nxt k + of_nat (length ds) \<and>
    mset ds + mset (rcv_buf k') = mset (rcv_buf k) + (if rcv_accepts k s then {#s#} else {#}) \<and>
    (rcv_off k s < unat (rcv_wnd k) \<longrightarrow> rcv_drained k')"
proof (cases "rcv_off k s < unat (rcv_wnd k)")
  case True
  let ?i = "rcv_insert k s"
  note sp = rcv_insert_spec [OF inv True]
  have ins: "mset (rcv_buf ?i) = mset (rcv_buf k) + (if rcv_accepts k s then {#s#} else {#})"
    "rcv_queue ?i = rcv_queue k" "rcv_nxt ?i = rcv_nxt k"
    using sp True by (auto simp: rcv_accepts_def split: if_splits)
  obtain ds rest where m: "rcv_buf ?i = ds @ rest" "consecutive (rcv_nxt ?i) ds"
    "k' = ?i\<lparr>rcv_buf := rest, nrcv_buf := nrcv_buf ?i - of_nat (length ds),
      rcv_queue := rcv_queue ?i @ ds, nrcv_que := nrcv_que ?i + of_nat (length ds),
      rcv_nxt := rcv_nxt ?i + of_nat (length ds)\<rparr>" "rcv_drained k'"
    using move_ready_spec [of ?i] True k' by (auto simp: parse_data_alt [OF inv])
  have "mset ds + mset (rcv_buf k') = mset (rcv_buf ?i)" using m(1,3) by simp
  then show ?thesis using m(2,3,4) ins by (intro exI [of _ ds]) simp
next
  case False
  then show ?thesis
    using k' by (intro exI [of _ "[]"]) (simp add: parse_data_alt [OF inv] rcv_accepts_def)
qed

section \<open>Reading a message\<close>

text \<open>The segments of the next message: up to and including the first with fragment 0.\<close>

fun first_msg :: "IKCPSEG list \<Rightarrow> IKCPSEG list" where
  "first_msg [] = []"
| "first_msg (s # ss) = (if sg_frg s = 0 then [s] else s # first_msg ss)"

definition payload :: "IKCPSEG \<Rightarrow> byte list" where
  "payload s = take (unat (sg_len s)) (sg_data s)"

lemma recv_merge_eq:
  "recv_merge n q = (peek_sum n q, concat (map payload (first_msg q)),
     drop (length (first_msg q)) q, length (first_msg q))"
  by (induction q arbitrary: n) (auto simp: payload_def Let_def)

lemma peeksize_sum:
  "rcv_queue k \<noteq> [] \<Longrightarrow> 0 \<le> ikcp_peeksize k \<Longrightarrow> ikcp_peeksize k = peek_sum 0 (rcv_queue k)"
  by (auto simp: ikcp_peeksize_def Let_def split: list.splits if_splits)

lemma first_msg_prefix: "\<exists>r. q = first_msg q @ r"
  by (induction q) auto

lemma length_first_msg: "length (first_msg q) \<le> length q"
  by (induction q) auto

text \<open>The \<open>assert(len == peeksize)\<close> of \<open>ikcp_recv\<close> never fails.\<close>

lemma ikcp_recv_cases:
  "ikcp_recv k hb len =
    (if rcv_queue k = [] then Some (-1, [], k)
     else if ikcp_peeksize k < 0 then Some (-2, [], k)
     else if ikcp_peeksize k > (if len < 0 then wrap32 (- len) else len) then Some (-3, [], k)
     else
       (let k1 = (if len < 0 then k
                  else k\<lparr>rcv_queue := drop (length (first_msg (rcv_queue k))) (rcv_queue k),
                         nrcv_que := nrcv_que k - of_nat (length (first_msg (rcv_queue k)))\<rparr>);
            k2 = move_ready (rcv_buf k1) k1
        in Some (ikcp_peeksize k,
             if hb then concat (map payload (first_msg (rcv_queue k))) else [],
             if nrcv_que k2 < rcv_wnd k2 \<and> nrcv_que k \<ge> rcv_wnd k
             then k2\<lparr>probe := probe k2 OR IKCP_ASK_TELL\<rparr> else k2)))"
  using peeksize_sum [of k] by (simp add: ikcp_recv_def recv_merge_eq Let_def)

text \<open>The two outcomes of \<open>ikcp_recv\<close>: an error, or a message with the queues moved on.\<close>

definition recv_take :: "nat \<Rightarrow> IKCPCB \<Rightarrow> IKCPCB" where
  "recv_take c k = k\<lparr>rcv_queue := drop c (rcv_queue k), nrcv_que := nrcv_que k - of_nat c\<rparr>"

lemma ikcp_recv_result:
  assumes "ikcp_recv k hb len = Some (n, d, k')"
  obtains "n < 0" and "k' = k"
      and "rcv_queue k = [] \<or> ikcp_peeksize k < 0 \<or> ikcp_peeksize k > (if len < 0 then wrap32 (- len) else len)"
  | c x where "0 \<le> n" and "n = ikcp_peeksize k" and "rcv_queue k \<noteq> []"
      and "c = (if len < 0 then 0 else length (first_msg (rcv_queue k)))"
      and "k' = (move_ready (rcv_buf (recv_take c k)) (recv_take c k))\<lparr>probe := x\<rparr>"
      and "d = (if hb then concat (map payload (first_msg (rcv_queue k))) else [])"
proof (cases "rcv_queue k = [] \<or> ikcp_peeksize k < 0 \<or> ikcp_peeksize k > (if len < 0 then wrap32 (- len) else len)")
  case True
  then have "n < 0" "k' = k" using assms by (auto simp: ikcp_recv_cases split: if_splits)
  then show ?thesis using True by (rule that(1))
next
  case False
  define c where "c = (if len < 0 then 0 else length (first_msg (rcv_queue k)))"
  have k1: "(if len < 0 then k else k\<lparr>rcv_queue := drop (length (first_msg (rcv_queue k))) (rcv_queue k),
      nrcv_que := nrcv_que k - of_nat (length (first_msg (rcv_queue k)))\<rparr>) = recv_take c k"
    by (simp add: recv_take_def c_def)
  have pr: "(if P then j\<lparr>probe := y\<rparr> else j) = j\<lparr>probe := (if P then y else probe j)\<rparr>" for P y and j :: IKCPCB
    by simp
  have "n = ikcp_peeksize k" "d = (if hb then concat (map payload (first_msg (rcv_queue k))) else [])"
    "\<exists>x. k' = (move_ready (rcv_buf (recv_take c k)) (recv_take c k))\<lparr>probe := x\<rparr>"
    using assms False unfolding ikcp_recv_cases k1 Let_def pr by (simp_all, blast)
  then show ?thesis using that(2) [OF _ _ _ c_def] False by auto
qed

lemma ikcp_recv_some: "\<exists>r d k'. ikcp_recv k hb len = Some (r, d, k')"
  by (simp add: ikcp_recv_cases Let_def)

lemma rcv_inv_cong:
  assumes "rcv_wnd k' = rcv_wnd k" "nrcv_buf k' = nrcv_buf k" "nrcv_que k' = nrcv_que k"
    "rcv_buf k' = rcv_buf k" "rcv_queue k' = rcv_queue k" "rcv_nxt k' = rcv_nxt k"
  shows "rcv_inv k' \<longleftrightarrow> rcv_inv k"
proof -
  have "rcv_off k' = rcv_off k" using assms(6) by (auto simp: rcv_off_def)
  then show ?thesis using assms by (simp add: rcv_inv_def)
qed

lemma rcv_inv_take:
  assumes "rcv_inv k" and "c \<le> length (rcv_queue k)"
  shows "rcv_inv (k\<lparr>rcv_queue := drop c (rcv_queue k), nrcv_que := nrcv_que k - of_nat c\<rparr>)"
proof -
  let ?k = "k\<lparr>rcv_queue := drop c (rcv_queue k), nrcv_que := nrcv_que k - of_nat c\<rparr>"
  have "rcv_off ?k = rcv_off k" by (auto simp: rcv_off_def)
  then show ?thesis using assms by (auto simp: rcv_inv_def)
qed

lemma ikcp_recv_inv:
  assumes "rcv_inv k" and "ikcp_recv k hb len = Some (r, d, k')"
  shows "rcv_inv k'"
proof -
  let ?k1 = "k\<lparr>rcv_queue := drop (length (first_msg (rcv_queue k))) (rcv_queue k),
    nrcv_que := nrcv_que k - of_nat (length (first_msg (rcv_queue k)))\<rparr>"
  have "rcv_inv ?k1" by (rule rcv_inv_take [OF assms(1) length_first_msg])
  then have "rcv_inv (move_ready (rcv_buf ?k1) ?k1)" "rcv_inv (move_ready (rcv_buf k) k)"
    using assms(1) move_ready_inv by blast+
  moreover have "rcv_inv (m\<lparr>probe := x\<rparr>)" if "rcv_inv m" for m x
    using that by (subst rcv_inv_cong [of _ m]) simp_all
  ultimately show ?thesis
    using assms by (auto simp: ikcp_recv_cases Let_def split: if_splits)
qed

section \<open>Properties\<close>

text \<open>
  C21: \<open>ikcp_parse_data\<close> keeps the receive invariant. The new segment is accepted exactly if
  its number is in the window and not buffered; the segments released to the user extend
  \<open>rcv_queue\<close>, carry the numbers from \<open>rcv_nxt\<close> on without gap, and no segment is lost or
  duplicated; afterwards nothing more can be released.
\<close>

theorem ikcp_parse_data_spec:
  assumes "rcv_inv k"
  shows "rcv_inv (ikcp_parse_data k s) \<and>
    (\<exists>ds. rcv_queue (ikcp_parse_data k s) = rcv_queue k @ ds \<and> consecutive (rcv_nxt k) ds \<and>
      rcv_nxt (ikcp_parse_data k s) = rcv_nxt k + of_nat (length ds) \<and>
      mset ds + mset (rcv_buf (ikcp_parse_data k s)) =
        mset (rcv_buf k) + (if rcv_accepts k s then {#s#} else {#}) \<and>
      (rcv_off k s < unat (rcv_wnd k) \<longrightarrow> rcv_drained (ikcp_parse_data k s)))"
  using ikcp_parse_data_inv [OF assms] parse_data_spec [OF assms refl] by blast

text \<open>A receiver that holds segment 1 and waits for segment 0.\<close>

definition demo_rcv :: IKCPCB where
  "demo_rcv = demo_kcb\<lparr>rcv_buf := [blank_seg\<lparr>sg_sn := 1, sg_len := 2, sg_data := [3, 4]\<rparr>], nrcv_buf := 1\<rparr>"

definition demo_seg0 :: IKCPSEG where
  "demo_seg0 = blank_seg\<lparr>sg_frg := 1, sg_len := 2, sg_data := [1, 2]\<rparr>"

lemma demo_rcv_inv: "rcv_inv demo_rcv"
  by (simp add: demo_rcv_def demo_kcb_def ikcp_create_def rcv_inv_def rcv_off_def blank_seg_def)

theorem ikcp_parse_data_spec_witness:
  "rcv_inv demo_rcv \<and> rcv_inv (ikcp_parse_data demo_rcv demo_seg0) \<and>
   (\<exists>ds. rcv_queue (ikcp_parse_data demo_rcv demo_seg0) = ds \<and> consecutive 0 ds \<and>
     mset ds + mset (rcv_buf (ikcp_parse_data demo_rcv demo_seg0)) = mset (rcv_buf demo_rcv) + {#demo_seg0#})"
proof -
  have a: "rcv_accepts demo_rcv demo_seg0" "rcv_queue demo_rcv = []" "rcv_nxt demo_rcv = 0"
    by (simp_all add: rcv_accepts_def demo_rcv_def demo_seg0_def demo_kcb_def ikcp_create_def rcv_off_def blank_seg_def)
  show ?thesis using ikcp_parse_data_spec [OF demo_rcv_inv, of demo_seg0] demo_rcv_inv by (simp add: a)
qed


text \<open>The receiver after segment 0 has arrived.\<close>

definition demo_ready :: IKCPCB where
  "demo_ready = demo_kcb\<lparr>rcv_queue := [demo_seg0, blank_seg\<lparr>sg_sn := 1, sg_len := 2, sg_data := [3, 4]\<rparr>],
     nrcv_que := 2, rcv_nxt := 2\<rparr>"

lemma demo_ready_facts:
  "rcv_inv demo_ready" "rcv_queue demo_ready \<noteq> []" "ikcp_peeksize demo_ready = 4"
  "concat (map payload (first_msg (rcv_queue demo_ready))) = [1, 2, 3, 4]"
  by (simp_all add: demo_ready_def demo_seg0_def demo_kcb_def ikcp_create_def rcv_inv_def blank_seg_def
      ikcp_peeksize_def payload_def)


text \<open>
  The errors of \<open>ikcp_recv\<close> leave the control block alone: -1 for an empty queue, -2 for a
  message that is not complete, -3 for a message longer than the buffer. A negative
  length only peeks: the message stays in the queue.
\<close>

theorem ikcp_recv_errors:
  "(rcv_queue k = [] \<longrightarrow> ikcp_recv k hb len = Some (-1, [], k)) \<and>
   (rcv_queue k \<noteq> [] \<and> ikcp_peeksize k < 0 \<longrightarrow> ikcp_recv k hb len = Some (-2, [], k)) \<and>
   (rcv_queue k \<noteq> [] \<and> 0 \<le> len \<and> 0 \<le> ikcp_peeksize k \<and> len < ikcp_peeksize k \<longrightarrow>
      ikcp_recv k hb len = Some (-3, [], k)) \<and>
   (\<forall>r d k'. len < 0 \<and> ikcp_recv k hb len = Some (r, d, k') \<longrightarrow> (\<exists>ds. rcv_queue k' = rcv_queue k @ ds))"
proof -
  obtain ds rest where "move_ready (rcv_buf k) k =
      k\<lparr>rcv_buf := rest, nrcv_buf := nrcv_buf k - of_nat (length ds), rcv_queue := rcv_queue k @ ds,
        nrcv_que := nrcv_que k + of_nat (length ds), rcv_nxt := rcv_nxt k + of_nat (length ds)\<rparr>"
    using move_ready_spec [of k "rcv_buf k"] by blast
  then have "\<exists>ds. rcv_queue k' = rcv_queue k @ ds" if "len < 0" "ikcp_recv k hb len = Some (r, d, k')" for r d k'
    using that by (auto simp: ikcp_recv_cases Let_def split: if_splits)
  moreover have "rcv_queue k = [] \<longrightarrow> ikcp_recv k hb len = Some (-1, [], k)"
    "rcv_queue k \<noteq> [] \<and> ikcp_peeksize k < 0 \<longrightarrow> ikcp_recv k hb len = Some (-2, [], k)"
    "rcv_queue k \<noteq> [] \<and> 0 \<le> len \<and> 0 \<le> ikcp_peeksize k \<and> len < ikcp_peeksize k \<longrightarrow>
      ikcp_recv k hb len = Some (-3, [], k)"
    by (auto simp: ikcp_recv_cases)
  ultimately show ?thesis by blast
qed

theorem ikcp_recv_errors_witness:
  "ikcp_recv demo_kcb True 10 = Some (-1, [], demo_kcb) \<and>
   ikcp_recv (demo_ready\<lparr>nrcv_que := 1\<rparr>) True 10 = Some (-2, [], demo_ready\<lparr>nrcv_que := 1\<rparr>) \<and>
   ikcp_recv demo_ready True 3 = Some (-3, [], demo_ready)"
proof -
  have "rcv_queue demo_kcb = []" "ikcp_peeksize (demo_ready\<lparr>nrcv_que := 1\<rparr>) < 0"
    by (simp_all add: demo_kcb_def demo_ready_def demo_seg0_def ikcp_create_def ikcp_peeksize_def blank_seg_def)
  then show ?thesis
    using ikcp_recv_errors [of demo_kcb True 10] ikcp_recv_errors [of "demo_ready\<lparr>nrcv_que := 1\<rparr>" True 10]
      ikcp_recv_errors [of demo_ready True 3] demo_ready_facts by simp
qed

end
