(* ===== verification/Ikcp_Send.thy ===== *)
theory Ikcp_Send
  imports Ikcp_Recv
begin

text \<open>
  \<open>ikcp_send\<close> of \<open>src/src/ikcp.c\<close>: a user message is cut into fragments of at most \<open>mss\<close>
  bytes, numbered downwards to 0, and queued in \<open>snd_queue\<close>.

  The lemmas show that the fragments concatenate to the message, that every fragment fits
  the segment size, that the errors leave the control block alone, and that what
  \<open>ikcp_send\<close> cuts \<open>ikcp_recv\<close> puts together again.
\<close>

section \<open>The model\<close>

text \<open>
  A block from \<open>ikcp_segment_new\<close>: the indeterminate fields of the structure and the
  indeterminate bytes of its data area.
\<close>

type_synonym seg_block = "IKCPSEG \<times> (nat \<Rightarrow> byte)"

text \<open>
  The loop of \<open>ikcp_send\<close>, with \<open>n = count - i\<close> rounds to go. The \<open>i\<close>-th call of
  \<open>malloc\<close> returns \<open>mem i\<close>; the \<open>assert\<close> on a null pointer ends the process. The buffer is
  \<open>None\<close> for a null pointer, otherwise the bytes from the pointer on.
\<close>

fun send_loop :: "(nat \<Rightarrow> seg_block option) \<Rightarrow> nat \<Rightarrow> nat \<Rightarrow> IKCPCB \<Rightarrow> byte list option \<Rightarrow> int \<Rightarrow>
    (int \<times> IKCPCB) option" where
  "send_loop mem i 0 k buf len = Some (0, k)"
| "send_loop mem i (Suc n) k buf len =
     (let size = (if len > sint (mss k) then sint (mss k) else len) in
      case mem i of None \<Rightarrow> None
      | Some (seg, junk) \<Rightarrow>
          do {
            d \<leftarrow> (case buf of
                    Some b \<Rightarrow> if len > 0 then fetch b 0 (nat size)
                              else Some (map junk [0..<nat size])
                  | None \<Rightarrow> Some (map junk [0..<nat size]));
            let seg = seg\<lparr>sg_data := d, sg_len := word_of_int size, sg_frg := of_nat n\<rparr>;
            let k = k\<lparr>snd_queue := snd_queue k @ [seg], nsnd_que := nsnd_que k + 1\<rparr>;
            send_loop mem (Suc i) n k (map_option (drop (nat size)) buf) (len - size)
          })"

definition ikcp_send :: "(nat \<Rightarrow> seg_block option) \<Rightarrow> IKCPCB \<Rightarrow> byte list option \<Rightarrow> int \<Rightarrow>
    (int \<times> IKCPCB) option" where
  "ikcp_send mem k buf len =
     do {
       c_assert (mss k > 0);
       if len < 0 then Some (-1, k)
       else
         (let count = (if len \<le> sint (mss k) then 1
                       else sint ((word_of_int len + mss k - 1) div mss k)) in
          if count > 255 then Some (-2, k)
          else
            (let count = (if count = 0 then 1 else count)
             in send_loop mem 0 (nat count) k buf len))
     }"

section \<open>Fragmentation\<close>

text \<open>Cutting a byte list into pieces of \<open>m\<close> bytes, a reference definition.\<close>

fun pieces :: "nat \<Rightarrow> nat \<Rightarrow> byte list \<Rightarrow> byte list list" where
  "pieces m 0 b = []"
| "pieces m (Suc n) b = take m b # pieces m n (drop m b)"

lemma length_pieces [simp]: "length (pieces m n b) = n"
  by (induction n arbitrary: b) auto

lemma concat_pieces: "length b \<le> m * n \<Longrightarrow> concat (pieces m n b) = b"
  by (induction n arbitrary: b) (auto simp: algebra_simps)

lemma pieces_bound: "p \<in> set (pieces m n b) \<Longrightarrow> length p \<le> m"
  by (induction n arbitrary: b) auto

text \<open>The segments one call queues, oldest first: payload, length and fragment number.\<close>

fun frag_seg :: "IKCPSEG \<Rightarrow> byte list \<Rightarrow> nat \<Rightarrow> IKCPSEG" where
  "frag_seg s d n = s\<lparr>sg_data := d, sg_len := of_nat (length d), sg_frg := of_nat n\<rparr>"

fun frag_segs :: "(nat \<Rightarrow> seg_block option) \<Rightarrow> nat \<Rightarrow> byte list list \<Rightarrow> IKCPSEG list" where
  "frag_segs mem i [] = []"
| "frag_segs mem i (d # ds) = frag_seg (fst (the (mem i))) d (length ds) # frag_segs mem (Suc i) ds"

lemma length_frag_segs [simp]: "length (frag_segs mem i ds) = length ds"
  by (induction ds arbitrary: i) auto

lemma send_loop_queues:
  assumes "\<And>j. mem j \<noteq> None" and "0 < sint (mss k)" and "length b \<le> unat (mss k) * n"
    and "unat (mss k) < 2 ^ 31"
  shows "send_loop mem i n k (Some b) (int (length b)) =
    Some (0, k\<lparr>snd_queue := snd_queue k @ frag_segs mem i (pieces (unat (mss k)) n b),
               nsnd_que := nsnd_que k + of_nat n\<rparr>)"
  using assms
proof (induction n arbitrary: i k b)
  case 0
  then show ?case by simp
next
  case (Suc n)
  define M where "M = unat (mss k)"
  have m: "sint (mss k) = int M"
    using Suc.prems(4) by (simp add: M_def sint_u32_alt unat_less_uint)
  obtain seg junk where mem: "mem i = Some (seg, junk)" using Suc.prems(1) [of i] by auto
  define size where "size = (if int (length b) > sint (mss k) then sint (mss k) else int (length b))"
  have size: "nat size = min M (length b)" "size = int (length (take M b))"
    by (auto simp: size_def m)
  have d: "(if int (length b) > 0 then fetch b 0 (nat size) else Some (map junk [0..<nat size])) =
    Some (take M b)"
    by (auto simp: fetch_def size(1) min_def)
  let ?k = "k\<lparr>snd_queue := snd_queue k @ [frag_seg seg (take M b) n], nsnd_que := nsnd_que k + 1\<rparr>"
  have rest: "int (length b) - size = int (length (drop M b))" "drop (nat size) b = drop M b"
    by (auto simp: size min_def)
  have seg': "seg\<lparr>sg_data := take M b, sg_len := word_of_int size, sg_frg := of_nat n\<rparr> =
      frag_seg seg (take M b) n"
    using size(2) by simp
  have "send_loop mem i (Suc n) k (Some b) (int (length b)) =
      send_loop mem (Suc i) n ?k (Some (drop M b)) (int (length (drop M b)))"
    using mem d seg' rest by (simp add: size_def [symmetric] Let_def)
  also have "\<dots> = Some (0, ?k\<lparr>snd_queue := snd_queue ?k @ frag_segs mem (Suc i) (pieces M n (drop M b)),
      nsnd_que := nsnd_que ?k + of_nat n\<rparr>)"
    using Suc.IH [of ?k "drop M b" "Suc i"] Suc.prems by (simp add: M_def algebra_simps)
  finally show ?case using mem by (simp add: M_def algebra_simps)
qed

text \<open>The number of fragments: the message length over the segment size, rounded up.\<close>

definition frag_count :: "nat \<Rightarrow> nat \<Rightarrow> nat" where
  "frag_count m l = (if l \<le> m then 1 else (l + m - 1) div m)"

lemma frag_count_pos: "0 < m \<Longrightarrow> 0 < frag_count m l"
  by (auto simp: frag_count_def div_greater_zero_iff)

lemma frag_count_covers: "0 < m \<Longrightarrow> l \<le> m * frag_count m l"
proof -
  assume m: "0 < m"
  have "l + m - 1 < m * ((l + m - 1) div m) + m"
    using m by (metis add.commute mod_less_divisor mult_div_mod_eq nat_add_left_cancel_less)
  then show ?thesis by (auto simp: frag_count_def)
qed

lemma sint_small: "unat (w :: u32) < 2 ^ 31 \<Longrightarrow> sint w = int (unat w)"
  by (simp add: sint_u32_alt unat_less_uint)

lemma send_count_word:
  assumes m: "0 < unat (mss k)" "unat (mss k) < 2 ^ 31" and l: "l < 2 ^ 31"
  shows "sint ((word_of_int (int l) + mss k - 1) div mss k) = int ((l + unat (mss k) - 1) div unat (mss k))"
proof -
  have "unat (of_nat l + mss k) = l + unat (mss k)"
    using m l by (subst unat_add_lt) (simp_all add: unat_of_nat_lt)
  then have s: "unat (of_nat l + mss k - 1) = l + unat (mss k) - 1"
    using m by (subst unat_sub_le) (auto simp: word_le_nat_alt)
  have "(l + unat (mss k) - 1) div unat (mss k) < 2 ^ 31"
  proof -
    have "l + unat (mss k) - 1 < 2 ^ 31 * unat (mss k)"
      using m l mult_le_mono2 [of 1 "unat (mss k)" "2 ^ 31"] by simp
    then show ?thesis using m by (simp add: less_mult_imp_div_less)
  qed
  then show ?thesis using s by (subst sint_small) (simp_all add: unat_div_distrib)
qed

lemma send_loop_count:
  assumes "0 < unat (mss k)" and "unat (mss k) < 2 ^ 31" and "l < 2 ^ 31"
  shows "(if int l \<le> sint (mss k) then 1 else sint ((word_of_int (int l) + mss k - 1) div mss k)) =
    int (frag_count (unat (mss k)) l)"
proof -
  have "int l \<le> sint (mss k) \<longleftrightarrow> l \<le> unat (mss k)"
    by (simp only: sint_small [OF assms(2)] of_nat_le_iff)
  then show ?thesis
    using send_count_word [OF assms] by (simp add: frag_count_def)
qed

lemma ikcp_send_split:
  assumes "0 < unat (mss k)" and "unat (mss k) < 2 ^ 31" and "l < 2 ^ 31"
  shows "ikcp_send mem k buf (int l) =
    (if frag_count (unat (mss k)) l > 255 then Some (-2, k)
     else send_loop mem 0 (frag_count (unat (mss k)) l) k buf (int l))"
proof -
  have "mss k > 0" using assms(1) by (simp add: word_less_nat_alt)
  then show ?thesis
    using frag_count_pos [OF assms(1), of l]
    by (simp only: ikcp_send_def send_loop_count [OF assms] Let_def c_assert_True) simp
qed

lemma ikcp_send_ok:
  assumes mem: "\<And>j. mem j \<noteq> None" and m: "0 < unat (mss k)" "unat (mss k) < 2 ^ 31"
    and b: "length b < 2 ^ 31" "frag_count (unat (mss k)) (length b) \<le> 255"
  shows "ikcp_send mem k (Some b) (int (length b)) =
    Some (0, k\<lparr>snd_queue := snd_queue k @
        frag_segs mem 0 (pieces (unat (mss k)) (frag_count (unat (mss k)) (length b)) b),
      nsnd_que := nsnd_que k + of_nat (frag_count (unat (mss k)) (length b))\<rparr>)"
proof -
  have "0 < sint (mss k)" using m by (simp add: seq_simps unat_gt_0)
  then show ?thesis
    using send_loop_queues [of mem k b "frag_count (unat (mss k)) (length b)" 0]
      frag_count_covers [OF m(1)] mem m b(2)
    by (simp add: ikcp_send_split [OF m b(1)])
qed

section \<open>Reassembly\<close>

lemma first_msg_frag_segs:
  "ds \<noteq> [] \<Longrightarrow> length ds \<le> 2 ^ 32 \<Longrightarrow> first_msg (frag_segs mem i ds @ rest) = frag_segs mem i ds"
proof (induction ds arbitrary: i)
  case (Cons d ds)
  show ?case
  proof (cases "ds = []")
    case False
    then have "(of_nat (length ds) :: u32) \<noteq> 0"
      using Cons.prems(2) unat_of_nat_lt [of "length ds", where ?'a = 32] by (auto simp: word_unat_eq_iff)
    then show ?thesis using Cons False by simp
  qed simp
qed simp

lemma payload_frag_segs:
  "\<forall>d \<in> set ds. length d < 2 ^ 32 \<Longrightarrow> map payload (frag_segs mem i ds) = ds"
  by (induction ds arbitrary: i) (auto simp: payload_def unat_of_nat_lt)

lemma peek_sum_total:
  assumes "0 \<le> n" and "n + int (sum_list (map (unat \<circ> sg_len) (first_msg q))) < 2 ^ 31"
  shows "peek_sum n q = n + int (sum_list (map (unat \<circ> sg_len) (first_msg q)))"
  using assms
proof (induction q arbitrary: n)
  case (Cons s q)
  have "0 \<le> n + int (unat (sg_len s))"
    by (rule add_nonneg_nonneg [OF Cons.prems(1) of_nat_0_le_iff])
  then have lo: "- (2 ^ 31) \<le> n + int (unat (sg_len s))"
    by (rule order_trans [rotated]) simp
  have "n + int (unat (sg_len s)) < 2 ^ 31" using Cons.prems by (auto split: if_splits)
  then have "sint (word_of_int n + sg_len s) = n + int (unat (sg_len s))"
    using wrap32_id [of "n + int (unat (sg_len s))"] lo by (simp add: wrap32_def)
  then show ?case using Cons by (auto simp: Let_def)
qed simp

lemma sum_len_frag_segs:
  "\<forall>d \<in> set ds. length d < 2 ^ 32 \<Longrightarrow>
     sum_list (map (unat \<circ> sg_len) (frag_segs mem i ds)) = length (concat ds)"
  by (induction ds arbitrary: i) (auto simp: unat_of_nat_lt)

lemma length_le_concat: "d \<in> set ds \<Longrightarrow> length d \<le> length (concat ds)"
  by (induction ds) auto

lemma peeksize_frag_segs:
  assumes q: "rcv_queue k = frag_segs mem i ds @ rest" "nrcv_que k = of_nat (length (rcv_queue k))"
    and ds: "ds \<noteq> []" "length (concat ds) < 2 ^ 31" and len: "length (rcv_queue k) < 2 ^ 32"
  shows "ikcp_peeksize k = int (length (concat ds))"
proof -
  have lds: "length ds < 2 ^ 32" using q len by simp
  have each: "\<forall>d \<in> set ds. length d < 2 ^ 32"
  proof
    fix d
    assume "d \<in> set ds"
    then have "length d \<le> length (concat ds)" by (rule length_le_concat)
    moreover have "(2 :: nat) ^ 31 < 2 ^ 32" by simp
    ultimately show "length d < 2 ^ 32" using ds(2) by linarith
  qed
  have sum: "sum_list (map (unat \<circ> sg_len) (first_msg (rcv_queue k))) = length (concat ds)"
    using first_msg_frag_segs [OF ds(1) less_imp_le [OF lds]] sum_len_frag_segs [OF each]
    by (simp only: q(1))
  have tot: "peek_sum 0 (rcv_queue k) = int (length (concat ds))"
  proof -
    have "0 + int (length (concat ds)) < int (2 ^ 31)" using ds(2) by (simp only: of_nat_less_iff add_0)
    then have "0 + int (length (concat ds)) < 2 ^ 31" by simp
    then show ?thesis
      using peek_sum_total [of 0 "rcv_queue k", unfolded sum] by (simp only: add_0 order_refl)
  qed
  obtain d ds' where dd: "ds = d # ds'" using ds(1) by (cases ds) auto
  have nq: "\<not> nrcv_que k < of_nat (length ds') + 1"
  proof -
    have "unat (of_nat (length ds') + 1 :: u32) = Suc (length ds')"
    proof -
      have "Suc (length ds') < 2 ^ LENGTH(32)" using lds dd by simp
      from unat_of_nat_lt [OF this] show ?thesis by (simp only: of_nat_Suc add.commute)
    qed
    moreover have "unat (nrcv_que k) = length (rcv_queue k)"
      using q(2) len by (simp add: unat_of_nat_lt)
    ultimately show ?thesis using q(1) dd by (simp add: word_less_nat_alt)
  qed
  define s where "s = frag_seg (fst (the (mem i))) d (length ds')"
  have qs: "rcv_queue k = s # frag_segs mem (Suc i) ds' @ rest"
    using q(1) dd by (simp add: s_def)
  have fr: "sg_frg s = of_nat (length ds')" by (simp add: s_def)
  have pk: "ikcp_peeksize k = (if sg_frg s = 0 then sint (sg_len s)
      else if nrcv_que k < sg_frg s + 1 then -1 else peek_sum 0 (rcv_queue k))"
    using qs by (simp add: ikcp_peeksize_def)
  have p0: "sg_frg s = 0 \<Longrightarrow> peek_sum 0 (rcv_queue k) = sint (sg_len s)"
    unfolding qs by simp
  show ?thesis using tot p0 nq fr pk by metis
qed

section \<open>Properties\<close>

text \<open>What is queued by a call: the segments in \<open>snd_queue\<close> after those that were there before.\<close>

definition queued :: "IKCPCB \<Rightarrow> IKCPCB \<Rightarrow> IKCPSEG list" where
  "queued k k' = drop (length (snd_queue k)) (snd_queue k')"

lemma sg_data_frag_segs: "map sg_data (frag_segs mem i ds) = ds"
  by (induction ds arbitrary: i) auto

lemma sg_frg_frag_segs: "map sg_frg (frag_segs mem i ds) = map of_nat (rev [0..<length ds])"
  by (induction ds arbitrary: i) auto

lemma frag_segs_len:
  "\<forall>d \<in> set ds. length d < 2 ^ 32 \<Longrightarrow> s \<in> set (frag_segs mem i ds) \<Longrightarrow> unat (sg_len s) = length (sg_data s) \<and> sg_data s \<in> set ds"
  by (induction ds arbitrary: i) (auto simp: unat_of_nat_lt)

text \<open>
  \<open>ikcp_send\<close> cuts a message into the least number of fragments of at most \<open>mss\<close> bytes,
  numbers them downwards to 0 and appends them to the queue; together they are the message.
  A message of more than 255 fragments is refused with -2 and nothing is queued.
\<close>

theorem ikcp_send_fragments:
  assumes "\<And>j. mem j \<noteq> None" and "0 < unat (mss k)" and "unat (mss k) < 2 ^ 31" and "length b < 2 ^ 31"
  shows "if frag_count (unat (mss k)) (length b) \<le> 255
    then \<exists>k'. ikcp_send mem k (Some b) (int (length b)) = Some (0, k') \<and>
      snd_queue k' = snd_queue k @ queued k k' \<and> length (queued k k') = frag_count (unat (mss k)) (length b) \<and>
      concat (map sg_data (queued k k')) = b \<and>
      map sg_frg (queued k k') = map of_nat (rev [0..<length (queued k k')]) \<and>
      (\<forall>s \<in> set (queued k k'). unat (sg_len s) = length (sg_data s) \<and> length (sg_data s) \<le> unat (mss k))
    else ikcp_send mem k (Some b) (int (length b)) = Some (-2, k)"
proof (cases "frag_count (unat (mss k)) (length b) \<le> 255")
  case False
  then show ?thesis using ikcp_send_split [OF assms(2-4)] by simp
next
  case True
  let ?n = "frag_count (unat (mss k)) (length b)"
  let ?p = "pieces (unat (mss k)) ?n b"
  let ?k = "k\<lparr>snd_queue := snd_queue k @ frag_segs mem 0 ?p, nsnd_que := nsnd_que k + of_nat ?n\<rparr>"
  have q: "queued k ?k = frag_segs mem 0 ?p" by (simp add: queued_def)
  have len: "\<forall>d \<in> set ?p. length d \<le> unat (mss k)" using pieces_bound by blast
  then have "\<forall>d \<in> set ?p. length d < 2 ^ 32" using assms(3) by fastforce
  note fs = frag_segs_len [OF this]
  have "concat (map sg_data (queued k ?k)) = b"
    unfolding q sg_data_frag_segs by (rule concat_pieces [OF frag_count_covers [OF assms(2)]])
  moreover have "map sg_frg (queued k ?k) = map of_nat (rev [0..<length (queued k ?k)])"
    unfolding q sg_frg_frag_segs by simp
  moreover have "\<forall>s \<in> set (queued k ?k). unat (sg_len s) = length (sg_data s) \<and> length (sg_data s) \<le> unat (mss k)"
    unfolding q using fs len by blast
  ultimately show ?thesis
    using True ikcp_send_ok [where mem = mem, OF assms(1-4) True] q by (intro if_P [THEN iffD2] exI [of _ ?k]) simp_all
qed

definition demo_mem :: "nat \<Rightarrow> seg_block option" where
  "demo_mem = (\<lambda>_. Some (blank_seg, \<lambda>_. 0))"

theorem ikcp_send_fragments_witness:
  "\<exists>k'. ikcp_send demo_mem (demo_kcb\<lparr>mss := 2\<rparr>) (Some [1, 2, 3]) 3 = Some (0, k') \<and>
     concat (map sg_data (queued (demo_kcb\<lparr>mss := 2\<rparr>) k')) = [1, 2, 3] \<and>
     map sg_frg (queued (demo_kcb\<lparr>mss := 2\<rparr>) k') = [1, 0]"
  using ikcp_send_fragments [of demo_mem "demo_kcb\<lparr>mss := 2\<rparr>" "[1, 2, 3]"]
  by (auto simp: demo_mem_def frag_count_def)

text \<open>The fragments of one call at the head of a receive queue are one complete message.\<close>

lemma queued_message:
  assumes mem: "\<And>j. mem j \<noteq> None" and m: "0 < unat (mss k)" "unat (mss k) < 2 ^ 31" and b: "length b < 2 ^ 31"
    and n: "frag_count (unat (mss k)) (length b) \<le> 255"
    and s: "ikcp_send mem k (Some b) (int (length b)) = Some (r, k')"
    and q: "rcv_queue kr = queued k k' @ rest" "nrcv_que kr = of_nat (length (rcv_queue kr))"
    and len: "length (rcv_queue kr) < 2 ^ 32"
  shows "r = 0" "rcv_queue kr \<noteq> []" "ikcp_peeksize kr = int (length b)"
    "concat (map payload (first_msg (rcv_queue kr))) = b" "drop (length (first_msg (rcv_queue kr))) (rcv_queue kr) = rest"
proof -
  let ?n = "frag_count (unat (mss k)) (length b)"
  let ?p = "pieces (unat (mss k)) ?n b"
  have k': "r = 0" "queued k k' = frag_segs mem 0 ?p"
    using ikcp_send_ok [where mem = mem, OF mem m b n] s by (auto simp: queued_def)
  show "r = 0" by (rule k'(1))
  have qs: "rcv_queue kr = frag_segs mem 0 ?p @ rest" using q(1) k'(2) by simp
  have c: "concat ?p = b" by (rule concat_pieces [OF frag_count_covers [OF m(1)]])
  have ne: "?p \<noteq> []" using frag_count_pos [OF m(1), of "length b"] by (cases ?n) auto
  show "ikcp_peeksize kr = int (length b)"
    using peeksize_frag_segs [OF qs q(2) ne _ len] c b by simp
  have sz: "\<forall>d \<in> set ?p. length d < 2 ^ 32" using pieces_bound m(2) by fastforce
  have "first_msg (rcv_queue kr) = frag_segs mem 0 ?p"
    unfolding qs using ne n by (intro first_msg_frag_segs) simp_all
  then show "concat (map payload (first_msg (rcv_queue kr))) = b" "drop (length (first_msg (rcv_queue kr))) (rcv_queue kr) = rest"
    using payload_frag_segs [OF sz] c qs by simp_all
  show "rcv_queue kr \<noteq> []" unfolding qs using ne by (cases ?p) auto
qed

text \<open>
  What \<open>ikcp_send\<close> cuts, \<open>ikcp_recv\<close> puts together: when the fragments of an accepted
  message are at the head of the receive queue, whatever header fields they got on the way,
  the user reads the message, and the following segments stay queued.
\<close>

theorem send_recv_roundtrip:
  assumes "\<And>j. mem j \<noteq> None" and "0 < unat (mss k)" and "unat (mss k) < 2 ^ 31" and "length b < 2 ^ 31"
    and "frag_count (unat (mss k)) (length b) \<le> 255"
    and "ikcp_send mem k (Some b) (int (length b)) = Some (r, k')"
    and "rcv_queue kr = queued k k' @ rest" and "nrcv_que kr = of_nat (length (rcv_queue kr))"
    and "length (rcv_queue kr) < 2 ^ 32"
  shows "r = 0 \<and> (\<exists>kr' ds. ikcp_recv kr True (int (length b)) = Some (int (length b), b, kr') \<and>
    rcv_queue kr' = rest @ ds)"
proof -
  note q = queued_message [where mem = mem, OF assms]
  obtain n d kr' where rr: "ikcp_recv kr True (int (length b)) = Some (n, d, kr')" using ikcp_recv_some by blast
  then show ?thesis
  proof (cases rule: ikcp_recv_result)
    case 1
    then show ?thesis using q(2,3) by simp
  next
    case (2 c' x)
    let ?k = "recv_take c' kr"
    obtain ds rst where "move_ready (rcv_buf ?k) ?k =
        ?k\<lparr>rcv_buf := rst, nrcv_buf := nrcv_buf ?k - of_nat (length ds), rcv_queue := rcv_queue ?k @ ds,
          nrcv_que := nrcv_que ?k + of_nat (length ds), rcv_nxt := rcv_nxt ?k + of_nat (length ds)\<rparr>"
      using move_ready_spec [of ?k "rcv_buf ?k"] by blast
    then have "rcv_queue kr' = rest @ ds" using 2(4,5) q(5) by (simp add: recv_take_def)
    then show ?thesis using q(1,3,4) rr 2(2,6) by auto
  qed
qed

text \<open>The control block of the example with a segment size of 2, after sending three bytes.\<close>

definition demo_sent :: IKCPCB where
  "demo_sent = demo_kcb\<lparr>mss := 2, nsnd_que := 2,
     snd_queue := [frag_seg blank_seg [1, 2] 1, frag_seg blank_seg [3] 0]\<rparr>"

lemma demo_send: "ikcp_send demo_mem (demo_kcb\<lparr>mss := 2\<rparr>) (Some [1, 2, 3]) 3 = Some (0, demo_sent)"
proof -
  have "pieces 2 2 [1, 2, 3 :: byte] = [[1, 2], [3]]" by (simp add: numeral_2_eq_2)
  then show ?thesis
    using ikcp_send_ok [of demo_mem "demo_kcb\<lparr>mss := 2\<rparr>" "[1, 2, 3]"]
    by (simp add: demo_mem_def frag_count_def demo_sent_def)
qed

theorem send_recv_roundtrip_witness:
  "\<exists>kr' ds. ikcp_recv (demo_kcb\<lparr>nrcv_que := 2, rcv_queue := snd_queue demo_sent\<rparr>) True 3 =
     Some (3, [1, 2, 3], kr') \<and> rcv_queue kr' = ds"
  using send_recv_roundtrip [of demo_mem "demo_kcb\<lparr>mss := 2\<rparr>" "[1, 2, 3]" 0 demo_sent
      "demo_kcb\<lparr>nrcv_que := 2, rcv_queue := snd_queue demo_sent\<rparr>" "[]"] demo_send
  by (simp add: demo_mem_def frag_count_def queued_def) (simp add: demo_sent_def)

end
