(* ===== verification/Ikcp_Ack.thy ===== *)
theory Ikcp_Ack
  imports Ikcp_Base
begin

text \<open>
  Acknowledgement handling of \<open>src/src/ikcp.c\<close>: the round trip estimator
  \<open>ikcp_update_ack\<close>, the removal of acknowledged segments from \<open>snd_buf\<close>
  (\<open>ikcp_parse_ack\<close>, \<open>ikcp_parse_una\<close>, \<open>ikcp_shrink_buf\<close>), the duplicate
  acknowledgement counters (\<open>ikcp_parse_fastack\<close>) and the growing array of pending
  acknowledgements (\<open>ikcp_ack_push\<close>, \<open>ikcp_ack_get\<close>).

  The invariant \<open>snd_inv\<close> says that \<open>snd_buf\<close> is strictly sorted by the distance from
  \<open>snd_una\<close> and inside the numbers already sent. The lemmas show that the functions keep it,
  that the early exits of the loops remove and count exactly the right segments, that the
  retransmission timeout stays within its bounds whatever timestamps the peer sends, and
  that the array is a list of pairs in order of arrival.
\<close>

section \<open>The model\<close>

definition ikcp_update_ack :: "IKCPCB \<Rightarrow> int \<Rightarrow> IKCPCB" where
  "ikcp_update_ack k rtt =
     (let k1 = (if rx_srtt k = 0 then k\<lparr>rx_srtt := rtt, rx_rttval := rtt sdiv 2\<rparr>
                else
                  (let delta = wrap32 (rtt - rx_srtt k);
                       delta = (if delta < 0 then - delta else delta);
                       rttval = wrap32 ((wrap32 (3 * rx_rttval k) + delta) sdiv 4);
                       srtt = wrap32 (7 * rx_srtt k + rtt) sdiv 8;
                       srtt = (if srtt < 1 then 1 else srtt)
                   in k\<lparr>rx_rttval := rttval, rx_srtt := srtt\<rparr>));
          rto = sint (word_of_int (rx_srtt k1) + imax 1 (word_of_int (4 * rx_rttval k1)))
      in k1\<lparr>rx_rto := sint (ibound (word_of_int (rx_minrto k1)) (word_of_int rto) IKCP_RTO_MAX)\<rparr>)"

definition ikcp_shrink_buf :: "IKCPCB \<Rightarrow> IKCPCB" where
  "ikcp_shrink_buf k =
     (case snd_buf k of
        s # _ \<Rightarrow> k\<lparr>snd_una := sg_sn s\<rparr>
      | [] \<Rightarrow> k\<lparr>snd_una := snd_nxt k\<rparr>)"

text \<open>The loop of \<open>ikcp_parse_ack\<close>: whether a segment was removed, and the buffer left.\<close>

fun remove_acked :: "u32 \<Rightarrow> IKCPSEG list \<Rightarrow> bool \<times> IKCPSEG list" where
  "remove_acked sn [] = (False, [])"
| "remove_acked sn (s # ss) =
     (if sn = sg_sn s then (True, ss)
      else if itimediff sn (sg_sn s) < 0 then (False, s # ss)
      else let (f, r) = remove_acked sn ss in (f, s # r))"

definition ikcp_parse_ack :: "IKCPCB \<Rightarrow> u32 \<Rightarrow> IKCPCB" where
  "ikcp_parse_ack k sn =
     (if itimediff sn (snd_una k) < 0 \<or> itimediff sn (snd_nxt k) \<ge> 0 then k
      else
        (let (f, r) = remove_acked sn (snd_buf k)
         in k\<lparr>snd_buf := r, nsnd_buf := (if f then nsnd_buf k - 1 else nsnd_buf k)\<rparr>))"

text \<open>The loop of \<open>ikcp_parse_una\<close>: the number of segments removed and the buffer left.\<close>

fun remove_una :: "u32 \<Rightarrow> IKCPSEG list \<Rightarrow> nat \<times> IKCPSEG list" where
  "remove_una una [] = (0, [])"
| "remove_una una (s # ss) =
     (if itimediff una (sg_sn s) > 0 then let (n, r) = remove_una una ss in (Suc n, r)
      else (0, s # ss))"

definition ikcp_parse_una :: "IKCPCB \<Rightarrow> u32 \<Rightarrow> IKCPCB" where
  "ikcp_parse_una k una =
     (let (n, r) = remove_una una (snd_buf k)
      in k\<lparr>snd_buf := r, nsnd_buf := nsnd_buf k - of_nat n\<rparr>)"

fun bump_fastack :: "u32 \<Rightarrow> IKCPSEG list \<Rightarrow> IKCPSEG list" where
  "bump_fastack sn [] = []"
| "bump_fastack sn (s # ss) =
     (if itimediff sn (sg_sn s) < 0 then s # ss
      else if sn \<noteq> sg_sn s then s\<lparr>sg_fastack := sg_fastack s + 1\<rparr> # bump_fastack sn ss
      else s # bump_fastack sn ss)"

definition ikcp_parse_fastack :: "IKCPCB \<Rightarrow> u32 \<Rightarrow> IKCPCB" where
  "ikcp_parse_fastack k sn =
     (if itimediff sn (snd_una k) < 0 \<or> itimediff sn (snd_nxt k) \<ge> 0 then k
      else k\<lparr>snd_buf := bump_fastack sn (snd_buf k)\<rparr>)"

text \<open>
  The loop \<open>for (newblock = 8; newblock < newsize; newblock <<= 1)\<close> of \<open>ikcp_ack_push\<close>, on
  \<open>size_t\<close> values below \<open>2^33\<close>; it starts at 8, the test for 0 only makes it total.
\<close>

function grow_block :: "nat \<Rightarrow> nat \<Rightarrow> nat" where
  "grow_block nb ns = (if nb \<noteq> 0 \<and> nb < ns then grow_block (2 * nb) ns else nb)"
  by pat_completeness auto
termination
  by (relation "measure (\<lambda>(nb, ns). ns - nb)") auto

declare grow_block.simps [simp del]

text \<open>
  \<open>ikcp_ack_push\<close>: the first argument is what \<open>malloc\<close> returns if the array has to grow,
  \<open>None\<close> for a null pointer (then the function aborts) and otherwise the indeterminate
  contents. \<open>None\<close> is also an access outside the array.
\<close>

definition ikcp_ack_push :: "(nat \<Rightarrow> u32) option \<Rightarrow> IKCPCB \<Rightarrow> u32 \<Rightarrow> u32 \<Rightarrow> IKCPCB option" where
  "ikcp_ack_push mem k sn ts =
     (let newsize = unat (ackcount k + 1) in
      do {
        k1 \<leftarrow> (if newsize > unat (ackblock k) then
                 (let newblock = grow_block 8 newsize in
                  do {
                    f \<leftarrow> mem;
                    let arr = map f [0..<2 * newblock];
                    arr \<leftarrow> (case acklist k of
                             None \<Rightarrow> Some arr
                           | Some old \<Rightarrow>
                               do { x \<leftarrow> fetch old 0 (2 * unat (ackcount k)); blit arr 0 x });
                    Some (k\<lparr>acklist := Some arr, ackblock := of_nat newblock\<rparr>)
                  })
               else Some k);
        arr \<leftarrow> acklist k1;
        arr \<leftarrow> blit arr (unat (ackcount k1 * 2)) [sn, ts];
        Some (k1\<lparr>acklist := Some arr, ackcount := ackcount k1 + 1\<rparr>)
      })"

text \<open>\<open>ikcp_ack_get\<close>: the sequence number and the timestamp of entry \<open>p\<close>.\<close>

definition ikcp_ack_get :: "IKCPCB \<Rightarrow> nat \<Rightarrow> (u32 \<times> u32) option" where
  "ikcp_ack_get k p =
     (case acklist k of None \<Rightarrow> None
      | Some l \<Rightarrow> if 2 * p + 1 < length l then Some (l ! (p * 2 + 0), l ! (p * 2 + 1)) else None)"

section \<open>Invariants\<close>

definition snd_off :: "IKCPCB \<Rightarrow> IKCPSEG \<Rightarrow> nat" where
  "snd_off k s = unat (sg_sn s - snd_una k)"

definition snd_inv :: "IKCPCB \<Rightarrow> bool" where
  "snd_inv k \<longleftrightarrow>
     unat (snd_nxt k - snd_una k) < 2 ^ 31 \<and>
     nsnd_buf k = of_nat (length (snd_buf k)) \<and> nsnd_que k = of_nat (length (snd_queue k)) \<and>
     sorted_wrt (<) (map (snd_off k) (snd_buf k)) \<and>
     (\<forall>s \<in> set (snd_buf k). snd_off k s < unat (snd_nxt k - snd_una k))"

definition ack_inv :: "IKCPCB \<Rightarrow> bool" where
  "ack_inv k \<longleftrightarrow>
     unat (ackcount k) \<le> unat (ackblock k) \<and>
     (case acklist k of None \<Rightarrow> ackblock k = 0 | Some l \<Rightarrow> length l = 2 * unat (ackblock k))"

text \<open>The pending acknowledgements, oldest first.\<close>

definition ack_pairs :: "IKCPCB \<Rightarrow> (u32 \<times> u32) list" where
  "ack_pairs k =
     (case acklist k of None \<Rightarrow> []
      | Some l \<Rightarrow> map (\<lambda>i. (l ! (2 * i), l ! (2 * i + 1))) [0..<unat (ackcount k)])"

section \<open>Retransmission timeout\<close>

lemma ibound_range:
  assumes "unat lo \<le> unat hi"
  shows "unat lo \<le> unat (ibound lo m hi)" "unat (ibound lo m hi) \<le> unat hi"
  using assms by (simp_all add: ibound_unat)

lemma update_ack_frame:
  "\<exists>a b m. ikcp_update_ack k rtt = k\<lparr>rx_rttval := a, rx_srtt := b,
     rx_rto := sint (ibound (word_of_int (rx_minrto k)) m IKCP_RTO_MAX)\<rparr>"
proof (cases "rx_srtt k = 0")
  case True
  then have "ikcp_update_ack k rtt = k\<lparr>rx_rttval := rtt sdiv 2, rx_srtt := rtt,
     rx_rto := sint (ibound (word_of_int (rx_minrto k))
       (word_of_int (sint (word_of_int rtt + imax 1 (word_of_int (4 * (rtt sdiv 2)))))) IKCP_RTO_MAX)\<rparr>"
    by (simp add: ikcp_update_ack_def Let_def)
  then show ?thesis by blast
next
  case False
  then show ?thesis unfolding ikcp_update_ack_def Let_def by (simp only: if_False) auto
qed

lemma update_ack_rto:
  assumes "0 \<le> rx_minrto k" and "rx_minrto k \<le> 60000"
  shows "rx_minrto k \<le> rx_rto (ikcp_update_ack k rtt)" "rx_rto (ikcp_update_ack k rtt) \<le> 60000"
proof -
  obtain m where rto: "rx_rto (ikcp_update_ack k rtt) = sint (ibound (word_of_int (rx_minrto k)) m 60000)"
    using update_ack_frame [of k rtt] by auto
  let ?b = "ibound (word_of_int (rx_minrto k)) m 60000"
  have lo: "uint (word_of_int (rx_minrto k) :: u32) = rx_minrto k"
    using assms by (simp add: uint_word_of_int)
  have "(word_of_int (rx_minrto k) :: u32) \<le> 60000"
    using lo assms by (simp add: word_le_def)
  then have "unat (word_of_int (rx_minrto k) :: u32) \<le> unat (60000 :: u32)"
    by (simp only: word_le_nat_alt)
  note r = ibound_range [OF this, of m]
  then have "unat ?b \<le> 60000" by simp
  then have s: "sint ?b = uint ?b" by (intro sint_u32_alt [THEN trans]) (simp flip: unat_less_uint)
  have "word_of_int (rx_minrto k) \<le> ?b" "?b \<le> 60000" using r by (simp_all add: word_le_nat_alt)
  then show "rx_minrto k \<le> rx_rto (ikcp_update_ack k rtt)" "rx_rto (ikcp_update_ack k rtt) \<le> 60000"
    using s lo rto by (simp_all add: word_le_def)
qed

section \<open>Removing acknowledged segments\<close>

lemma remove_acked_sorted:
  assumes "sorted_wrt (\<lambda>s t. unat (sg_sn s - base) < unat (sg_sn t - base)) ss"
    and "\<forall>s \<in> set ss. unat (sg_sn s - base) < 2 ^ 31" and "unat (sn - base) < 2 ^ 31"
  shows "remove_acked sn ss = (sn \<in> sg_sn ` set ss, filter (\<lambda>s. sg_sn s \<noteq> sn) ss)"
  using assms
proof (induction ss)
  case (Cons s ss)
  have w: "unat (sg_sn s - base) < 2 ^ 31" using Cons.prems(2) by simp
  have IH: "remove_acked sn ss = (sn \<in> sg_sn ` set ss, filter (\<lambda>s. sg_sn s \<noteq> sn) ss)"
    using Cons by simp
  consider (eq) "sn = sg_sn s" | (lt) "sn \<noteq> sg_sn s" "unat (sn - base) < unat (sg_sn s - base)"
    | (gt) "sn \<noteq> sg_sn s" "\<not> unat (sn - base) < unat (sg_sn s - base)" by blast
  then show ?case
  proof cases
    case eq
    then have "\<forall>t \<in> set ss. sg_sn t \<noteq> sn" using Cons.prems(1) by fastforce
    then show ?thesis using eq by (auto simp: filter_id_conv)
  next
    case lt
    then have "\<forall>t \<in> set ss. sg_sn t \<noteq> sn" using Cons.prems(1) by fastforce
    moreover have "itimediff sn (sg_sn s) < 0" using lt itimediff_off(2) [OF Cons.prems(3) w] by simp
    ultimately show ?thesis using lt by (auto simp: filter_id_conv)
  next
    case gt
    then show ?thesis using IH itimediff_off(2) [OF Cons.prems(3) w] by auto
  qed
qed simp

lemma snd_inv_sorted:
  assumes "snd_inv k"
  shows "sorted_wrt (\<lambda>s t. unat (sg_sn s - snd_una k) < unat (sg_sn t - snd_una k)) (snd_buf k)"
    and "\<forall>s \<in> set (snd_buf k). unat (sg_sn s - snd_una k) < 2 ^ 31"
  using assms by (fastforce simp: snd_inv_def snd_off_def sorted_wrt_map)+

lemma snd_buf_distinct:
  assumes "snd_inv k" shows "distinct (map sg_sn (snd_buf k))"
proof -
  have "distinct (map (snd_off k) (snd_buf k))"
    using assms by (simp add: snd_inv_def strict_sorted_iff)
  moreover have "map (snd_off k) (snd_buf k) = map (\<lambda>x. unat (x - snd_una k)) (map sg_sn (snd_buf k))"
    by (simp add: snd_off_def)
  ultimately show ?thesis by (metis distinct_map)
qed

text \<open>The window guard shared by \<open>ikcp_parse_ack\<close> and \<open>ikcp_parse_fastack\<close>.\<close>

lemma snd_window:
  assumes "unat (snd_nxt k - snd_una k) < 2 ^ 31"
  shows "\<not> (itimediff sn (snd_una k) < 0 \<or> itimediff sn (snd_nxt k) \<ge> 0) \<longleftrightarrow>
    unat (sn - snd_una k) < unat (snd_nxt k - snd_una k)"
proof (cases "unat (sn - snd_una k) < 2 ^ 31")
  case True
  then show ?thesis
    using itimediff_off(2) [OF True assms] by (auto simp: seq_simps not_le not_less)
next
  case False
  then show ?thesis using assms by (simp add: seq_simps)
qed

lemma parse_ack_filter:
  assumes inv: "snd_inv k"
  shows "ikcp_parse_ack k sn = k\<lparr>snd_buf := filter (\<lambda>s. sg_sn s \<noteq> sn) (snd_buf k),
    nsnd_buf := of_nat (length (filter (\<lambda>s. sg_sn s \<noteq> sn) (snd_buf k)))\<rparr>"
proof (cases "unat (sn - snd_una k) < unat (snd_nxt k - snd_una k)")
  case True
  have w: "unat (snd_nxt k - snd_una k) < 2 ^ 31" using inv by (simp add: snd_inv_def)
  have r: "remove_acked sn (snd_buf k) =
      (sn \<in> sg_sn ` set (snd_buf k), filter (\<lambda>s. sg_sn s \<noteq> sn) (snd_buf k))"
    using True w by (intro remove_acked_sorted [OF snd_inv_sorted [OF inv]]) simp
  have "length (snd_buf k) =
      length (filter (\<lambda>s. sg_sn s \<noteq> sn) (snd_buf k)) + (if sn \<in> sg_sn ` set (snd_buf k) then 1 else 0)"
    by (rule length_filter_neq [OF snd_buf_distinct [OF inv]])
  then have "(if sn \<in> sg_sn ` set (snd_buf k) then nsnd_buf k - 1 else nsnd_buf k) =
      of_nat (length (filter (\<lambda>s. sg_sn s \<noteq> sn) (snd_buf k)))"
    using inv by (auto simp: snd_inv_def)
  then show ?thesis
    using True snd_window [OF w, of sn] r by (simp add: ikcp_parse_ack_def)
next
  case False
  have w: "unat (snd_nxt k - snd_una k) < 2 ^ 31" using inv by (simp add: snd_inv_def)
  have "filter (\<lambda>s. sg_sn s \<noteq> sn) (snd_buf k) = snd_buf k"
    using inv False by (fastforce simp: filter_id_conv snd_inv_def snd_off_def)
  then show ?thesis
    using False snd_window [OF w, of sn] inv by (auto simp: ikcp_parse_ack_def snd_inv_def)
qed

text \<open>A cumulative acknowledgement inside the window removes exactly the earlier segments.\<close>

lemma remove_una_sorted:
  assumes "sorted_wrt (\<lambda>s t. unat (sg_sn s - base) < unat (sg_sn t - base)) ss"
    and "\<forall>s \<in> set ss. unat (sg_sn s - base) < 2 ^ 31" and "unat (una - base) < 2 ^ 31"
  shows "snd (remove_una una ss) = filter (\<lambda>s. unat (una - base) \<le> unat (sg_sn s - base)) ss"
  using assms
proof (induction ss)
  case (Cons s ss)
  have w: "unat (sg_sn s - base) < 2 ^ 31" using Cons.prems(2) by simp
  note cmp = itimediff_off(1) [OF Cons.prems(3) w]
  show ?case
  proof (cases "unat (sg_sn s - base) < unat (una - base)")
    case True
    then show ?thesis using Cons cmp by (simp add: case_prod_beta)
  next
    case False
    then have "\<forall>t \<in> set ss. unat (una - base) \<le> unat (sg_sn t - base)"
      using Cons.prems(1) by fastforce
    then show ?thesis using False cmp by (simp add: filter_id_conv [THEN iffD2])
  qed
qed simp

lemma remove_una_length: "length ss = fst (remove_una una ss) + length (snd (remove_una una ss))"
  by (induction ss) (auto simp: case_prod_beta)

lemma remove_una_suffix: "snd (remove_una una ss) = drop (fst (remove_una una ss)) ss"
  by (induction ss) (auto simp: case_prod_beta)

lemma parse_una_alt:
  assumes "snd_inv k"
  shows "ikcp_parse_una k una = k\<lparr>snd_buf := drop (fst (remove_una una (snd_buf k))) (snd_buf k),
    nsnd_buf := of_nat (length (drop (fst (remove_una una (snd_buf k))) (snd_buf k)))\<rparr>"
proof -
  have "nsnd_buf k - of_nat (fst (remove_una una (snd_buf k))) = of_nat (length (snd (remove_una una (snd_buf k))))"
    using assms remove_una_length [of "snd_buf k" una] by (simp add: snd_inv_def)
  then show ?thesis
    by (simp add: ikcp_parse_una_def case_prod_beta remove_una_suffix)
qed

lemma parse_una_filter:
  assumes inv: "snd_inv k" and una: "unat (una - snd_una k) \<le> unat (snd_nxt k - snd_una k)"
  shows "snd_buf (ikcp_parse_una k una) = filter (\<lambda>s. unat (una - snd_una k) \<le> snd_off k s) (snd_buf k)"
proof -
  have "unat (una - snd_una k) < 2 ^ 31" using inv una by (simp add: snd_inv_def)
  then show ?thesis
    using remove_una_sorted [OF snd_inv_sorted [OF inv]]
    by (simp add: ikcp_parse_una_def case_prod_beta snd_off_def)
qed

section \<open>The invariant is kept\<close>

lemma snd_inv_sublist:
  assumes "snd_inv k" and "sorted_wrt (<) (map (snd_off k) b)" and "set b \<subseteq> set (snd_buf k)"
    and "n = of_nat (length b)"
  shows "snd_inv (k\<lparr>snd_buf := b, nsnd_buf := n\<rparr>)"
proof -
  have "snd_off (k\<lparr>snd_buf := b, nsnd_buf := n\<rparr>) = snd_off k" by (auto simp: snd_off_def)
  then show ?thesis using assms by (auto simp: snd_inv_def)
qed

lemma parse_ack_inv: "snd_inv k \<Longrightarrow> snd_inv (ikcp_parse_ack k sn)"
  by (subst parse_ack_filter, assumption, rule snd_inv_sublist)
    (auto simp: snd_inv_def sorted_wrt_map intro: sorted_wrt_filter)

lemma parse_una_inv: "snd_inv k \<Longrightarrow> snd_inv (ikcp_parse_una k una)"
  by (subst parse_una_alt, assumption, rule snd_inv_sublist)
    (auto simp: snd_inv_def drop_map [symmetric] intro: sorted_wrt_drop dest: in_set_dropD)

lemma shrink_buf_inv:
  assumes inv: "snd_inv k"
  shows "snd_inv (ikcp_shrink_buf k)"
proof (cases "snd_buf k")
  case Nil
  then show ?thesis using inv by (simp add: ikcp_shrink_buf_def snd_inv_def)
next
  case (Cons s ss)
  let ?k = "ikcp_shrink_buf k"
  have k': "?k = k\<lparr>snd_una := sg_sn s\<rparr>" using Cons by (simp add: ikcp_shrink_buf_def)
  have le: "snd_off k s \<le> snd_off k t" if "t \<in> set (snd_buf k)" for t
    using inv Cons that by (fastforce simp: snd_inv_def)
  have off: "snd_off ?k t = snd_off k t - snd_off k s" if "t \<in> set (snd_buf k)" for t
    using unat_diff_shift [of "sg_sn s" "snd_una k" "sg_sn t"] le [OF that] by (simp add: k' snd_off_def)
  have lt: "snd_off k s < unat (snd_nxt k - snd_una k)" using inv Cons by (simp add: snd_inv_def)
  have w: "unat (snd_nxt ?k - snd_una ?k) = unat (snd_nxt k - snd_una k) - snd_off k s"
    using unat_diff_shift [of "sg_sn s" "snd_una k" "snd_nxt k"] lt by (simp add: k' snd_off_def)
  have "sorted_wrt (<) (map (snd_off ?k) (snd_buf k))"
    unfolding sorted_wrt_map
    by (rule sorted_wrt_mono_rel [of _ "\<lambda>x y. snd_off k x < snd_off k y"])
      (use inv off le in \<open>auto simp: snd_inv_def sorted_wrt_map diff_less_mono\<close>)
  moreover have "\<forall>t \<in> set (snd_buf k). snd_off ?k t < unat (snd_nxt ?k - snd_una ?k)"
    using inv off le w by (auto simp: snd_inv_def diff_less_mono)
  ultimately show ?thesis
    using inv w by (auto simp: snd_inv_def k')
qed

section \<open>Duplicate acknowledgements\<close>

lemma bump_fastack_sorted:
  assumes "sorted_wrt (\<lambda>s t. unat (sg_sn s - base) < unat (sg_sn t - base)) ss"
    and "\<forall>s \<in> set ss. unat (sg_sn s - base) < 2 ^ 31" and "unat (sn - base) < 2 ^ 31"
  shows "bump_fastack sn ss = map (\<lambda>s. if unat (sg_sn s - base) < unat (sn - base)
    then s\<lparr>sg_fastack := sg_fastack s + 1\<rparr> else s) ss"
  using assms
proof (induction ss)
  case (Cons s ss)
  have w: "unat (sg_sn s - base) < 2 ^ 31" using Cons.prems(2) by simp
  note cmp = itimediff_off(2) [OF Cons.prems(3) w]
  show ?case
  proof (cases "unat (sn - base) < unat (sg_sn s - base)")
    case True
    then have "\<forall>t \<in> set ss. \<not> unat (sg_sn t - base) < unat (sn - base)"
      using Cons.prems(1) by fastforce
    then show ?thesis using True cmp by (auto intro: map_idI [symmetric])
  next
    case False
    then show ?thesis using Cons cmp off_eq_iff [of "sg_sn s" base sn] by auto
  qed
qed simp

lemma parse_fastack_map:
  assumes inv: "snd_inv k"
  shows "ikcp_parse_fastack k sn =
    (if unat (sn - snd_una k) < unat (snd_nxt k - snd_una k)
     then k\<lparr>snd_buf := map (\<lambda>s. if snd_off k s < unat (sn - snd_una k)
       then s\<lparr>sg_fastack := sg_fastack s + 1\<rparr> else s) (snd_buf k)\<rparr>
     else k)"
proof -
  have w: "unat (snd_nxt k - snd_una k) < 2 ^ 31" using inv by (simp add: snd_inv_def)
  then show ?thesis
    using snd_window [OF w, of sn] bump_fastack_sorted [OF snd_inv_sorted [OF inv], of sn]
    by (auto simp: ikcp_parse_fastack_def snd_off_def)
qed

text \<open>Updates of the buffered segments that keep their numbers keep the invariant.\<close>

lemma snd_inv_map:
  assumes "snd_inv k" and "\<And>s. s \<in> set (snd_buf k) \<Longrightarrow> sg_sn (f s) = sg_sn s"
  shows "snd_inv (k\<lparr>snd_buf := map f (snd_buf k)\<rparr>)"
proof -
  have off: "snd_off (k\<lparr>snd_buf := b\<rparr>) = snd_off k" for b by (auto simp: snd_off_def)
  have f: "snd_off k (f s) = snd_off k s" if "s \<in> set (snd_buf k)" for s
    using assms(2) [OF that] by (simp add: snd_off_def)
  then have eq: "map (snd_off k \<circ> f) (snd_buf k) = map (snd_off k) (snd_buf k)" by simp
  then show ?thesis using assms f by (simp add: snd_inv_def off eq)
qed

lemma parse_fastack_inv: "snd_inv k \<Longrightarrow> snd_inv (ikcp_parse_fastack k sn)"
  by (simp add: parse_fastack_map snd_inv_map)

section \<open>Pending acknowledgements\<close>

lemma grow_block_ge: "nb \<noteq> 0 \<Longrightarrow> ns \<le> grow_block nb ns"
proof (induction nb ns rule: grow_block.induct)
  case (1 nb ns)
  then show ?case by (subst grow_block.simps) auto
qed

lemma grow_block_le: "nb \<noteq> 0 \<Longrightarrow> grow_block nb ns \<le> max nb (2 * ns)"
proof (induction nb ns rule: grow_block.induct)
  case (1 nb ns)
  then show ?case by (subst grow_block.simps) auto
qed

lemma ack_get_pairs:
  "ack_inv k \<Longrightarrow> p < unat (ackcount k) \<Longrightarrow> ikcp_ack_get k p = Some (ack_pairs k ! p)"
  by (auto simp: ack_inv_def ikcp_ack_get_def ack_pairs_def mult.commute split: option.splits)

lemma length_ack_pairs: "ack_inv k \<Longrightarrow> length (ack_pairs k) = unat (ackcount k)"
  by (auto simp: ack_inv_def ack_pairs_def split: option.splits)

text \<open>The array and the capacity \<open>ikcp_ack_push\<close> stores the new pair into.\<close>

definition ack_room :: "(nat \<Rightarrow> u32) \<Rightarrow> IKCPCB \<Rightarrow> (u32 list \<times> nat) option" where
  "ack_room f k =
     (if unat (ackcount k) < unat (ackblock k)
      then map_option (\<lambda>l. (l, unat (ackblock k))) (acklist k)
      else
        (let nb = grow_block 8 (Suc (unat (ackcount k)));
             arr = map f [0..<2 * nb]
         in case acklist k of None \<Rightarrow> Some (arr, nb)
            | Some old \<Rightarrow> do { x \<leftarrow> fetch old 0 (2 * unat (ackcount k)); a \<leftarrow> blit arr 0 x; Some (a, nb) }))"

lemma ack_push_room:
  assumes "unat (ackcount k) < 2 ^ 30"
  shows "ikcp_ack_push (Some f) k sn ts =
    do { (a, nb) \<leftarrow> ack_room f k; arr \<leftarrow> blit a (2 * unat (ackcount k)) [sn, ts];
         Some (k\<lparr>acklist := Some arr, ackcount := ackcount k + 1, ackblock := of_nat nb\<rparr>) }"
proof -
  have c: "unat (ackcount k + 1) = Suc (unat (ackcount k))" "unat (ackcount k * 2) = 2 * unat (ackcount k)"
    using assms by (simp_all add: unat_word_ariths)
  show ?thesis
    by (cases "acklist k"; cases "fetch (the (acklist k)) 0 (2 * unat (ackcount k))")
      (auto simp: ikcp_ack_push_def ack_room_def c Let_def Suc_le_eq not_less
        split: Option.bind_splits)
qed

lemma ack_room_ok:
  assumes inv: "ack_inv k" and cnt: "unat (ackcount k) < 2 ^ 30"
  obtains a nb where "ack_room f k = Some (a, nb)" "unat (ackcount k) < nb" "nb < 2 ^ 32"
    "length a = 2 * nb" "map (\<lambda>i. (a ! (2 * i), a ! (2 * i + 1))) [0..<unat (ackcount k)] = ack_pairs k"
proof (cases "unat (ackcount k) < unat (ackblock k)")
  case True
  then obtain l where "acklist k = Some l" "length l = 2 * unat (ackblock k)"
    using inv by (auto simp: ack_inv_def split: option.splits)
  then show ?thesis
    using True that [of l "unat (ackblock k)"] unat_u32_bound [of "ackblock k"]
    by (simp add: ack_room_def ack_pairs_def)
next
  case False
  then have eq: "ackcount k = ackblock k" using inv by (simp add: ack_inv_def word_unat_eq_iff)
  define nb where "nb = grow_block 8 (Suc (unat (ackcount k)))"
  have nb: "unat (ackcount k) < nb" "nb < 2 ^ 32"
    using grow_block_ge [of 8 "Suc (unat (ackcount k))"] grow_block_le [of 8 "Suc (unat (ackcount k))"] cnt
    by (auto simp: nb_def)
  show ?thesis
  proof (cases "acklist k")
    case None
    then show ?thesis
      using that [of "map f [0..<2 * nb]" nb] nb False inv
      by (simp add: ack_room_def nb_def [symmetric] Let_def ack_pairs_def ack_inv_def)
  next
    case (Some old)
    then have len: "length old = 2 * unat (ackcount k)" using inv eq by (simp add: ack_inv_def)
    have "0 + length old \<le> length (map f [0..<2 * nb])" using len nb by simp
    then obtain arr where arr: "blit (map f [0..<2 * nb]) 0 old = Some arr" by (rule blit_fits)
    moreover have "arr ! j = old ! j" if "j < 2 * unat (ackcount k)" for j
      using blit_nth [OF arr, of j] that len nb by simp
    ultimately show ?thesis
      using that [of arr nb] blit_length [OF arr] nb len Some False
      by (simp add: ack_room_def nb_def [symmetric] Let_def fetch_def ack_pairs_def)
  qed
qed

lemma ikcp_ack_push_ok:
  assumes inv: "ack_inv k" and cnt: "unat (ackcount k) < 2 ^ 30"
  obtains arr blk where "ikcp_ack_push (Some f) k sn ts =
      Some (k\<lparr>acklist := Some arr, ackcount := ackcount k + 1, ackblock := blk\<rparr>)"
    and "ack_inv (k\<lparr>acklist := Some arr, ackcount := ackcount k + 1, ackblock := blk\<rparr>)"
    and "ack_pairs (k\<lparr>acklist := Some arr, ackcount := ackcount k + 1, ackblock := blk\<rparr>) =
      ack_pairs k @ [(sn, ts)]"
proof -
  let ?c = "unat (ackcount k)"
  obtain a nb where room: "ack_room f k = Some (a, nb)" and nb: "?c < nb" "nb < 2 ^ 32"
    and a: "length a = 2 * nb" "map (\<lambda>i. (a ! (2 * i), a ! (2 * i + 1))) [0..<?c] = ack_pairs k"
    using ack_room_ok [OF assms] by blast
  have "2 * ?c + length [sn, ts] \<le> length a" using a(1) nb by simp
  then obtain arr where arr: "blit a (2 * ?c) [sn, ts] = Some arr" by (rule blit_fits)
  have nth: "arr ! j = (if j = 2 * ?c then sn else if j = 2 * ?c + 1 then ts else a ! j)"
    if "j < length a" for j
    using blit_nth [OF arr that] by (auto simp: nth_Cons' le_Suc_eq)
  have old: "map (\<lambda>i. (arr ! (2 * i), arr ! (2 * i + 1))) [0..<?c] = ack_pairs k"
    using a(1) nb nth unfolding a(2) [symmetric] by auto
  have new: "arr ! (2 * ?c) = sn" "arr ! (2 * ?c + 1) = ts" using nth a(1) nb by auto
  have c1: "unat (ackcount k + 1) = Suc ?c" using cnt by (simp add: unat_word_ariths)
  have blk: "unat (of_nat nb :: u32) = nb" using nb(2) by (simp add: unat_of_nat_lt)
  show ?thesis
  proof (rule that [of "of_nat nb" arr])
    show "ikcp_ack_push (Some f) k sn ts =
        Some (k\<lparr>acklist := Some arr, ackcount := ackcount k + 1, ackblock := of_nat nb\<rparr>)"
      using ack_push_room [OF cnt] room arr by simp
  qed (use c1 blk nb blit_length [OF arr] a(1) old new in
      \<open>simp_all add: ack_inv_def ack_pairs_def Suc_le_eq\<close>)
qed

section \<open>Properties\<close>

text \<open>A sender with the segments 0, 1 and 2 in flight.\<close>

definition demo_snd :: IKCPCB where
  "demo_snd = demo_kcb\<lparr>snd_nxt := 3, nsnd_buf := 3,
     snd_buf := [blank_seg, blank_seg\<lparr>sg_sn := 1\<rparr>, blank_seg\<lparr>sg_sn := 2\<rparr>]\<rparr>"

lemma demo_snd_inv: "snd_inv demo_snd"
  by (simp add: demo_snd_def snd_inv_def snd_off_def blank_seg_def)

text \<open>
  A selective acknowledgement removes exactly the segment with its number from
  \<open>snd_buf\<close>, none if there is no such segment or the number was never sent; the counter
  follows, and the invariant is kept.
\<close>

theorem ikcp_parse_ack_exact:
  assumes "snd_inv k"
  shows "snd_buf (ikcp_parse_ack k sn) = filter (\<lambda>s. sg_sn s \<noteq> sn) (snd_buf k) \<and>
    unat (nsnd_buf (ikcp_parse_ack k sn)) = unat (of_nat (length (snd_buf (ikcp_parse_ack k sn))) :: u32) \<and>
    snd_una (ikcp_parse_ack k sn) = snd_una k \<and> snd_inv (ikcp_parse_ack k sn)"
  using parse_ack_filter [OF assms, of sn] parse_ack_inv [OF assms, of sn] by simp

theorem ikcp_parse_ack_exact_witness:
  "snd_inv demo_snd \<and> map sg_sn (snd_buf (ikcp_parse_ack demo_snd 1)) = [0, 2]"
  using ikcp_parse_ack_exact [OF demo_snd_inv, of 1] demo_snd_inv by (simp add: demo_snd_def blank_seg_def)

text \<open>
  A cumulative acknowledgement up to \<open>una\<close> inside the numbers sent removes exactly the
  segments before it; \<open>ikcp_shrink_buf\<close> then moves \<open>snd_una\<close> to the first segment that is
  left, or to \<open>snd_nxt\<close>, and never backwards.
\<close>

theorem ikcp_parse_una_exact:
  assumes "snd_inv k" and "unat (una - snd_una k) \<le> unat (snd_nxt k - snd_una k)"
  shows "snd_buf (ikcp_parse_una k una) =
      filter (\<lambda>s. unat (una - snd_una k) \<le> unat (sg_sn s - snd_una k)) (snd_buf k) \<and>
    snd_inv (ikcp_shrink_buf (ikcp_parse_una k una)) \<and>
    unat (una - snd_una k) \<le> unat (snd_una (ikcp_shrink_buf (ikcp_parse_una k una)) - snd_una k) \<and>
    unat (snd_una (ikcp_shrink_buf (ikcp_parse_una k una)) - snd_una k) \<le> unat (snd_nxt k - snd_una k)"
proof -
  let ?k = "ikcp_parse_una k una"
  have b: "snd_buf ?k = filter (\<lambda>s. unat (una - snd_una k) \<le> snd_off k s) (snd_buf k)"
    by (rule parse_una_filter [OF assms])
  have inv: "snd_inv (ikcp_shrink_buf ?k)" by (rule shrink_buf_inv [OF parse_una_inv [OF assms(1)]])
  have f: "snd_nxt ?k = snd_nxt k" by (simp add: ikcp_parse_una_def case_prod_beta)
  have "unat (una - snd_una k) \<le> unat (snd_una (ikcp_shrink_buf ?k) - snd_una k) \<and>
    unat (snd_una (ikcp_shrink_buf ?k) - snd_una k) \<le> unat (snd_nxt k - snd_una k)"
  proof (cases "snd_buf ?k")
    case Nil
    then show ?thesis using assms(2) f by (simp add: ikcp_shrink_buf_def)
  next
    case (Cons s ss)
    then have "s \<in> set (snd_buf k)" "unat (una - snd_una k) \<le> snd_off k s" using b by (auto simp: filter_eq_Cons_iff)
    then show ?thesis
      using assms(1) Cons by (auto simp: ikcp_shrink_buf_def snd_off_def snd_inv_def less_imp_le)
  qed
  then show ?thesis using b inv by (simp add: snd_off_def)
qed

theorem ikcp_parse_una_exact_witness:
  "snd_inv demo_snd \<and> map sg_sn (snd_buf (ikcp_parse_una demo_snd 2)) = [2]"
  using ikcp_parse_una_exact [OF demo_snd_inv, of 2] demo_snd_inv by (simp add: demo_snd_def blank_seg_def)

text \<open>
  An acknowledgement inside the window adds one to the duplicate count of exactly the
  segments in flight with an earlier number, and one outside the window changes nothing.
\<close>

theorem ikcp_parse_fastack_counts:
  assumes "snd_inv k"
  shows "ikcp_parse_fastack k sn =
    (if unat (sn - snd_una k) < unat (snd_nxt k - snd_una k)
     then k\<lparr>snd_buf := map (\<lambda>s. if unat (sg_sn s - snd_una k) < unat (sn - snd_una k)
       then s\<lparr>sg_fastack := sg_fastack s + 1\<rparr> else s) (snd_buf k)\<rparr>
     else k) \<and> snd_inv (ikcp_parse_fastack k sn)"
  using parse_fastack_map [OF assms, of sn] parse_fastack_inv [OF assms, of sn] by (simp add: snd_off_def)

theorem ikcp_parse_fastack_counts_witness:
  "snd_inv demo_snd \<and> map sg_fastack (snd_buf (ikcp_parse_fastack demo_snd 2)) = [1, 1, 0]"
  using ikcp_parse_fastack_counts [OF demo_snd_inv, of 2] demo_snd_inv by (simp add: demo_snd_def blank_seg_def)

text \<open>
  C30: whatever round trip time a peer provokes, \<open>ikcp_update_ack\<close> leaves the
  retransmission timeout between the configured minimum and 60 seconds, and changes only the
  three estimator fields.
\<close>

theorem ikcp_update_ack_bounds:
  assumes "0 \<le> rx_minrto k" and "rx_minrto k \<le> 60000"
  shows "rx_minrto k \<le> rx_rto (ikcp_update_ack k rtt) \<and> rx_rto (ikcp_update_ack k rtt) \<le> 60000 \<and>
    (\<exists>a b c. ikcp_update_ack k rtt = k\<lparr>rx_rttval := a, rx_srtt := b, rx_rto := c\<rparr>)"
  using update_ack_rto [OF assms, of rtt] update_ack_frame [of k rtt] by blast

theorem ikcp_update_ack_bounds_witness:
  "0 \<le> rx_minrto demo_kcb \<and> rx_minrto demo_kcb \<le> 60000 \<and>
   100 \<le> rx_rto (ikcp_update_ack demo_kcb 2000000000) \<and> rx_rto (ikcp_update_ack demo_kcb 2000000000) \<le> 60000"
  using ikcp_update_ack_bounds [of demo_kcb 2000000000] by simp

text \<open>
  \<open>ikcp_ack_push\<close> appends a pair to the pending acknowledgements, growing the array when
  it is full without losing an entry or leaving its bounds, and \<open>ikcp_ack_get\<close> reads back
  every pair in order of arrival.
\<close>

theorem ikcp_ack_push_get:
  assumes "ack_inv k" and "unat (ackcount k) < 2 ^ 30"
  shows "\<exists>k'. ikcp_ack_push (Some f) k sn ts = Some k' \<and> ack_inv k' \<and>
    unat (ackcount k') = Suc (unat (ackcount k)) \<and>
    ikcp_ack_get k' (unat (ackcount k)) = Some (sn, ts) \<and>
    (\<forall>p < unat (ackcount k). ikcp_ack_get k' p = ikcp_ack_get k p)"
proof -
  obtain l b where p: "ikcp_ack_push (Some f) k sn ts =
      Some (k\<lparr>acklist := Some l, ackcount := ackcount k + 1, ackblock := b\<rparr>)"
    and inv: "ack_inv (k\<lparr>acklist := Some l, ackcount := ackcount k + 1, ackblock := b\<rparr>)"
    and ps: "ack_pairs (k\<lparr>acklist := Some l, ackcount := ackcount k + 1, ackblock := b\<rparr>) =
      ack_pairs k @ [(sn, ts)]"
    by (rule ikcp_ack_push_ok [OF assms])
  let ?k = "k\<lparr>acklist := Some l, ackcount := ackcount k + 1, ackblock := b\<rparr>"
  have len: "length (ack_pairs k) = unat (ackcount k)" by (rule length_ack_pairs [OF assms(1)])
  have c: "unat (ackcount ?k) = Suc (unat (ackcount k))"
    using length_ack_pairs [OF inv] ps len by simp
  have g: "ikcp_ack_get ?k q = Some ((ack_pairs k @ [(sn, ts)]) ! q)" if "q < Suc (unat (ackcount k))" for q
    using ack_get_pairs [OF inv, of q] c that ps by simp
  have "ikcp_ack_get ?k (unat (ackcount k)) = Some (sn, ts)" using g [of "unat (ackcount k)"] len by (simp add: nth_append)
  moreover have "ikcp_ack_get ?k q = ikcp_ack_get k q" if "q < unat (ackcount k)" for q
    using g [of q] ack_get_pairs [OF assms(1) that] that len by (simp add: nth_append)
  ultimately show ?thesis using p inv c by blast
qed

theorem ikcp_ack_push_get_witness:
  "ack_inv demo_kcb \<and> (\<exists>k'. ikcp_ack_push (Some (\<lambda>_. 0)) demo_kcb 5 77 = Some k' \<and> ikcp_ack_get k' 0 = Some (5, 77))"
proof -
  have "ack_inv demo_kcb" by (simp add: ack_inv_def)
  then show ?thesis using ikcp_ack_push_get [of demo_kcb "\<lambda>_. 0" 5 77] by auto
qed

end
