(* ===== verification/Ikcp_Inv.thy ===== *)
theory Ikcp_Inv
  imports Ikcp_Send Ikcp_Ack
begin

text \<open>
  The invariant \<open>kcp_inv\<close> of a control block: the queue invariants of the sending and the
  receiving half, the acknowledgement array, the sizes of the segments against \<open>mss\<close> and of
  the output buffer against \<open>mtu\<close>, and the ranges of the timers and windows.

  The lemmas show that \<open>ikcp_create\<close> establishes it and that the configuration functions,
  \<open>ikcp_send\<close>, \<open>ikcp_recv\<close> and the acknowledgement functions keep it. Each operation
  changes the fields of one half only; the three rules \<open>kcp_inv_snd\<close>, \<open>kcp_inv_rcv\<close> and
  \<open>kcp_inv_ack\<close> carry the rest of the invariant over.
\<close>

section \<open>The invariant\<close>

definition conf_inv :: "IKCPCB \<Rightarrow> bool" where
  "conf_inv k \<longleftrightarrow>
     50 \<le> unat (mtu k) \<and> unat (mtu k) < 2 ^ 30 \<and> mss k = mtu k - 24 \<and>
     buffer k = Some (3 * (unat (mtu k) + 24)) \<and>
     1 \<le> rx_minrto k \<and> rx_minrto k \<le> 60000 \<and> 1 \<le> rx_rto k \<and> rx_rto k \<le> 60000 \<and>
     unat (snd_wnd k) < 2 ^ 31 \<and> unat (rmt_wnd k) < 2 ^ 16 \<and>
     10 \<le> unat (interval k) \<and> unat (interval k) \<le> 5000"

text \<open>A segment with its payload: the length field is the length of the data.\<close>

definition seg_ok :: "IKCPSEG \<Rightarrow> bool" where
  "seg_ok s \<longleftrightarrow> length (sg_data s) = unat (sg_len s)"

text \<open>A segment in flight: numbered, of this connection, and not longer than \<open>mss\<close>.\<close>

definition sent_ok :: "IKCPCB \<Rightarrow> IKCPSEG \<Rightarrow> bool" where
  "sent_ok k s \<longleftrightarrow> seg_ok s \<and> unat (sg_len s) \<le> unat (mss k) \<and> sg_conv s = conv k \<and> sg_cmd s = IKCP_CMD_PUSH"

definition segs_inv :: "IKCPCB \<Rightarrow> bool" where
  "segs_inv k \<longleftrightarrow>
     (\<forall>s \<in> set (snd_queue k). seg_ok s \<and> unat (sg_len s) \<le> unat (mss k)) \<and>
     (\<forall>s \<in> set (snd_buf k). sent_ok k s) \<and>
     (\<forall>s \<in> set (rcv_buf k) \<union> set (rcv_queue k). seg_ok s)"

definition kcp_inv :: "IKCPCB \<Rightarrow> bool" where
  "kcp_inv k \<longleftrightarrow> snd_inv k \<and> rcv_inv k \<and> ack_inv k \<and> conf_inv k \<and> segs_inv k"

lemma kcp_invD:
  "kcp_inv k \<Longrightarrow> snd_inv k" "kcp_inv k \<Longrightarrow> rcv_inv k" "kcp_inv k \<Longrightarrow> ack_inv k"
  "kcp_inv k \<Longrightarrow> conf_inv k" "kcp_inv k \<Longrightarrow> segs_inv k"
  by (simp_all add: kcp_inv_def)

section \<open>Which fields each part reads\<close>

lemma snd_inv_cong:
  assumes "snd_una k' = snd_una k" "snd_nxt k' = snd_nxt k" "nsnd_buf k' = nsnd_buf k"
    "nsnd_que k' = nsnd_que k" "snd_buf k' = snd_buf k" "snd_queue k' = snd_queue k"
  shows "snd_inv k' \<longleftrightarrow> snd_inv k"
proof -
  have "snd_off k' = snd_off k" using assms(1) by (auto simp: snd_off_def)
  then show ?thesis using assms by (simp add: snd_inv_def)
qed

lemma ack_inv_cong:
  assumes "acklist k' = acklist k" "ackcount k' = ackcount k" "ackblock k' = ackblock k"
  shows "ack_inv k' \<longleftrightarrow> ack_inv k"
  unfolding ack_inv_def assms ..

lemma conf_inv_cong:
  assumes "mtu k' = mtu k" "mss k' = mss k" "buffer k' = buffer k" "rx_minrto k' = rx_minrto k"
    "rx_rto k' = rx_rto k" "snd_wnd k' = snd_wnd k" "rmt_wnd k' = rmt_wnd k" "interval k' = interval k"
  shows "conf_inv k' \<longleftrightarrow> conf_inv k"
  using assms by (simp add: conf_inv_def)

lemma segs_inv_cong:
  assumes "mss k' = mss k" "conv k' = conv k" "snd_queue k' = snd_queue k" "snd_buf k' = snd_buf k"
    "rcv_buf k' = rcv_buf k" "rcv_queue k' = rcv_queue k"
  shows "segs_inv k' \<longleftrightarrow> segs_inv k"
  using assms by (simp add: segs_inv_def sent_ok_def)

lemmas inv_congs = snd_inv_cong rcv_inv_cong ack_inv_cong conf_inv_cong segs_inv_cong

lemma kcp_inv_snd:
  assumes "kcp_inv k" and k': "k' = k\<lparr>snd_una := u, snd_nxt := x, nsnd_buf := n, nsnd_que := q,
      snd_queue := sq, snd_buf := b\<rparr>"
    and "snd_inv k'" and "\<forall>s \<in> set sq. seg_ok s \<and> unat (sg_len s) \<le> unat (mss k)"
    and "\<forall>s \<in> set b. sent_ok k s"
  shows "kcp_inv k'"
proof -
  have "rcv_inv k' \<longleftrightarrow> rcv_inv k" "ack_inv k' \<longleftrightarrow> ack_inv k" "conf_inv k' \<longleftrightarrow> conf_inv k"
    unfolding k' by (rule inv_congs; simp)+
  moreover have "segs_inv k'" using assms by (simp add: kcp_inv_def segs_inv_def sent_ok_def)
  ultimately show ?thesis using assms by (simp add: kcp_inv_def)
qed

lemma kcp_inv_rcv:
  assumes "kcp_inv k" and k': "k' = k\<lparr>rcv_nxt := x, probe := p, nrcv_buf := n, nrcv_que := q,
      rcv_queue := rq, rcv_buf := b\<rparr>"
    and "rcv_inv k'" and "\<forall>s \<in> set rq \<union> set b. seg_ok s"
  shows "kcp_inv k'"
proof -
  have "snd_inv k' \<longleftrightarrow> snd_inv k" "ack_inv k' \<longleftrightarrow> ack_inv k" "conf_inv k' \<longleftrightarrow> conf_inv k"
    unfolding k' by (rule inv_congs; simp)+
  moreover have "segs_inv k'" using assms by (auto simp: kcp_inv_def segs_inv_def sent_ok_def)
  ultimately show ?thesis using assms by (simp add: kcp_inv_def)
qed

lemma kcp_inv_rcvI:
  assumes "kcp_inv k" and "k' = k\<lparr>rcv_nxt := rcv_nxt k', probe := probe k', nrcv_buf := nrcv_buf k',
      nrcv_que := nrcv_que k', rcv_queue := rcv_queue k', rcv_buf := rcv_buf k'\<rparr>"
    and "rcv_inv k'" and "\<forall>s \<in> set (rcv_queue k') \<union> set (rcv_buf k'). seg_ok s"
  shows "kcp_inv k'"
  using assms by (rule kcp_inv_rcv)

lemma kcp_inv_ack:
  assumes "kcp_inv k" and k': "k' = k\<lparr>acklist := l, ackcount := c, ackblock := b\<rparr>" and "ack_inv k'"
  shows "kcp_inv k'"
proof -
  have "snd_inv k' \<longleftrightarrow> snd_inv k" "rcv_inv k' \<longleftrightarrow> rcv_inv k" "conf_inv k' \<longleftrightarrow> conf_inv k"
    "segs_inv k' \<longleftrightarrow> segs_inv k"
    unfolding k' by (rule inv_congs; simp)+
  then show ?thesis using assms by (simp add: kcp_inv_def)
qed

text \<open>Fields that only \<open>conf_inv\<close> reads, and fields no part reads.\<close>

lemma kcp_inv_conf:
  assumes "kcp_inv k" and k': "k' = k\<lparr>rx_minrto := a, rx_rto := b, snd_wnd := c, rmt_wnd := d, interval := e,
      buffer := f\<rparr>"
    and "conf_inv k'"
  shows "kcp_inv k'"
proof -
  have "snd_inv k' \<longleftrightarrow> snd_inv k" "rcv_inv k' \<longleftrightarrow> rcv_inv k" "ack_inv k' \<longleftrightarrow> ack_inv k"
    "segs_inv k' \<longleftrightarrow> segs_inv k"
    unfolding k' by (rule inv_congs; simp)+
  then show ?thesis using assms by (simp add: kcp_inv_def)
qed

lemma kcp_inv_free [simp]:
  "kcp_inv (k\<lparr>state := a\<rparr>) = kcp_inv k" "kcp_inv (k\<lparr>ssthresh := a\<rparr>) = kcp_inv k"
  "kcp_inv (k\<lparr>cwnd := a\<rparr>) = kcp_inv k" "kcp_inv (k\<lparr>incr := a\<rparr>) = kcp_inv k"
  "kcp_inv (k\<lparr>probe := a\<rparr>) = kcp_inv k" "kcp_inv (k\<lparr>current := a\<rparr>) = kcp_inv k"
  "kcp_inv (k\<lparr>ts_flush := a\<rparr>) = kcp_inv k" "kcp_inv (k\<lparr>xmit := a\<rparr>) = kcp_inv k"
  "kcp_inv (k\<lparr>updated := a\<rparr>) = kcp_inv k" "kcp_inv (k\<lparr>ts_probe := a\<rparr>) = kcp_inv k"
  "kcp_inv (k\<lparr>probe_wait := a\<rparr>) = kcp_inv k" "kcp_inv (k\<lparr>nodelay := a\<rparr>) = kcp_inv k"
  "kcp_inv (k\<lparr>rx_rttval := i\<rparr>) = kcp_inv k" "kcp_inv (k\<lparr>rx_srtt := i\<rparr>) = kcp_inv k"
  "kcp_inv (k\<lparr>fastresend := i\<rparr>) = kcp_inv k" "kcp_inv (k\<lparr>nocwnd := i\<rparr>) = kcp_inv k"
  "kcp_inv (k\<lparr>output_cb := c\<rparr>) = kcp_inv k"
  unfolding kcp_inv_def by (intro arg_cong2 [where f = "(\<and>)"] inv_congs; simp)+

section \<open>Creation and configuration\<close>

lemma ikcp_create_inv: "ikcp_create a b c u = Some k \<Longrightarrow> kcp_inv k"
  by (auto simp: ikcp_create_def kcp_inv_def snd_inv_def rcv_inv_def ack_inv_def conf_inv_def segs_inv_def
      split: if_splits)

text \<open>The clamping shared by \<open>ikcp_interval\<close> and \<open>ikcp_nodelay\<close>.\<close>

lemma interval_clamp:
  fixes i :: int
  defines "w \<equiv> word_of_int (if i > 5000 then 5000 else if i < 10 then 10 else i) :: u32"
  shows "10 \<le> unat w" "unat w \<le> 5000"
  unfolding w_def by (subst unat_of_int_lt; auto)+

lemma ikcp_interval_inv:
  assumes "kcp_inv k"
  shows "kcp_inv (snd (ikcp_interval k i))"
proof (rule kcp_inv_conf [OF assms])
  show "snd (ikcp_interval k i) = k\<lparr>rx_minrto := rx_minrto k, rx_rto := rx_rto k, snd_wnd := snd_wnd k,
      rmt_wnd := rmt_wnd k, interval := word_of_int (if i > 5000 then 5000 else if i < 10 then 10 else i),
      buffer := buffer k\<rparr>"
    by (simp add: ikcp_interval_def)
  then show "conf_inv (snd (ikcp_interval k i))"
    using assms interval_clamp [of i] by (simp add: kcp_inv_def conf_inv_def)
qed

lemma ikcp_nodelay_inv:
  assumes "kcp_inv k"
  shows "kcp_inv (snd (ikcp_nodelay k nodel i resend nc))"
proof -
  let ?m = "if nodel \<ge> 0 then if nodel \<noteq> 0 then 30 else 100 else rx_minrto k"
  let ?i = "if i \<ge> 0 then word_of_int (if i > 5000 then 5000 else if i < 10 then 10 else i) else interval k"
  have "kcp_inv (k\<lparr>rx_minrto := ?m, rx_rto := rx_rto k, snd_wnd := snd_wnd k, rmt_wnd := rmt_wnd k,
      interval := ?i, buffer := buffer k\<rparr>)"
    by (rule kcp_inv_conf [OF assms refl])
      (use assms interval_clamp [of i] in \<open>auto simp: kcp_inv_def conf_inv_def\<close>)
  moreover have "snd (ikcp_nodelay k nodel i resend nc) =
      k\<lparr>rx_minrto := ?m, rx_rto := rx_rto k, snd_wnd := snd_wnd k, rmt_wnd := rmt_wnd k,
        interval := ?i, buffer := buffer k, nodelay := (if nodel \<ge> 0 then word_of_int nodel else nodelay k),
        fastresend := (if resend \<ge> 0 then resend else fastresend k),
        nocwnd := (if nc \<ge> 0 then nc else nocwnd k)\<rparr>"
    by (auto simp: ikcp_nodelay_def Let_def)
  ultimately show ?thesis by simp
qed

text \<open>The window sizes: the receive window may only grow while data is buffered.\<close>

lemma ikcp_wndsize_inv:
  assumes inv: "kcp_inv k" and s: "sw < 2 ^ 31" and r: "rw < 2 ^ 31"
    and grow: "rw \<le> 0 \<or> int (unat (rcv_wnd k)) \<le> rw"
  shows "kcp_inv (snd (ikcp_wndsize k sw rw))"
proof -
  let ?s = "if sw > 0 then word_of_int sw else snd_wnd k"
  let ?r = "if rw > 0 then word_of_int rw else rcv_wnd k"
  let ?k = "k\<lparr>snd_wnd := ?s, rcv_wnd := ?r\<rparr>"
  have eq: "snd (ikcp_wndsize k sw rw) = ?k" by (auto simp: ikcp_wndsize_def Let_def)
  have us: "unat ?s < 2 ^ 31" using inv s by (auto simp: kcp_inv_def conf_inv_def unat_of_int_lt)
  have ur: "unat (rcv_wnd k) \<le> unat ?r" "unat ?r < 2 ^ 31"
    using inv r grow by (auto simp: kcp_inv_def rcv_inv_def unat_of_int_lt le_nat_iff)
  have off: "rcv_off ?k = rcv_off k" by (auto simp: rcv_off_def)
  have "rcv_inv ?k" using inv ur unfolding rcv_inv_def off kcp_inv_def by fastforce
  moreover have "snd_inv ?k \<longleftrightarrow> snd_inv k" "ack_inv ?k \<longleftrightarrow> ack_inv k" "segs_inv ?k \<longleftrightarrow> segs_inv k"
    by (rule inv_congs; simp)+
  moreover have "conf_inv ?k" using inv us unfolding conf_inv_def kcp_inv_def by simp
  ultimately show ?thesis using inv by (simp add: eq kcp_inv_def)
qed

lemma ikcp_setmtu_inv:
  assumes inv: "kcp_inv k" and m: "m < 2 ^ 30"
    and fits: "\<forall>s \<in> set (snd_queue k) \<union> set (snd_buf k). int (unat (sg_len s)) \<le> m - 24"
  shows "kcp_inv (snd (ikcp_setmtu ok k m))"
proof (cases "m < 50 \<or> \<not> ok")
  case True
  then show ?thesis using inv by (auto simp: ikcp_setmtu_def)
next
  case False
  let ?m = "word_of_int m :: u32"
  let ?k = "k\<lparr>mtu := ?m, mss := ?m - 24, buffer := Some (unat ((?m + 24) * 3))\<rparr>"
  have eq: "snd (ikcp_setmtu ok k m) = ?k" using False by (simp add: ikcp_setmtu_def Let_def)
  have um: "unat ?m = nat m" using False m by (simp add: unat_of_int_lt)
  have ub: "unat ((?m + 24) * 3) = 3 * (nat m + 24)"
    using False m by (simp add: unat_word_ariths um)
  have us: "unat (?m - 24) = nat m - 24" using False um by (subst unat_sub_le) (auto simp: word_le_nat_alt)
  have "conf_inv ?k" using inv False m um ub by (auto simp: kcp_inv_def conf_inv_def)
  moreover have "unat (sg_len s) \<le> nat m - 24" if "s \<in> set (snd_queue k) \<union> set (snd_buf k)" for s
    using fits [rule_format, OF that] False by linarith
  then have "segs_inv ?k"
    using kcp_invD(5) [OF inv] us by (simp add: segs_inv_def sent_ok_def)
  moreover have "snd_inv ?k \<longleftrightarrow> snd_inv k" "ack_inv ?k \<longleftrightarrow> ack_inv k" "rcv_inv ?k \<longleftrightarrow> rcv_inv k"
    by (rule inv_congs; simp)+
  ultimately show ?thesis using inv by (simp add: eq kcp_inv_def)
qed

section \<open>Sending and receiving\<close>

lemma conf_mss:
  assumes "conf_inv k"
  shows "unat (mss k) = unat (mtu k) - 24" "26 \<le> unat (mss k)" "unat (mss k) < 2 ^ 30"
proof -
  show *: "unat (mss k) = unat (mtu k) - 24"
    using assms by (subst conf_inv_def [THEN iffD1, THEN conjunct2, THEN conjunct2, THEN conjunct1, OF assms])
      (subst unat_sub_le, auto simp: word_le_nat_alt conf_inv_def)
  show "26 \<le> unat (mss k)" "unat (mss k) < 2 ^ 30" using assms unfolding * by (auto simp: conf_inv_def)
qed

lemma frag_segs_bound:
  "s \<in> set (frag_segs mem i ds) \<Longrightarrow> \<forall>d \<in> set ds. length d \<le> m \<Longrightarrow> m < 2 ^ 32 \<Longrightarrow>
     seg_ok s \<and> unat (sg_len s) \<le> m"
  by (induction ds arbitrary: i) (auto simp: seg_ok_def unat_of_nat_lt)

lemma ikcp_send_inv:
  assumes inv: "kcp_inv k" and mem: "\<And>j. mem j \<noteq> None" and b: "length b < 2 ^ 31"
  obtains r k' where "ikcp_send mem k (Some b) (int (length b)) = Some (r, k')" and "kcp_inv k'"
proof (cases "frag_count (unat (mss k)) (length b) \<le> 255")
  case False
  have m: "0 < unat (mss k)" "unat (mss k) < 2 ^ 31" using conf_mss [of k] inv by (auto simp: kcp_inv_def)
  then show ?thesis using that [of "-2" k] False inv b by (simp add: ikcp_send_split)
next
  case True
  have m: "0 < unat (mss k)" "unat (mss k) < 2 ^ 31" using conf_mss [of k] inv by (auto simp: kcp_inv_def)
  let ?n = "frag_count (unat (mss k)) (length b)"
  let ?q = "snd_queue k @ frag_segs mem 0 (pieces (unat (mss k)) ?n b)"
  let ?k = "k\<lparr>snd_una := snd_una k, snd_nxt := snd_nxt k, nsnd_buf := nsnd_buf k,
    nsnd_que := nsnd_que k + of_nat ?n, snd_queue := ?q, snd_buf := snd_buf k\<rparr>"
  have off: "snd_off ?k = snd_off k" by (auto simp: snd_off_def)
  have "snd_inv ?k" using kcp_invD(1) [OF inv] unfolding snd_inv_def off by simp
  moreover have "\<forall>s \<in> set ?q. seg_ok s \<and> unat (sg_len s) \<le> unat (mss k)"
    using inv frag_segs_bound [of _ mem 0 "pieces (unat (mss k)) ?n b" "unat (mss k)"] pieces_bound m
    by (fastforce simp: kcp_inv_def segs_inv_def)
  moreover have "\<forall>s \<in> set (snd_buf k). sent_ok k s" using inv by (simp add: kcp_inv_def segs_inv_def)
  ultimately have "kcp_inv ?k" by (rule kcp_inv_snd [OF inv refl])
  then show ?thesis using that [of 0 ?k] ikcp_send_ok [OF mem m b True] by simp
qed

lemma move_ready_kcp_inv:
  assumes inv: "kcp_inv k"
  shows "kcp_inv (move_ready (rcv_buf k) k)"
proof -
  obtain ds rest where b: "rcv_buf k = ds @ rest" and m: "move_ready (rcv_buf k) k =
      k\<lparr>rcv_buf := rest, nrcv_buf := nrcv_buf k - of_nat (length ds), rcv_queue := rcv_queue k @ ds,
        nrcv_que := nrcv_que k + of_nat (length ds), rcv_nxt := rcv_nxt k + of_nat (length ds)\<rparr>"
    using move_ready_spec [of k "rcv_buf k"] by blast
  show ?thesis
    by (rule kcp_inv_rcvI [OF inv _ move_ready_inv [OF kcp_invD(2) [OF inv] refl]])
      (use kcp_invD(5) [OF inv] in \<open>auto simp: m segs_inv_def\<close>, auto simp: b)
qed

lemma recv_take_kcp_inv:
  assumes inv: "kcp_inv k" and c: "c \<le> length (rcv_queue k)"
  shows "kcp_inv (k\<lparr>rcv_queue := drop c (rcv_queue k), nrcv_que := nrcv_que k - of_nat c\<rparr>)"
  by (rule kcp_inv_rcvI [OF inv _ rcv_inv_take [OF kcp_invD(2) [OF inv] c]])
    (use kcp_invD(5) [OF inv] in \<open>auto simp: segs_inv_def dest: in_set_dropD\<close>)

lemma ikcp_recv_kcp_inv:
  assumes inv: "kcp_inv k" and r: "ikcp_recv k hb len = Some (r, d, k')"
  shows "kcp_inv k'"
proof -
  define c where "c = length (first_msg (rcv_queue k))"
  define k1 where "k1 = k\<lparr>rcv_queue := drop c (rcv_queue k), nrcv_que := nrcv_que k - of_nat c\<rparr>"
  have "kcp_inv k1" unfolding k1_def by (rule recv_take_kcp_inv [OF inv]) (simp add: c_def length_first_msg)
  then have "kcp_inv (move_ready (rcv_buf k1) k1)" "kcp_inv (move_ready (rcv_buf k) k)"
    using inv by (simp_all add: move_ready_kcp_inv)
  then show ?thesis
    using inv r by (auto simp: ikcp_recv_cases Let_def c_def [symmetric] k1_def [symmetric] split: if_splits)
qed

section \<open>Acknowledgements\<close>

lemma parse_ack_kcp_inv:
  assumes inv: "kcp_inv k"
  shows "kcp_inv (ikcp_parse_ack k sn)"
proof (rule kcp_inv_snd [OF inv])
  show "ikcp_parse_ack k sn = k\<lparr>snd_una := snd_una k, snd_nxt := snd_nxt k,
      nsnd_buf := of_nat (length (filter (\<lambda>s. sg_sn s \<noteq> sn) (snd_buf k))), nsnd_que := nsnd_que k,
      snd_queue := snd_queue k, snd_buf := filter (\<lambda>s. sg_sn s \<noteq> sn) (snd_buf k)\<rparr>"
    using parse_ack_filter [OF kcp_invD(1) [OF inv]] by simp
qed (use inv parse_ack_inv in \<open>auto simp: kcp_inv_def segs_inv_def\<close>)

lemma parse_una_kcp_inv:
  assumes inv: "kcp_inv k"
  shows "kcp_inv (ikcp_parse_una k una)"
proof (rule kcp_inv_snd [OF inv])
  let ?b = "drop (fst (remove_una una (snd_buf k))) (snd_buf k)"
  show "ikcp_parse_una k una = k\<lparr>snd_una := snd_una k, snd_nxt := snd_nxt k,
      nsnd_buf := of_nat (length ?b), nsnd_que := nsnd_que k, snd_queue := snd_queue k, snd_buf := ?b\<rparr>"
    using parse_una_alt [OF kcp_invD(1) [OF inv]] by simp
qed (use inv parse_una_inv in \<open>auto simp: kcp_inv_def segs_inv_def dest: in_set_dropD\<close>)

lemma shrink_buf_update:
  "ikcp_shrink_buf k = k\<lparr>snd_una := (case snd_buf k of s # _ \<Rightarrow> sg_sn s | [] \<Rightarrow> snd_nxt k)\<rparr>"
  by (simp add: ikcp_shrink_buf_def split: list.split)

lemma shrink_buf_kcp_inv:
  assumes inv: "kcp_inv k"
  shows "kcp_inv (ikcp_shrink_buf k)"
proof (rule kcp_inv_snd [OF inv])
  show "ikcp_shrink_buf k = k\<lparr>snd_una := (case snd_buf k of s # _ \<Rightarrow> sg_sn s | [] \<Rightarrow> snd_nxt k),
      snd_nxt := snd_nxt k, nsnd_buf := nsnd_buf k, nsnd_que := nsnd_que k,
      snd_queue := snd_queue k, snd_buf := snd_buf k\<rparr>"
    by (simp add: shrink_buf_update)
qed (use inv shrink_buf_inv in \<open>auto simp: kcp_inv_def segs_inv_def\<close>)

lemma parse_fastack_kcp_inv:
  assumes inv: "kcp_inv k"
  shows "kcp_inv (ikcp_parse_fastack k sn)"
proof (rule kcp_inv_snd [OF inv])
  show "ikcp_parse_fastack k sn = k\<lparr>snd_una := snd_una k, snd_nxt := snd_nxt k, nsnd_buf := nsnd_buf k,
      nsnd_que := nsnd_que k, snd_queue := snd_queue k, snd_buf := snd_buf (ikcp_parse_fastack k sn)\<rparr>"
    by (simp add: ikcp_parse_fastack_def)
qed (use inv parse_fastack_inv in \<open>auto simp: kcp_inv_def segs_inv_def parse_fastack_map sent_ok_def
      seg_ok_def split: if_splits\<close>)

lemma update_ack_kcp_inv:
  assumes inv: "kcp_inv k"
  shows "kcp_inv (ikcp_update_ack k rtt)"
proof -
  obtain a b m where u: "ikcp_update_ack k rtt = k\<lparr>rx_rttval := a, rx_srtt := b,
     rx_rto := sint (ibound (word_of_int (rx_minrto k)) m 60000)\<rparr>" (is "_ = k\<lparr>rx_rttval := a, rx_srtt := b, rx_rto := ?r\<rparr>")
    using update_ack_frame by blast
  have "rx_minrto k \<le> ?r" "?r \<le> 60000"
    using update_ack_rto [of k rtt] inv by (simp_all add: u kcp_inv_def conf_inv_def)
  then have "kcp_inv (k\<lparr>rx_minrto := rx_minrto k, rx_rto := ?r, snd_wnd := snd_wnd k, rmt_wnd := rmt_wnd k,
      interval := interval k, buffer := buffer k\<rparr>)"
    by (intro kcp_inv_conf [OF inv refl]) (use inv in \<open>auto simp: kcp_inv_def conf_inv_def\<close>)
  moreover have "ikcp_update_ack k rtt = k\<lparr>rx_minrto := rx_minrto k, rx_rto := ?r, snd_wnd := snd_wnd k, rmt_wnd := rmt_wnd k,
      interval := interval k, buffer := buffer k, rx_rttval := a, rx_srtt := b\<rparr>"
    by (simp add: u)
  ultimately show ?thesis by simp
qed

lemma ack_push_kcp_inv:
  assumes inv: "kcp_inv k" and cnt: "unat (ackcount k) < 2 ^ 30"
  obtains l b where "ikcp_ack_push (Some f) k sn ts =
      Some (k\<lparr>acklist := Some l, ackcount := ackcount k + 1, ackblock := b\<rparr>)"
    and "kcp_inv (k\<lparr>acklist := Some l, ackcount := ackcount k + 1, ackblock := b\<rparr>)"
    and "ack_pairs (k\<lparr>acklist := Some l, ackcount := ackcount k + 1, ackblock := b\<rparr>) = ack_pairs k @ [(sn, ts)]"
proof -
  obtain l b where "ikcp_ack_push (Some f) k sn ts =
      Some (k\<lparr>acklist := Some l, ackcount := ackcount k + 1, ackblock := b\<rparr>)"
    and "ack_inv (k\<lparr>acklist := Some l, ackcount := ackcount k + 1, ackblock := b\<rparr>)"
    and "ack_pairs (k\<lparr>acklist := Some l, ackcount := ackcount k + 1, ackblock := b\<rparr>) = ack_pairs k @ [(sn, ts)]"
    by (rule ikcp_ack_push_ok [OF kcp_invD(3) [OF inv] cnt])
  then show ?thesis by (rule that [OF _ kcp_inv_ack [OF inv refl]])
qed

lemma parse_data_kcp_inv:
  assumes inv: "kcp_inv k" and s: "seg_ok s"
  shows "kcp_inv (ikcp_parse_data k s)"
proof -
  note rinv = kcp_invD(2) [OF inv]
  obtain ds rest nb nq where u: "ikcp_parse_data k s = k\<lparr>rcv_buf := rest, nrcv_buf := nb,
      rcv_queue := rcv_queue k @ ds, nrcv_que := nq, rcv_nxt := rcv_nxt k + of_nat (length ds)\<rparr>"
    by (rule parse_data_frame [OF rinv])
  obtain ds' where "rcv_queue (ikcp_parse_data k s) = rcv_queue k @ ds'"
    "mset ds' + mset (rcv_buf (ikcp_parse_data k s)) =
       mset (rcv_buf k) + (if rcv_accepts k s then {#s#} else {#})"
    using parse_data_spec [OF rinv refl, of s] by blast
  then have "set_mset (mset ds + mset rest) =
      set_mset (mset (rcv_buf k) + (if rcv_accepts k s then {#s#} else {#}))" by (simp add: u)
  then have sub: "set ds \<union> set rest \<subseteq> insert s (set (rcv_buf k))"
    by (cases "rcv_accepts k s") auto
  have old: "\<forall>t \<in> set (rcv_buf k) \<union> set (rcv_queue k). seg_ok t"
    using kcp_invD(5) [OF inv] by (simp add: segs_inv_def)
  show ?thesis
    by (rule kcp_inv_rcvI [OF inv _ ikcp_parse_data_inv [OF rinv]])
      (use s sub old in \<open>auto simp: u\<close>)
qed

section \<open>Properties\<close>

lemma demo_kcb_inv: "kcp_inv demo_kcb"
  by (simp add: kcp_inv_def snd_inv_def rcv_inv_def ack_inv_def conf_inv_def segs_inv_def)

text \<open>
  C29: a control block from \<open>ikcp_create\<close>, configured with \<open>ikcp_nodelay\<close> and
  \<open>ikcp_wndsize\<close> as \<open>kcpev.c\<close> does, satisfies the invariant, and so does the one after any
  accepted \<open>ikcp_send\<close>.
\<close>

theorem ikcp_create_configure_inv:
  assumes "ikcp_create a b c u = Some k" and "sw < 2 ^ 31" and "rw < 2 ^ 31" and "rw \<le> 0 \<or> 32 \<le> rw"
    and "\<And>j. mem j \<noteq> None" and "length d < 2 ^ 31"
  shows "kcp_inv k \<and> kcp_inv (snd (ikcp_wndsize k sw rw)) \<and>
    kcp_inv (snd (ikcp_nodelay (snd (ikcp_wndsize k sw rw)) nd i rs nc)) \<and>
    (\<exists>r k'. ikcp_send mem (snd (ikcp_nodelay (snd (ikcp_wndsize k sw rw)) nd i rs nc)) (Some d) (int (length d)) =
       Some (r, k') \<and> kcp_inv k')"
proof -
  have k: "kcp_inv k" by (rule ikcp_create_inv [OF assms(1)])
  have "rcv_wnd k = 32" using assms(1) by (auto simp: ikcp_create_def split: if_splits)
  then have w: "kcp_inv (snd (ikcp_wndsize k sw rw))"
    using assms(4) by (intro ikcp_wndsize_inv [OF k assms(2,3)]) simp
  have n: "kcp_inv (snd (ikcp_nodelay (snd (ikcp_wndsize k sw rw)) nd i rs nc))" by (rule ikcp_nodelay_inv [OF w])
  obtain r k' where "ikcp_send mem (snd (ikcp_nodelay (snd (ikcp_wndsize k sw rw)) nd i rs nc)) (Some d) (int (length d)) =
      Some (r, k')" "kcp_inv k'"
    by (rule ikcp_send_inv [where mem = mem, OF n assms(5,6)])
  then show ?thesis using k w n by blast
qed

theorem ikcp_create_configure_inv_witness:
  "\<exists>k. ikcp_create True True 7 0 = Some k \<and> kcp_inv (snd (ikcp_nodelay (snd (ikcp_wndsize k 128 128)) 1 10 2 1))"
proof -
  obtain k where k: "ikcp_create True True 7 0 = Some k" by (simp add: ikcp_create_def)
  have "demo_mem j \<noteq> None" for j by (simp add: demo_mem_def)
  then show ?thesis using ikcp_create_configure_inv [OF k, of 128 128 demo_mem "[]" 1 10 2 1] k by simp
qed

text \<open>
  The configuration functions clamp and refuse: the interval ends between 10 and 5000
  milliseconds, an \<open>mtu\<close> below 50 is refused with -1 and a failed allocation with -2 without
  an effect, and an accepted \<open>mtu\<close> that the queued segments fit keeps the invariant.
\<close>

theorem ikcp_configuration:
  assumes "kcp_inv k" and "m < 2 ^ 30"
    and "\<forall>s \<in> set (snd_queue k) \<union> set (snd_buf k). int (unat (sg_len s)) \<le> m - 24"
  shows "kcp_inv (snd (ikcp_interval k i)) \<and> 10 \<le> unat (interval (snd (ikcp_interval k i))) \<and>
    unat (interval (snd (ikcp_interval k i))) \<le> 5000 \<and>
    ikcp_setmtu ok k m = (if m < 50 then (-1, k) else if \<not> ok then (-2, k)
      else (0, k\<lparr>mtu := word_of_int m, mss := word_of_int m - 24, buffer := Some (3 * (nat m + 24))\<rparr>)) \<and>
    kcp_inv (snd (ikcp_setmtu ok k m))"
proof -
  have i: "kcp_inv (snd (ikcp_interval k i))" by (rule ikcp_interval_inv [OF assms(1)])
  have s: "kcp_inv (snd (ikcp_setmtu ok k m))" by (rule ikcp_setmtu_inv [OF assms])
  have "ikcp_setmtu ok k m = (0, k\<lparr>mtu := word_of_int m, mss := word_of_int m - 24, buffer := Some (3 * (nat m + 24))\<rparr>)"
    if "\<not> m < 50" ok
  proof -
    have "unat (word_of_int m :: u32) = nat m" using that assms(2) by (simp add: unat_of_int_lt)
    then have "unat ((word_of_int m + 24 :: u32) * 3) = 3 * (nat m + 24)"
      using that assms(2) by (simp add: unat_word_ariths)
    then show ?thesis using that by (simp add: ikcp_setmtu_def Let_def)
  qed
  then show ?thesis using i s kcp_invD(4) [OF i] by (auto simp: conf_inv_def) (auto simp: ikcp_setmtu_def)
qed

theorem ikcp_configuration_witness:
  "kcp_inv demo_kcb \<and> ikcp_setmtu True demo_kcb 49 = (-1, demo_kcb) \<and>
   10 \<le> unat (interval (snd (ikcp_interval demo_kcb 3)))"
  using ikcp_configuration [OF demo_kcb_inv, of 49 3 True] demo_kcb_inv by simp

end
