(* ===== verification/Ikcp_Input.thy ===== *)
theory Ikcp_Input
  imports Ikcp_Inv
begin

text \<open>
  \<open>ikcp_input\<close> of \<open>src/src/ikcp.c\<close>: the loop over the segments of a datagram, the
  dispatch on the command, the duplicate acknowledgement count and the growth of the
  congestion window.

  The lemmas show that the loop ends on every input, that no datagram makes the function
  read outside the data, divide by zero or break the invariant of the control block, and
  that a datagram put together from encoded segments is processed segment by segment.
\<close>

section \<open>The model\<close>

text \<open>
  What the allocations of one round of the loop return: the new acknowledgement array, and
  the block of a new segment.
\<close>

type_synonym input_mem = "(nat \<Rightarrow> u32) option \<times> seg_block option"

text \<open>The branch \<open>IKCP_CMD_ACK\<close>; the pair is \<open>flag\<close> and \<open>maxack\<close>.\<close>

definition input_ack :: "IKCPCB \<Rightarrow> u32 \<Rightarrow> u32 \<Rightarrow> bool \<times> u32 \<Rightarrow> IKCPCB \<times> bool \<times> u32" where
  "input_ack k ts sn fm =
     (let (flag, maxack) = fm;
          k = (if itimediff (current k) ts \<ge> 0 then ikcp_update_ack k (itimediff (current k) ts) else k);
          k = ikcp_parse_ack k sn;
          k = ikcp_shrink_buf k
      in if \<not> flag then (k, True, sn)
         else if itimediff sn maxack > 0 then (k, flag, sn)
         else (k, flag, maxack))"

text \<open>
  The branch \<open>IKCP_CMD_PUSH\<close>. \<open>ikcp_segment_new\<close> takes its size as an \<open>int\<close>, so the data
  area of the block has \<open>(int)len\<close> bytes.
\<close>

definition input_push :: "input_mem \<Rightarrow> IKCPCB \<Rightarrow> seg_header \<Rightarrow> byte list \<Rightarrow> IKCPCB option" where
  "input_push mem k h data =
     (if itimediff (h_sn h) (rcv_nxt k + rcv_wnd k) < 0 then
        do {
          k \<leftarrow> ikcp_ack_push (fst mem) k (h_sn h) (h_ts h);
          if itimediff (h_sn h) (rcv_nxt k) \<ge> 0 then
            do {
              (seg, junk) \<leftarrow> snd mem;
              let area = map junk [0..<nat (sint (h_len h))];
              d \<leftarrow> (if h_len h > 0 then do { x \<leftarrow> fetch data 0 (unat (h_len h)); blit area 0 x }
                   else Some area);
              let seg = seg\<lparr>sg_conv := h_conv h, sg_cmd := ucast (h_cmd h), sg_frg := ucast (h_frg h),
                sg_wnd := ucast (h_wnd h), sg_ts := h_ts h, sg_sn := h_sn h, sg_una := h_una h,
                sg_len := h_len h, sg_data := d\<rparr>;
              Some (ikcp_parse_data k seg)
            }
          else Some k
        }
      else Some k)"

text \<open>
  One segment whose header \<open>h\<close> passed the size check: \<open>Inl\<close> is an early return with its
  value, \<open>Inr\<close> the state at the end of the round.
\<close>

definition input_seg :: "input_mem \<Rightarrow> IKCPCB \<Rightarrow> seg_header \<Rightarrow> byte list \<Rightarrow> bool \<times> u32 \<Rightarrow>
    ((int \<times> IKCPCB) + (IKCPCB \<times> bool \<times> u32)) option" where
  "input_seg mem k h data fm =
     (let cmd = ucast (h_cmd h) :: u32 in
      if cmd \<noteq> IKCP_CMD_PUSH \<and> cmd \<noteq> IKCP_CMD_ACK \<and> cmd \<noteq> IKCP_CMD_WASK \<and> cmd \<noteq> IKCP_CMD_WINS
      then Some (Inl (-3, k))
      else
        (let k = k\<lparr>rmt_wnd := ucast (h_wnd h)\<rparr>;
             k = ikcp_parse_una k (h_una h);
             k = ikcp_shrink_buf k in
         if cmd = IKCP_CMD_ACK then Some (Inr (input_ack k (h_ts h) (h_sn h) fm))
         else if cmd = IKCP_CMD_PUSH then
           map_option (\<lambda>k. Inr (k, fm)) (input_push mem k h data)
         else if cmd = IKCP_CMD_WASK then Some (Inr (k\<lparr>probe := probe k OR IKCP_ASK_TELL\<rparr>, fm))
         else if cmd = IKCP_CMD_WINS then Some (Inr (k, fm))
         else Some (Inl (-3, k))))"

text \<open>
  The loop: \<open>data\<close> are the bytes from the pointer on, \<open>i\<close> counts the rounds. \<open>None\<close> is a
  read outside the data, a failed \<open>assert\<close> or the use of a null pointer.
\<close>

function input_loop :: "(nat \<Rightarrow> input_mem) \<Rightarrow> nat \<Rightarrow> IKCPCB \<Rightarrow> byte list \<Rightarrow> int \<Rightarrow> bool \<times> u32 \<Rightarrow>
    ((int \<times> IKCPCB) + (IKCPCB \<times> bool \<times> u32)) option" where
  "input_loop mem i k data sz fm =
     (if sz < sint IKCP_OVERHEAD then Some (Inr (k, fm))
      else
        do {
          (cnv, _) \<leftarrow> ikcp_decode32u data;
          if cnv \<noteq> conv k then Some (Inl (-1, k))
          else
            do {
              (h, data) \<leftarrow> ikcp_decode_header data;
              if sz - 24 < int (unat (h_len h)) then Some (Inl (-2, k))
              else
                do {
                  r \<leftarrow> input_seg (mem i) k h data fm;
                  (case r of
                     Inl e \<Rightarrow> Some (Inl e)
                   | Inr (k, fm) \<Rightarrow>
                       input_loop mem (Suc i) k (drop (unat (h_len h)) data)
                         (sz - 24 - int (unat (h_len h))) fm)
                }
            }
        })"
  by pat_completeness auto
termination
  by (relation "measure (\<lambda>(mem, i, k, data, sz, fm). nat sz)")
    (auto simp: not_less dest: order_trans [OF uint_u32_bounds(1)]
      intro: less_le_trans [OF _ uint_u32_bounds(1)])

declare input_loop.simps [simp del]

text \<open>The congestion window after new data is acknowledged; \<open>una\<close> is \<open>snd_una\<close> before.\<close>

definition input_cwnd :: "u32 \<Rightarrow> IKCPCB \<Rightarrow> IKCPCB option" where
  "input_cwnd una k =
     (if itimediff (snd_una k) una > 0 \<and> cwnd k < rmt_wnd k then
        do {
          k1 \<leftarrow> (if cwnd k < ssthresh k then Some (k\<lparr>cwnd := cwnd k + 1, incr := incr k + mss k\<rparr>)
                 else
                   (let inc = (if incr k < mss k then mss k else incr k) in
                    do {
                      q \<leftarrow> c_udiv (mss k * mss k) inc;
                      let inc = inc + (q + mss k div 16);
                      Some (if (cwnd k + 1) * mss k \<le> inc then k\<lparr>incr := inc, cwnd := cwnd k + 1\<rparr>
                            else k\<lparr>incr := inc\<rparr>)
                    }));
          Some (if cwnd k1 > rmt_wnd k1 then k1\<lparr>cwnd := rmt_wnd k1, incr := rmt_wnd k1 * mss k1\<rparr> else k1)
        }
      else Some k)"

definition ikcp_input :: "(nat \<Rightarrow> input_mem) \<Rightarrow> IKCPCB \<Rightarrow> byte list option \<Rightarrow> int \<Rightarrow> (int \<times> IKCPCB) option" where
  "ikcp_input mem k data sz =
     (case data of
        None \<Rightarrow> Some (-1, k)
      | Some d \<Rightarrow>
          if sz < 24 then Some (-1, k)
          else
            do {
              r \<leftarrow> input_loop mem 0 k d sz (False, 0);
              (case r of
                 Inl e \<Rightarrow> Some e
               | Inr (k1, flag, maxack) \<Rightarrow>
                   do {
                     k2 \<leftarrow> input_cwnd (snd_una k) (if flag then ikcp_parse_fastack k1 maxack else k1);
                     Some (0, k2)
                   })
            })"

section \<open>Fields left alone\<close>

lemma parse_ack_fields [simp]:
  "conv (ikcp_parse_ack k sn) = conv k" "mss (ikcp_parse_ack k sn) = mss k"
  "snd_wnd (ikcp_parse_ack k sn) = snd_wnd k" "rmt_wnd (ikcp_parse_ack k sn) = rmt_wnd k" "probe (ikcp_parse_ack k sn) = probe k"
  "mtu (ikcp_parse_ack k sn) = mtu k" "rcv_queue (ikcp_parse_ack k sn) = rcv_queue k"
  "rcv_buf (ikcp_parse_ack k sn) = rcv_buf k" "rcv_nxt (ikcp_parse_ack k sn) = rcv_nxt k"
  "rcv_wnd (ikcp_parse_ack k sn) = rcv_wnd k" "ackcount (ikcp_parse_ack k sn) = ackcount k"
  "acklist (ikcp_parse_ack k sn) = acklist k" "snd_nxt (ikcp_parse_ack k sn) = snd_nxt k"
  "snd_queue (ikcp_parse_ack k sn) = snd_queue k" "output_cb (ikcp_parse_ack k sn) = output_cb k"
  "snd_una (ikcp_parse_ack k sn) = snd_una k"
  by (simp_all add: ikcp_parse_ack_def case_prod_beta)

lemma parse_una_fields [simp]:
  "conv (ikcp_parse_una k una) = conv k" "mss (ikcp_parse_una k una) = mss k"
  "snd_wnd (ikcp_parse_una k una) = snd_wnd k" "rmt_wnd (ikcp_parse_una k una) = rmt_wnd k" "probe (ikcp_parse_una k una) = probe k"
  "mtu (ikcp_parse_una k una) = mtu k" "rcv_queue (ikcp_parse_una k una) = rcv_queue k"
  "rcv_buf (ikcp_parse_una k una) = rcv_buf k" "rcv_nxt (ikcp_parse_una k una) = rcv_nxt k"
  "rcv_wnd (ikcp_parse_una k una) = rcv_wnd k" "ackcount (ikcp_parse_una k una) = ackcount k"
  "acklist (ikcp_parse_una k una) = acklist k" "snd_nxt (ikcp_parse_una k una) = snd_nxt k"
  "snd_queue (ikcp_parse_una k una) = snd_queue k" "output_cb (ikcp_parse_una k una) = output_cb k"
  "snd_una (ikcp_parse_una k una) = snd_una k"
  by (simp_all add: ikcp_parse_una_def case_prod_beta)

lemma shrink_buf_fields [simp]:
  "conv (ikcp_shrink_buf k) = conv k" "mss (ikcp_shrink_buf k) = mss k"
  "snd_wnd (ikcp_shrink_buf k) = snd_wnd k" "rmt_wnd (ikcp_shrink_buf k) = rmt_wnd k" "probe (ikcp_shrink_buf k) = probe k"
  "mtu (ikcp_shrink_buf k) = mtu k" "rcv_queue (ikcp_shrink_buf k) = rcv_queue k"
  "rcv_buf (ikcp_shrink_buf k) = rcv_buf k" "rcv_nxt (ikcp_shrink_buf k) = rcv_nxt k"
  "rcv_wnd (ikcp_shrink_buf k) = rcv_wnd k" "ackcount (ikcp_shrink_buf k) = ackcount k"
  "acklist (ikcp_shrink_buf k) = acklist k" "snd_nxt (ikcp_shrink_buf k) = snd_nxt k"
  "snd_queue (ikcp_shrink_buf k) = snd_queue k" "output_cb (ikcp_shrink_buf k) = output_cb k"
  "snd_buf (ikcp_shrink_buf k) = snd_buf k"
  by (simp_all add: shrink_buf_update)

lemma parse_fastack_fields [simp]:
  "conv (ikcp_parse_fastack k sn) = conv k" "mss (ikcp_parse_fastack k sn) = mss k"
  "snd_wnd (ikcp_parse_fastack k sn) = snd_wnd k" "rmt_wnd (ikcp_parse_fastack k sn) = rmt_wnd k" "probe (ikcp_parse_fastack k sn) = probe k"
  "mtu (ikcp_parse_fastack k sn) = mtu k" "rcv_queue (ikcp_parse_fastack k sn) = rcv_queue k"
  "rcv_buf (ikcp_parse_fastack k sn) = rcv_buf k" "rcv_nxt (ikcp_parse_fastack k sn) = rcv_nxt k"
  "rcv_wnd (ikcp_parse_fastack k sn) = rcv_wnd k" "ackcount (ikcp_parse_fastack k sn) = ackcount k"
  "acklist (ikcp_parse_fastack k sn) = acklist k" "snd_nxt (ikcp_parse_fastack k sn) = snd_nxt k"
  "snd_queue (ikcp_parse_fastack k sn) = snd_queue k" "output_cb (ikcp_parse_fastack k sn) = output_cb k"
  "snd_una (ikcp_parse_fastack k sn) = snd_una k"
  by (simp_all add: ikcp_parse_fastack_def)

lemma update_ack_fields [simp]:
  "conv (ikcp_update_ack k rtt) = conv k" "mss (ikcp_update_ack k rtt) = mss k"
  "snd_wnd (ikcp_update_ack k rtt) = snd_wnd k" "rmt_wnd (ikcp_update_ack k rtt) = rmt_wnd k" "probe (ikcp_update_ack k rtt) = probe k"
  "mtu (ikcp_update_ack k rtt) = mtu k" "rcv_queue (ikcp_update_ack k rtt) = rcv_queue k"
  "rcv_buf (ikcp_update_ack k rtt) = rcv_buf k" "rcv_nxt (ikcp_update_ack k rtt) = rcv_nxt k"
  "rcv_wnd (ikcp_update_ack k rtt) = rcv_wnd k" "ackcount (ikcp_update_ack k rtt) = ackcount k"
  "acklist (ikcp_update_ack k rtt) = acklist k" "snd_nxt (ikcp_update_ack k rtt) = snd_nxt k"
  "snd_queue (ikcp_update_ack k rtt) = snd_queue k" "output_cb (ikcp_update_ack k rtt) = output_cb k"
  "snd_una (ikcp_update_ack k rtt) = snd_una k" "snd_buf (ikcp_update_ack k rtt) = snd_buf k"
  using update_ack_frame [of k rtt] by auto

section \<open>What a datagram can change\<close>

text \<open>What identifies a segment to the application: number, fragment and payload.\<close>

definition seg_id :: "IKCPSEG \<Rightarrow> u32 \<times> u32 \<times> byte list" where
  "seg_id s = (sg_sn s, sg_frg s, sg_data s)"

text \<open>
  On the sending side input only removes segments: \<open>snd_una\<close> advances inside the numbers
  already sent, and nothing is queued, renumbered or altered.
\<close>

definition snd_shrinks :: "IKCPCB \<Rightarrow> IKCPCB \<Rightarrow> bool" where
  "snd_shrinks k k' \<longleftrightarrow>
     conv k' = conv k \<and> output_cb k' = output_cb k \<and> mss k' = mss k \<and> snd_wnd k' = snd_wnd k \<and>
     snd_nxt k' = snd_nxt k \<and> snd_queue k' = snd_queue k \<and>
     unat (snd_una k' - snd_una k) \<le> unat (snd_nxt k - snd_una k) \<and>
     seg_id ` set (snd_buf k') \<subseteq> seg_id ` set (snd_buf k)"

text \<open>
  On the receiving side segments described by \<open>P\<close> are added, and released to the user in
  the order of their numbers from \<open>rcv_nxt\<close> on.
\<close>

definition rcv_extends :: "(u32 \<times> u32 \<times> byte list \<Rightarrow> bool) \<Rightarrow> IKCPCB \<Rightarrow> IKCPCB \<Rightarrow> bool" where
  "rcv_extends P k k' \<longleftrightarrow>
     (\<exists>ds. rcv_queue k' = rcv_queue k @ ds \<and> consecutive (rcv_nxt k) ds \<and>
       rcv_nxt k' = rcv_nxt k + of_nat (length ds) \<and>
       (\<forall>s \<in> set ds \<union> set (rcv_buf k'). s \<in> set (rcv_buf k) \<or> P (seg_id s)))"

lemma snd_shrinks_refl: "snd_shrinks k k"
  by (simp add: snd_shrinks_def)

lemma unat_diff_trans:
  fixes a b c n :: u32
  assumes "unat (b - a) \<le> unat (n - a)" and "unat (c - b) \<le> unat (n - b)"
  shows "unat (c - a) \<le> unat (n - a)"
proof -
  have n: "unat (n - b) = unat (n - a) - unat (b - a)" by (rule unat_diff_shift [OF assms(1)])
  have "unat (b - a) + unat (c - b) \<le> unat (n - a)" using assms n by linarith
  moreover from this have "unat ((b - a) + (c - b)) = unat (b - a) + unat (c - b)"
    using unat_u32_bound [of "n - a"] by (intro unat_add_lt) simp
  ultimately show ?thesis by simp
qed

lemma snd_shrinks_trans: "snd_shrinks k1 k2 \<Longrightarrow> snd_shrinks k2 k3 \<Longrightarrow> snd_shrinks k1 k3"
  using unat_diff_trans [of "snd_una k2" "snd_una k1" "snd_nxt k1" "snd_una k3"]
  by (simp add: snd_shrinks_def) blast

lemma rcv_extends_refl: "rcv_extends P k k"
  by (auto simp: rcv_extends_def)

lemma rcv_extends_same:
  "rcv_queue k' = rcv_queue k \<Longrightarrow> rcv_nxt k' = rcv_nxt k \<Longrightarrow> rcv_buf k' = rcv_buf k \<Longrightarrow> rcv_extends P k k'"
  by (auto simp: rcv_extends_def)

lemma rcv_extends_trans:
  assumes "rcv_extends P k1 k2" and "rcv_extends P k2 k3"
  shows "rcv_extends P k1 k3"
proof -
  obtain ds es where "rcv_queue k2 = rcv_queue k1 @ ds" "consecutive (rcv_nxt k1) ds"
    "rcv_nxt k2 = rcv_nxt k1 + of_nat (length ds)"
    "\<forall>s \<in> set ds \<union> set (rcv_buf k2). s \<in> set (rcv_buf k1) \<or> P (seg_id s)"
    "rcv_queue k3 = rcv_queue k2 @ es" "consecutive (rcv_nxt k2) es"
    "rcv_nxt k3 = rcv_nxt k2 + of_nat (length es)"
    "\<forall>s \<in> set es \<union> set (rcv_buf k3). s \<in> set (rcv_buf k2) \<or> P (seg_id s)"
    using assms by (auto simp: rcv_extends_def)
  then show ?thesis
    unfolding rcv_extends_def by (intro exI [of _ "ds @ es"]) (auto simp: consecutive_append)
qed

lemma rcv_extends_mono: "rcv_extends P k k' \<Longrightarrow> (\<And>x. P x \<Longrightarrow> Q x) \<Longrightarrow> rcv_extends Q k k'"
  unfolding rcv_extends_def by blast

lemma snd_shrinks_filter:
  assumes "snd_queue k' = snd_queue k" "snd_nxt k' = snd_nxt k" "snd_una k' = snd_una k" "conv k' = conv k"
    "output_cb k' = output_cb k" "mss k' = mss k" "snd_wnd k' = snd_wnd k"
    and "seg_id ` set (snd_buf k') \<subseteq> seg_id ` set (snd_buf k)"
  shows "snd_shrinks k k'"
  using assms by (simp add: snd_shrinks_def)

lemma parse_ack_shrinks: "snd_inv k \<Longrightarrow> snd_shrinks k (ikcp_parse_ack k sn)"
  by (rule snd_shrinks_filter) (auto simp: parse_ack_filter)

lemma parse_una_shrinks: "snd_inv k \<Longrightarrow> snd_shrinks k (ikcp_parse_una k una)"
  by (rule snd_shrinks_filter) (auto simp: parse_una_alt dest: in_set_dropD)

lemma parse_fastack_shrinks: "snd_inv k \<Longrightarrow> snd_shrinks k (ikcp_parse_fastack k sn)"
  by (rule snd_shrinks_filter) (auto simp: parse_fastack_map seg_id_def image_iff)

lemma update_ack_shrinks: "snd_shrinks k (ikcp_update_ack k rtt)"
  by (rule snd_shrinks_filter) auto

lemma shrink_buf_shrinks:
  assumes "snd_inv k" shows "snd_shrinks k (ikcp_shrink_buf k)"
proof (cases "snd_buf k")
  case (Cons s ss)
  then show ?thesis
    using assms by (simp add: snd_shrinks_def shrink_buf_update snd_inv_def snd_off_def less_imp_le)
qed (simp add: snd_shrinks_def shrink_buf_update)

section \<open>One segment\<close>

text \<open>What a round of the loop guarantees.\<close>

definition input_step :: "(u32 \<times> u32 \<times> byte list \<Rightarrow> bool) \<Rightarrow> IKCPCB \<Rightarrow> IKCPCB \<Rightarrow> bool" where
  "input_step P k k' \<longleftrightarrow> kcp_inv k' \<and> snd_shrinks k k' \<and> rcv_extends P k k'"

lemma input_step_trans: "input_step P k1 k2 \<Longrightarrow> input_step P k2 k3 \<Longrightarrow> input_step P k1 k3"
  unfolding input_step_def by (blast intro: snd_shrinks_trans rcv_extends_trans)

lemma input_ack_state:
  "fst (input_ack k ts sn fm) = ikcp_shrink_buf (ikcp_parse_ack
     (if itimediff (current k) ts \<ge> 0 then ikcp_update_ack k (itimediff (current k) ts) else k) sn)"
  by (simp add: input_ack_def case_prod_beta Let_def)

lemma input_ack_step:
  assumes "kcp_inv k"
  shows "input_step P k (fst (input_ack k ts sn fm))"
proof -
  define k1 where "k1 = (if itimediff (current k) ts \<ge> 0 then ikcp_update_ack k (itimediff (current k) ts) else k)"
  have k1: "kcp_inv k1" "snd_shrinks k k1" "rcv_queue k1 = rcv_queue k" "rcv_nxt k1 = rcv_nxt k"
    "rcv_buf k1 = rcv_buf k"
    using assms by (simp_all add: k1_def update_ack_kcp_inv update_ack_shrinks snd_shrinks_refl)
  have k2: "kcp_inv (ikcp_parse_ack k1 sn)" by (rule parse_ack_kcp_inv [OF k1(1)])
  have "snd_shrinks k (ikcp_shrink_buf (ikcp_parse_ack k1 sn))"
    using k1(2) parse_ack_shrinks [OF kcp_invD(1) [OF k1(1)]] shrink_buf_shrinks [OF kcp_invD(1) [OF k2]]
    by (blast intro: snd_shrinks_trans)
  then show ?thesis
    using shrink_buf_kcp_inv [OF k2] k1
    by (auto simp: input_step_def input_ack_state k1_def [symmetric] intro: rcv_extends_same)
qed

lemma parse_data_extends:
  assumes inv: "rcv_inv k" and P: "P (seg_id s)"
  shows "rcv_extends P k (ikcp_parse_data k s)"
proof -
  obtain ds where ds: "rcv_queue (ikcp_parse_data k s) = rcv_queue k @ ds" "consecutive (rcv_nxt k) ds"
    "rcv_nxt (ikcp_parse_data k s) = rcv_nxt k + of_nat (length ds)"
    "mset ds + mset (rcv_buf (ikcp_parse_data k s)) =
       mset (rcv_buf k) + (if rcv_accepts k s then {#s#} else {#})"
    using parse_data_spec [OF inv refl, of s] by blast
  have "set_mset (mset ds + mset (rcv_buf (ikcp_parse_data k s))) \<subseteq> insert s (set (rcv_buf k))"
    unfolding ds(4) by auto
  then have "set ds \<union> set (rcv_buf (ikcp_parse_data k s)) \<subseteq> insert s (set (rcv_buf k))" by simp
  then show ?thesis unfolding rcv_extends_def using ds(1,2,3) P by blast
qed

lemma parse_data_shrinks:
  assumes "rcv_inv k"
  shows "snd_shrinks k (ikcp_parse_data k s)" "ackcount (ikcp_parse_data k s) = ackcount k"
proof -
  obtain ds rest nb nq where u: "ikcp_parse_data k s = k\<lparr>rcv_buf := rest, nrcv_buf := nb,
      rcv_queue := rcv_queue k @ ds, nrcv_que := nq, rcv_nxt := rcv_nxt k + of_nat (length ds)\<rparr>"
    by (rule parse_data_frame [OF assms])
  show "snd_shrinks k (ikcp_parse_data k s)" "ackcount (ikcp_parse_data k s) = ackcount k"
    by (simp_all add: u snd_shrinks_def)
qed

text \<open>The result of \<open>input_push\<close> for a segment in the window: it is acknowledged, and stored if new.\<close>

lemma input_push_value:
  assumes inv: "kcp_inv k" and cnt: "unat (ackcount k) < 2 ^ 30"
    and mem: "fst mem \<noteq> None" "snd mem \<noteq> None"
    and len: "unat (h_len h) \<le> length data" "unat (h_len h) < 2 ^ 31"
    and win: "itimediff (h_sn h) (rcv_nxt k + rcv_wnd k) < 0"
  obtains l b s where "input_push mem k h data =
      (let k1 = k\<lparr>acklist := Some l, ackcount := ackcount k + 1, ackblock := b\<rparr>
       in Some (if itimediff (h_sn h) (rcv_nxt k) \<ge> 0 then ikcp_parse_data k1 s else k1))"
    and "kcp_inv (k\<lparr>acklist := Some l, ackcount := ackcount k + 1, ackblock := b\<rparr>)"
    and "ack_pairs (k\<lparr>acklist := Some l, ackcount := ackcount k + 1, ackblock := b\<rparr>) = ack_pairs k @ [(h_sn h, h_ts h)]"
    and "seg_ok s" and "seg_id s = (h_sn h, ucast (h_frg h), take (unat (h_len h)) data)"
proof -
  obtain f where f: "fst mem = Some f" using mem(1) by auto
  obtain seg junk where sm: "snd mem = Some (seg, junk)" using mem(2) by auto
  obtain l b where ap: "ikcp_ack_push (Some f) k (h_sn h) (h_ts h) =
      Some (k\<lparr>acklist := Some l, ackcount := ackcount k + 1, ackblock := b\<rparr>)"
    and inv1: "kcp_inv (k\<lparr>acklist := Some l, ackcount := ackcount k + 1, ackblock := b\<rparr>)"
    and pairs: "ack_pairs (k\<lparr>acklist := Some l, ackcount := ackcount k + 1, ackblock := b\<rparr>) = ack_pairs k @ [(h_sn h, h_ts h)]"
    by (rule ack_push_kcp_inv [OF inv cnt])
  let ?n = "unat (h_len h)"
  let ?s = "seg\<lparr>sg_conv := h_conv h, sg_cmd := ucast (h_cmd h), sg_frg := ucast (h_frg h),
    sg_wnd := ucast (h_wnd h), sg_ts := h_ts h, sg_sn := h_sn h, sg_una := h_una h,
    sg_len := h_len h, sg_data := take ?n data\<rparr>"
  have n: "nat (sint (h_len h)) = ?n" using sint_small [OF len(2)] by (simp del: of_nat_unat)
  have d: "(if h_len h > 0 then do { x \<leftarrow> fetch data 0 ?n; blit (map junk [0..<?n]) 0 x }
      else Some (map junk [0..<?n])) = Some (take ?n data)"
    using len(1) by (auto simp: fetch_def blit_def word_less_nat_alt)
  show ?thesis
    by (rule that [of b l ?s, OF _ inv1 pairs]) (use win f sm ap d n len(1) in \<open>simp_all add: input_push_def seg_ok_def seg_id_def\<close>)
qed

lemma input_push_step:
  assumes inv: "kcp_inv k" and cnt: "unat (ackcount k) < 2 ^ 30"
    and mem: "fst mem \<noteq> None" "snd mem \<noteq> None"
    and len: "unat (h_len h) \<le> length data" "unat (h_len h) < 2 ^ 31"
    and P: "P (h_sn h, ucast (h_frg h), take (unat (h_len h)) data)"
  shows "\<exists>k'. input_push mem k h data = Some k' \<and> input_step P k k' \<and> unat (ackcount k') \<le> Suc (unat (ackcount k))"
proof (cases "itimediff (h_sn h) (rcv_nxt k + rcv_wnd k) < 0")
  case False
  then show ?thesis
    using inv by (simp add: input_push_def input_step_def snd_shrinks_refl rcv_extends_refl)
next
  case True
  obtain l b s where p: "input_push mem k h data =
      (let k1 = k\<lparr>acklist := Some l, ackcount := ackcount k + 1, ackblock := b\<rparr>
       in Some (if itimediff (h_sn h) (rcv_nxt k) \<ge> 0 then ikcp_parse_data k1 s else k1))"
    and inv1: "kcp_inv (k\<lparr>acklist := Some l, ackcount := ackcount k + 1, ackblock := b\<rparr>)"
    and s: "seg_ok s" "seg_id s = (h_sn h, ucast (h_frg h), take (unat (h_len h)) data)"
    by (rule input_push_value [OF inv cnt mem len True])
  let ?k = "k\<lparr>acklist := Some l, ackcount := ackcount k + 1, ackblock := b\<rparr>"
  have c1: "unat (ackcount k + 1) = Suc (unat (ackcount k))" using cnt by (simp add: unat_word_ariths)
  have "snd_shrinks k ?k" "rcv_extends P k ?k" by (simp_all add: snd_shrinks_def rcv_extends_same)
  then have k1: "input_step P k ?k" using inv1 by (simp add: input_step_def)
  have "kcp_inv (ikcp_parse_data ?k s)" by (rule parse_data_kcp_inv [OF inv1 s(1)])
  moreover have "rcv_extends P ?k (ikcp_parse_data ?k s)"
    by (rule parse_data_extends [OF kcp_invD(2) [OF inv1]]) (use P s(2) in simp)
  moreover note parse_data_shrinks [OF kcp_invD(2) [OF inv1], of s]
  ultimately have "input_step P ?k (ikcp_parse_data ?k s)" "ackcount (ikcp_parse_data ?k s) = ackcount ?k"
    by (simp_all add: input_step_def)
  then have "input_step P k (ikcp_parse_data ?k s)" "unat (ackcount (ikcp_parse_data ?k s)) \<le> Suc (unat (ackcount k))"
    using c1 input_step_trans [OF k1] by (blast, simp)
  then show ?thesis using p k1 c1 by (simp add: Let_def)
qed

text \<open>The invariant steps every segment goes through first.\<close>

lemma input_una_step:
  fixes w :: u16
  assumes inv: "kcp_inv k"
  shows "input_step P k (ikcp_shrink_buf (ikcp_parse_una (k\<lparr>rmt_wnd := ucast w\<rparr>) una))"
proof -
  let ?k = "k\<lparr>rx_minrto := rx_minrto k, rx_rto := rx_rto k, snd_wnd := snd_wnd k, rmt_wnd := ucast w,
    interval := interval k, buffer := buffer k\<rparr>"
  have "unat (ucast w :: u32) < 2 ^ 16"
    using unsigned_less [of w, where ?'a = nat] by (simp add: unsigned_ucast_eq take_bit_nat_eq_self)
  then have k1: "kcp_inv ?k"
    by (intro kcp_inv_conf [OF inv refl]) (use kcp_invD(4) [OF inv] in \<open>simp add: conf_inv_def\<close>)
  have k2: "kcp_inv (ikcp_parse_una ?k una)" by (rule parse_una_kcp_inv [OF k1])
  have "snd_shrinks k ?k" by (simp add: snd_shrinks_def)
  then have "snd_shrinks k (ikcp_shrink_buf (ikcp_parse_una ?k una))"
    using parse_una_shrinks [OF kcp_invD(1) [OF k1]] shrink_buf_shrinks [OF kcp_invD(1) [OF k2]]
    by (blast intro: snd_shrinks_trans)
  then show ?thesis
    using shrink_buf_kcp_inv [OF k2] by (simp add: input_step_def rcv_extends_same)
qed

lemma input_seg_step:
  assumes inv: "kcp_inv k" and cnt: "unat (ackcount k) < 2 ^ 30"
    and mem: "fst mem \<noteq> None" "snd mem \<noteq> None"
    and len: "unat (h_len h) \<le> length data" "unat (h_len h) < 2 ^ 31"
    and P: "ucast (h_cmd h) = IKCP_CMD_PUSH \<Longrightarrow> P (h_sn h, ucast (h_frg h), take (unat (h_len h)) data)"
  shows "(ucast (h_cmd h) \<notin> {81, 82, 83, 84 :: u32} \<and> input_seg mem k h data fm = Some (Inl (-3, k))) \<or>
    (ucast (h_cmd h) \<in> {81, 82, 83, 84 :: u32} \<and> (\<exists>k' fm'. input_seg mem k h data fm = Some (Inr (k', fm')) \<and>
      input_step P k k' \<and> unat (ackcount k') \<le> Suc (unat (ackcount k))))"
proof -
  define k1 where "k1 = ikcp_shrink_buf (ikcp_parse_una (k\<lparr>rmt_wnd := ucast (h_wnd h)\<rparr>) (h_una h))"
  have k1: "input_step P k k1" unfolding k1_def by (rule input_una_step [OF inv])
  then have inv1: "kcp_inv k1" by (simp add: input_step_def)
  have c1: "ackcount k1 = ackcount k" by (simp add: k1_def)
  define c where "c = (ucast (h_cmd h) :: u32)"
  note def = input_seg_def [of mem k h data fm, folded k1_def c_def, unfolded Let_def, folded k1_def c_def]
  consider "c \<notin> {81, 82, 83, 84}" | "c = 82" | "c = 81" | "c = 83" | "c = 84" by auto
  then show ?thesis
  proof cases
    case 2
    have "input_step P k (fst (input_ack k1 (h_ts h) (h_sn h) fm))"
      by (rule input_step_trans [OF k1 input_ack_step [OF inv1]])
    moreover have "ackcount (fst (input_ack k1 (h_ts h) (h_sn h) fm)) = ackcount k"
      by (simp add: input_ack_state c1)
    ultimately show ?thesis
      using 2 def c_def by (cases "input_ack k1 (h_ts h) (h_sn h) fm") auto
  next
    case 3
    then obtain k' where "input_push mem k1 h data = Some k'" "input_step P k1 k'"
      "unat (ackcount k') \<le> Suc (unat (ackcount k))"
      using input_push_step [OF inv1 _ mem len, where P = P] P cnt c1 c_def by auto
    then show ?thesis using 3 def c_def input_step_trans [OF k1] by auto
  next
    case 4
    have "input_step P k1 (k1\<lparr>probe := probe k1 OR 2\<rparr>)"
      using inv1 by (simp add: input_step_def snd_shrinks_def rcv_extends_same)
    then show ?thesis using 4 def c_def c1 input_step_trans [OF k1] by auto
  qed (use def c_def k1 c1 in auto)
qed

section \<open>The loop\<close>

lemma input_step_refl: "kcp_inv k \<Longrightarrow> input_step P k k"
  by (simp add: input_step_def snd_shrinks_refl rcv_extends_refl)

lemma decode_header_conv:
  "ikcp_decode_header data = Some (h, rest) \<Longrightarrow> \<exists>d. ikcp_decode32u data = Some (h_conv h, d)"
  by (auto simp: ikcp_decode_header_def outcome_simps)

lemma input_loop_round:
  assumes "24 \<le> sz" and "ikcp_decode_header data = Some (h, rest)"
  shows "input_loop mem i k data sz fm =
    (if h_conv h \<noteq> conv k then Some (Inl (-1, k))
     else if sz - 24 < int (unat (h_len h)) then Some (Inl (-2, k))
     else case input_seg (mem i) k h rest fm of
         None \<Rightarrow> None | Some (Inl e) \<Rightarrow> Some (Inl e)
       | Some (Inr (k', fm')) \<Rightarrow> input_loop mem (Suc i) k' (drop (unat (h_len h)) rest)
           (sz - 24 - int (unat (h_len h))) fm')"
  using decode_header_conv [OF assms(2)] assms
  by (subst input_loop.simps) (auto split: option.splits sum.splits)

lemma input_loop_end: "sz < 24 \<Longrightarrow> input_loop mem i k data sz fm = Some (Inr (k, fm))"
  by (subst input_loop.simps) simp

text \<open>The outcome of the loop: an early return with an error, or the end of the data.\<close>

definition loop_outcome :: "IKCPCB \<Rightarrow> (int \<times> IKCPCB) + (IKCPCB \<times> bool \<times> u32) \<Rightarrow> bool" where
  "loop_outcome k r \<longleftrightarrow>
     (case r of Inl (e, k') \<Rightarrow> e \<in> {-1, -2, -3} \<and> input_step (\<lambda>_. True) k k'
      | Inr (k', _) \<Rightarrow> input_step (\<lambda>_. True) k k')"

lemma loop_outcome_trans:
  "input_step (\<lambda>_. True) k k' \<Longrightarrow> loop_outcome k' r \<Longrightarrow> loop_outcome k r"
  unfolding loop_outcome_def by (cases r) (auto intro: input_step_trans)

lemma input_loop_total:
  assumes "kcp_inv k" and "\<And>j. fst (mem j) \<noteq> None" "\<And>j. snd (mem j) \<noteq> None"
    and "sz \<le> int (length data)" "sz < 2 ^ 31" and "unat (ackcount k) + nat sz < 2 ^ 30"
  shows "\<exists>r. input_loop mem i k data sz fm = Some r \<and> loop_outcome k r"
  using assms
proof (induction "nat sz" arbitrary: i k data sz fm rule: less_induct)
  case less
  show ?case
  proof (cases "24 \<le> sz")
    case False
    then show ?thesis
      using less.prems(1) by (simp add: input_loop_end loop_outcome_def input_step_refl)
  next
    case True
    then have len: "24 \<le> length data" using less.prems(4) by linarith
    then obtain h where h: "ikcp_decode_header data = Some (h, drop 24 data)"
      using decode_header_total by blast
    note round = input_loop_round [OF True h, of mem i k fm]
    let ?n = "unat (h_len h)"
    show ?thesis
    proof (cases "h_conv h = conv k \<and> \<not> sz - 24 < int ?n")
      case False
      then show ?thesis
        using round less.prems(1) by (auto simp: loop_outcome_def input_step_refl)
    next
      case ok: True
      have n: "?n \<le> length (drop 24 data)" "?n < 2 ^ 31"
        using ok less.prems(4,5) by (simp_all del: of_nat_unat) linarith+
      have cnt: "unat (ackcount k) < 2 ^ 30" using less.prems(6) by linarith
      show ?thesis
      proof (cases "ucast (h_cmd h) \<in> {81, 82, 83, 84 :: u32}")
        case False
        then have "input_seg (mem i) k h (drop 24 data) fm = Some (Inl (-3, k))"
          using input_seg_step [OF less.prems(1) cnt less.prems(2,3) n, of "\<lambda>_. True"] by blast
        then show ?thesis
          using round ok less.prems(1) by (auto simp: loop_outcome_def input_step_refl)
      next
        case c: True
        then obtain k' fm' where s: "input_seg (mem i) k h (drop 24 data) fm = Some (Inr (k', fm'))"
          "input_step (\<lambda>_. True) k k'" "unat (ackcount k') \<le> Suc (unat (ackcount k))"
          using input_seg_step [OF less.prems(1) cnt less.prems(2,3) n, of "\<lambda>_. True"] by blast
        let ?sz = "sz - 24 - int ?n"
        have dec: "nat ?sz < nat sz" "unat (ackcount k') + nat ?sz < 2 ^ 30"
          "?sz \<le> int (length (drop ?n (drop 24 data)))" "?sz < 2 ^ 31"
          using True s(3) less.prems(4,5,6) len n(1) by (simp_all del: of_nat_unat)
        obtain r where "input_loop mem (Suc i) k' (drop ?n (drop 24 data)) ?sz fm' = Some r"
          "loop_outcome k' r"
          using less.hyps [OF dec(1) _ less.prems(2,3) dec(3,4,2)] s(2) unfolding input_step_def by blast
        then show ?thesis using round ok s loop_outcome_trans by auto
      qed
    qed
  qed
qed

section \<open>The congestion window\<close>

lemma input_cwnd_total:
  assumes "mss k \<noteq> 0"
  obtains c j where "input_cwnd una k = Some (k\<lparr>cwnd := c, incr := j\<rparr>)"
proof -
  have "(if incr k < mss k then mss k else incr k) \<noteq> 0" using assms by (auto simp: word_greater_zero_iff)
  then have "\<exists>k'. input_cwnd una k = Some k' \<and> k' = k\<lparr>cwnd := cwnd k', incr := incr k'\<rparr>"
    by (simp add: input_cwnd_def c_udiv_def Let_def del: if_not_P)
  then show ?thesis using that by metis
qed

lemma input_cwnd_bound:
  assumes "input_cwnd una k = Some k'" and "cwnd k < rmt_wnd k"
  shows "unat (cwnd k') \<le> Suc (unat (cwnd k))" "cwnd k' \<le> rmt_wnd k" "cwnd k \<le> cwnd k'"
proof -
  have s: "unat (cwnd k + 1) = Suc (unat (cwnd k))" "cwnd k + 1 \<le> rmt_wnd k"
  proof -
    have "Suc (unat (cwnd k)) < 2 ^ 32"
      using assms(2) unat_u32_bound [of "rmt_wnd k"] by (simp add: word_less_nat_alt)
    then show "unat (cwnd k + 1) = Suc (unat (cwnd k))" by (subst unat_add_lt) simp_all
    then show "cwnd k + 1 \<le> rmt_wnd k" using assms(2) by (simp add: word_less_nat_alt word_le_nat_alt)
  qed
  have "cwnd k' = cwnd k \<or> cwnd k' = cwnd k + 1"
    using assms s(2) by (auto simp: input_cwnd_def Let_def outcome_simps not_less split: if_splits)
  then show "unat (cwnd k') \<le> Suc (unat (cwnd k))" "cwnd k' \<le> rmt_wnd k" "cwnd k \<le> cwnd k'"
    using assms(2) s by (auto simp: word_le_nat_alt)
qed

section \<open>Datagrams\<close>

text \<open>The bytes of a segment on the wire.\<close>

definition wire :: "IKCPSEG \<Rightarrow> byte list" where
  "wire s = ikcp_encode_seg [] s @ sg_data s"

text \<open>The datagram of a connection: encoded segments with known commands, one after the other.\<close>

definition wire_seg :: "u32 \<Rightarrow> IKCPSEG \<Rightarrow> bool" where
  "wire_seg c s \<longleftrightarrow> seg_ok s \<and> sg_conv s = c \<and> sg_cmd s \<in> {81, 82, 83, 84}"

text \<open>The loop over the segments themselves, a reference definition.\<close>

fun input_segs :: "(nat \<Rightarrow> input_mem) \<Rightarrow> nat \<Rightarrow> IKCPCB \<Rightarrow> IKCPSEG list \<Rightarrow> bool \<times> u32 \<Rightarrow>
    ((int \<times> IKCPCB) + (IKCPCB \<times> bool \<times> u32)) option" where
  "input_segs mem i k [] fm = Some (Inr (k, fm))"
| "input_segs mem i k (s # ss) fm =
     (case input_seg (mem i) k (header_of s) (sg_data s) fm of
        None \<Rightarrow> None | Some (Inl e) \<Rightarrow> Some (Inl e)
      | Some (Inr (k', fm')) \<Rightarrow> input_segs mem (Suc i) k' ss fm')"

lemma input_push_prefix:
  "unat (h_len h) = length d \<Longrightarrow> input_push mem k h (d @ rest) = input_push mem k h d"
proof -
  assume "unat (h_len h) = length d"
  then have "fetch (d @ rest) 0 (unat (h_len h)) = fetch d 0 (unat (h_len h))" by (simp add: fetch_def)
  then show ?thesis by (simp only: input_push_def)
qed

lemma input_seg_prefix:
  "unat (h_len h) = length d \<Longrightarrow> input_seg mem k h (d @ rest) fm = input_seg mem k h d fm"
  by (simp only: input_seg_def input_push_prefix)

lemma cmd_byte: "c \<in> {81, 82, 83, 84 :: u32} \<Longrightarrow> ucast (ucast c :: byte) = c"
  by auto

lemma input_loop_wire:
  assumes "kcp_inv k" and "\<And>j. fst (mem j) \<noteq> None" "\<And>j. snd (mem j) \<noteq> None"
    and "\<forall>s \<in> set ss. wire_seg (conv k) s" and "length (concat (map wire ss)) < 2 ^ 31"
    and "unat (ackcount k) + length ss < 2 ^ 30"
    and "\<forall>s \<in> set ss. sg_cmd s = 81 \<longrightarrow> P (sg_sn s, ucast (ucast (sg_frg s) :: byte), sg_data s)"
  shows "\<exists>k' fm'. input_loop mem i k (concat (map wire ss)) (int (length (concat (map wire ss)))) fm =
      Some (Inr (k', fm')) \<and> input_segs mem i k ss fm = Some (Inr (k', fm')) \<and> input_step P k k'"
  using assms
proof (induction ss arbitrary: i k fm)
  case Nil
  then show ?case by (simp add: input_loop_end input_step_refl)
next
  case (Cons s ss)
  let ?h = "header_of s" and ?r = "concat (map wire ss)" and ?d = "concat (map wire (s # ss))"
  have s: "seg_ok s" "sg_conv s = conv k" "sg_cmd s \<in> {81, 82, 83, 84}"
    using Cons.prems(4) by (simp_all add: wire_seg_def)
  have len: "unat (h_len ?h) = length (sg_data s)" using s(1) by (simp add: seg_ok_def header_of_def)
  have d: "ikcp_decode_header ?d = Some (?h, sg_data s @ ?r)"
    using decode_encode_seg [of s "sg_data s @ ?r"] by (simp add: wire_def)
  have sz: "int (length ?d) - 24 - int (unat (h_len ?h)) = int (length ?r)" "24 \<le> int (length ?d)"
    "\<not> int (length ?d) - 24 < int (unat (h_len ?h))"
    unfolding len by (simp_all add: wire_def)
  have n: "unat (h_len ?h) \<le> length (sg_data s)" "unat (h_len ?h) < 2 ^ 31"
    using Cons.prems(5) unfolding len by (simp_all add: wire_def)
  have cmd: "ucast (h_cmd ?h) = sg_cmd s" using cmd_byte [OF s(3)] by (simp add: header_of_def)
  have P: "P (h_sn ?h, ucast (h_frg ?h), take (unat (h_len ?h)) (sg_data s))" if "ucast (h_cmd ?h) = (81 :: u32)"
    using Cons.prems(7) that cmd unfolding len by (simp add: header_of_def)
  have cnt: "unat (ackcount k) < 2 ^ 30" using Cons.prems(6) by simp
  have "ucast (h_cmd ?h) \<in> {81, 82, 83, 84 :: u32}" using s(3) cmd by simp
  then obtain k' fm' where k': "input_seg (mem i) k ?h (sg_data s) fm = Some (Inr (k', fm'))" "input_step P k k'"
    "unat (ackcount k') \<le> Suc (unat (ackcount k))"
    using input_seg_step [OF Cons.prems(1) cnt Cons.prems(2,3) [of i] n, where P = P and fm = fm] P by blast
  have pre: "input_seg (mem i) k ?h (sg_data s @ ?r) fm = Some (Inr (k', fm'))"
    using input_seg_prefix [OF len] k'(1) by simp
  have conv': "conv k' = conv k" and inv': "kcp_inv k'"
    using k'(2) by (simp_all add: input_step_def snd_shrinks_def)
  have "\<exists>k'' fm''. input_loop mem (Suc i) k' ?r (int (length ?r)) fm' = Some (Inr (k'', fm'')) \<and>
      input_segs mem (Suc i) k' ss fm' = Some (Inr (k'', fm'')) \<and> input_step P k' k''"
    by (rule Cons.IH [OF inv' Cons.prems(2,3)]) (use Cons.prems k'(3) conv' in \<open>auto\<close>)
  then obtain k'' fm'' where k'': "input_loop mem (Suc i) k' ?r (int (length ?r)) fm' = Some (Inr (k'', fm''))"
    "input_segs mem (Suc i) k' ss fm' = Some (Inr (k'', fm''))" "input_step P k' k''" by blast
  have "input_loop mem i k ?d (int (length ?d)) fm = Some (Inr (k'', fm''))"
    unfolding input_loop_round [OF sz(2) d] pre sz(1) using s(2) sz(3) [unfolded len] len k''(1)
    by (simp add: header_of_def)
  then show ?case using k'(1) k''(2) input_step_trans [OF k'(2) k''(3)] by simp
qed

section \<open>The whole function\<close>

lemma input_finish:
  assumes inv: "kcp_inv k1"
  obtains k' where "input_cwnd una (if flag then ikcp_parse_fastack k1 maxack else k1) = Some k'"
    and "input_step P k1 k'"
proof -
  let ?k = "if flag then ikcp_parse_fastack k1 maxack else k1"
  have k: "input_step P k1 ?k"
    using inv parse_fastack_kcp_inv [OF inv] parse_fastack_shrinks [OF kcp_invD(1) [OF inv]]
    by (simp add: input_step_def rcv_extends_same snd_shrinks_refl)
  then have ki: "kcp_inv ?k" by (simp add: input_step_def)
  have "mss ?k \<noteq> 0" using conf_mss(2) [OF kcp_invD(4) [OF ki]] by (cases flag) auto
  then obtain c j where c: "input_cwnd una ?k = Some (?k\<lparr>cwnd := c, incr := j\<rparr>)"
    by (rule input_cwnd_total)
  have "input_step P ?k (?k\<lparr>cwnd := c, incr := j\<rparr>)"
    using ki by (simp add: input_step_def snd_shrinks_def rcv_extends_same)
  then show ?thesis by (rule that [OF c input_step_trans [OF k]])
qed

lemma ikcp_input_total:
  assumes inv: "kcp_inv k" and mem: "\<And>j. fst (mem j) \<noteq> None" "\<And>j. snd (mem j) \<noteq> None"
    and sz: "sz \<le> int (length d)" "sz < 2 ^ 31" and cnt: "unat (ackcount k) + nat sz < 2 ^ 30"
  obtains r k' where "ikcp_input mem k (Some d) sz = Some (r, k')" "r \<in> {0, -1, -2, -3}"
    "input_step (\<lambda>_. True) k k'"
proof (cases "sz < 24")
  case True
  then show ?thesis using that [of "-1" k] input_step_refl [OF inv] by (simp add: ikcp_input_def)
next
  case False
  obtain r where r: "input_loop mem 0 k d sz (False, 0) = Some r" "loop_outcome k r"
    using input_loop_total [where mem = mem, OF inv mem sz cnt] by blast
  show ?thesis
  proof (cases r)
    case (Inl e)
    then show ?thesis
      using that [of "fst e" "snd e"] r False by (cases e) (auto simp: ikcp_input_def loop_outcome_def)
  next
    case (Inr x)
    obtain k1 flag maxack where x: "x = (k1, flag, maxack)" by (cases x) auto
    then have k1: "input_step (\<lambda>_. True) k k1" using r(2) Inr by (simp add: loop_outcome_def)
    then have "kcp_inv k1" by (simp add: input_step_def)
    then obtain k' where k': "input_cwnd (snd_una k) (if flag then ikcp_parse_fastack k1 maxack else k1) = Some k'"
      "input_step (\<lambda>_. True) k1 k'" by (rule input_finish)
    show ?thesis
      by (rule that [of 0 k', OF _ _ input_step_trans [OF k1 k'(2)]])
        (use r(1) Inr x k'(1) False in \<open>simp_all add: ikcp_input_def\<close>)
  qed
qed

lemma ikcp_input_wire:
  assumes inv: "kcp_inv k" and mem: "\<And>j. fst (mem j) \<noteq> None" "\<And>j. snd (mem j) \<noteq> None"
    and ss: "ss \<noteq> []" "\<forall>s \<in> set ss. wire_seg (conv k) s" "length (concat (map wire ss)) < 2 ^ 31"
    and cnt: "unat (ackcount k) + length ss < 2 ^ 30"
    and P: "\<forall>s \<in> set ss. sg_cmd s = 81 \<longrightarrow> P (sg_sn s, ucast (ucast (sg_frg s) :: byte), sg_data s)"
  obtains k' where "ikcp_input mem k (Some (concat (map wire ss))) (int (length (concat (map wire ss)))) =
    Some (0, k')" "input_step P k k'"
proof -
  let ?d = "concat (map wire ss)"
  obtain k1 fm where l: "input_loop mem 0 k ?d (int (length ?d)) (False, 0) = Some (Inr (k1, fm))"
    "input_step P k k1"
    using input_loop_wire [where mem = mem, OF inv mem ss(2,3) cnt P] by blast
  then have "kcp_inv k1" by (simp add: input_step_def)
  then obtain k' where k': "input_cwnd (snd_una k) (if fst fm then ikcp_parse_fastack k1 (snd fm) else k1) = Some k'"
    "input_step P k1 k'" by (rule input_finish)
  have len: "\<not> int (length ?d) < 24" using ss(1) by (cases ss) (simp_all add: wire_def)
  show ?thesis
    by (rule that [of k', OF _ input_step_trans [OF l(2) k'(2)]])
      (use l(1) k'(1) len in \<open>cases "fst fm"; simp add: ikcp_input_def case_prod_beta\<close>)
qed

section \<open>Properties\<close>

definition demo_alloc :: "nat \<Rightarrow> input_mem" where
  "demo_alloc = (\<lambda>_. (Some (\<lambda>_. 0), Some (blank_seg, \<lambda>_. 0)))"

lemma demo_alloc_ok: "fst (demo_alloc j) \<noteq> None" "snd (demo_alloc j) \<noteq> None"
  by (simp_all add: demo_alloc_def)

text \<open>
  C8: \<open>ikcp_input\<close> is safe on every datagram: whatever the bytes are, the loop ends, nothing
  is read outside the datagram, no \<open>assert\<close> fails and nothing is divided by zero; the
  result is 0 or one of the three errors, the invariant is kept, \<open>snd_una\<close> stays within the
  numbers sent, and no segment appears in \<open>snd_buf\<close> that was not there.
\<close>

theorem ikcp_input_safe:
  assumes "kcp_inv k" and "\<And>j. fst (mem j) \<noteq> None" and "\<And>j. snd (mem j) \<noteq> None"
    and "length d < 2 ^ 30" and "unat (ackcount k) + length d < 2 ^ 30"
  shows "\<exists>r k'. ikcp_input mem k (Some d) (int (length d)) = Some (r, k') \<and> r \<in> {0, -1, -2, -3} \<and>
    kcp_inv k' \<and> conv k' = conv k \<and> snd_nxt k' = snd_nxt k \<and> snd_queue k' = snd_queue k \<and>
    unat (snd_una k' - snd_una k) \<le> unat (snd_nxt k - snd_una k) \<and>
    seg_id ` set (snd_buf k') \<subseteq> seg_id ` set (snd_buf k) \<and>
    (\<exists>ds. rcv_queue k' = rcv_queue k @ ds \<and> consecutive (rcv_nxt k) ds \<and>
      rcv_nxt k' = rcv_nxt k + of_nat (length ds))"
proof -
  obtain r k' where "ikcp_input mem k (Some d) (int (length d)) = Some (r, k')" "r \<in> {0, -1, -2, -3}"
    "input_step (\<lambda>_. True) k k'"
    by (rule ikcp_input_total [where mem = mem and d = d and sz = "int (length d)", OF assms(1-3)])
      (use assms(4,5) in auto)
  then show ?thesis
    unfolding input_step_def snd_shrinks_def rcv_extends_def by (intro exI [of _ r] exI [of _ k']) blast
qed

theorem ikcp_input_safe_witness:
  "kcp_inv demo_kcb \<and> (\<exists>r k'. ikcp_input demo_alloc demo_kcb (Some (replicate 30 255)) 30 = Some (r, k') \<and> kcp_inv k')"
  using ikcp_input_safe [where mem = demo_alloc, OF demo_kcb_inv demo_alloc_ok, of "replicate 30 255"] demo_kcb_inv by auto

text \<open>
  C34: datagrams that are not of this connection or malformed are refused before they have an
  effect: too short or another conversation number give -1, a length beyond the datagram -2,
  an unknown command -3, and the control block is as before.
\<close>

theorem ikcp_input_refuses:
  assumes "ikcp_decode_header d = Some (h, rest)" and "24 \<le> length d"
  shows "ikcp_input mem k None sz = Some (-1, k) \<and>
    (sz < 24 \<longrightarrow> ikcp_input mem k (Some d) sz = Some (-1, k)) \<and>
    (h_conv h \<noteq> conv k \<longrightarrow> ikcp_input mem k (Some d) (int (length d)) = Some (-1, k)) \<and>
    (h_conv h = conv k \<and> length d < 24 + unat (h_len h) \<longrightarrow>
       ikcp_input mem k (Some d) (int (length d)) = Some (-2, k)) \<and>
    (h_conv h = conv k \<and> 24 + unat (h_len h) \<le> length d \<and> ucast (h_cmd h) \<notin> {81, 82, 83, 84 :: u32} \<longrightarrow>
       ikcp_input mem k (Some d) (int (length d)) = Some (-3, k))"
proof -
  have n: "int (length d) - 24 < int (unat (h_len h)) \<longleftrightarrow> length d < 24 + unat (h_len h)" by linarith
  have "input_seg (mem 0) k h rest (False, 0) = Some (Inl (-3, k))" if "ucast (h_cmd h) \<notin> {81, 82, 83, 84 :: u32}"
    using that by (simp add: input_seg_def)
  then show ?thesis
    using input_loop_round [of "int (length d)" d h rest mem 0 k "(False, 0)", OF _ assms(1)] assms(2) n
    by (auto simp: ikcp_input_def)
qed

text \<open>An acknowledgement of segment 1 as the peer of the example sends it.\<close>

definition demo_ack :: IKCPSEG where
  "demo_ack = blank_seg\<lparr>sg_conv := 7, sg_cmd := 82, sg_sn := 1, sg_wnd := 32\<rparr>"

theorem ikcp_input_refuses_witness:
  "ikcp_input demo_alloc (demo_kcb\<lparr>conv := 9\<rparr>) (Some (wire demo_ack)) 24 = Some (-1, demo_kcb\<lparr>conv := 9\<rparr>)"
proof -
  have d: "ikcp_decode_header (wire demo_ack) = Some (header_of demo_ack, [])"
    using decode_encode_seg [of demo_ack "[]"] by (simp add: wire_def demo_ack_def blank_seg_def)
  have l: "length (wire demo_ack) = 24" by (simp add: wire_def demo_ack_def blank_seg_def)
  show ?thesis
    using ikcp_input_refuses [OF d, of demo_alloc "demo_kcb\<lparr>conv := 9\<rparr>"] l
    by (simp add: header_of_def demo_ack_def)
qed

text \<open>
  C18: a datagram that is a sequence of encoded segments of this connection is processed
  segment by segment, in order and completely, and the result is 0: parsing the bytes is
  equivalent to handling the list of segments.
\<close>

theorem ikcp_input_datagram:
  assumes "kcp_inv k" and "\<And>j. fst (mem j) \<noteq> None" and "\<And>j. snd (mem j) \<noteq> None"
    and "ss \<noteq> []" and "\<forall>s \<in> set ss. wire_seg (conv k) s" and "length (concat (map wire ss)) < 2 ^ 30"
    and "unat (ackcount k) + length ss < 2 ^ 30"
  shows "\<exists>k1 flag maxack k'. input_segs mem 0 k ss (False, 0) = Some (Inr (k1, flag, maxack)) \<and>
    input_cwnd (snd_una k) (if flag then ikcp_parse_fastack k1 maxack else k1) = Some k' \<and>
    ikcp_input mem k (Some (concat (map wire ss))) (int (length (concat (map wire ss)))) = Some (0, k') \<and> kcp_inv k'"
proof -
  let ?d = "concat (map wire ss)"
  have "length ?d < 2 ^ 31" using assms(6) by simp
  then obtain k1 fm where l: "input_loop mem 0 k ?d (int (length ?d)) (False, 0) = Some (Inr (k1, fm))"
    "input_segs mem 0 k ss (False, 0) = Some (Inr (k1, fm))" "input_step (\<lambda>_. True) k k1"
    using input_loop_wire [where mem = mem and P = "\<lambda>_. True" and i = 0 and fm = "(False, 0)", OF assms(1-3,5) _ assms(7)] by blast
  then have "kcp_inv k1" by (simp add: input_step_def)
  then obtain k' where k': "input_cwnd (snd_una k) (if fst fm then ikcp_parse_fastack k1 (snd fm) else k1) = Some k'"
    "input_step (\<lambda>_. True) k1 k'" by (rule input_finish)
  have "\<not> int (length ?d) < 24" using assms(4) by (cases ss) (simp_all add: wire_def)
  then have "ikcp_input mem k (Some ?d) (int (length ?d)) = Some (0, k')"
    using l(1) k'(1) by (cases "fst fm"; simp add: ikcp_input_def case_prod_beta)
  then show ?thesis
    using l(2) k' by (intro exI [of _ k1] exI [of _ "fst fm"] exI [of _ "snd fm"] exI [of _ k'])
      (simp add: input_step_def)
qed

theorem ikcp_input_datagram_witness:
  "\<exists>k'. ikcp_input demo_alloc demo_kcb (Some (wire demo_ack @ wire demo_ack)) 48 = Some (0, k') \<and> kcp_inv k'"
proof -
  have "wire_seg (conv demo_kcb) demo_ack" by (simp add: wire_seg_def demo_ack_def blank_seg_def seg_ok_def)
  moreover have "length (wire demo_ack) = 24" by (simp add: wire_def demo_ack_def blank_seg_def)
  ultimately show ?thesis
    using ikcp_input_datagram [where mem = demo_alloc, OF demo_kcb_inv demo_alloc_ok, of "[demo_ack, demo_ack]"] by auto
qed

text \<open>
  The congestion window grows by at most one segment per datagram, never beyond the
  window the peer announced, and not at all when nothing new was acknowledged; the division
  is never by zero.
\<close>

theorem input_cwnd_growth:
  assumes "kcp_inv k"
  shows "\<exists>k'. input_cwnd una k = Some k' \<and> k' = k\<lparr>cwnd := cwnd k', incr := incr k'\<rparr> \<and>
    (cwnd k < rmt_wnd k \<longrightarrow> cwnd k \<le> cwnd k' \<and> unat (cwnd k') \<le> Suc (unat (cwnd k)) \<and> cwnd k' \<le> rmt_wnd k) \<and>
    (itimediff (snd_una k) una \<le> 0 \<or> rmt_wnd k \<le> cwnd k \<longrightarrow> k' = k)"
proof -
  have "mss k \<noteq> 0" using conf_mss(2) [OF kcp_invD(4) [OF assms]] by auto
  then obtain c j where k': "input_cwnd una k = Some (k\<lparr>cwnd := c, incr := j\<rparr>)" by (rule input_cwnd_total)
  moreover have "input_cwnd una k = Some k" if "itimediff (snd_una k) una \<le> 0 \<or> rmt_wnd k \<le> cwnd k"
    using that by (auto simp: input_cwnd_def)
  ultimately show ?thesis using input_cwnd_bound [OF k'] by auto
qed

theorem input_cwnd_growth_witness:
  "kcp_inv (demo_kcb\<lparr>cwnd := 3\<rparr>) \<and> (\<exists>k'. input_cwnd 0 (demo_kcb\<lparr>cwnd := 3\<rparr>) = Some k' \<and> unat (cwnd k') \<le> 4)"
  using input_cwnd_growth [of "demo_kcb\<lparr>cwnd := 3\<rparr>" 0] demo_kcb_inv by auto

end
