(* ===== verification/Ikcp_Flush.thy ===== *)
theory Ikcp_Flush
  imports Ikcp_Input "HOL-Library.Sublist"
begin

text \<open>
  \<open>ikcp_flush\<close> of \<open>src/src/ikcp.c\<close>: the pending acknowledgements, the window probes, the
  move of queued segments into \<open>snd_buf\<close>, the transmissions and retransmissions, and the
  reaction of the congestion window to losses.

  The bytes between \<open>buffer\<close> and \<open>ptr\<close> are a list; a write beyond the allocated block is
  \<open>None\<close>. The datagrams handed to the callback are returned in order. The lemmas show that
  the writes stay inside the block, that every datagram has at most \<open>mtu\<close> bytes and is a
  sequence of encoded segments, that the invariant of the control block is kept and that
  the numbers given to new segments stay inside the send window.
\<close>

section \<open>The model\<close>

text \<open>The bytes written to the buffer so far, and the datagrams handed to the callback.\<close>

type_synonym flush_buf = "byte list \<times> byte list list"

text \<open>\<open>ikcp_output\<close>: the datagrams passed to the callback, which must be set.\<close>

definition ikcp_output :: "IKCPCB \<Rightarrow> byte list \<Rightarrow> byte list list option" where
  "ikcp_output k data =
     do {
       c_assert (output_cb k);
       Some (if length data = 0 then [] else [data])
     }"

text \<open>Writing at \<open>ptr\<close> into a block of \<open>cap\<close> bytes.\<close>

definition put_bytes :: "nat \<Rightarrow> byte list \<Rightarrow> byte list \<Rightarrow> byte list option" where
  "put_bytes cap ptr bs = (if length ptr + length bs \<le> cap then Some (ptr @ bs) else None)"

text \<open>The test before each write: send what is there when \<open>need\<close> more bytes exceed \<open>mtu\<close>.\<close>

definition flush_room :: "IKCPCB \<Rightarrow> int \<Rightarrow> flush_buf \<Rightarrow> flush_buf option" where
  "flush_room k need st =
     (let (ptr, outs) = st in
      if wrap32 (int (length ptr) + need) > sint (mtu k) then
        do { o1 \<leftarrow> ikcp_output k ptr; Some ([], outs @ o1) }
      else Some (ptr, outs))"

text \<open>A header without payload, as in the acknowledgement and the probe parts.\<close>

definition flush_header :: "IKCPCB \<Rightarrow> nat \<Rightarrow> IKCPSEG \<Rightarrow> flush_buf \<Rightarrow> flush_buf option" where
  "flush_header k cap seg st =
     do {
       (ptr, outs) \<leftarrow> flush_room k (sint IKCP_OVERHEAD) st;
       ptr \<leftarrow> put_bytes cap ptr (ikcp_encode_seg [] seg);
       Some (ptr, outs)
     }"

text \<open>The local variable \<open>seg\<close>; the fields the function does not set are never read.\<close>

definition flush_seg :: "IKCPCB \<Rightarrow> IKCPSEG" where
  "flush_seg k =
     \<lparr>sg_conv = conv k, sg_cmd = IKCP_CMD_ACK, sg_frg = 0, sg_wnd = ikcp_wnd_unused k, sg_ts = 0,
      sg_sn = 0, sg_una = rcv_nxt k, sg_len = 0, sg_resendts = 0, sg_rto = 0, sg_fastack = 0,
      sg_xmit = 0, sg_data = []\<rparr>"

text \<open>The loop over the acknowledgements, from entry \<open>i\<close> with \<open>n\<close> entries to go.\<close>

fun flush_acks :: "IKCPCB \<Rightarrow> nat \<Rightarrow> nat \<Rightarrow> nat \<Rightarrow> IKCPSEG \<Rightarrow> flush_buf \<Rightarrow> (IKCPSEG \<times> flush_buf) option" where
  "flush_acks k cap i 0 seg st = Some (seg, st)"
| "flush_acks k cap i (Suc n) seg st =
     do {
       (ptr, outs) \<leftarrow> flush_room k (sint IKCP_OVERHEAD) st;
       (sn, ts) \<leftarrow> ikcp_ack_get k i;
       let seg = seg\<lparr>sg_sn := sn, sg_ts := ts\<rparr>;
       ptr \<leftarrow> put_bytes cap ptr (ikcp_encode_seg [] seg);
       flush_acks k cap (Suc i) n seg (ptr, outs)
     }"

text \<open>The probe timer, when the peer announced a zero window.\<close>

definition flush_probe :: "IKCPCB \<Rightarrow> IKCPCB" where
  "flush_probe k =
     (if rmt_wnd k = 0 then
        if probe_wait k = 0 then
          (let k = k\<lparr>probe_wait := IKCP_PROBE_INIT\<rparr> in k\<lparr>ts_probe := current k + probe_wait k\<rparr>)
        else if itimediff (current k) (ts_probe k) \<ge> 0 then
          (let w = (if probe_wait k < IKCP_PROBE_INIT then IKCP_PROBE_INIT else probe_wait k);
               w = w + w div 2;
               w = (if w > IKCP_PROBE_LIMIT then IKCP_PROBE_LIMIT else w)
           in k\<lparr>probe_wait := w, ts_probe := current k + w, probe := probe k OR IKCP_ASK_SEND\<rparr>)
        else k
      else k\<lparr>ts_probe := 0, probe_wait := 0\<rparr>)"

text \<open>The two window commands.\<close>

definition flush_wcmds :: "IKCPCB \<Rightarrow> nat \<Rightarrow> IKCPSEG \<Rightarrow> flush_buf \<Rightarrow> flush_buf option" where
  "flush_wcmds k cap seg st =
     do {
       st \<leftarrow> (if probe k AND IKCP_ASK_SEND \<noteq> 0
              then flush_header k cap (seg\<lparr>sg_cmd := IKCP_CMD_WASK\<rparr>) st else Some st);
       (if probe k AND IKCP_ASK_TELL \<noteq> 0
        then flush_header k cap (seg\<lparr>sg_cmd := IKCP_CMD_WINS\<rparr>) st else Some st)
     }"

definition flush_window :: "IKCPCB \<Rightarrow> u32" where
  "flush_window k =
     (let cw = imin (snd_wnd k) (rmt_wnd k) in if nocwnd k = 0 then imin (cwnd k) cw else cw)"

text \<open>The loop that moves segments from \<open>snd_queue\<close> to \<open>snd_buf\<close>; \<open>wnd\<close> is \<open>seg.wnd\<close>.\<close>

fun flush_move :: "u32 \<Rightarrow> u32 \<Rightarrow> u32 \<Rightarrow> IKCPSEG list \<Rightarrow> IKCPCB \<Rightarrow> IKCPCB" where
  "flush_move cw wnd cur [] k = k"
| "flush_move cw wnd cur (s # ss) k =
     (if itimediff (snd_nxt k) (snd_una k + cw) < 0 then
        flush_move cw wnd cur ss
          (k\<lparr>snd_queue := ss,
             snd_buf := snd_buf k @ [s\<lparr>sg_conv := conv k, sg_cmd := IKCP_CMD_PUSH, sg_wnd := wnd,
               sg_ts := cur, sg_sn := snd_nxt k, sg_una := rcv_nxt k, sg_resendts := cur,
               sg_rto := word_of_int (rx_rto k), sg_fastack := 0, sg_xmit := 0\<rparr>],
             nsnd_que := nsnd_que k - 1, nsnd_buf := nsnd_buf k + 1, snd_nxt := snd_nxt k + 1\<rparr>)
      else k)"

text \<open>
  What the data loop decides for a segment: whether to send it, the segment, the control
  block (its retransmission counter), and the new values of \<open>lost\<close> and \<open>change\<close>.
\<close>

definition flush_decide :: "u32 \<Rightarrow> u32 \<Rightarrow> u32 \<Rightarrow> IKCPCB \<Rightarrow> IKCPSEG \<Rightarrow> bool \<Rightarrow> int \<Rightarrow>
    bool \<times> IKCPSEG \<times> IKCPCB \<times> bool \<times> int" where
  "flush_decide cur resent rtomin k s lost change =
     (if sg_xmit s = 0 then
        (let s = s\<lparr>sg_xmit := sg_xmit s + 1, sg_rto := word_of_int (rx_rto k)\<rparr>
         in (True, s\<lparr>sg_resendts := cur + sg_rto s + rtomin\<rparr>, k, lost, change))
      else if itimediff cur (sg_resendts s) \<ge> 0 then
        (let s = s\<lparr>sg_xmit := sg_xmit s + 1,
                   sg_rto := sg_rto s + (if nodelay k = 0 then word_of_int (rx_rto k)
                                         else word_of_int (rx_rto k sdiv 2))\<rparr>
         in (True, s\<lparr>sg_resendts := cur + sg_rto s\<rparr>, k\<lparr>xmit := xmit k + 1\<rparr>, True, change))
      else if sg_fastack s \<ge> resent then
        (True, s\<lparr>sg_xmit := sg_xmit s + 1, sg_fastack := 0, sg_resendts := cur + sg_rto s\<rparr>, k, lost,
         wrap32 (change + 1))
      else (False, s, k, lost, change))"

text \<open>The transmission of a segment.\<close>

definition flush_send :: "nat \<Rightarrow> IKCPCB \<Rightarrow> IKCPSEG \<Rightarrow> flush_buf \<Rightarrow> flush_buf option" where
  "flush_send cap k s st =
     do {
       (ptr, outs) \<leftarrow> flush_room k (sint (IKCP_OVERHEAD + sg_len s)) st;
       ptr \<leftarrow> put_bytes cap ptr (ikcp_encode_seg [] s);
       ptr \<leftarrow> (if sg_len s > 0 then do { d \<leftarrow> fetch (sg_data s) 0 (unat (sg_len s)); put_bytes cap ptr d }
              else Some ptr);
       Some (ptr, outs)
     }"

text \<open>The loop over \<open>snd_buf\<close>.\<close>

fun flush_data :: "nat \<Rightarrow> u32 \<Rightarrow> u32 \<Rightarrow> u32 \<Rightarrow> u32 \<Rightarrow> IKCPSEG list \<Rightarrow> IKCPCB \<Rightarrow> flush_buf \<Rightarrow> bool \<Rightarrow> int \<Rightarrow>
    (IKCPSEG list \<times> IKCPCB \<times> flush_buf \<times> bool \<times> int) option" where
  "flush_data cap cur resent rtomin wnd [] k st lost change = Some ([], k, st, lost, change)"
| "flush_data cap cur resent rtomin wnd (s # ss) k st lost change =
     (let (needsend, s, k, lost, change) = flush_decide cur resent rtomin k s lost change in
      if needsend then
        (let s = s\<lparr>sg_ts := cur, sg_wnd := wnd, sg_una := rcv_nxt k\<rparr> in
         do {
           st \<leftarrow> flush_send cap k s st;
           let k = (if sg_xmit s \<ge> dead_link k then k\<lparr>state := -1\<rparr> else k);
           (ss, r) \<leftarrow> flush_data cap cur resent rtomin wnd ss k st lost change;
           Some (s # ss, r)
         })
      else
        do {
          (ss, r) \<leftarrow> flush_data cap cur resent rtomin wnd ss k st lost change;
          Some (s # ss, r)
        })"

text \<open>The congestion window after the data loop; \<open>cw\<close> is the local variable \<open>cwnd\<close>.\<close>

definition flush_cwnd :: "bool \<Rightarrow> int \<Rightarrow> u32 \<Rightarrow> u32 \<Rightarrow> IKCPCB \<Rightarrow> IKCPCB" where
  "flush_cwnd lost change resent cw k =
     (let k = (if change \<noteq> 0 then
                 (let inflight = snd_nxt k - snd_una k;
                      th = (if inflight div 2 < IKCP_THRESH_MIN then IKCP_THRESH_MIN else inflight div 2)
                  in k\<lparr>ssthresh := th, cwnd := th + resent, incr := (th + resent) * mss k\<rparr>)
               else k);
          k = (if lost then
                 (let th = (if cw div 2 < IKCP_THRESH_MIN then IKCP_THRESH_MIN else cw div 2)
                  in k\<lparr>ssthresh := th, cwnd := 1, incr := mss k\<rparr>)
               else k)
      in if cwnd k < 1 then k\<lparr>cwnd := 1, incr := mss k\<rparr> else k)"

text \<open>From the computation of \<open>resent\<close> to the end of the function.\<close>

definition flush_xmit :: "nat \<Rightarrow> u32 \<Rightarrow> u32 \<Rightarrow> flush_buf \<Rightarrow> IKCPCB \<Rightarrow> (IKCPCB \<times> byte list list) option" where
  "flush_xmit cap wnd cw st k =
     (let resent = (if fastresend k > 0 then word_of_int (fastresend k) else 0xffffffff);
          rtomin = (if nodelay k = 0 then word_of_int (rx_rto k div 8) else 0) in
      do {
        (segs, k, (ptr, outs), lost, change) \<leftarrow>
          flush_data cap (current k) resent rtomin wnd (snd_buf k) k st False 0;
        let k = k\<lparr>snd_buf := segs\<rparr>;
        o2 \<leftarrow> (if length ptr > 0 then ikcp_output k ptr else Some []);
        Some (flush_cwnd lost change resent cw k, outs @ o2)
      })"

text \<open>The result is the control block and the datagrams sent.\<close>

definition ikcp_flush :: "IKCPCB \<Rightarrow> (IKCPCB \<times> byte list list) option" where
  "ikcp_flush k =
     (if updated k = 0 then Some (k, [])
      else
        (let cap = (case buffer k of None \<Rightarrow> 0 | Some n \<Rightarrow> n);
             wnd = ikcp_wnd_unused k in
         do {
           (seg, st) \<leftarrow> flush_acks k cap 0 (nat (sint (ackcount k))) (flush_seg k) ([], []);
           let k = k\<lparr>ackcount := 0\<rparr>;
           let k = flush_probe k;
           st \<leftarrow> flush_wcmds k cap seg st;
           let k = k\<lparr>probe := 0\<rparr>;
           let cw = flush_window k;
           let k = flush_move cw wnd (current k) (snd_queue k) k;
           flush_xmit cap wnd cw st k
         }))"

section \<open>Packing segments into datagrams\<close>

text \<open>
  The segments \<open>ss\<close> written so far, in order, are the datagrams already sent and the bytes
  still in the buffer, none longer than \<open>m\<close>.
\<close>

definition wires :: "IKCPSEG list \<Rightarrow> byte list" where
  "wires ss = concat (map wire ss)"

lemma wires_simps [simp]:
  "wires [] = []" "wires (s # ss) = wire s @ wires ss" "wires (xs @ ys) = wires xs @ wires ys"
  by (simp_all add: wires_def)

definition buf_ok :: "nat \<Rightarrow> IKCPSEG list \<Rightarrow> flush_buf \<Rightarrow> bool" where
  "buf_ok m ss st \<longleftrightarrow>
     (\<exists>gs ps. snd st = map wires gs \<and> fst st = wires ps \<and> ss = concat gs @ ps \<and>
       (\<forall>g \<in> set gs. g \<noteq> [] \<and> length (wires g) \<le> m) \<and> length (wires ps) \<le> m)"

lemma buf_ok_empty: "buf_ok m [] ([], [])"
  by (auto simp: buf_ok_def)

lemma length_wire: "length (wire s) = 24 + length (sg_data s)"
  by (simp add: wire_def)

lemma buf_ok_put:
  assumes "buf_ok m ss (ptr, outs)" and "length ptr + length (wire s) \<le> m"
  shows "buf_ok m (ss @ [s]) (ptr @ wire s, outs)"
proof -
  obtain gs ps where "outs = map wires gs" "ptr = wires ps" "ss = concat gs @ ps"
    "\<forall>g \<in> set gs. g \<noteq> [] \<and> length (wires g) \<le> m" "length (wires ps) \<le> m"
    using assms(1) by (auto simp: buf_ok_def)
  then show ?thesis
    unfolding buf_ok_def
    by - (rule exI [of _ gs], rule exI [of _ "ps @ [s]"], use assms(2) in simp)
qed

lemma buf_ok_cut:
  assumes "buf_ok m ss (ptr, outs)" and "ptr \<noteq> []"
  shows "buf_ok m ss ([], outs @ [ptr])"
proof -
  obtain gs ps where "outs = map wires gs" "ptr = wires ps" "ss = concat gs @ ps"
    "\<forall>g \<in> set gs. g \<noteq> [] \<and> length (wires g) \<le> m" "length (wires ps) \<le> m"
    using assms(1) by (auto simp: buf_ok_def)
  then show ?thesis
    unfolding buf_ok_def
    by - (rule exI [of _ "gs @ [ps]"], rule exI [of _ "[]"], use assms(2) in auto)
qed

lemma flush_room_ok:
  assumes "conf_inv k" and "output_cb k" and "buf_ok (unat (mtu k)) ss st" and n: "n \<le> unat (mtu k)"
  obtains ptr outs where "flush_room k (int n) st = Some (ptr, outs)"
    and "buf_ok (unat (mtu k)) ss (ptr, outs)" and "length ptr + n \<le> unat (mtu k)"
proof -
  obtain p o1 where st: "st = (p, o1)" by (cases st)
  define M where "M = unat (mtu k)"
  have M: "M < 2 ^ 30" using assms(1) by (simp add: conf_inv_def M_def)
  have m: "sint (mtu k) = int M" using sint_small [of "mtu k"] M by (simp add: M_def)
  have p: "length p \<le> M" using assms(3) by (auto simp: st buf_ok_def M_def)
  have w: "wrap32 (int (length p) + int n) = int (length p + n)"
    using p n M by (subst wrap32_id) (auto simp: M_def [symmetric])
  show ?thesis
  proof (cases "length p + n \<le> M")
    case True
    then have "flush_room k (int n) st = Some (p, o1)" by (simp add: flush_room_def st w m)
    then show ?thesis using that True assms(3) by (simp add: st M_def)
  next
    case False
    then have "p \<noteq> []" using n by (auto simp: M_def)
    then have "flush_room k (int n) st = Some ([], o1 @ [p])"
      using False assms(2) by (simp add: flush_room_def st w m ikcp_output_def)
    moreover have "buf_ok (unat (mtu k)) ss ([], o1 @ [p])"
      using buf_ok_cut assms(3) \<open>p \<noteq> []\<close> by (simp add: st)
    ultimately show ?thesis using that n by simp
  qed
qed

text \<open>The context of the writes: a configured control block and its buffer.\<close>

definition flush_ctx :: "IKCPCB \<Rightarrow> nat \<Rightarrow> bool" where
  "flush_ctx k cap \<longleftrightarrow> conf_inv k \<and> output_cb k \<and> unat (mtu k) \<le> cap"

lemma flush_header_ok:
  assumes ctx: "flush_ctx k cap" and st: "buf_ok (unat (mtu k)) ss st" and d: "sg_data seg = []"
  shows "\<exists>st'. flush_header k cap seg st = Some st' \<and> buf_ok (unat (mtu k)) (ss @ [seg]) st'"
proof -
  have c: "conf_inv k" "output_cb k" "24 \<le> unat (mtu k)" "unat (mtu k) \<le> cap"
    using ctx by (simp_all add: flush_ctx_def conf_inv_def)
  obtain ptr outs where r: "flush_room k (int 24) st = Some (ptr, outs)"
    "buf_ok (unat (mtu k)) ss (ptr, outs)" "length ptr + 24 \<le> unat (mtu k)"
    using flush_room_ok [OF c(1,2) st c(3)] by blast
  have w: "wire seg = ikcp_encode_seg [] seg" using d by (simp add: wire_def)
  have "flush_header k cap seg st = Some (ptr @ wire seg, outs)"
    using r(1,3) c(4) by (simp add: flush_header_def put_bytes_def w)
  moreover have "buf_ok (unat (mtu k)) (ss @ [seg]) (ptr @ wire seg, outs)"
    using r(2,3) by (intro buf_ok_put) (simp_all add: w)
  ultimately show ?thesis by blast
qed

text \<open>The acknowledgements go out in the order in which they were pushed.\<close>

definition ack_seg :: "IKCPSEG \<Rightarrow> u32 \<times> u32 \<Rightarrow> IKCPSEG" where
  "ack_seg seg p = seg\<lparr>sg_sn := fst p, sg_ts := snd p\<rparr>"

lemma flush_acks_round:
  "flush_acks k cap i (Suc n) seg st =
     do {
       p \<leftarrow> (case flush_room k 24 st of None \<Rightarrow> None | Some _ \<Rightarrow> ikcp_ack_get k i);
       st \<leftarrow> flush_header k cap (ack_seg seg p) st;
       flush_acks k cap (Suc i) n (ack_seg seg p) st
     }"
  by (auto simp: flush_header_def ack_seg_def split: option.splits Option.bind_splits)

lemma flush_acks_ok:
  assumes "flush_ctx k cap" and "ack_inv k" and "sg_data seg = []" and "buf_ok (unat (mtu k)) ss st"
    and "i + n = unat (ackcount k)"
  shows "\<exists>seg' st'. flush_acks k cap i n seg st = Some (seg', st') \<and> (\<exists>p. seg' = ack_seg seg p) \<and>
    buf_ok (unat (mtu k)) (ss @ map (ack_seg seg) (drop i (ack_pairs k))) st'"
  using assms(3-)
proof (induction n arbitrary: i seg ss st)
  case 0
  then have "drop i (ack_pairs k) = []" using length_ack_pairs [OF assms(2)] by simp
  moreover have "\<exists>p. seg = ack_seg seg p"
    by (rule exI [of _ "(sg_sn seg, sg_ts seg)"]) (simp add: ack_seg_def)
  ultimately show ?case using 0 by simp
next
  case (Suc n)
  have i: "i < length (ack_pairs k)" using Suc.prems(3) length_ack_pairs [OF assms(2)] by simp
  let ?p = "ack_pairs k ! i"
  have get: "ikcp_ack_get k i = Some ?p" using ack_get_pairs [OF assms(2), of i] Suc.prems(3) by simp
  have c: "conf_inv k" "output_cb k" "24 \<le> unat (mtu k)"
    using assms(1) by (simp_all add: flush_ctx_def conf_inv_def)
  obtain ptr outs where "flush_room k (int 24) st = Some (ptr, outs)"
    by (rule flush_room_ok [OF c(1,2) Suc.prems(2) c(3)])
  then have room: "flush_room k 24 st = Some (ptr, outs)" by simp
  obtain st1 where st1: "flush_header k cap (ack_seg seg ?p) st = Some st1"
    "buf_ok (unat (mtu k)) (ss @ [ack_seg seg ?p]) st1"
    using flush_header_ok [OF assms(1) Suc.prems(2), of "ack_seg seg ?p"] Suc.prems(1)
    by (auto simp: ack_seg_def)
  have "\<exists>seg' st'. flush_acks k cap (Suc i) n (ack_seg seg ?p) st1 = Some (seg', st') \<and>
      (\<exists>p. seg' = ack_seg (ack_seg seg ?p) p) \<and> buf_ok (unat (mtu k))
        ((ss @ [ack_seg seg ?p]) @ map (ack_seg (ack_seg seg ?p)) (drop (Suc i) (ack_pairs k))) st'"
    by (rule Suc.IH [OF _ st1(2)]) (use Suc.prems in \<open>simp_all add: ack_seg_def\<close>)
  moreover have abs: "ack_seg (ack_seg seg p) = ack_seg seg" for p by (auto simp: ack_seg_def)
  ultimately show ?case
    using room get st1(1) i unfolding flush_acks_round by (auto simp: Cons_nth_drop_Suc [symmetric])
qed

text \<open>The segments of the two window commands.\<close>

definition wcmd_segs :: "IKCPCB \<Rightarrow> IKCPSEG \<Rightarrow> IKCPSEG list" where
  "wcmd_segs k seg =
     (if probe k AND IKCP_ASK_SEND \<noteq> 0 then [seg\<lparr>sg_cmd := IKCP_CMD_WASK\<rparr>] else []) @
     (if probe k AND IKCP_ASK_TELL \<noteq> 0 then [seg\<lparr>sg_cmd := IKCP_CMD_WINS\<rparr>] else [])"

lemma flush_wcmds_ok:
  assumes ctx: "flush_ctx k cap" and st: "buf_ok (unat (mtu k)) ss st" and d: "sg_data seg = []"
  obtains st' where "flush_wcmds k cap seg st = Some st'"
    and "buf_ok (unat (mtu k)) (ss @ wcmd_segs k seg) st'"
proof -
  define xs where "xs = (if probe k AND IKCP_ASK_SEND \<noteq> 0 then [seg\<lparr>sg_cmd := IKCP_CMD_WASK\<rparr>] else [])"
  have "\<exists>st1. (if probe k AND IKCP_ASK_SEND \<noteq> 0
      then flush_header k cap (seg\<lparr>sg_cmd := IKCP_CMD_WASK\<rparr>) st else Some st) = Some st1 \<and>
      buf_ok (unat (mtu k)) (ss @ xs) st1"
    using flush_header_ok [OF ctx st, of "seg\<lparr>sg_cmd := IKCP_CMD_WASK\<rparr>"] st d
    by (simp add: xs_def del: split_paired_Ex)
  then obtain st1 where st1: "(if probe k AND IKCP_ASK_SEND \<noteq> 0
      then flush_header k cap (seg\<lparr>sg_cmd := IKCP_CMD_WASK\<rparr>) st else Some st) = Some st1"
    "buf_ok (unat (mtu k)) (ss @ xs) st1" by blast
  have "\<exists>st2. (if probe k AND IKCP_ASK_TELL \<noteq> 0
      then flush_header k cap (seg\<lparr>sg_cmd := IKCP_CMD_WINS\<rparr>) st1 else Some st1) = Some st2 \<and>
      buf_ok (unat (mtu k)) (ss @ wcmd_segs k seg) st2"
    using flush_header_ok [OF ctx st1(2), of "seg\<lparr>sg_cmd := IKCP_CMD_WINS\<rparr>"] st1(2) d
    by (simp add: wcmd_segs_def xs_def [symmetric] del: split_paired_Ex)
  then obtain st2 where st2: "(if probe k AND IKCP_ASK_TELL \<noteq> 0
      then flush_header k cap (seg\<lparr>sg_cmd := IKCP_CMD_WINS\<rparr>) st1 else Some st1) = Some st2"
    "buf_ok (unat (mtu k)) (ss @ wcmd_segs k seg) st2" by blast
  show ?thesis using that [OF _ st2(2)] st1(1) st2(1) by (simp add: flush_wcmds_def)
qed

section \<open>Moving segments into the send buffer\<close>

text \<open>A queued segment gets its number and header.\<close>

definition numbered :: "u32 \<Rightarrow> u32 \<Rightarrow> IKCPCB \<Rightarrow> IKCPSEG \<Rightarrow> IKCPSEG" where
  "numbered wnd cur k s = s\<lparr>sg_conv := conv k, sg_cmd := IKCP_CMD_PUSH, sg_wnd := wnd,
     sg_ts := cur, sg_sn := snd_nxt k, sg_una := rcv_nxt k, sg_resendts := cur,
     sg_rto := word_of_int (rx_rto k), sg_fastack := 0, sg_xmit := 0\<rparr>"

definition move_one :: "u32 \<Rightarrow> u32 \<Rightarrow> IKCPSEG \<Rightarrow> IKCPSEG list \<Rightarrow> IKCPCB \<Rightarrow> IKCPCB" where
  "move_one wnd cur s ss k = k\<lparr>snd_una := snd_una k, snd_nxt := snd_nxt k + 1, nsnd_buf := nsnd_buf k + 1,
     nsnd_que := nsnd_que k - 1, snd_queue := ss, snd_buf := snd_buf k @ [numbered wnd cur k s]\<rparr>"

lemma flush_move_unfold:
  "flush_move cw wnd cur (s # ss) k =
     (if itimediff (snd_nxt k) (snd_una k + cw) < 0 then flush_move cw wnd cur ss (move_one wnd cur s ss k) else k)"
proof -
  have e: "k\<lparr>snd_queue := ss,
      snd_buf := snd_buf k @ [s\<lparr>sg_conv := conv k, sg_cmd := IKCP_CMD_PUSH, sg_wnd := wnd,
        sg_ts := cur, sg_sn := snd_nxt k, sg_una := rcv_nxt k, sg_resendts := cur,
        sg_rto := word_of_int (rx_rto k), sg_fastack := 0, sg_xmit := 0\<rparr>],
      nsnd_que := nsnd_que k - 1, nsnd_buf := nsnd_buf k + 1, snd_nxt := snd_nxt k + 1\<rparr> =
    move_one wnd cur s ss k"
    by (simp add: move_one_def numbered_def)
  show ?thesis by (simp only: flush_move.simps e)
qed

declare flush_move.simps(2) [simp del]

lemma in_flight_lt:
  assumes "unat (snd_nxt k - snd_una k) < 2 ^ 31" and "unat cw < 2 ^ 31"
  shows "itimediff (snd_nxt k) (snd_una k + cw) < 0 \<longleftrightarrow> unat (snd_nxt k - snd_una k) < unat cw"
  using itimediff_off(2) [of "snd_nxt k" "snd_una k" "snd_una k + cw"] assms by simp

lemma move_one_inv:
  assumes inv: "kcp_inv k" and q: "snd_queue k = s # ss" and cw: "unat cw < 2 ^ 31"
    and open_win: "itimediff (snd_nxt k) (snd_una k + cw) < 0"
  shows "kcp_inv (move_one wnd cur s ss k)"
    and "unat (snd_nxt (move_one wnd cur s ss k) - snd_una k) = Suc (unat (snd_nxt k - snd_una k))"
    and "unat (snd_nxt k - snd_una k) < unat cw"
proof -
  let ?k = "move_one wnd cur s ss k"
  have si: "snd_inv k" using inv by (rule kcp_invD)
  show lt: "unat (snd_nxt k - snd_una k) < unat cw"
    using in_flight_lt [OF _ cw, of k] open_win si by (simp add: snd_inv_def)
  have "unat (snd_nxt k - snd_una k + 1) = Suc (unat (snd_nxt k - snd_una k))"
    using lt cw by (subst unat_add_lt) simp_all
  then show fl: "unat (snd_nxt ?k - snd_una k) = Suc (unat (snd_nxt k - snd_una k))"
    by (simp add: move_one_def algebra_simps)
  have off: "snd_off ?k = snd_off k" by (auto simp: snd_off_def move_one_def)
  have new: "snd_off k (numbered wnd cur k s) = unat (snd_nxt k - snd_una k)"
    by (simp add: snd_off_def numbered_def)
  have una: "snd_una ?k = snd_una k" "snd_buf ?k = snd_buf k @ [numbered wnd cur k s]"
    "snd_queue ?k = ss" "nsnd_que ?k = nsnd_que k - 1" "nsnd_buf ?k = nsnd_buf k + 1"
    by (simp_all add: move_one_def)
  have "snd_inv ?k"
    using si q fl lt cw unfolding snd_inv_def off una
    by (auto simp: sorted_wrt_append new less_Suc_eq)
  moreover have "\<forall>t \<in> set ss. seg_ok t \<and> unat (sg_len t) \<le> unat (mss k)"
    "\<forall>t \<in> set (snd_buf k @ [numbered wnd cur k s]). sent_ok k t"
    using kcp_invD(5) [OF inv] q by (auto simp: segs_inv_def sent_ok_def numbered_def seg_ok_def)
  ultimately show "kcp_inv ?k"
    by (rule kcp_inv_snd [OF inv move_one_def [of wnd cur s ss k]])
qed

text \<open>
  What the loop does: the first segments of the queue enter the buffer with consecutive
  numbers, their contents unchanged, and the numbers in flight stay below \<open>cw\<close> unless
  they were beyond it before.
\<close>

lemma flush_move_spec:
  assumes "kcp_inv k" and "snd_queue k = q" and "unat cw < 2 ^ 31"
  shows "\<exists>ms qs news. q = ms @ qs \<and> flush_move cw wnd cur q k =
      k\<lparr>snd_nxt := snd_nxt k + of_nat (length ms), nsnd_buf := nsnd_buf k + of_nat (length ms),
        nsnd_que := nsnd_que k - of_nat (length ms), snd_queue := qs, snd_buf := snd_buf k @ news\<rparr> \<and>
    kcp_inv (flush_move cw wnd cur q k) \<and> consecutive (snd_nxt k) news \<and>
    map (\<lambda>s. (sg_frg s, sg_data s)) news = map (\<lambda>s. (sg_frg s, sg_data s)) ms \<and>
    (\<forall>s \<in> set news. sg_xmit s = 0) \<and>
    unat (snd_nxt (flush_move cw wnd cur q k) - snd_una k) \<le> max (unat (snd_nxt k - snd_una k)) (unat cw) \<and>
    unat (snd_nxt (flush_move cw wnd cur q k) - snd_una k) = unat (snd_nxt k - snd_una k) + length ms \<and>
    (qs = [] \<or> unat cw \<le> unat (snd_nxt (flush_move cw wnd cur q k) - snd_una k))"
  using assms
proof (induction q arbitrary: k)
  case Nil
  then show ?case by simp
next
  case (Cons s ss)
  show ?case
  proof (cases "itimediff (snd_nxt k) (snd_una k + cw) < 0")
    case False
    then have "\<not> unat (snd_nxt k - snd_una k) < unat cw"
      using in_flight_lt [OF _ Cons.prems(3), of k] kcp_invD(1) [OF Cons.prems(1)] by (simp add: snd_inv_def)
    then show ?thesis
      using Cons.prems False by - (rule exI [of _ "[]"], rule exI [of _ "s # ss"], rule exI [of _ "[]"],
          simp add: flush_move_unfold)
  next
    case True
    let ?k = "move_one wnd cur s ss k"
    note one = move_one_inv(1,2) [OF Cons.prems True, of wnd cur] move_one_inv(3) [OF Cons.prems True]
    have una: "snd_una ?k = snd_una k" "snd_nxt ?k = snd_nxt k + 1" "snd_queue ?k = ss" by (simp_all add: move_one_def)
    obtain ms qs news where IH: "ss = ms @ qs" "flush_move cw wnd cur ss ?k =
        ?k\<lparr>snd_nxt := snd_nxt ?k + of_nat (length ms), nsnd_buf := nsnd_buf ?k + of_nat (length ms),
          nsnd_que := nsnd_que ?k - of_nat (length ms), snd_queue := qs, snd_buf := snd_buf ?k @ news\<rparr>"
      "kcp_inv (flush_move cw wnd cur ss ?k)" "consecutive (snd_nxt ?k) news"
      "map (\<lambda>s. (sg_frg s, sg_data s)) news = map (\<lambda>s. (sg_frg s, sg_data s)) ms"
      "\<forall>s \<in> set news. sg_xmit s = 0"
      "unat (snd_nxt (flush_move cw wnd cur ss ?k) - snd_una k) \<le> max (unat (snd_nxt ?k - snd_una k)) (unat cw)"
      "unat (snd_nxt (flush_move cw wnd cur ss ?k) - snd_una k) = unat (snd_nxt ?k - snd_una k) + length ms"
      "qs = [] \<or> unat cw \<le> unat (snd_nxt (flush_move cw wnd cur ss ?k) - snd_una k)"
      using Cons.IH [OF one(1) una(3) Cons.prems(3)] unfolding una(1) by (elim exE conjE) (rule that)
    have m: "flush_move cw wnd cur (s # ss) k = flush_move cw wnd cur ss ?k"
      using True by (simp add: flush_move_unfold)
    show ?thesis
    proof (rule exI [of _ "s # ms"], rule exI [of _ qs], rule exI [of _ "numbered wnd cur k s # news"],
        unfold m, intro conjI)
      show "flush_move cw wnd cur ss ?k = k\<lparr>snd_nxt := snd_nxt k + of_nat (length (s # ms)),
          nsnd_buf := nsnd_buf k + of_nat (length (s # ms)), nsnd_que := nsnd_que k - of_nat (length (s # ms)),
          snd_queue := qs, snd_buf := snd_buf k @ numbered wnd cur k s # news\<rparr>"
        unfolding IH(2) by (simp add: move_one_def algebra_simps)
    qed (use IH one una(1,2) in \<open>simp_all add: numbered_def\<close>)
  qed
qed

section \<open>Transmission\<close>

lemma flush_send_ok:
  assumes ctx: "flush_ctx k cap" and st: "buf_ok (unat (mtu k)) ss st"
    and s: "seg_ok s" "unat (sg_len s) \<le> unat (mss k)"
  obtains st' where "flush_send cap k s st = Some st'" and "buf_ok (unat (mtu k)) (ss @ [s]) st'"
proof -
  let ?n = "unat (sg_len s)"
  have c: "conf_inv k" "output_cb k" "unat (mtu k) \<le> cap" using ctx by (simp_all add: flush_ctx_def)
  have m: "24 + ?n \<le> unat (mtu k)" "unat (mtu k) < 2 ^ 30"
    using s(2) conf_mss(1,2) [OF c(1)] c(1) by (auto simp: conf_inv_def)
  have "unat (24 + sg_len s) = 24 + ?n" using m by (subst unat_add_lt) simp_all
  then have need: "sint (24 + sg_len s) = int (24 + ?n)"
    using m sint_small [of "24 + sg_len s"] by (simp del: of_nat_unat)
  obtain ptr outs where r: "flush_room k (int (24 + ?n)) st = Some (ptr, outs)"
    "buf_ok (unat (mtu k)) ss (ptr, outs)" "length ptr + (24 + ?n) \<le> unat (mtu k)"
    by (rule flush_room_ok [OF c(1,2) st m(1)])
  have len: "length (sg_data s) = ?n" using s(1) by (simp add: seg_ok_def)
  have d: "(if sg_len s > 0 then do { d \<leftarrow> fetch (sg_data s) 0 ?n; put_bytes cap p d } else Some p) =
      Some (p @ sg_data s)" if "length p + ?n \<le> cap" for p
    using that len by (auto simp: fetch_def put_bytes_def word_less_nat_alt)
  have "flush_send cap k s st = Some (ptr @ wire s, outs)"
    using r(1,3) c(3) d [of "ptr @ ikcp_encode_seg [] s"]
    by (simp add: flush_send_def need put_bytes_def wire_def)
  moreover have "buf_ok (unat (mtu k)) (ss @ [s]) (ptr @ wire s, outs)"
    using r(2,3) len by (intro buf_ok_put) (simp_all add: length_wire)
  ultimately show ?thesis by (rule that)
qed

text \<open>The segments that are due, and what the loop may change of a segment.\<close>

definition flush_due :: "u32 \<Rightarrow> u32 \<Rightarrow> IKCPSEG \<Rightarrow> bool" where
  "flush_due cur resent s \<longleftrightarrow>
     sg_xmit s = 0 \<or> itimediff cur (sg_resendts s) \<ge> 0 \<or> sg_fastack s \<ge> resent"

definition seg_same :: "IKCPSEG \<Rightarrow> IKCPSEG \<Rightarrow> bool" where
  "seg_same s t \<longleftrightarrow> seg_id t = seg_id s \<and> sg_conv t = sg_conv s \<and> sg_cmd t = sg_cmd s \<and> sg_len t = sg_len s"

lemma seg_same_sent_ok: "seg_same s t \<Longrightarrow> sent_ok k t \<longleftrightarrow> sent_ok k s"
  by (auto simp: seg_same_def sent_ok_def seg_ok_def seg_id_def)

lemma flush_decide_spec:
  assumes "flush_decide cur resent rtomin k s lost change = (ns, s', k', lost', change')"
  shows "ns \<longleftrightarrow> flush_due cur resent s" and "seg_same s s'" and "\<exists>x. k' = k\<lparr>xmit := x\<rparr>"
proof -
  have "\<exists>x. k = k\<lparr>xmit := x\<rparr>" by (rule exI [of _ "xmit k"]) simp
  then show "ns \<longleftrightarrow> flush_due cur resent s" "seg_same s s'" "\<exists>x. k' = k\<lparr>xmit := x\<rparr>"
    using assms
    by (auto simp: flush_decide_def flush_due_def seg_same_def seg_id_def Let_def split: if_splits)
qed

lemma flush_ctx_cong:
  "flush_ctx (k\<lparr>xmit := x, state := y\<rparr>) cap \<longleftrightarrow> flush_ctx k cap"
  using conf_inv_cong [of "k\<lparr>xmit := x, state := y\<rparr>" k] by (simp add: flush_ctx_def)

lemma flush_data_round:
  assumes dec: "flush_decide cur resent rtomin k s lost change = (ns, s', k', lost', change')"
    and ctx: "flush_ctx k cap" and s: "sent_ok k s" and st: "buf_ok (unat (mtu k)) ss st"
  obtains t x y st' where "flush_data cap cur resent rtomin wnd (s # segs) k st lost change =
      do { (rs, r) \<leftarrow> flush_data cap cur resent rtomin wnd segs (k\<lparr>xmit := x, state := y\<rparr>) st' lost' change';
           Some (t # rs, r) }"
    and "seg_same s t" and "buf_ok (unat (mtu k)) (ss @ (if flush_due cur resent s then [t] else [])) st'"
    and "flush_due cur resent s \<longrightarrow> sg_una t = rcv_nxt k \<and> sg_wnd t = wnd"
proof (cases ns)
  case False
  obtain x where k': "k' = k\<lparr>xmit := x\<rparr>" using flush_decide_spec(3) [OF dec] by blast
  then have "k' = k\<lparr>xmit := x, state := state k\<rparr>" by simp
  then show ?thesis
    using that [of "state k" x st s'] dec False flush_decide_spec(1,2) [OF dec] st by simp
next
  case True
  obtain x where k': "k' = k\<lparr>xmit := x\<rparr>" using flush_decide_spec(3) [OF dec] by blast
  let ?t = "s'\<lparr>sg_ts := cur, sg_wnd := wnd, sg_una := rcv_nxt k'\<rparr>"
  have same: "seg_same s ?t" using flush_decide_spec(2) [OF dec] by (simp add: seg_same_def seg_id_def)
  have ctx': "flush_ctx k' cap" using ctx flush_ctx_cong [of "state k" x k cap] k' by simp
  have m: "mtu k' = mtu k" "mss k' = mss k" "dead_link k' = dead_link k" "state k' = state k" by (simp_all add: k')
  have "sent_ok k ?t" using seg_same_sent_ok [OF same] s by blast
  then have t: "seg_ok ?t" "unat (sg_len ?t) \<le> unat (mss k')" unfolding m sent_ok_def by blast+
  have "buf_ok (unat (mtu k')) ss st" using st m(1) by simp
  then obtain st' where st': "flush_send cap k' ?t st = Some st'" "buf_ok (unat (mtu k')) (ss @ [?t]) st'"
    by (rule flush_send_ok [OF ctx' _ t])
  let ?y = "if sg_xmit s' \<ge> dead_link k then -1 else state k"
  have kk: "(if sg_xmit s' \<ge> dead_link k' then k'\<lparr>state := -1\<rparr> else k') = k\<lparr>xmit := x, state := ?y\<rparr>"
    by (simp add: k')
  have "flush_data cap cur resent rtomin wnd (s # segs) k st lost change =
      do { (rs, r) \<leftarrow> flush_data cap cur resent rtomin wnd segs (k\<lparr>xmit := x, state := ?y\<rparr>) st' lost' change';
           Some (?t # rs, r) }"
    using dec True st'(1) kk by (simp add: Let_def)
  then show ?thesis
    using that [of ?y x st' ?t] same st'(2) True flush_decide_spec(1) [OF dec] m(1) k' by simp
qed

text \<open>
  The data loop sends exactly the due segments, in order, each as it stands afterwards in
  \<open>snd_buf\<close>.
\<close>

lemma flush_data_ok:
  assumes "flush_ctx k cap" and "\<forall>s \<in> set segs. sent_ok k s" and "buf_ok (unat (mtu k)) ss st"
  shows "\<exists>rs x y st' lost' change' sent.
    flush_data cap cur resent rtomin wnd segs k st lost change =
      Some (rs, k\<lparr>xmit := x, state := y\<rparr>, st', lost', change') \<and>
    list_all2 seg_same segs rs \<and> subseq sent rs \<and>
    map seg_id sent = map seg_id (filter (flush_due cur resent) segs) \<and>
    buf_ok (unat (mtu k)) (ss @ sent) st' \<and> (\<forall>s \<in> set sent. sg_una s = rcv_nxt k \<and> sg_wnd s = wnd)"
  using assms
proof (induction segs arbitrary: k ss st lost change)
  case Nil
  then show ?case
    by - (rule exI [of _ "[]"], rule exI [of _ "xmit k"], rule exI [of _ "state k"], rule exI [of _ st], simp)
next
  case (Cons s segs)
  obtain ns s' k' lost' change' where dec:
    "flush_decide cur resent rtomin k s lost change = (ns, s', k', lost', change')" by (metis prod_cases5)
  have s: "sent_ok k s" using Cons.prems(2) by simp
  obtain t x y st1 where r: "flush_data cap cur resent rtomin wnd (s # segs) k st lost change =
      do { (rs, r) \<leftarrow> flush_data cap cur resent rtomin wnd segs (k\<lparr>xmit := x, state := y\<rparr>) st1 lost' change';
           Some (t # rs, r) }"
    and t: "seg_same s t" "buf_ok (unat (mtu k)) (ss @ (if flush_due cur resent s then [t] else [])) st1"
      "flush_due cur resent s \<longrightarrow> sg_una t = rcv_nxt k \<and> sg_wnd t = wnd"
    by (rule flush_data_round [OF dec Cons.prems(1) s Cons.prems(3)])
  let ?k = "k\<lparr>xmit := x, state := y\<rparr>"
  have ctx: "flush_ctx ?k cap" using Cons.prems(1) by (simp add: flush_ctx_cong)
  have all: "\<forall>u \<in> set segs. sent_ok ?k u" using Cons.prems(2) by (simp add: sent_ok_def)
  obtain rs x' y' st' l' c' sent where IH: "flush_data cap cur resent rtomin wnd segs ?k st1 lost' change' =
      Some (rs, ?k\<lparr>xmit := x', state := y'\<rparr>, st', l', c')" "list_all2 seg_same segs rs" "subseq sent rs"
    "map seg_id sent = map seg_id (filter (flush_due cur resent) segs)"
    "buf_ok (unat (mtu k)) ((ss @ (if flush_due cur resent s then [t] else [])) @ sent) st'"
    "\<forall>s \<in> set sent. sg_una s = rcv_nxt k \<and> sg_wnd s = wnd"
    using Cons.IH [OF ctx all, of "ss @ (if flush_due cur resent s then [t] else [])" st1 lost' change'] t(2)
    by (auto simp del: split_paired_Ex append_assoc)
  have id: "seg_id t = seg_id s" using t(1) by (simp add: seg_same_def)
  show ?case
    by (rule exI [of _ "t # rs"], rule exI [of _ x'], rule exI [of _ y'], rule exI [of _ st'],
        rule exI [of _ l'], rule exI [of _ c'],
        rule exI [of _ "(if flush_due cur resent s then [t] else []) @ sent"])
      (use r IH t(1,3) id in \<open>simp add: list_emb_Cons\<close>)
qed

section \<open>The whole function\<close>

lemma flush_probe_update:
  obtains a b c where "flush_probe k = k\<lparr>probe := a, ts_probe := b, probe_wait := c\<rparr>"
proof -
  have "flush_probe k = k\<lparr>probe := probe (flush_probe k), ts_probe := ts_probe (flush_probe k),
      probe_wait := probe_wait (flush_probe k)\<rparr>"
    by (simp add: flush_probe_def Let_def)
  then show ?thesis by (rule that)
qed

lemma flush_cwnd_update:
  obtains a b c where "flush_cwnd lost change resent cw k = k\<lparr>ssthresh := a, cwnd := b, incr := c\<rparr>"
proof -
  have "flush_cwnd lost change resent cw k =
      k\<lparr>ssthresh := ssthresh (flush_cwnd lost change resent cw k),
        cwnd := cwnd (flush_cwnd lost change resent cw k), incr := incr (flush_cwnd lost change resent cw k)\<rparr>"
    by (simp add: flush_cwnd_def Let_def)
  then show ?thesis by (rule that)
qed

lemma flush_cwnd_pos: "1 \<le> cwnd (flush_cwnd lost change resent cw k)"
proof -
  have pos: "1 \<le> w \<longleftrightarrow> w \<noteq> 0" for w :: u32
    by (simp add: word_le_nat_alt word_unat_eq_iff Suc_le_eq)
  show ?thesis by (auto simp: flush_cwnd_def Let_def pos)
qed

lemma snd_inv_same:
  assumes "snd_inv k" and "map sg_sn b = map sg_sn (snd_buf k)"
  shows "snd_inv (k\<lparr>snd_buf := b\<rparr>)"
proof -
  have off: "snd_off (k\<lparr>snd_buf := b\<rparr>) = snd_off k" by (auto simp: snd_off_def)
  have eq: "map (snd_off k) xs = map (\<lambda>x. unat (x - snd_una k)) (map sg_sn xs)" for xs
    by (simp add: snd_off_def)
  have all: "(\<forall>s \<in> set xs. snd_off k s < n) \<longleftrightarrow> (\<forall>x \<in> set (map sg_sn xs). unat (x - snd_una k) < n)" for xs n
    by (simp add: snd_off_def)
  have "length b = length (snd_buf k)" using assms(2) by (rule map_eq_imp_length_eq)
  then show ?thesis using assms unfolding snd_inv_def off eq all by simp
qed

lemma seg_same_sn: "list_all2 seg_same xs ys \<Longrightarrow> map sg_sn ys = map sg_sn xs"
  and seg_same_id: "list_all2 seg_same xs ys \<Longrightarrow> map seg_id ys = map seg_id xs"
  by (induction rule: list_all2_induct) (auto simp: seg_same_def seg_id_def)

lemma flush_segs_inv:
  assumes inv: "kcp_inv k" and rs: "list_all2 seg_same (snd_buf k) rs"
  shows "kcp_inv (k\<lparr>snd_buf := rs\<rparr>)"
proof -
  have "snd_inv (k\<lparr>snd_buf := rs\<rparr>)" by (rule snd_inv_same [OF kcp_invD(1) [OF inv] seg_same_sn [OF rs]])
  moreover have "\<forall>s \<in> set rs. sent_ok k s"
    using rs kcp_invD(5) [OF inv] seg_same_sent_ok
    by (fastforce simp: segs_inv_def in_set_conv_nth list_all2_conv_all_nth)
  moreover have "k\<lparr>snd_buf := rs\<rparr> = k\<lparr>snd_una := snd_una k, snd_nxt := snd_nxt k, nsnd_buf := nsnd_buf k,
      nsnd_que := nsnd_que k, snd_queue := snd_queue k, snd_buf := rs\<rparr>" by simp
  ultimately show ?thesis
    using kcp_inv_snd [OF inv] kcp_invD(5) [OF inv] unfolding segs_inv_def by blast
qed

text \<open>What \<open>ikcp_flush\<close> does to the sending side.\<close>

definition flush_sends :: "IKCPCB \<Rightarrow> IKCPCB \<Rightarrow> bool" where
  "flush_sends k k' \<longleftrightarrow>
     (\<exists>ms news. snd_queue k = ms @ snd_queue k' \<and> consecutive (snd_nxt k) news \<and>
       map seg_id (snd_buf k') = map seg_id (snd_buf k @ news) \<and>
       map (\<lambda>s. (sg_frg s, sg_data s)) news = map (\<lambda>s. (sg_frg s, sg_data s)) ms \<and>
       snd_nxt k' = snd_nxt k + of_nat (length ms) \<and>
       unat (snd_nxt k' - snd_una k') = unat (snd_nxt k - snd_una k) + length ms) \<and>
     conv k' = conv k \<and> mss k' = mss k \<and> snd_wnd k' = snd_wnd k \<and> snd_una k' = snd_una k \<and>
     unat (snd_nxt k' - snd_una k') \<le> max (unat (snd_nxt k - snd_una k)) (unat (flush_window k)) \<and>
     rcv_queue k' = rcv_queue k \<and> rcv_buf k' = rcv_buf k \<and> rcv_nxt k' = rcv_nxt k \<and> rcv_wnd k' = rcv_wnd k"

text \<open>
  How a flush opens the way for the next one: the congestion window is at least 1, a probe is
  scheduled when the peer's window is closed, and the queue is moved as far as the window lets it.
\<close>

definition flush_opens :: "IKCPCB \<Rightarrow> IKCPCB \<Rightarrow> bool" where
  "flush_opens k k' \<longleftrightarrow> 1 \<le> cwnd k' \<and> rmt_wnd k' = rmt_wnd k \<and>
     (rmt_wnd k = 0 \<and> probe_wait k = 0 \<longrightarrow> probe_wait k' \<noteq> 0) \<and>
     (snd_queue k' = [] \<or> unat (flush_window k) \<le> unat (snd_nxt k' - snd_una k'))"

text \<open>Fields \<open>ikcp_flush\<close> leaves alone.\<close>

definition flush_frame :: "IKCPCB \<Rightarrow> IKCPCB \<Rightarrow> bool" where
  "flush_frame k k' \<longleftrightarrow> ts_flush k' = ts_flush k \<and> interval k' = interval k \<and> current k' = current k \<and>
     updated k' = updated k \<and> output_cb k' = output_cb k \<and> mtu k' = mtu k \<and> mss k' = mss k"

text \<open>
  Every segment that is new in \<open>snd_buf\<close>, was never sent or ran into its timeout is among those
  sent.
\<close>

definition flush_covers :: "IKCPCB \<Rightarrow> IKCPCB \<Rightarrow> IKCPSEG list \<Rightarrow> bool" where
  "flush_covers k k' sent \<longleftrightarrow>
     (\<forall>sn \<in> sg_sn ` set (snd_buf k').
        sn \<notin> sg_sn ` set (snd_buf k) \<or>
        (\<exists>s \<in> set (snd_buf k). sg_sn s = sn \<and> (sg_xmit s = 0 \<or> itimediff (current k') (sg_resendts s) \<ge> 0)) \<longrightarrow>
        sn \<in> sg_sn ` set sent)"

lemma image_sn: "sg_sn ` set xs = fst ` set (map seg_id xs)"
  by (simp add: seg_id_def image_image)

lemma flush_coversI:
  assumes "map seg_id (snd_buf k') = map seg_id (snd_buf k @ news)" and "\<forall>s \<in> set news. sg_xmit s = 0"
    and "map seg_id sent = map seg_id (filter (flush_due (current k') resent) (snd_buf k @ news))"
  shows "flush_covers k k' sent"
proof -
  have new: "flush_due (current k') resent s" if "s \<in> set news" for s using assms(2) that by (simp add: flush_due_def)
  have sent: "sg_sn s \<in> sg_sn ` set sent" if "s \<in> set (snd_buf k @ news)" "flush_due (current k') resent s" for s
  proof -
    have "seg_id s \<in> set (map seg_id sent)" using that unfolding assms(3) by auto
    then show ?thesis unfolding image_sn using image_eqI [of "sg_sn s" fst "seg_id s"] by (simp add: seg_id_def)
  qed
  have buf: "sg_sn ` set (snd_buf k') = sg_sn ` set (snd_buf k @ news)" unfolding image_sn assms(1) ..
  show ?thesis
    unfolding flush_covers_def
  proof (intro ballI impI)
    fix sn
    assume sn: "sn \<in> sg_sn ` set (snd_buf k')" and d: "sn \<notin> sg_sn ` set (snd_buf k) \<or>
      (\<exists>s \<in> set (snd_buf k). sg_sn s = sn \<and> (sg_xmit s = 0 \<or> itimediff (current k') (sg_resendts s) \<ge> 0))"
    from d show "sn \<in> sg_sn ` set sent"
    proof
      assume "sn \<notin> sg_sn ` set (snd_buf k)"
      then obtain s where "s \<in> set news" "sn = sg_sn s" using sn unfolding buf by auto
      then show ?thesis using sent new by simp
    next
      assume "\<exists>s \<in> set (snd_buf k). sg_sn s = sn \<and> (sg_xmit s = 0 \<or> itimediff (current k') (sg_resendts s) \<ge> 0)"
      then obtain s where "s \<in> set (snd_buf k)" "sg_sn s = sn" "flush_due (current k') resent s"
        by (auto simp: flush_due_def)
      then show ?thesis using sent [of s] by simp
    qed
  qed
qed

text \<open>
  What \<open>ikcp_flush\<close> puts on the wire: all pending acknowledgements, the window commands and
  data segments of \<open>snd_buf\<close>, in this order, cut into datagrams of at most \<open>mtu\<close> bytes.
\<close>

text \<open>A window probe is due at the clock value \<open>cur\<close>.\<close>

definition flush_asks :: "IKCPCB \<Rightarrow> u32 \<Rightarrow> bool" where
  "flush_asks k cur \<longleftrightarrow> rmt_wnd k = 0 \<and> probe_wait k \<noteq> 0 \<and> itimediff cur (ts_probe k) \<ge> 0"

definition flush_wire :: "IKCPCB \<Rightarrow> IKCPCB \<Rightarrow> byte list list \<Rightarrow> bool" where
  "flush_wire k k' outs \<longleftrightarrow>
     (\<exists>gs ws sent. outs = map wires gs \<and> (\<forall>g \<in> set gs. g \<noteq> [] \<and> length (wires g) \<le> unat (mtu k)) \<and>
       concat gs = map (ack_seg (flush_seg k)) (ack_pairs k) @ ws @ sent \<and>
       (\<forall>s \<in> set ws. sg_cmd s \<in> {IKCP_CMD_WASK, IKCP_CMD_WINS} \<and> sg_conv s = conv k \<and> sg_data s = [] \<and> sg_len s = 0) \<and>
       subseq sent (snd_buf k') \<and> flush_covers k k' sent \<and>
       (\<forall>s \<in> set ws \<union> set sent. sg_una s = rcv_nxt k \<and> sg_wnd s = ikcp_wnd_unused k) \<and>
       (flush_asks k (current k') \<longrightarrow> (\<exists>s \<in> set ws. sg_cmd s = IKCP_CMD_WASK)) \<and>
       (probe k AND IKCP_ASK_TELL \<noteq> 0 \<longrightarrow> ws \<noteq> []))"

lemma flush_window_bound:
  assumes "conf_inv k" shows "unat (flush_window k) < 2 ^ 31"
  using assms by (auto simp: flush_window_def imin_unat conf_inv_def Let_def)

lemma wcmd_segs_ok:
  "s \<in> set (wcmd_segs k (ack_seg (flush_seg k0) p)) \<Longrightarrow>
     sg_cmd s \<in> {83, 84} \<and> sg_conv s = conv k0 \<and> sg_data s = [] \<and> sg_len s = 0 \<and> sg_una s = rcv_nxt k0 \<and>
     sg_wnd s = ikcp_wnd_unused k0"
  by (auto simp: wcmd_segs_def ack_seg_def flush_seg_def split: if_splits)

lemma flush_tail:
  assumes inv: "kcp_inv k" and ob: "output_cb k" and cap: "unat (mtu k) \<le> cap"
    and st: "buf_ok (unat (mtu k)) ss st"
  obtains rs x y ptr outs lost change sent where
    "flush_data cap cur resent rtomin wnd (snd_buf k) k st False 0 =
       Some (rs, k\<lparr>xmit := x, state := y\<rparr>, (ptr, outs), lost, change)"
    and "kcp_inv (k\<lparr>xmit := x, state := y, snd_buf := rs\<rparr>)" and "map seg_id rs = map seg_id (snd_buf k)"
    and "subseq sent rs" and "buf_ok (unat (mtu k)) (ss @ sent) (ptr, outs)"
    and "map seg_id sent = map seg_id (filter (flush_due cur resent) (snd_buf k))"
    and "\<forall>s \<in> set sent. sg_una s = rcv_nxt k \<and> sg_wnd s = wnd"
proof -
  have ctx: "flush_ctx k cap" using kcp_invD(4) [OF inv] ob cap by (simp add: flush_ctx_def)
  have "\<forall>s \<in> set (snd_buf k). sent_ok k s" using kcp_invD(5) [OF inv] by (simp add: segs_inv_def)
  then obtain rs x y st' lost change sent where d:
    "flush_data cap cur resent rtomin wnd (snd_buf k) k st False 0 =
       Some (rs, k\<lparr>xmit := x, state := y\<rparr>, st', lost, change)"
    "list_all2 seg_same (snd_buf k) rs" "subseq sent rs"
    "map seg_id sent = map seg_id (filter (flush_due cur resent) (snd_buf k))"
    "buf_ok (unat (mtu k)) (ss @ sent) st'" "\<forall>s \<in> set sent. sg_una s = rcv_nxt k \<and> sg_wnd s = wnd"
    using flush_data_ok [OF ctx _ st, of "snd_buf k" cur resent rtomin wnd False 0] by blast
  have "kcp_inv (k\<lparr>xmit := x, state := y\<rparr>)" using inv by simp
  then have "kcp_inv (k\<lparr>xmit := x, state := y\<rparr>\<lparr>snd_buf := rs\<rparr>)"
    by (rule flush_segs_inv) (use d(2) in simp)
  then show ?thesis
    using that [of rs y x "fst st'" "snd st'" lost change sent] d seg_same_id [OF d(2)] by simp
qed

lemma flush_probe_bits:
  assumes "rmt_wnd k' = rmt_wnd k" "probe_wait k' = probe_wait k" "ts_probe k' = ts_probe k" "probe k' = probe k"
  shows "flush_asks k (current k') \<Longrightarrow> probe (flush_probe k') AND IKCP_ASK_SEND \<noteq> 0"
    and "probe k AND IKCP_ASK_TELL \<noteq> 0 \<Longrightarrow> probe (flush_probe k') AND IKCP_ASK_TELL \<noteq> 0"
proof -
  have b: "(p OR 1) AND 1 = 1" "(p OR 1) AND 2 = p AND 2" for p :: u32
    by (simp_all add: bit.conj_disj_distrib2)
  show "flush_asks k (current k') \<Longrightarrow> probe (flush_probe k') AND IKCP_ASK_SEND \<noteq> 0"
    using assms by (simp add: flush_asks_def flush_probe_def Let_def b)
  show "probe k AND IKCP_ASK_TELL \<noteq> 0 \<Longrightarrow> probe (flush_probe k') AND IKCP_ASK_TELL \<noteq> 0"
    using assms by (simp add: flush_probe_def Let_def b)
qed

lemma flush_probe_waits: "rmt_wnd k = 0 \<Longrightarrow> probe_wait k = 0 \<Longrightarrow> probe_wait (flush_probe k) \<noteq> 0"
  by (simp add: flush_probe_def Let_def)

lemma flush_probe_inv: "kcp_inv k \<Longrightarrow> kcp_inv (flush_probe k)"
  by (rule flush_probe_update [of k]) simp

text \<open>The control block after the acknowledgements and the window commands.\<close>

definition flush_ready :: "IKCPCB \<Rightarrow> IKCPCB" where
  "flush_ready k = (flush_probe (k\<lparr>ackcount := 0\<rparr>))\<lparr>probe := 0\<rparr>"

lemma flush_ready_update:
  obtains b c where "flush_ready k = k\<lparr>ackcount := 0, probe := 0, ts_probe := b, probe_wait := c\<rparr>"
proof -
  obtain a b c where e: "flush_probe (k\<lparr>ackcount := 0\<rparr>) =
      k\<lparr>ackcount := 0\<rparr>\<lparr>probe := a, ts_probe := b, probe_wait := c\<rparr>"
    by (rule flush_probe_update)
  have "flush_ready k = k\<lparr>ackcount := 0, probe := 0, ts_probe := b, probe_wait := c\<rparr>"
    by (simp add: flush_ready_def e)
  then show ?thesis by (rule that)
qed

lemma flush_ready_wait: "probe_wait (flush_ready k) = probe_wait (flush_probe (k\<lparr>ackcount := 0\<rparr>))"
  by (simp add: flush_ready_def)

lemma flush_ready_inv:
  assumes "kcp_inv k" shows "kcp_inv (flush_ready k)"
proof -
  have "ack_inv (k\<lparr>ackcount := 0\<rparr>)"
    using kcp_invD(3) [OF assms] by (auto simp: ack_inv_def split: option.splits)
  moreover have "k\<lparr>ackcount := 0\<rparr> = k\<lparr>acklist := acklist k, ackcount := 0, ackblock := ackblock k\<rparr>" by simp
  ultimately have "kcp_inv (k\<lparr>ackcount := 0\<rparr>)" using kcp_inv_ack [OF assms] by blast
  then show ?thesis by (simp add: flush_ready_def flush_probe_inv)
qed

lemma flush_head:
  assumes inv: "kcp_inv k" and ob: "output_cb k" and cap: "unat (mtu k) \<le> cap"
    and cnt: "unat (ackcount k) < 2 ^ 31"
  obtains seg st st' ws where
    "flush_acks k cap 0 (nat (sint (ackcount k))) (flush_seg k) ([], []) = Some (seg, st)"
    and "flush_wcmds (flush_probe (k\<lparr>ackcount := 0\<rparr>)) cap seg st = Some st'"
    and "buf_ok (unat (mtu k)) (map (ack_seg (flush_seg k)) (ack_pairs k) @ ws) st'"
    and "\<forall>s \<in> set ws. sg_cmd s \<in> {83, 84} \<and> sg_conv s = conv k \<and> sg_data s = [] \<and> sg_len s = 0 \<and> sg_una s = rcv_nxt k \<and>
      sg_wnd s = ikcp_wnd_unused k"
    and "flush_asks k (current k) \<longrightarrow> (\<exists>s \<in> set ws. sg_cmd s = IKCP_CMD_WASK)"
    and "probe k AND IKCP_ASK_TELL \<noteq> 0 \<longrightarrow> ws \<noteq> []"
proof -
  let ?k = "flush_probe (k\<lparr>ackcount := 0\<rparr>)"
  have ctx: "flush_ctx k cap" using kcp_invD(4) [OF inv] ob cap by (simp add: flush_ctx_def)
  have n: "nat (sint (ackcount k)) = unat (ackcount k)" using sint_small [OF cnt] by (simp del: of_nat_unat)
  have d: "sg_data (flush_seg k) = []" by (simp add: flush_seg_def)
  have "\<exists>seg' st'. flush_acks k cap 0 (unat (ackcount k)) (flush_seg k) ([], []) = Some (seg', st') \<and>
      (\<exists>p. seg' = ack_seg (flush_seg k) p) \<and>
      buf_ok (unat (mtu k)) ([] @ map (ack_seg (flush_seg k)) (drop 0 (ack_pairs k))) st'"
    by (rule flush_acks_ok [OF ctx kcp_invD(3) [OF inv] d buf_ok_empty]) simp
  then obtain seg st p where a: "flush_acks k cap 0 (unat (ackcount k)) (flush_seg k) ([], []) = Some (seg, st)"
    "seg = ack_seg (flush_seg k) p" "buf_ok (unat (mtu k)) (map (ack_seg (flush_seg k)) (ack_pairs k)) st"
    unfolding append_Nil drop_0 by blast
  obtain b c e where k1: "?k = k\<lparr>ackcount := 0\<rparr>\<lparr>probe := b, ts_probe := c, probe_wait := e\<rparr>"
    by (rule flush_probe_update)
  have ctx1: "flush_ctx ?k cap" and m: "mtu ?k = mtu k"
    using ctx conf_inv_cong [of ?k k] by (simp_all add: flush_ctx_def k1)
  have d': "sg_data seg = []" using d by (simp add: a(2) ack_seg_def)
  obtain st' where "flush_wcmds ?k cap seg st = Some st'"
    "buf_ok (unat (mtu ?k)) (map (ack_seg (flush_seg k)) (ack_pairs k) @ wcmd_segs ?k seg) st'"
    by (rule flush_wcmds_ok [OF ctx1 _ d']) (use a(3) m in auto)
  moreover have "flush_asks k (current k) \<longrightarrow> (\<exists>s \<in> set (wcmd_segs ?k seg). sg_cmd s = IKCP_CMD_WASK)"
    using flush_probe_bits(1) [of "k\<lparr>ackcount := 0\<rparr>" k] by (auto simp: wcmd_segs_def)
  moreover have "probe k AND IKCP_ASK_TELL \<noteq> 0 \<longrightarrow> wcmd_segs ?k seg \<noteq> []"
    using flush_probe_bits(2) [of "k\<lparr>ackcount := 0\<rparr>" k] by (simp add: wcmd_segs_def)
  ultimately show ?thesis
    using that [of seg st st' "wcmd_segs ?k seg"] a(1) n m wcmd_segs_ok [of _ ?k k p] a(2) by simp
qed

lemma flush_last:
  assumes "buf_ok m ss (ptr, outs)" and "output_cb k"
  obtains o2 gs where "(if length ptr > 0 then ikcp_output k ptr else Some []) = Some o2"
    and "outs @ o2 = map wires gs" and "concat gs = ss" and "\<forall>g \<in> set gs. g \<noteq> [] \<and> length (wires g) \<le> m"
proof -
  obtain gs ps where b: "outs = map wires gs" "ptr = wires ps" "ss = concat gs @ ps"
    "\<forall>g \<in> set gs. g \<noteq> [] \<and> length (wires g) \<le> m" "length (wires ps) \<le> m"
    using assms(1) by (auto simp: buf_ok_def)
  show ?thesis
  proof (cases ps)
    case Nil
    then show ?thesis using that [of "[]" gs] b by simp
  next
    case (Cons s ps')
    then have "length ptr > 0" using b(2) by (simp add: length_wire)
    then show ?thesis
      using that [of "[ptr]" "gs @ [ps]"] b Cons assms(2) by (auto simp: ikcp_output_def)
  qed
qed

lemma ikcp_flush_ok:
  assumes inv: "kcp_inv k" and ob: "output_cb k" and cnt: "unat (ackcount k) < 2 ^ 31" and up: "updated k \<noteq> 0"
  obtains k' outs where "ikcp_flush k = Some (k', outs)" and "kcp_inv k'" and "flush_sends k k'"
    and "flush_wire k k' outs" and "flush_opens k k'" and "ackcount k' = 0"
    and "flush_frame k k'"
proof -
  define cap where "cap = (case buffer k of None \<Rightarrow> 0 | Some n \<Rightarrow> n)"
  have cap: "unat (mtu k) \<le> cap" using kcp_invD(4) [OF inv] by (simp add: cap_def conf_inv_def)
  obtain seg st st1 ws where h:
    "flush_acks k cap 0 (nat (sint (ackcount k))) (flush_seg k) ([], []) = Some (seg, st)"
    "flush_wcmds (flush_probe (k\<lparr>ackcount := 0\<rparr>)) cap seg st = Some st1"
    "buf_ok (unat (mtu k)) (map (ack_seg (flush_seg k)) (ack_pairs k) @ ws) st1"
    "\<forall>s \<in> set ws. sg_cmd s \<in> {83, 84} \<and> sg_conv s = conv k \<and> sg_data s = [] \<and> sg_len s = 0 \<and> sg_una s = rcv_nxt k \<and>
      sg_wnd s = ikcp_wnd_unused k"
    "flush_asks k (current k) \<longrightarrow> (\<exists>s \<in> set ws. sg_cmd s = IKCP_CMD_WASK)"
    "probe k AND IKCP_ASK_TELL \<noteq> 0 \<longrightarrow> ws \<noteq> []"
    by (rule flush_head [OF inv ob cap cnt])
  define k1 where "k1 = flush_ready k"
  have inv1: "kcp_inv k1" unfolding k1_def by (rule flush_ready_inv [OF inv])
  obtain b c where k1: "k1 = k\<lparr>ackcount := 0, probe := 0, ts_probe := b, probe_wait := c\<rparr>"
    unfolding k1_def by (rule flush_ready_update)
  define cw where "cw = flush_window k1"
  have cweq: "cw = flush_window k" by (simp add: cw_def flush_window_def k1 Let_def)
  have cw: "unat cw < 2 ^ 31" unfolding cw_def by (rule flush_window_bound [OF kcp_invD(4) [OF inv1]])
  define wnd where "wnd = ikcp_wnd_unused k"
  define k2 where "k2 = flush_move cw wnd (current k1) (snd_queue k1) k1"
  obtain ms qs news where m: "snd_queue k1 = ms @ qs" "k2 =
      k1\<lparr>snd_nxt := snd_nxt k1 + of_nat (length ms), nsnd_buf := nsnd_buf k1 + of_nat (length ms),
        nsnd_que := nsnd_que k1 - of_nat (length ms), snd_queue := qs, snd_buf := snd_buf k1 @ news\<rparr>"
    "kcp_inv k2" "consecutive (snd_nxt k1) news"
    "map (\<lambda>s. (sg_frg s, sg_data s)) news = map (\<lambda>s. (sg_frg s, sg_data s)) ms"
    "\<forall>s \<in> set news. sg_xmit s = 0"
    "unat (snd_nxt k2 - snd_una k1) \<le> max (unat (snd_nxt k1 - snd_una k1)) (unat cw)"
    "unat (snd_nxt k2 - snd_una k1) = unat (snd_nxt k1 - snd_una k1) + length ms"
    "qs = [] \<or> unat cw \<le> unat (snd_nxt k2 - snd_una k1)"
    using flush_move_spec [OF inv1 refl cw, of wnd "current k1"] unfolding k2_def [symmetric]
    by (elim exE conjE) (rule that)
  define resent where "resent = (if fastresend k2 > 0 then word_of_int (fastresend k2) else 0xffffffff :: u32)"
  define rtomin where "rtomin = (if nodelay k2 = 0 then word_of_int (rx_rto k2 div 8) else 0 :: u32)"
  have mtu2: "mtu k2 = mtu k" and ob2: "output_cb k2" using ob by (simp_all add: m(2) k1)
  obtain rs x y ptr outs lost change sent where t:
    "flush_data cap (current k2) resent rtomin wnd (snd_buf k2) k2 st1 False 0 =
       Some (rs, k2\<lparr>xmit := x, state := y\<rparr>, (ptr, outs), lost, change)"
    "kcp_inv (k2\<lparr>xmit := x, state := y, snd_buf := rs\<rparr>)" "map seg_id rs = map seg_id (snd_buf k2)"
    "subseq sent rs"
    "buf_ok (unat (mtu k2)) ((map (ack_seg (flush_seg k)) (ack_pairs k) @ ws) @ sent) (ptr, outs)"
    "map seg_id sent = map seg_id (filter (flush_due (current k2) resent) (snd_buf k2))"
    "\<forall>s \<in> set sent. sg_una s = rcv_nxt k2 \<and> sg_wnd s = wnd"
    by (rule flush_tail [OF m(3) ob2, of cap "map (ack_seg (flush_seg k)) (ack_pairs k) @ ws" st1
        "current k2" resent rtomin wnd]) (use cap h(3) mtu2 in auto)
  define k3 where "k3 = k2\<lparr>xmit := x, state := y, snd_buf := rs\<rparr>"
  have ob3: "output_cb k3" using ob2 by (simp add: k3_def)
  obtain o2 gs where l: "(if length ptr > 0 then ikcp_output k3 ptr else Some []) = Some o2"
    "outs @ o2 = map wires gs" "concat gs = (map (ack_seg (flush_seg k)) (ack_pairs k) @ ws) @ sent"
    "\<forall>g \<in> set gs. g \<noteq> [] \<and> length (wires g) \<le> unat (mtu k2)"
    by (rule flush_last [OF t(5) ob3])
  define k4 where "k4 = flush_cwnd lost change resent cw k3"
  obtain d e f where k4: "k4 = k3\<lparr>ssthresh := d, cwnd := e, incr := f\<rparr>"
    unfolding k4_def by (rule flush_cwnd_update)
  have x: "flush_xmit cap wnd cw st1 k2 = Some (k4, outs @ o2)"
    using t(1) l(1)
    by (simp add: flush_xmit_def Let_def resent_def [symmetric] rtomin_def [symmetric] k3_def [symmetric]
        k4_def [symmetric] cong: if_cong)
  have k2': "flush_move cw wnd (current (flush_probe (k\<lparr>ackcount := 0\<rparr>)))
      (snd_queue (flush_probe (k\<lparr>ackcount := 0\<rparr>))) k1 = k2"
    by (simp add: k2_def k1_def flush_ready_def)
  have "ikcp_flush k = Some (k4, outs @ o2)"
    using up h(1,2) x
    by (simp add: ikcp_flush_def cap_def [symmetric] wnd_def [symmetric] flush_ready_def [symmetric]
        k1_def [symmetric] cw_def [symmetric] k2' Let_def)
  moreover have "kcp_inv k4" using t(2) by (simp add: k4 k3_def)
  moreover have "flush_sends k k4"
    unfolding flush_sends_def cweq [symmetric]
    using m(1,4,5,7,8) t(3) by (intro conjI exI [of _ ms] exI [of _ news]) (simp_all add: k4 k3_def m(2) k1)
  moreover have "flush_covers k k4 sent"
    by (rule flush_coversI [of k4 k news sent resent, OF _ m(6)])
      (use t(3,6) in \<open>simp_all add: k4 k3_def m(2) k1\<close>)
  then have "flush_wire k k4 (outs @ o2)"
    unfolding flush_wire_def
    by - (rule exI [of _ gs], rule exI [of _ ws], rule exI [of _ sent],
      use l h(4-6) t(4,7) mtu2 in \<open>auto simp: k4 k3_def m(2) k1 wnd_def\<close>)
  moreover have "1 \<le> cwnd k4" unfolding k4_def by (rule flush_cwnd_pos)
  then have "flush_opens k k4"
    using m(9) flush_probe_waits [of "k\<lparr>ackcount := 0\<rparr>"] flush_ready_wait [of k]
    unfolding flush_opens_def cweq [symmetric] by (simp add: k4 k3_def m(2) k1_def [symmetric]) (simp add: k1)
  moreover have "ackcount k4 = 0" "flush_frame k k4" by (simp_all add: k4 k3_def m(2) k1 flush_frame_def)
  ultimately show ?thesis by (rule that)
qed

section \<open>Properties\<close>

text \<open>
  C9: \<open>ikcp_flush\<close> is safe: it never writes beyond the output buffer, reads no
  acknowledgement outside the array and no payload outside its segment, ends, and keeps the
  invariant; every datagram it hands to the callback has at least one segment and at most
  \<open>mtu\<close> bytes.
\<close>

theorem ikcp_flush_safe:
  assumes "kcp_inv k" and "output_cb k" and "unat (ackcount k) < 2 ^ 31"
  shows "\<exists>k' outs. ikcp_flush k = Some (k', outs) \<and> kcp_inv k' \<and>
    (\<forall>d \<in> set outs. 24 \<le> length d \<and> length d \<le> unat (mtu k))"
proof (cases "updated k = 0")
  case True
  then show ?thesis using assms(1) by (simp add: ikcp_flush_def)
next
  case False
  obtain k' outs where f: "ikcp_flush k = Some (k', outs)" "kcp_inv k'" "flush_wire k k' outs"
    by (rule ikcp_flush_ok [OF assms False])
  obtain gs where g: "outs = map wires gs" "\<forall>g \<in> set gs. g \<noteq> [] \<and> length (wires g) \<le> unat (mtu k)"
    using f(3) unfolding flush_wire_def by blast
  have "24 \<le> length (wires g)" if "g \<noteq> []" for g
    using that by (cases g) (simp_all add: length_wire)
  then show ?thesis using f(1,2) g by (intro exI [of _ k'] exI [of _ outs]) auto
qed

definition demo_flush :: IKCPCB where
  "demo_flush = demo_kcb\<lparr>updated := 1, acklist := Some (replicate 16 5), ackblock := 8, ackcount := 2,
     snd_queue := [blank_seg\<lparr>sg_len := 3, sg_data := [1, 2, 3]\<rparr>], nsnd_que := 1\<rparr>"

lemma demo_flush_inv: "kcp_inv demo_flush" "output_cb demo_flush" "unat (ackcount demo_flush) < 2 ^ 31"
  by (simp_all add: demo_flush_def kcp_inv_def snd_inv_def rcv_inv_def ack_inv_def conf_inv_def segs_inv_def
      seg_ok_def blank_seg_def)

theorem ikcp_flush_safe_witness:
  "kcp_inv demo_flush \<and> (\<exists>k' outs. ikcp_flush demo_flush = Some (k', outs) \<and> kcp_inv k' \<and>
     (\<forall>d \<in> set outs. length d \<le> 1400))"
proof -
  have "unat (mtu demo_flush) = 1400" by (simp add: demo_flush_def)
  then show ?thesis using ikcp_flush_safe [OF demo_flush_inv] demo_flush_inv(1) by auto
qed

text \<open>
  C17: what \<open>ikcp_flush\<close> puts on the wire, datagrams concatenated: every pending
  acknowledgement in order of arrival, then the window commands, then data segments of
  \<open>snd_buf\<close> in order of their numbers, all with the conversation number; no acknowledgement
  stays pending.
\<close>

theorem ikcp_flush_wire:
  assumes "kcp_inv k" and "output_cb k" and "unat (ackcount k) < 2 ^ 31" and "updated k \<noteq> 0"
  shows "\<exists>k' outs ws sent. ikcp_flush k = Some (k', outs) \<and> ackcount k' = 0 \<and>
    concat outs = wires (map (\<lambda>p. (flush_seg k)\<lparr>sg_sn := fst p, sg_ts := snd p\<rparr>) (ack_pairs k) @ ws @ sent) \<and>
    (\<forall>s \<in> set ws. sg_cmd s \<in> {IKCP_CMD_WASK, IKCP_CMD_WINS} \<and> sg_conv s = conv k \<and> sg_data s = []) \<and>
    subseq sent (snd_buf k') \<and> (\<forall>s \<in> set sent. sg_cmd s = IKCP_CMD_PUSH \<and> sg_conv s = conv k)"
proof -
  obtain k' outs where f: "ikcp_flush k = Some (k', outs)" "kcp_inv k'" "flush_sends k k'" "flush_wire k k' outs"
    "ackcount k' = 0"
    by (rule ikcp_flush_ok [OF assms])
  obtain gs ws sent where g: "outs = map wires gs"
    "concat gs = map (ack_seg (flush_seg k)) (ack_pairs k) @ ws @ sent"
    "\<forall>s \<in> set ws. sg_cmd s \<in> {83, 84} \<and> sg_conv s = conv k \<and> sg_data s = [] \<and> sg_len s = 0"
    "subseq sent (snd_buf k')"
    using f(4) unfolding flush_wire_def by blast
  have "concat (map wires gs) = wires (concat gs)" by (induction gs) auto
  then have c: "concat outs = wires (map (ack_seg (flush_seg k)) (ack_pairs k) @ ws @ sent)" using g(1,2) by simp
  have "set sent \<subseteq> set (snd_buf k')" using g(4) by (auto elim: list_emb_set)
  moreover have "conv k' = conv k" using f(3) by (simp add: flush_sends_def)
  ultimately have s: "\<forall>s \<in> set sent. sg_cmd s = 81 \<and> sg_conv s = conv k"
    using kcp_invD(5) [OF f(2)] by (auto simp: segs_inv_def sent_ok_def)
  have w: "\<forall>s \<in> set ws. sg_cmd s \<in> {83, 84} \<and> sg_conv s = conv k \<and> sg_data s = []" using g(3) by blast
  show ?thesis
    by (rule exI [of _ k'], rule exI [of _ outs], rule exI [of _ ws], rule exI [of _ sent])
      (use f(1,5) c w s g(4) in \<open>simp add: ack_seg_def [abs_def]\<close>)
qed

theorem ikcp_flush_wire_witness:
  "kcp_inv demo_flush \<and> (\<exists>k' outs ws sent. ikcp_flush demo_flush = Some (k', outs) \<and> ackcount k' = 0 \<and>
     concat outs = wires (replicate 2 ((flush_seg demo_flush)\<lparr>sg_sn := 5, sg_ts := 5\<rparr>) @ ws @ sent))"
proof -
  have a: "ack_pairs demo_flush = [(5, 5), (5, 5)]" "updated demo_flush \<noteq> 0"
    by (simp_all add: demo_flush_def ack_pairs_def upt_0_2)
  show ?thesis using ikcp_flush_wire [OF demo_flush_inv a(2)] demo_flush_inv(1) unfolding a(1)
    by (auto simp: numeral_2_eq_2)
qed

text \<open>
  C31: new segments enter \<open>snd_buf\<close> in queue order with consecutive numbers from \<open>snd_nxt\<close>
  on, their contents unchanged, and never more than the smallest of the send window, the
  window the peer announced and (with congestion control) the congestion window are in flight,
  unless more were in flight before.
\<close>

theorem ikcp_flush_window:
  assumes "kcp_inv k" and "output_cb k" and "unat (ackcount k) < 2 ^ 31" and "updated k \<noteq> 0"
  shows "\<exists>k' outs ms news. ikcp_flush k = Some (k', outs) \<and> snd_queue k = ms @ snd_queue k' \<and>
    map seg_id (snd_buf k') = map seg_id (snd_buf k @ news) \<and> consecutive (snd_nxt k) news \<and>
    map (\<lambda>s. (sg_frg s, sg_data s)) news = map (\<lambda>s. (sg_frg s, sg_data s)) ms \<and>
    snd_nxt k' = snd_nxt k + of_nat (length ms) \<and> snd_una k' = snd_una k \<and>
    unat (snd_nxt k' - snd_una k') \<le> max (unat (snd_nxt k - snd_una k))
      (min (min (unat (snd_wnd k)) (unat (rmt_wnd k))) (if nocwnd k = 0 then unat (cwnd k) else unat (snd_wnd k)))"
proof -
  obtain k' outs where f: "ikcp_flush k = Some (k', outs)" "flush_sends k k'"
    by (rule ikcp_flush_ok [OF assms])
  have w: "unat (flush_window k) =
      min (min (unat (snd_wnd k)) (unat (rmt_wnd k))) (if nocwnd k = 0 then unat (cwnd k) else unat (snd_wnd k))"
    by (auto simp: flush_window_def imin_unat Let_def)
  show ?thesis using f unfolding flush_sends_def w by blast
qed

theorem ikcp_flush_window_witness:
  "kcp_inv demo_flush \<and> (\<exists>k' outs. ikcp_flush demo_flush = Some (k', outs) \<and> unat (snd_nxt k' - snd_una k') \<le> 32)"
proof -
  have "updated demo_flush \<noteq> 0" "unat (snd_nxt demo_flush - snd_una demo_flush) = 0" "unat (snd_wnd demo_flush) = 32"
    "unat (rmt_wnd demo_flush) = 32"
    by (simp_all add: demo_flush_def)
  then show ?thesis using ikcp_flush_window [OF demo_flush_inv] demo_flush_inv(1) by (auto split: if_splits)
qed

text \<open>
  The data loop sends exactly the segments that are due, in order: those never sent,
  those whose timer ran out and those acknowledged around often enough; none is altered in
  number, fragment or payload.
\<close>

theorem flush_data_sends_due:
  assumes "kcp_inv k" and "output_cb k" and "unat (mtu k) \<le> cap"
  shows "\<exists>rs k' ptr outs lost change sent.
    flush_data cap cur resent rtomin wnd (snd_buf k) k ([], []) False 0 = Some (rs, k', (ptr, outs), lost, change) \<and>
    concat outs @ ptr = wires sent \<and> subseq sent rs \<and> map seg_id rs = map seg_id (snd_buf k) \<and>
    map seg_id sent = map seg_id (filter (\<lambda>s. sg_xmit s = 0 \<or> itimediff cur (sg_resendts s) \<ge> 0 \<or>
      sg_fastack s \<ge> resent) (snd_buf k))"
proof -
  obtain rs x y ptr outs lost change sent where t:
    "flush_data cap cur resent rtomin wnd (snd_buf k) k ([], []) False 0 =
       Some (rs, k\<lparr>xmit := x, state := y\<rparr>, (ptr, outs), lost, change)"
    "map seg_id rs = map seg_id (snd_buf k)" "subseq sent rs" "buf_ok (unat (mtu k)) ([] @ sent) (ptr, outs)"
    "map seg_id sent = map seg_id (filter (flush_due cur resent) (snd_buf k))"
    by (rule flush_tail [OF assms buf_ok_empty])
  obtain gs ps where "outs = map wires gs" "ptr = wires ps" "sent = concat gs @ ps"
    using t(4) by (auto simp: buf_ok_def)
  moreover have "concat (map wires gs) = wires (concat gs)" by (induction gs) auto
  ultimately have c: "concat outs @ ptr = wires sent" by simp
  show ?thesis
    by (rule exI [of _ rs], rule exI [of _ "k\<lparr>xmit := x, state := y\<rparr>"], rule exI [of _ ptr], rule exI [of _ outs],
        rule exI [of _ lost], rule exI [of _ change], rule exI [of _ sent])
      (use t(1,2,3,5) c in \<open>simp add: flush_due_def [abs_def]\<close>)
qed

text \<open>A sender with a segment that was sent and is not due, and one that was never sent.\<close>

definition demo_due :: IKCPCB where
  "demo_due = demo_kcb\<lparr>snd_nxt := 2, nsnd_buf := 2,
     snd_buf := [blank_seg\<lparr>sg_conv := 7, sg_cmd := 81, sg_xmit := 1, sg_resendts := 500\<rparr>,
       blank_seg\<lparr>sg_conv := 7, sg_cmd := 81, sg_sn := 1\<rparr>]\<rparr>"

theorem flush_data_sends_due_witness:
  "kcp_inv demo_due \<and> (\<exists>rs k' ptr outs lost change sent.
     flush_data 4272 100 10 0 32 (snd_buf demo_due) demo_due ([], []) False 0 = Some (rs, k', (ptr, outs), lost, change) \<and>
     concat outs @ ptr = wires sent \<and> subseq sent rs \<and> map seg_id rs = map seg_id (snd_buf demo_due) \<and>
     map seg_id sent = [(1, 0, [])])"
proof -
  have i: "kcp_inv demo_due" "output_cb demo_due" "unat (mtu demo_due) \<le> 4272"
    by (simp_all add: demo_due_def kcp_inv_def snd_inv_def snd_off_def rcv_inv_def ack_inv_def conf_inv_def
        segs_inv_def sent_ok_def seg_ok_def blank_seg_def)
  have m: "map seg_id (filter (\<lambda>s. sg_xmit s = 0 \<or> itimediff 100 (sg_resendts s) \<ge> 0 \<or> sg_fastack s \<ge> 10)
      (snd_buf demo_due)) = [(1, 0, [])]"
    by (simp add: demo_due_def blank_seg_def seg_id_def itimediff_def)
  show ?thesis using i(1) flush_data_sends_due [OF i, of 100 10 0 32] unfolding m by (rule conjI)
qed

end
