(* ===== verification/Ikcp_Update.thy ===== *)
theory Ikcp_Update
  imports Ikcp_Flush
begin

text \<open>
  The clock of the engine: \<open>ikcp_update\<close> and \<open>ikcp_check\<close> of \<open>src/src/ikcp.c\<close>.

  The lemmas show that \<open>ikcp_update\<close> keeps the invariant and leaves the next flush in the
  near future, whatever the clock does between two calls, and that \<open>ikcp_check\<close> answers a
  time before which neither the flush timer nor a retransmission is due.
\<close>

section \<open>The model\<close>

definition ikcp_update :: "IKCPCB \<Rightarrow> u32 \<Rightarrow> (IKCPCB \<times> byte list list) option" where
  "ikcp_update k cur =
     (let k = k\<lparr>current := cur\<rparr>;
          k = (if updated k = 0 then k\<lparr>updated := 1, ts_flush := current k\<rparr> else k);
          slap = itimediff (current k) (ts_flush k);
          (k, slap) = (if slap \<ge> 10000 \<or> slap < -10000 then (k\<lparr>ts_flush := current k\<rparr>, 0) else (k, slap)) in
      if slap \<ge> 0 then
        (let k = k\<lparr>ts_flush := ts_flush k + interval k\<rparr>;
             k = (if itimediff (current k) (ts_flush k) \<ge> 0
                  then k\<lparr>ts_flush := current k + interval k\<rparr> else k)
         in ikcp_flush k)
      else Some (k, []))"

text \<open>The loop of \<open>ikcp_check\<close>: \<open>None\<close> is the early return, otherwise \<open>tm_packet\<close>.\<close>

fun check_packets :: "u32 \<Rightarrow> int \<Rightarrow> IKCPSEG list \<Rightarrow> int option" where
  "check_packets cur tm [] = Some tm"
| "check_packets cur tm (s # ss) =
     (let diff = itimediff (sg_resendts s) cur in
      if diff \<le> 0 then None
      else check_packets cur (if diff < tm then diff else tm) ss)"

definition ikcp_check :: "IKCPCB \<Rightarrow> u32 \<Rightarrow> u32" where
  "ikcp_check k cur =
     (if updated k = 0 then cur
      else
        (let tsf = (if itimediff cur (ts_flush k) \<ge> 10000 \<or> itimediff cur (ts_flush k) < -10000
                    then cur else ts_flush k) in
         if itimediff cur tsf \<ge> 0 then cur
         else
           (let tm_flush = itimediff tsf cur in
            case check_packets cur 0x7fffffff (snd_buf k) of
              None \<Rightarrow> cur
            | Some tm_packet \<Rightarrow>
                (let minimal = word_of_int (if tm_packet < tm_flush then tm_packet else tm_flush) :: u32;
                     minimal = (if minimal \<ge> interval k then interval k else minimal)
                 in cur + minimal))))"

section \<open>Update\<close>

text \<open>The flush timer after a call: later than now, by at most ten seconds.\<close>

lemma itimediff_sym:
  assumes "itimediff a b < 0" and "- (2 ^ 31) < itimediff a b"
  shows "unat (b - a) = nat (- itimediff a b)" "0 < unat (b - a)"
proof -
  have "sint (- (a - b)) = - sint (a - b)"
  proof -
    have "wrap32 (- sint (a - b)) = - sint (a - b)"
      using assms wrap32_range [of "sint (a - b)"]
      by (intro wrap32_id) (auto simp: itimediff_def)
    then show ?thesis by (simp add: wrap32_def)
  qed
  then have s: "sint (b - a) = - itimediff a b" by (simp add: itimediff_def)
  then have "0 < sint (b - a)" using assms(1) by simp
  then have "unat (b - a) < 2 ^ 31" "b - a \<noteq> 0" by (simp_all add: seq_simps)
  then have "int (unat (b - a)) = - itimediff a b" using sint_small s by metis
  then show "unat (b - a) = nat (- itimediff a b)" by linarith
  show "0 < unat (b - a)" using \<open>b - a \<noteq> 0\<close> by (simp add: unat_gt_0)
qed

text \<open>The control block as \<open>ikcp_update\<close> hands it to \<open>ikcp_flush\<close>, or leaves it.\<close>

definition update_clock :: "IKCPCB \<Rightarrow> u32 \<Rightarrow> u32 \<Rightarrow> u32 \<Rightarrow> IKCPCB" where
  "update_clock k cur u ts = k\<lparr>current := cur, updated := u, ts_flush := ts\<rparr>"

lemma update_clock_inv: "kcp_inv k \<Longrightarrow> kcp_inv (update_clock k cur u ts)"
  by (simp add: update_clock_def)

lemma next_flush_range:
  assumes slap: "0 \<le> itimediff cur ts" "itimediff cur ts < 10000" and i: "10 \<le> unat i" "unat i \<le> 5000"
  defines "ts' \<equiv> if itimediff cur (ts + i) \<ge> 0 then cur + i else ts + i"
  shows "0 < unat (ts' - cur)" "unat (ts' - cur) \<le> unat i"
proof -
  have "unat (cur - ts) < 2 ^ 31" using slap(1) by (simp add: seq_simps)
  moreover have "unat (ts + i - ts) < 2 ^ 31" using i by simp
  ultimately have cmp: "itimediff cur (ts + i) < 0 \<longleftrightarrow> unat (cur - ts) < unat i"
    using itimediff_off(2) [of cur ts "ts + i"] by simp
  show "0 < unat (ts' - cur)" "unat (ts' - cur) \<le> unat i"
  proof (atomize (full), cases "unat (cur - ts) < unat i")
    case True
    then have "ts' = ts + i" using cmp by (auto simp: ts'_def)
    moreover have "unat (ts + i - cur) = unat i - unat (cur - ts)"
      using unat_diff_shift [of cur ts "ts + i"] True by simp
    ultimately show "0 < unat (ts' - cur) \<and> unat (ts' - cur) \<le> unat i" using True by simp
  next
    case False
    then have "ts' = cur + i" using cmp by (auto simp: ts'_def)
    then show "0 < unat (ts' - cur) \<and> unat (ts' - cur) \<le> unat i" using i by simp
  qed
qed

text \<open>Either the flush timer is not due and nothing happens, or the engine is flushed.\<close>

definition update_due :: "IKCPCB \<Rightarrow> u32 \<Rightarrow> bool" where
  "update_due k cur \<longleftrightarrow> updated k = 0 \<or> itimediff cur (ts_flush k) \<ge> 0 \<or> itimediff cur (ts_flush k) < -10000"

lemma ikcp_update_cases:
  assumes i: "10 \<le> unat (interval k)" "unat (interval k) \<le> 5000"
  obtains u ts where "u \<noteq> 0" and "0 < unat (ts - cur)" and "unat (ts - cur) \<le> 10000"
    and "ikcp_update k cur =
      (if update_due k cur then ikcp_flush (update_clock k cur u ts) else Some (update_clock k cur u ts, []))"
proof -
  define u where "u = (if updated k = 0 then 1 else updated k)"
  define t0 where "t0 = (if updated k = 0 then cur else ts_flush k)"
  define reset where "reset \<longleftrightarrow> itimediff cur t0 \<ge> 10000 \<or> itimediff cur t0 < -10000"
  define t1 where "t1 = (if reset then cur else t0)"
  define t2 where "t2 = (if itimediff cur (t1 + interval k) \<ge> 0 then cur + interval k else t1 + interval k)"
  have u: "u \<noteq> 0" by (simp add: u_def)
  have self: "itimediff cur cur = 0" by (simp add: itimediff_def)
  show ?thesis
  proof (cases "itimediff cur t1 \<ge> 0")
    case True
    have "itimediff cur t1 < 10000" using self by (auto simp: t1_def reset_def)
    note r = next_flush_range [OF True this i, folded t2_def]
    have "ikcp_update k cur = ikcp_flush (update_clock k cur u t2)"
      using True self
      by (cases "updated k = 0"; cases reset)
        (simp_all add: ikcp_update_def update_clock_def u_def t0_def t1_def t2_def reset_def Let_def)
    moreover have "update_due k cur" using True by (auto simp: update_due_def t1_def t0_def reset_def split: if_splits)
    ultimately show ?thesis using that [OF u r(1)] r(2) i(2) by simp
  next
    case False
    then have nr: "\<not> reset" "t1 = t0" using self by (auto simp: t1_def)
    then have lo: "- 10000 \<le> itimediff cur t0" "itimediff cur t0 < 0"
      using False by (auto simp: reset_def)
    then have d: "unat (t0 - cur) = nat (- itimediff cur t0)" "0 < unat (t0 - cur)"
      using itimediff_sym [of cur t0] by simp_all
    have up: "updated k \<noteq> 0" using lo(2) self by (auto simp: t0_def)
    then have "ikcp_update k cur = Some (update_clock k cur u t0, [])"
      using lo nr(1) by (simp add: ikcp_update_def update_clock_def u_def t0_def reset_def Let_def)
    moreover have "\<not> update_due k cur" using lo up by (simp add: update_due_def t0_def)
    ultimately show ?thesis using that [OF u d(2)] d(1) lo(1) by simp
  qed
qed

lemma flush_sends_clock:
  "flush_sends (update_clock k cur u ts) k' \<longleftrightarrow> flush_sends k k'"
  by (simp add: flush_sends_def update_clock_def flush_window_def Let_def)

lemma ack_pairs_clock: "ack_pairs (update_clock k cur u ts) = ack_pairs k"
  by (cases "acklist k") (simp_all add: ack_pairs_def update_clock_def)

lemma flush_wire_clock:
  "flush_wire (update_clock k cur u ts) k' outs \<longleftrightarrow> flush_wire k k' outs"
proof -
  note ack_pairs_clock
  moreover have "flush_seg (update_clock k cur u ts) = flush_seg k"
    by (simp add: flush_seg_def update_clock_def ikcp_wnd_unused_def)
  moreover have "flush_asks (update_clock k cur u ts) t = flush_asks k t" for t by (simp add: flush_asks_def update_clock_def)
  moreover have "ikcp_wnd_unused (update_clock k cur u ts) = ikcp_wnd_unused k" by (simp add: ikcp_wnd_unused_def update_clock_def)
  ultimately show ?thesis by (simp add: flush_wire_def flush_covers_def) (simp add: update_clock_def)
qed

lemma flush_opens_clock:
  "flush_opens (update_clock k cur u ts) k' \<longleftrightarrow> flush_opens k k'"
  by (cases "nocwnd k = 0") (simp_all add: flush_opens_def update_clock_def flush_window_def)

lemma flush_sends_refl: "flush_sends k k"
  unfolding flush_sends_def by (simp add: exI [of _ "[]"])

lemma ikcp_update_ok:
  assumes inv: "kcp_inv k" and ob: "output_cb k" and cnt: "unat (ackcount k) < 2 ^ 31"
  obtains k' outs where "ikcp_update k cur = Some (k', outs)" and "kcp_inv k'" and "flush_sends k k'"
    and "outs = [] \<or> flush_wire k k' outs" and "output_cb k'" and "unat (ackcount k') \<le> unat (ackcount k)"
    and "0 < unat (ts_flush k' - cur)" and "unat (ts_flush k' - cur) \<le> 10000"
    and "updated k' \<noteq> 0" and "mtu k' = mtu k" and "set (ack_pairs k') \<subseteq> set (ack_pairs k)"
proof -
  have i: "10 \<le> unat (interval k)" "unat (interval k) \<le> 5000"
    using kcp_invD(4) [OF inv] by (simp_all add: conf_inv_def)
  obtain u ts where u: "u \<noteq> 0" and ts: "0 < unat (ts - cur)" "unat (ts - cur) \<le> 10000"
    and "ikcp_update k cur =
      (if update_due k cur then ikcp_flush (update_clock k cur u ts) else Some (update_clock k cur u ts, []))"
    by (rule ikcp_update_cases [OF i])
  then have c: "ikcp_update k cur = Some (update_clock k cur u ts, []) \<or>
      ikcp_update k cur = ikcp_flush (update_clock k cur u ts)" by (simp split: if_splits)
  let ?k = "update_clock k cur u ts"
  have inv1: "kcp_inv ?k" by (rule update_clock_inv [OF inv])
  from c show ?thesis
  proof
    assume "ikcp_update k cur = Some (?k, [])"
    then show ?thesis
      using that [of ?k "[]"] inv1 ob ts u flush_sends_clock [of k cur u ts k] ack_pairs_clock [of k cur u ts]
      by (simp add: update_clock_def flush_sends_refl) (simp add: flush_sends_def exI [of _ "[]"])
  next
    assume f: "ikcp_update k cur = ikcp_flush ?k"
    have "output_cb ?k" "unat (ackcount ?k) < 2 ^ 31" "updated ?k \<noteq> 0"
      using ob cnt u by (simp_all add: update_clock_def)
    then obtain k' outs where k': "ikcp_flush ?k = Some (k', outs)" "kcp_inv k'" "flush_sends ?k k'"
      "flush_wire ?k k' outs" "ackcount k' = 0" "flush_frame ?k k'"
      by (rule ikcp_flush_ok [OF inv1])
    have "flush_sends k k'" "flush_wire k k' outs"
      using k'(3,4) by (simp_all only: flush_sends_clock flush_wire_clock)
    moreover have "ack_pairs k' = []" using k'(5) by (simp add: ack_pairs_def split: option.splits)
    ultimately show ?thesis
      using that [of k' outs] f ob ts u k' by (simp add: flush_frame_def update_clock_def)
  qed
qed

text \<open>When the flush timer is due, \<open>ikcp_update\<close> is a flush at the new clock value.\<close>

lemma ikcp_update_flushes:
  assumes inv: "kcp_inv k" and ob: "output_cb k" and cnt: "unat (ackcount k) < 2 ^ 31" and due: "update_due k cur"
  obtains k' outs where "ikcp_update k cur = Some (k', outs)" and "kcp_inv k'" and "flush_sends k k'" and "flush_wire k k' outs"
    and "output_cb k'" and "current k' = cur" and "ackcount k' = 0" and "flush_opens k k'"
proof -
  have i: "10 \<le> unat (interval k)" "unat (interval k) \<le> 5000"
    using kcp_invD(4) [OF inv] by (simp_all add: conf_inv_def)
  obtain u ts where u: "u \<noteq> 0" and f: "ikcp_update k cur = ikcp_flush (update_clock k cur u ts)"
    using ikcp_update_cases [OF i] due by metis
  let ?k = "update_clock k cur u ts"
  have k: "kcp_inv ?k" "output_cb ?k" "unat (ackcount ?k) < 2 ^ 31" "updated ?k \<noteq> 0"
    using update_clock_inv [OF inv] ob cnt u by (simp_all add: update_clock_def flush_window_def Let_def)
  obtain k' outs where k': "ikcp_flush ?k = Some (k', outs)" "kcp_inv k'" "flush_sends ?k k'" "flush_wire ?k k' outs"
    "flush_opens ?k k'" "ackcount k' = 0" "flush_frame ?k k'"
    by (rule ikcp_flush_ok [OF k(1-4)])
  have s: "flush_sends k k'" "flush_wire k k' outs" using k'(3,4) by (simp_all only: flush_sends_clock flush_wire_clock)
  have "flush_opens k k'" using k'(5) by (simp only: flush_opens_clock)
  moreover have "output_cb k'" "current k' = cur" using k'(7) ob by (simp_all add: flush_frame_def update_clock_def)
  ultimately show ?thesis
    using that [of k' outs] f k'(1,2,6) s by simp
qed

text \<open>A queue that fits the window is empty after the flush.\<close>

lemma flush_empties:
  assumes "flush_sends k k'" and "flush_opens k k'"
    and "unat (snd_nxt k - snd_una k) + length (snd_queue k) \<le> unat (flush_window k)"
  shows "snd_queue k' = []"
proof -
  obtain ms where m: "snd_queue k = ms @ snd_queue k'"
    "unat (snd_nxt k' - snd_una k') = unat (snd_nxt k - snd_una k) + length ms"
    using assms(1) unfolding flush_sends_def by blast
  have "length (snd_queue k) = length ms + length (snd_queue k')" using m(1) by simp
  then have "snd_queue k' = [] \<or> length (snd_queue k') = 0" using assms(2,3) m(2) unfolding flush_opens_def by linarith
  then show ?thesis by simp
qed

section \<open>Check\<close>

lemma check_packets_bounds:
  assumes "check_packets cur tm ss = Some m"
  shows "m \<le> tm \<and> (\<forall>s \<in> set ss. 0 < itimediff (sg_resendts s) cur \<and> m \<le> itimediff (sg_resendts s) cur) \<and>
    (0 < tm \<longrightarrow> 0 < m)"
  using assms
proof (induction ss arbitrary: tm)
  case (Cons s ss)
  let ?d = "itimediff (sg_resendts s) cur"
  have d: "0 < ?d" using Cons.prems by (auto simp: Let_def split: if_splits)
  then have "check_packets cur (if ?d < tm then ?d else tm) ss = Some m" using Cons.prems by (simp add: Let_def)
  from Cons.IH [OF this] show ?case using d by (auto split: if_splits)
qed simp

lemma before_deadline:
  assumes "int d < itimediff t cur"
  shows "itimediff (cur + of_nat d) t < 0"
proof -
  have lt: "itimediff t cur < 2 ^ 31" using wrap32_range [of "sint (t - cur)"] by (simp add: itimediff_def wrap32_def)
  have pos: "0 < itimediff t cur" using assms by linarith
  then have t: "unat (t - cur) < 2 ^ 31" by (simp add: seq_simps)
  then have e: "itimediff t cur = int (unat (t - cur))" by (simp only: itimediff_def sint_small)
  have "d < 2 ^ 31" using assms lt by simp
  then have u: "unat (of_nat d :: u32) = d" by (simp add: unat_of_nat_lt)
  then show ?thesis
    using itimediff_off(2) [of "cur + of_nat d" cur t] t assms e \<open>d < 2 ^ 31\<close> by simp
qed

text \<open>The answer: now, or the earlier of the flush timer, the retransmissions and an interval.\<close>

lemma ikcp_check_cases:
  assumes up: "updated k \<noteq> 0" and i: "0 < unat (interval k)" "unat (interval k) \<le> 5000"
  obtains "ikcp_check k cur = cur"
  | n where "ikcp_check k cur = cur + of_nat n" "0 < n" "n \<le> unat (interval k)"
      "int n \<le> itimediff (ts_flush k) cur"
      "\<forall>s \<in> set (snd_buf k). int n \<le> itimediff (sg_resendts s) cur"
proof -
  define tsf where "tsf = (if itimediff cur (ts_flush k) \<ge> 10000 \<or> itimediff cur (ts_flush k) < -10000
    then cur else ts_flush k)"
  have self: "itimediff cur cur = 0" by (simp add: itimediff_def)
  show ?thesis
  proof (cases "itimediff cur tsf \<ge> 0 \<or> check_packets cur 0x7fffffff (snd_buf k) = None")
    case True
    then show ?thesis using that(1) up by (auto simp: ikcp_check_def tsf_def [symmetric] Let_def)
  next
    case False
    then obtain tp where tp: "check_packets cur 0x7fffffff (snd_buf k) = Some tp" by auto
    have tsf: "tsf = ts_flush k" "- 10000 \<le> itimediff cur tsf" "itimediff cur tsf < 0"
      using False self by (auto simp: tsf_def split: if_splits)
    then have fl: "itimediff tsf cur = - itimediff cur tsf"
      using itimediff_sym [of cur tsf] sint_small [of "tsf - cur"] by (simp add: itimediff_def)
    note b = check_packets_bounds [OF tp]
    define m where "m = (if tp < itimediff tsf cur then tp else itimediff tsf cur)"
    have m: "0 < m" "m \<le> 10000" "m \<le> tp" "m \<le> itimediff tsf cur"
      using b fl tsf by (auto simp: m_def)
    define n where "n = min (nat m) (unat (interval k))"
    have w: "unat (word_of_int m :: u32) = nat m" using m by (simp add: unat_of_int_lt)
    have "unat (if word_of_int m \<ge> interval k then interval k else word_of_int m) = n"
      by (auto simp: n_def word_le_nat_alt w min_def)
    then have "(if word_of_int m \<ge> interval k then interval k else word_of_int m) = of_nat n"
      by (auto dest: arg_cong [where f = "of_nat :: nat \<Rightarrow> u32"])
    then have "ikcp_check k cur = cur + of_nat n"
      using False up tp
      by (simp add: ikcp_check_def tsf_def [symmetric] Let_def m_def [symmetric] split del: if_split cong: if_cong)
    moreover have "int n \<le> m" "0 < n" "n \<le> unat (interval k)" using m i by (simp_all add: n_def)
    ultimately show ?thesis using that(2) [of n] m tsf(1) b by (auto intro: order_trans)
  qed
qed

section \<open>Properties\<close>

text \<open>
  C32: \<open>ikcp_update\<close> keeps the invariant whatever clock value it is given, and afterwards the
  next flush is due after the given time, by at most ten seconds: a clock that jumps forwards
  or backwards cannot stop the engine.
\<close>

theorem ikcp_update_timer:
  assumes "kcp_inv k" and "output_cb k" and "unat (ackcount k) < 2 ^ 31"
  shows "\<exists>k' outs. ikcp_update k cur = Some (k', outs) \<and> kcp_inv k' \<and> updated k' \<noteq> 0 \<and>
    0 < unat (ts_flush k' - cur) \<and> unat (ts_flush k' - cur) \<le> 10000 \<and>
    (\<forall>d \<in> set outs. length d \<le> unat (mtu k))"
proof -
  obtain k' outs where u: "ikcp_update k cur = Some (k', outs)" "kcp_inv k'"
    "outs = [] \<or> flush_wire k k' outs" "0 < unat (ts_flush k' - cur)" "unat (ts_flush k' - cur) \<le> 10000"
    "updated k' \<noteq> 0"
    by (rule ikcp_update_ok [OF assms])
  have "\<forall>d \<in> set outs. length d \<le> unat (mtu k)" using u(3) by (auto simp: flush_wire_def)
  then show ?thesis using u by blast
qed

theorem ikcp_update_timer_witness:
  "kcp_inv demo_flush \<and> (\<exists>k' outs. ikcp_update demo_flush 4000000000 = Some (k', outs) \<and> kcp_inv k' \<and>
     unat (ts_flush k' - 4000000000) \<le> 10000)"
  using ikcp_update_timer [OF demo_flush_inv, of 4000000000] demo_flush_inv(1) by blast

text \<open>
  C33: \<open>ikcp_check\<close> never answers too late: at every moment strictly before the answer
  neither the flush timer nor a retransmission is due, and the answer is at most one
  interval after the time asked for.
\<close>

theorem ikcp_check_not_late:
  assumes "kcp_inv k" and "updated k \<noteq> 0" and "d < unat (ikcp_check k cur - cur)"
  shows "unat (ikcp_check k cur - cur) \<le> unat (interval k) \<and> itimediff (cur + of_nat d) (ts_flush k) < 0 \<and>
    (\<forall>s \<in> set (snd_buf k). itimediff (cur + of_nat d) (sg_resendts s) < 0)"
proof -
  have i: "0 < unat (interval k)" "unat (interval k) \<le> 5000"
    using kcp_invD(4) [OF assms(1)] by (simp_all add: conf_inv_def)
  show ?thesis
  proof (cases rule: ikcp_check_cases [OF assms(2) i, of cur])
    case 1
    then show ?thesis using assms(3) by simp
  next
    case (2 n)
    have "unat (of_nat n :: u32) = n" using 2(3) i(2) by (intro unat_of_nat_lt) simp
    then have d: "d < n" "unat (ikcp_check k cur - cur) = n" using assms(3) 2(1) by simp_all
    have "itimediff (cur + of_nat d) (ts_flush k) < 0" using d(1) 2(4) by (intro before_deadline) linarith
    moreover have "itimediff (cur + of_nat d) (sg_resendts s) < 0" if "s \<in> set (snd_buf k)" for s
      using d(1) 2(5) [rule_format, OF that] by (intro before_deadline) linarith
    ultimately show ?thesis using d(2) 2(3) by blast
  qed
qed

definition demo_idle :: IKCPCB where
  "demo_idle = demo_due\<lparr>updated := 1, ts_flush := 150, snd_buf := [hd (snd_buf demo_due)], nsnd_buf := 1\<rparr>"

lemma demo_idle_facts: "kcp_inv demo_idle" "updated demo_idle \<noteq> 0" "ikcp_check demo_idle 100 = 150"
  by (simp_all add: demo_idle_def demo_due_def kcp_inv_def snd_inv_def snd_off_def rcv_inv_def ack_inv_def
      conf_inv_def segs_inv_def sent_ok_def seg_ok_def blank_seg_def ikcp_check_def itimediff_def)

theorem ikcp_check_not_late_witness:
  "kcp_inv demo_idle \<and> updated demo_idle \<noteq> 0 \<and> 49 < unat (ikcp_check demo_idle 100 - 100) \<and>
   itimediff 149 (ts_flush demo_idle) < 0"
  using ikcp_check_not_late [OF demo_idle_facts(1,2), of 49 100] demo_idle_facts by simp

end
