(* ===== verification/Ikcp_Transfer.thy ===== *)
theory Ikcp_Transfer
  imports Ikcp_Update
begin

text \<open>
  Two engines and the network between them. A step is a call of one of the functions of
  \<open>src/src/ikcp.c\<close> on either side; the network keeps every datagram the sender emitted and
  delivers any of them, in any order, any number of times or never. The sender may be given
  arbitrary bytes as input.

  The invariant \<open>link_inv\<close> relates both control blocks and the network to the messages
  given to \<open>ikcp_send\<close>. It shows that what \<open>ikcp_recv\<close> returned is at every moment a
  prefix of what \<open>ikcp_send\<close> accepted: no message is lost in between, duplicated, reordered,
  altered or merged with another.
\<close>

section \<open>The transition system\<close>

record link =
  tx :: IKCPCB
  rx :: IKCPCB
  net :: "byte list set"
  msgs :: "byte list list"
  got :: "byte list list"
  nseg :: nat

text \<open>The allocations of a call succeed.\<close>

definition input_alloc :: "(nat \<Rightarrow> input_mem) \<Rightarrow> bool" where
  "input_alloc mem \<longleftrightarrow> (\<forall>j. fst (mem j) \<noteq> None \<and> snd (mem j) \<noteq> None)"

text \<open>
  \<open>msgs\<close> are the messages \<open>ikcp_send\<close> accepted, \<open>got\<close> those \<open>ikcp_recv\<close> returned and
  \<open>nseg\<close> counts the segments queued. The number of pending acknowledgements is kept below
  \<open>2^30\<close> by the schedule.
\<close>

inductive link_step :: "link \<Rightarrow> link \<Rightarrow> bool" where
  send: "(\<And>j. mem j \<noteq> None) \<Longrightarrow> length b < 2 ^ 31 \<Longrightarrow>
    ikcp_send mem (tx l) (Some b) (int (length b)) = Some (r, k) \<Longrightarrow>
    link_step l (l\<lparr>tx := k, msgs := msgs l @ (if r = 0 then [b] else []),
      nseg := nseg l + (length (snd_queue k) - length (snd_queue (tx l)))\<rparr>)"
| tx_update: "unat (ackcount (tx l)) < 2 ^ 31 \<Longrightarrow> ikcp_update (tx l) cur = Some (k, outs) \<Longrightarrow>
    link_step l (l\<lparr>tx := k, net := net l \<union> set outs\<rparr>)"
| tx_input: "input_alloc mem \<Longrightarrow> unat (ackcount (tx l)) + length d < 2 ^ 30 \<Longrightarrow>
    ikcp_input mem (tx l) (Some d) (int (length d)) = Some (r, k) \<Longrightarrow> link_step l (l\<lparr>tx := k\<rparr>)"
| tx_recv: "ikcp_recv (tx l) True len = Some (r, d, k) \<Longrightarrow> link_step l (l\<lparr>tx := k\<rparr>)"
| deliver: "d \<in> net l \<Longrightarrow> input_alloc mem \<Longrightarrow> unat (ackcount (rx l)) + length d < 2 ^ 30 \<Longrightarrow>
    ikcp_input mem (rx l) (Some d) (int (length d)) = Some (r, k) \<Longrightarrow> link_step l (l\<lparr>rx := k\<rparr>)"
| rx_update: "unat (ackcount (rx l)) < 2 ^ 31 \<Longrightarrow> ikcp_update (rx l) cur = Some (k, outs) \<Longrightarrow>
    link_step l (l\<lparr>rx := k\<rparr>)"
| rx_send: "(\<And>j. mem j \<noteq> None) \<Longrightarrow> length b < 2 ^ 31 \<Longrightarrow>
    ikcp_send mem (rx l) (Some b) (int (length b)) = Some (r, k) \<Longrightarrow> link_step l (l\<lparr>rx := k\<rparr>)"
| recv: "ikcp_recv (rx l) True len = Some (r, d, k) \<Longrightarrow>
    link_step l (l\<lparr>rx := k, got := got l @ (if r \<ge> 0 \<and> len \<ge> 0 then [d] else [])\<rparr>)"

text \<open>A control block as it is before the first message, with its callback set.\<close>

definition fresh :: "u32 \<Rightarrow> IKCPCB \<Rightarrow> bool" where
  "fresh c k \<longleftrightarrow> kcp_inv k \<and> conv k = c \<and> output_cb k \<and> snd_una k = 0 \<and> snd_nxt k = 0 \<and> rcv_nxt k = 0 \<and>
     snd_queue k = [] \<and> snd_buf k = [] \<and> rcv_queue k = [] \<and> rcv_buf k = []"

definition link_start :: "IKCPCB \<Rightarrow> IKCPCB \<Rightarrow> link" where
  "link_start a b = \<lparr>tx = a, rx = b, net = {}, msgs = [], got = [], nseg = 0\<rparr>"

section \<open>The invariant\<close>

text \<open>A message as its fragments: numbers counting down to 0, at most 255 of them.\<close>

type_synonym frag = "u32 \<times> byte list"

definition frags_ok :: "frag list \<Rightarrow> bool" where
  "frags_ok f \<longleftrightarrow> f \<noteq> [] \<and> length f \<le> 255 \<and> map fst f = map of_nat (rev [0..<length f])"

definition frag_of :: "IKCPSEG \<Rightarrow> frag" where
  "frag_of s = (sg_frg s, sg_data s)"

definition msg_of :: "frag list \<Rightarrow> byte list" where
  "msg_of f = concat (map snd f)"

text \<open>The number of fragments is that of \<open>ikcp_send\<close>, with at most \<open>n\<close> bytes in each.\<close>

definition cut_ok :: "nat \<Rightarrow> frag list \<Rightarrow> bool" where
  "cut_ok n f \<longleftrightarrow> length f = frag_count n (length (msg_of f)) \<and> length (msg_of f) < 2 ^ 31"

text \<open>The segment with number \<open>sn\<close> carries the fragment at that place in the log.\<close>

fun genuine :: "frag list \<Rightarrow> u32 \<times> u32 \<times> byte list \<Rightarrow> bool" where
  "genuine L (sn, frg, d) \<longleftrightarrow> unat sn < length L \<and> L ! unat sn = (frg, d)"

definition tx_inv :: "frag list \<Rightarrow> IKCPCB \<Rightarrow> bool" where
  "tx_inv L k \<longleftrightarrow> kcp_inv k \<and> output_cb k \<and> length (snd_queue k) \<le> length L \<and>
     snd_nxt k = of_nat (length L - length (snd_queue k)) \<and>
     map frag_of (snd_queue k) = drop (length L - length (snd_queue k)) L \<and>
     (\<forall>s \<in> set (snd_buf k). genuine L (seg_id s))"

definition net_inv :: "frag list \<Rightarrow> u32 \<Rightarrow> byte list set \<Rightarrow> bool" where
  "net_inv L c N \<longleftrightarrow> (\<forall>d \<in> N. \<exists>g. d = wires g \<and> g \<noteq> [] \<and>
     (\<forall>s \<in> set g. wire_seg c s \<and> (sg_cmd s = IKCP_CMD_PUSH \<longrightarrow> genuine L (seg_id s))))"

text \<open>\<open>p\<close> fragments were read by the user, \<open>r\<close> were released to the receive queue.\<close>

definition rx_inv :: "frag list \<Rightarrow> nat \<Rightarrow> IKCPCB \<Rightarrow> bool" where
  "rx_inv L p k \<longleftrightarrow> kcp_inv k \<and> output_cb k \<and> (\<forall>s \<in> set (rcv_buf k). genuine L (seg_id s)) \<and>
     (\<exists>r. p \<le> r \<and> r \<le> length L \<and> rcv_nxt k = of_nat r \<and> map frag_of (rcv_queue k) = drop p (take r L))"

definition link_inv :: "u32 \<Rightarrow> link \<Rightarrow> bool" where
  "link_inv c l \<longleftrightarrow>
     conv (tx l) = c \<and> conv (rx l) = c \<and>
     (\<exists>F m. (\<forall>f \<in> set F. frags_ok f) \<and> nseg l = length (concat F) \<and> msgs l = map msg_of F \<and>
       m \<le> length F \<and> got l = map msg_of (take m F) \<and>
       tx_inv (concat F) (tx l) \<and> net_inv (concat F) c (net l) \<and>
       rx_inv (concat F) (length (concat (take m F))) (rx l) \<and>
       (\<forall>f \<in> set F. cut_ok (unat (mss (tx l))) f))"

section \<open>Fragments\<close>

lemma frags_ok_frg: "frags_ok f \<Longrightarrow> x \<in> set f \<Longrightarrow> unat (fst x) < 256"
proof -
  assume f: "frags_ok f" and x: "x \<in> set f"
  then have "fst x \<in> set (map of_nat (rev [0..<length f]))" unfolding frags_ok_def by (metis image_eqI list.set_map)
  then obtain i where "i < length f" "fst x = of_nat i" by auto
  moreover have "length f \<le> 255" using f by (simp add: frags_ok_def)
  ultimately show ?thesis by (simp add: unat_of_nat_lt)
qed

lemma frag_byte: "unat w < 256 \<Longrightarrow> ucast (ucast w :: byte) = (w :: u32)"
proof -
  assume "unat w < 256"
  then have "unat (ucast (ucast w :: byte) :: u32) = unat w"
    by (simp add: unsigned_ucast_eq unsigned_take_bit_eq take_bit_nat_eq_self)
  then show ?thesis by (simp add: word_unat_eq_iff)
qed

lemma genuine_append: "genuine L x \<Longrightarrow> genuine (L @ M) x"
  by (cases x) (auto simp: nth_append)

lemma map_fst_frag_segs:
  "map fst (map frag_of (frag_segs mem i ds)) = map of_nat (rev [0..<length ds])"
  by (induction ds arbitrary: i) (auto simp: frag_of_def)

lemma map_snd_frag_segs: "map snd (map frag_of (frag_segs mem i ds)) = ds"
  by (induction ds arbitrary: i) (auto simp: frag_of_def)

text \<open>What one call of \<open>ikcp_send\<close> adds to the log.\<close>

lemma send_frags:
  assumes inv: "kcp_inv k" and mem: "\<And>j. mem j \<noteq> None" and b: "length b < 2 ^ 31"
    and s: "ikcp_send mem k (Some b) (int (length b)) = Some (r, k')"
  shows "(r = -2 \<and> k' = k) \<or> (r = 0 \<and> kcp_inv k' \<and> (\<exists>q n. k' = k\<lparr>snd_queue := snd_queue k @ q, nsnd_que := n\<rparr> \<and>
    frags_ok (map frag_of q) \<and> msg_of (map frag_of q) = b \<and> length q = frag_count (unat (mss k)) (length b)))"
proof -
  have m: "0 < unat (mss k)" "unat (mss k) < 2 ^ 31" using conf_mss(2,3) [OF kcp_invD(4) [OF inv]] by simp_all
  let ?n = "frag_count (unat (mss k)) (length b)"
  show ?thesis
  proof (cases "?n \<le> 255")
    case False
    then show ?thesis using s ikcp_send_split [OF m b] by simp
  next
    case True
    have p: "pieces (unat (mss k)) ?n b \<noteq> []"
      using frag_count_pos [OF m(1), of "length b"] by (metis length_pieces list.size(3) less_nat_zero_code)
    let ?q = "frag_segs mem 0 (pieces (unat (mss k)) ?n b)"
    have e: "r = 0" "k' = k\<lparr>snd_queue := snd_queue k @ ?q, nsnd_que := nsnd_que k + of_nat ?n\<rparr>"
      using s ikcp_send_ok [OF mem m b True] by simp_all
    have "frags_ok (map frag_of ?q)"
      unfolding frags_ok_def map_fst_frag_segs using p True
      by (auto simp: frag_segs.simps elim!: list.set_cases) (metis length_0_conv length_frag_segs length_pieces)
    moreover have "msg_of (map frag_of ?q) = b"
      unfolding msg_of_def map_snd_frag_segs by (rule concat_pieces [OF frag_count_covers [OF m(1)]])
    moreover have "kcp_inv k'"
      by (rule ikcp_send_inv [where mem = mem, OF inv mem b]) (use s in simp)
    moreover have "length ?q = ?n" by simp
    ultimately show ?thesis using e by blast
  qed
qed

section \<open>The sender\<close>

lemma tx_send:
  assumes inv: "tx_inv L k" and mem: "\<And>j. mem j \<noteq> None" and b: "length b < 2 ^ 31"
    and s: "ikcp_send mem k (Some b) (int (length b)) = Some (r, k')"
  shows "(r \<noteq> 0 \<and> k' = k) \<or> (r = 0 \<and> (\<exists>f. frags_ok f \<and> msg_of f = b \<and> cut_ok (unat (mss k)) f \<and> tx_inv (L @ f) k' \<and> conv k' = conv k \<and>
    mss k' = mss k \<and> length (snd_queue k') - length (snd_queue k) = length f))"
proof -
  have kinv: "kcp_inv k" using inv by (simp add: tx_inv_def)
  from send_frags [where mem = mem, OF kinv mem b s] show ?thesis
  proof
    assume "r = -2 \<and> k' = k"
    then show ?thesis by simp
  next
    assume "r = 0 \<and> kcp_inv k' \<and> (\<exists>q n. k' = k\<lparr>snd_queue := snd_queue k @ q, nsnd_que := n\<rparr> \<and>
      frags_ok (map frag_of q) \<and> msg_of (map frag_of q) = b \<and> length q = frag_count (unat (mss k)) (length b))"
    then obtain q n where r: "r = 0" "kcp_inv k'" and k': "k' = k\<lparr>snd_queue := snd_queue k @ q, nsnd_que := n\<rparr>"
      and q: "frags_ok (map frag_of q)" "msg_of (map frag_of q) = b" "cut_ok (unat (mss k)) (map frag_of q)"
      using b by (auto simp: cut_ok_def)
    have "tx_inv (L @ map frag_of q) k'"
      using inv r(2) by (auto simp: tx_inv_def k' genuine_append)
    then show ?thesis using r(1) q by (intro disjI2 conjI exI [of _ "map frag_of q"]) (simp_all add: k')
  qed
qed

lemma tx_shrinks:
  assumes "tx_inv L k" and "snd_shrinks k k'" and "kcp_inv k'"
  shows "tx_inv L k'"
proof -
  have "genuine L (seg_id s)" if "s \<in> set (snd_buf k')" for s
  proof -
    have "seg_id s \<in> seg_id ` set (snd_buf k)"
      using assms(2) that by (auto simp: snd_shrinks_def)
    then show ?thesis using assms(1) by (auto simp: tx_inv_def)
  qed
  then show ?thesis using assms by (simp add: tx_inv_def snd_shrinks_def)
qed

lemma consecutive_nth: "consecutive n xs \<Longrightarrow> i < length xs \<Longrightarrow> sg_sn (xs ! i) = n + of_nat i"
  by (induction xs arbitrary: n i) (auto simp: nth_Cons' gr0_conv_Suc algebra_simps split: if_splits)

text \<open>Flushing gives the queued fragments the numbers of their places in the log.\<close>

lemma tx_flush:
  assumes inv: "tx_inv L k" and L: "length L < 2 ^ 31" and f: "flush_sends k k'"
    and k': "kcp_inv k'" "output_cb k'"
  shows "tx_inv L k'"
proof -
  obtain ms news where m: "snd_queue k = ms @ snd_queue k'" "consecutive (snd_nxt k) news"
    "map seg_id (snd_buf k') = map seg_id (snd_buf k @ news)"
    "map (\<lambda>s. (sg_frg s, sg_data s)) news = map (\<lambda>s. (sg_frg s, sg_data s)) ms"
    "snd_nxt k' = snd_nxt k + of_nat (length ms)"
    using f unfolding flush_sends_def by (elim exE conjE) (rule that)
  define n where "n = length L - length (snd_queue k)"
  have i: "length (snd_queue k) \<le> length L" "snd_nxt k = of_nat n" "map frag_of (snd_queue k) = drop n L"
    "\<forall>s \<in> set (snd_buf k). genuine L (seg_id s)"
    using inv by (simp_all add: tx_inv_def n_def)
  have n': "length L - length (snd_queue k') = n + length ms" using i(1) m(1) by (simp add: n_def)
  have q: "map frag_of ms @ map frag_of (snd_queue k') = drop n L" using i(3) m(1) by simp
  have qs: "map frag_of (snd_queue k') = drop (n + length ms) L"
    using arg_cong [OF q, of "drop (length ms)"] by (simp add: add.commute)
  have new: "genuine L (seg_id s)" if sn: "s \<in> set news" for s
  proof -
    obtain j where j: "j < length news" "s = news ! j" using sn by (auto simp: in_set_conv_nth)
    have len: "length news = length ms" using m(4) by (rule map_eq_imp_length_eq)
    have "frag_of s = map frag_of ms ! j"
      using arg_cong [OF m(4), of "\<lambda>xs. xs ! j"] j len by (simp add: frag_of_def)
    also have "\<dots> = drop n L ! j"
      using arg_cong [OF q, of "\<lambda>xs. xs ! j"] j(1) len by (simp add: nth_append)
    finally have fr: "frag_of s = L ! (n + j)" by (simp add: n_def)
    have nj: "n + j < length L" using j(1) len i(1) m(1) by (simp add: n_def)
    have "sg_sn s = of_nat (n + j)" using consecutive_nth [OF m(2) j(1)] j(2) i(2) by simp
    moreover have "unat (of_nat (n + j) :: u32) = n + j" using nj L by (intro unat_of_nat_lt) simp
    ultimately have "unat (sg_sn s) = n + j" by simp
    then show ?thesis using fr nj unfolding seg_id_def frag_of_def genuine.simps by simp
  qed
  have all: "genuine L (seg_id s)" if "s \<in> set (snd_buf k')" for s
  proof -
    have "seg_id s \<in> set (map seg_id (snd_buf k'))" using that by simp
    then have "seg_id s \<in> set (map seg_id (snd_buf k @ news))" unfolding m(3) .
    then show ?thesis using i(4) new by auto
  qed
  have nx: "snd_nxt k' = of_nat (n + length ms)" by (simp add: m(5) i(2))
  have "length (snd_queue k') \<le> length L" using i(1) m(1) by simp
  then show ?thesis
    unfolding tx_inv_def n' using k' qs nx all by (intro conjI ballI)
qed

lemma flush_groups:
  assumes inv: "kcp_inv k'" and w: "flush_wire k k' outs" and c: "conv k = c" "conv k' = c"
  obtains gs sent where "outs = map wires gs"
    and "\<forall>g \<in> set gs. g \<noteq> [] \<and> (\<forall>s \<in> set g. wire_seg c s \<and> (sg_cmd s = IKCP_CMD_PUSH \<longrightarrow> s \<in> set (snd_buf k')))"
    and "\<forall>p \<in> set (ack_pairs k). ack_seg (flush_seg k) p \<in> set (concat gs)"
    and "set sent \<subseteq> set (concat gs)" and "set sent \<subseteq> set (snd_buf k')" and "flush_covers k k' sent"
    and "\<forall>s \<in> set (concat gs). sg_una s = rcv_nxt k \<and> (sg_cmd s = IKCP_CMD_ACK \<longrightarrow> sg_sn s \<in> fst ` set (ack_pairs k)) \<and>
      sg_wnd s = ikcp_wnd_unused k"
    and "\<forall>g \<in> set gs. length (wires g) \<le> unat (mtu k)"
    and "flush_asks k (current k') \<longrightarrow> (\<exists>s \<in> set (concat gs). sg_cmd s = IKCP_CMD_WASK)"
    and "probe k AND IKCP_ASK_TELL \<noteq> 0 \<longrightarrow> gs \<noteq> []"
proof -
  obtain gs ws sent where g: "outs = map wires gs" "\<forall>g \<in> set gs. g \<noteq> [] \<and> length (wires g) \<le> unat (mtu k)"
    "concat gs = map (ack_seg (flush_seg k)) (ack_pairs k) @ ws @ sent"
    "\<forall>s \<in> set ws. sg_cmd s \<in> {83, 84} \<and> sg_conv s = conv k \<and> sg_data s = [] \<and> sg_len s = 0"
    "subseq sent (snd_buf k')" "flush_covers k k' sent" 
    "\<forall>s \<in> set ws \<union> set sent. sg_una s = rcv_nxt k \<and> sg_wnd s = ikcp_wnd_unused k"
    "flush_asks k (current k') \<longrightarrow> (\<exists>s \<in> set ws. sg_cmd s = IKCP_CMD_WASK)" "probe k AND IKCP_ASK_TELL \<noteq> 0 \<longrightarrow> ws \<noteq> []"
    using w unfolding flush_wire_def by blast
  have sub: "set sent \<subseteq> set (snd_buf k')" using g(5) by (auto elim: list_emb_set)
  have ok: "wire_seg c s \<and> (sg_cmd s = 81 \<longrightarrow> s \<in> set (snd_buf k'))" if "s \<in> set (concat gs)" for s
  proof -
    consider "s \<in> ack_seg (flush_seg k) ` set (ack_pairs k)" | "s \<in> set ws" | "s \<in> set sent"
      using \<open>s \<in> set (concat gs)\<close> unfolding g(3) by auto
    then show ?thesis
    proof cases
      case 1
      then show ?thesis using c by (auto simp: ack_seg_def flush_seg_def wire_seg_def seg_ok_def)
    next
      case 2
      then have "sg_cmd s \<in> {83, 84} \<and> sg_conv s = conv k \<and> sg_data s = [] \<and> sg_len s = 0" using g(4) by blast
      then show ?thesis using c by (auto simp: wire_seg_def seg_ok_def)
    next
      case 3
      then have "s \<in> set (snd_buf k')" using sub by blast
      then show ?thesis using inv c by (auto simp: kcp_inv_def segs_inv_def sent_ok_def wire_seg_def)
    qed
  qed
  have una: "sg_una s = rcv_nxt k \<and> (sg_cmd s = 82 \<longrightarrow> sg_sn s \<in> fst ` set (ack_pairs k)) \<and> sg_wnd s = ikcp_wnd_unused k" if "s \<in> set (concat gs)" for s
  proof -
    have "sg_cmd s = 81" if "s \<in> set sent" using inv that sub by (auto simp: kcp_inv_def segs_inv_def sent_ok_def)
    then show ?thesis using \<open>s \<in> set (concat gs)\<close> g(4,7) unfolding g(3)
      by (auto simp: ack_seg_def flush_seg_def intro: rev_image_eqI)
  qed
  show ?thesis
  proof (rule that [OF g(1) _ _ _ sub g(6)])
    show "\<forall>s \<in> set (concat gs). sg_una s = rcv_nxt k \<and> (sg_cmd s = IKCP_CMD_ACK \<longrightarrow> sg_sn s \<in> fst ` set (ack_pairs k)) \<and>
        sg_wnd s = ikcp_wnd_unused k" using una by blast
    show "\<forall>g \<in> set gs. length (wires g) \<le> unat (mtu k)" using g(2) by blast
    show "flush_asks k (current k') \<longrightarrow> (\<exists>s \<in> set (concat gs). sg_cmd s = IKCP_CMD_WASK)" using g(8) unfolding g(3) by auto
    show "probe k AND IKCP_ASK_TELL \<noteq> 0 \<longrightarrow> gs \<noteq> []" using g(3,9) by auto
    show "\<forall>g \<in> set gs. g \<noteq> [] \<and> (\<forall>s \<in> set g. wire_seg c s \<and> (sg_cmd s = IKCP_CMD_PUSH \<longrightarrow> s \<in> set (snd_buf k')))"
    proof
      fix g assume "g \<in> set gs"
      then have "g \<noteq> []" "\<forall>s \<in> set g. s \<in> set (concat gs)" using g(2) by auto
      then show "g \<noteq> [] \<and> (\<forall>s \<in> set g. wire_seg c s \<and> (sg_cmd s = IKCP_CMD_PUSH \<longrightarrow> s \<in> set (snd_buf k')))" using ok by blast
    qed
    show "\<forall>p \<in> set (ack_pairs k). ack_seg (flush_seg k) p \<in> set (concat gs)" "set sent \<subseteq> set (concat gs)"
      unfolding g(3) by auto
  qed
qed

lemma flush_net:
  assumes inv: "tx_inv L k'" and w: "flush_wire k k' outs" and c: "conv k = c" "conv k' = c"
  shows "net_inv L c (set outs)"
proof -
  have "kcp_inv k'" using inv by (simp add: tx_inv_def)
  then obtain gs where "outs = map wires gs"
    "\<forall>g \<in> set gs. g \<noteq> [] \<and> (\<forall>s \<in> set g. wire_seg c s \<and> (sg_cmd s = IKCP_CMD_PUSH \<longrightarrow> s \<in> set (snd_buf k')))"
    by (rule flush_groups [OF _ w c])
  then show ?thesis using inv unfolding net_inv_def tx_inv_def by fastforce
qed

section \<open>The receiver\<close>

text \<open>Releasing genuine segments with consecutive numbers extends the part of the log received.\<close>

lemma release_log:
  assumes L: "length L < 2 ^ 31" and "r \<le> length L" and "consecutive (of_nat r) ds"
    and "\<forall>s \<in> set ds. genuine L (seg_id s)"
  shows "r + length ds \<le> length L \<and> map frag_of ds = take (length ds) (drop r L)"
  using assms(2-)
proof (induction ds arbitrary: r)
  case (Cons s ds)
  have r: "unat (of_nat r :: u32) = r" using Cons.prems(1) L by (simp add: unat_of_nat_lt)
  have "genuine L (seg_id s)" "sg_sn s = of_nat r" using Cons.prems by simp_all
  then have s: "r < length L" "L ! r = frag_of s" using r by (simp_all add: seg_id_def frag_of_def)
  have "Suc r + length ds \<le> length L \<and> map frag_of ds = take (length ds) (drop (Suc r) L)"
    by (rule Cons.IH) (use Cons.prems s in \<open>simp_all add: add.commute\<close>)
  then show ?case using s by (simp add: Cons_nth_drop_Suc [symmetric])
qed simp

lemma rx_extend:
  assumes L: "length L < 2 ^ 31" and inv: "rx_inv L p k" and e: "rcv_extends (genuine L) k k'"
    and k': "kcp_inv k'" "output_cb k'"
  shows "rx_inv L p k'"
proof -
  obtain r where r: "p \<le> r" "r \<le> length L" "rcv_nxt k = of_nat r"
    "map frag_of (rcv_queue k) = drop p (take r L)" and b: "\<forall>s \<in> set (rcv_buf k). genuine L (seg_id s)"
    using inv by (auto simp: rx_inv_def)
  obtain ds where d: "rcv_queue k' = rcv_queue k @ ds" "consecutive (rcv_nxt k) ds"
    "rcv_nxt k' = rcv_nxt k + of_nat (length ds)"
    "\<forall>s \<in> set ds \<union> set (rcv_buf k'). s \<in> set (rcv_buf k) \<or> genuine L (seg_id s)"
    using e by (auto simp: rcv_extends_def)
  have g: "\<forall>s \<in> set ds. genuine L (seg_id s)" "\<forall>s \<in> set (rcv_buf k'). genuine L (seg_id s)"
    using d(4) b by blast+
  have rel: "r + length ds \<le> length L" "map frag_of ds = take (length ds) (drop r L)"
    using release_log [OF L r(2) _ g(1)] d(2) r(3) by auto
  have "take (r + length ds) L = take r L @ take (length ds) (drop r L)" by (rule take_add)
  then have "drop p (take (r + length ds) L) = drop p (take r L) @ take (length ds) (drop r L)"
    using r(1,2) by simp
  then have "map frag_of (rcv_queue k') = drop p (take (r + length ds) L)"
    using d(1) r(4) rel(2) by simp
  moreover have "rcv_nxt k' = of_nat (r + length ds)" using d(3) r(3) by simp
  moreover have "p \<le> r + length ds" using r(1) by simp
  ultimately show ?thesis using k' g(2) rel(1) unfolding rx_inv_def by blast
qed

text \<open>A datagram from the network is one the sender built: the receiver accepts it.\<close>

lemma input_fields: "input_step P k k' \<Longrightarrow> conv k' = conv k"
  by (simp add: input_step_def snd_shrinks_def)

lemma genuine_pushed:
  assumes F: "\<forall>f \<in> set F. frags_ok f" and g: "genuine (concat F) (seg_id s)"
  shows "genuine (concat F) (sg_sn s, ucast (ucast (sg_frg s) :: byte), sg_data s)"
proof -
  have "(sg_frg s, sg_data s) \<in> set (concat F)" using g by (auto simp: seg_id_def dest: nth_mem)
  then obtain f where "f \<in> set F" "(sg_frg s, sg_data s) \<in> set f" by auto
  then have "unat (sg_frg s) < 256" using F frags_ok_frg [of f "(sg_frg s, sg_data s)"] by simp
  then show ?thesis using g by (simp add: seg_id_def frag_byte)
qed

lemma length_wires: "length g \<le> length (wires g)"
  by (induction g) (simp_all add: length_wire)

lemma deliver_genuine:
  assumes F: "\<forall>f \<in> set F. frags_ok f" and d: "d \<in> N" "net_inv (concat F) (conv k) N" and inv: "kcp_inv k"
    and mem: "input_alloc mem" and cnt: "unat (ackcount k) + length d < 2 ^ 30"
    and i: "ikcp_input mem k (Some d) (int (length d)) = Some (r, k')"
  shows "r = 0" and "input_step (genuine (concat F)) k k'"
proof -
  obtain g where g: "d = wires g" "g \<noteq> []" "\<forall>s \<in> set g. wire_seg (conv k) s"
    "\<forall>s \<in> set g. sg_cmd s = 81 \<longrightarrow> genuine (concat F) (seg_id s)"
    using d unfolding net_inv_def by blast
  have m: "fst (mem j) \<noteq> None" "snd (mem j) \<noteq> None" for j using mem by (auto simp: input_alloc_def)
  have len: "length (concat (map wire g)) < 2 ^ 31" "unat (ackcount k) + length g < 2 ^ 30"
    using cnt length_wires [of g] by (simp_all add: g(1) wires_def [symmetric])
  have P: "\<forall>s \<in> set g. sg_cmd s = 81 \<longrightarrow>
      genuine (concat F) (sg_sn s, ucast (ucast (sg_frg s) :: byte), sg_data s)"
    using g(4) genuine_pushed [OF F] by blast
  obtain k2 where "ikcp_input mem k (Some (concat (map wire g))) (int (length (concat (map wire g)))) = Some (0, k2)"
    "input_step (genuine (concat F)) k k2"
    by (rule ikcp_input_wire [where mem = mem, OF inv m g(2,3) len P])
  then show "r = 0" "input_step (genuine (concat F)) k k'"
    using i by (simp_all add: g(1) wires_def)
qed

section \<open>Reading\<close>

lemma first_msg_countdown:
  assumes "map frag_of q = f @ g" and "f \<noteq> []" and "length f \<le> 2 ^ 31"
    and "map fst f = map of_nat (rev [0..<length f])"
  shows "first_msg q = take (length f) q"
  using assms
proof (induction f arbitrary: q)
  case (Cons x f)
  obtain s ss where q: "q = s # ss" "frag_of s = x" "map frag_of ss = f @ g" using Cons.prems(1) by auto
  have n: "sg_frg s = of_nat (length f)" "map fst f = map of_nat (rev [0..<length f])"
    using Cons.prems(4) q(2) by (auto simp: frag_of_def)
  show ?case
  proof (cases "f = []")
    case False
    have "unat (of_nat (length f) :: u32) = length f" using Cons.prems(3) by (intro unat_of_nat_lt) simp
    then have "sg_frg s \<noteq> 0" using n(1) False by (metis length_0_conv unat_0)
    then show ?thesis using Cons.IH [OF q(3) False _ n(2)] Cons.prems(3) q(1) by simp
  qed (use q(1) n(1) in simp)
qed simp

text \<open>The queue starts with the next message, or with its first fragments.\<close>

lemma queue_head:
  assumes F: "\<forall>f \<in> set F. frags_ok f" and m: "m \<le> length F"
    and inv: "rx_inv (concat F) (length (concat (take m F))) k" and q: "rcv_queue k \<noteq> []"
  obtains f where "m < length F" and "f = F ! m" and "frags_ok f"
    and "sg_frg (hd (rcv_queue k)) = of_nat (length f - 1)"
    and "length f \<le> length (rcv_queue k) \<longrightarrow>
      first_msg (rcv_queue k) = take (length f) (rcv_queue k) \<and> map frag_of (take (length f) (rcv_queue k)) = f"
proof -
  define p where "p = length (concat (take m F))"
  obtain r where r: "map frag_of (rcv_queue k) = drop p (take r (concat F))"
    using inv unfolding rx_inv_def p_def by blast
  have split: "concat F = concat (take m F) @ concat (drop m F)" by (simp flip: concat_append)
  then have dp: "drop p (concat F) = concat (drop m F)" by (simp add: p_def)
  have mq: "map frag_of (rcv_queue k) = take (length (rcv_queue k)) (concat (drop m F))"
  proof -
    have e: "drop p (take r (concat F)) = take (r - p) (concat (drop m F))" using dp by (simp add: drop_take)
    then have "length (rcv_queue k) = length (take (r - p) (concat (drop m F)))"
      using r by (metis length_map)
    then show ?thesis using r e by (simp add: min_def)
  qed
  have ml: "m < length F"
  proof (rule ccontr)
    assume "\<not> m < length F"
    then show False using mq q by simp
  qed
  define f where "f = F ! m"
  have d: "concat (drop m F) = f @ concat (drop (Suc m) F)"
    using ml by (simp add: f_def Cons_nth_drop_Suc [symmetric])
  have f: "frags_ok f" using F ml by (simp add: f_def)
  then have fn: "f \<noteq> []" "length f \<le> 2 ^ 31" "map fst f = map of_nat (rev [0..<length f])"
    by (simp_all add: frags_ok_def)
  have hd1: "sg_frg (hd (rcv_queue k)) = fst (hd f)"
  proof -
    have "frag_of (hd (rcv_queue k)) = hd (map frag_of (rcv_queue k))" using q by (simp add: hd_map)
    also have "\<dots> = hd f" unfolding mq d using q fn(1) by (cases f; cases "rcv_queue k") simp_all
    finally show ?thesis unfolding frag_of_def by (metis fst_conv)
  qed
  have hd2: "fst (hd f) = of_nat (length f - 1)"
  proof -
    have "fst (hd f) = hd (map fst f)" using fn(1) by (simp add: hd_map)
    also have "\<dots> = of_nat (length f - 1)" unfolding fn(3) using fn(1) by (cases f) simp_all
    finally show ?thesis .
  qed
  show ?thesis
  proof (rule that [of f])
    have "map frag_of (take (length f) (rcv_queue k)) = f \<and> first_msg (rcv_queue k) = take (length f) (rcv_queue k)"
      if len: "length f \<le> length (rcv_queue k)"
    proof
      have a: "map frag_of (rcv_queue k) = f @ take (length (rcv_queue k) - length f) (concat (drop (Suc m) F))"
        using len unfolding mq d by simp
      have "map frag_of (take (length f) (rcv_queue k)) = take (length f) (map frag_of (rcv_queue k))"
        by (simp only: take_map)
      also have "\<dots> = f" unfolding a by simp
      finally show "map frag_of (take (length f) (rcv_queue k)) = f" .
      show "first_msg (rcv_queue k) = take (length f) (rcv_queue k)" by (rule first_msg_countdown [OF a fn])
    qed
    then show "length f \<le> length (rcv_queue k) \<longrightarrow> first_msg (rcv_queue k) = take (length f) (rcv_queue k) \<and>
        map frag_of (take (length f) (rcv_queue k)) = f" by blast
  qed (use ml f_def f hd1 hd2 in simp_all)
qed

text \<open>A non-negative size means that the whole message has arrived.\<close>

lemma peeksize_complete:
  assumes inv: "rcv_inv k" and q: "rcv_queue k \<noteq> []" and n: "0 < n" "n \<le> 255"
    and h: "sg_frg (hd (rcv_queue k)) = of_nat (n - 1)" and p: "0 \<le> ikcp_peeksize k"
  shows "n \<le> length (rcv_queue k)"
proof -
  obtain s ss where s: "rcv_queue k = s # ss" using q by (cases "rcv_queue k") auto
  show ?thesis
  proof (cases "n = 1")
    case False
    have u: "unat (of_nat (n - 1) :: u32) = n - 1" using n by (intro unat_of_nat_lt) simp
    have frg: "sg_frg s = of_nat (n - 1)" using h s by simp
    have us: "unat (sg_frg s) = n - 1" unfolding frg by (rule u)
    then have nz: "sg_frg s \<noteq> 0" using False n by auto
    have "\<not> nrcv_que k < sg_frg s + 1" using nz p s by (auto simp: ikcp_peeksize_def split: if_splits)
    moreover have "unat (sg_frg s + 1) = n" using us n by (subst unat_add_lt) simp_all
    moreover have "unat (nrcv_que k) = length (rcv_queue k)"
      using inv by (simp add: rcv_inv_def unat_of_nat_lt)
    ultimately show ?thesis by (simp add: word_less_nat_alt)
  qed (use s in simp)
qed

lemma move_ready_extends:
  assumes "rx_inv L p k" and "length L < 2 ^ 31"
  shows "rx_inv L p (move_ready (rcv_buf k) k)"
proof -
  obtain ds rest where b: "rcv_buf k = ds @ rest" "consecutive (rcv_nxt k) ds" and m: "move_ready (rcv_buf k) k =
      k\<lparr>rcv_buf := rest, nrcv_buf := nrcv_buf k - of_nat (length ds), rcv_queue := rcv_queue k @ ds,
        nrcv_que := nrcv_que k + of_nat (length ds), rcv_nxt := rcv_nxt k + of_nat (length ds)\<rparr>"
    using move_ready_spec [of k "rcv_buf k"] by blast
  have "kcp_inv (move_ready (rcv_buf k) k)" "output_cb (move_ready (rcv_buf k) k)"
    using assms(1) move_ready_kcp_inv [of k] by (simp_all add: rx_inv_def m)
  moreover have "rcv_extends (genuine L) k (move_ready (rcv_buf k) k)"
    unfolding m rcv_extends_def by (rule exI [of _ ds]) (use b in auto)
  ultimately show ?thesis using rx_extend [OF assms(2,1)] by blast
qed

lemma rx_inv_same: "rx_inv L p k \<Longrightarrow> rx_inv L p (k\<lparr>probe := x\<rparr>)"
  by (simp add: rx_inv_def)

lemma rx_take:
  assumes inv: "rx_inv L p k" and n: "n \<le> length (rcv_queue k)"
  shows "rx_inv L (p + n) (recv_take n k)"
proof -
  obtain r where r: "p \<le> r" "r \<le> length L" "rcv_nxt k = of_nat r" "map frag_of (rcv_queue k) = drop p (take r L)"
    using inv unfolding rx_inv_def by blast
  have "length (rcv_queue k) = r - p" using arg_cong [OF r(4), of length] r(2) by simp
  then have "p + n \<le> r" using n r(1) by simp
  moreover have "map frag_of (drop n (rcv_queue k)) = drop (p + n) (take r L)"
    using arg_cong [OF r(4), of "drop n"] by (simp add: drop_map add.commute)
  ultimately show ?thesis
    using inv r(2,3) recv_take_kcp_inv [OF _ n] unfolding rx_inv_def recv_take_def by auto
qed

lemma concat_take_Suc: "m < length F \<Longrightarrow> length (concat (take (Suc m) F)) = length (concat (take m F)) + length (F ! m)"
  by (simp add: take_Suc_conv_app_nth)

lemma next_message:
  assumes F: "\<forall>f \<in> set F. frags_ok f" and m: "m \<le> length F"
    and inv: "rx_inv (concat F) (length (concat (take m F))) k"
    and q: "rcv_queue k \<noteq> []" "0 \<le> ikcp_peeksize k"
  shows "m < length F" and "concat (map payload (first_msg (rcv_queue k))) = msg_of (F ! m)"
    and "length (first_msg (rcv_queue k)) = length (F ! m)"
proof -
  obtain f where f: "m < length F" "f = F ! m" "frags_ok f" "sg_frg (hd (rcv_queue k)) = of_nat (length f - 1)"
    and fm: "length f \<le> length (rcv_queue k) \<longrightarrow>
      first_msg (rcv_queue k) = take (length f) (rcv_queue k) \<and> map frag_of (take (length f) (rcv_queue k)) = f"
    by (rule queue_head [OF F m inv q(1)])
  have kinv: "kcp_inv k" using inv by (simp add: rx_inv_def)
  have fl: "0 < length f" "length f \<le> 255" using f(3) by (simp_all add: frags_ok_def)
  have "length f \<le> length (rcv_queue k)"
    by (rule peeksize_complete [OF kcp_invD(2) [OF kinv] q(1) fl f(4) q(2)])
  then have msg: "first_msg (rcv_queue k) = take (length f) (rcv_queue k)"
    "map frag_of (take (length f) (rcv_queue k)) = f" "length (first_msg (rcv_queue k)) = length f"
    using fm by auto
  have "map payload (first_msg (rcv_queue k)) = map snd (map frag_of (first_msg (rcv_queue k)))"
    using kcp_invD(5) [OF kinv] unfolding msg(1)
    by (auto simp: segs_inv_def seg_ok_def payload_def frag_of_def dest!: in_set_takeD)
  then have "concat (map payload (first_msg (rcv_queue k))) = msg_of f"
    unfolding msg(1) msg(2) msg_of_def by simp
  then show "m < length F" "concat (map payload (first_msg (rcv_queue k))) = msg_of (F ! m)"
    "length (first_msg (rcv_queue k)) = length (F ! m)"
    using f(1,2) msg(3) by simp_all
qed

lemma rx_recv:
  assumes F: "\<forall>f \<in> set F. frags_ok f" and L: "length (concat F) < 2 ^ 31" and m: "m \<le> length F"
    and inv: "rx_inv (concat F) (length (concat (take m F))) k" and r: "ikcp_recv k True len = Some (n, d, k')"
  shows "if n \<ge> 0 \<and> len \<ge> 0
    then m < length F \<and> d = msg_of (F ! m) \<and> rx_inv (concat F) (length (concat (take (Suc m) F))) k'
    else rx_inv (concat F) (length (concat (take m F))) k'"
proof -
  let ?p = "length (concat (take m F))"
  from r show ?thesis
  proof (cases rule: ikcp_recv_result)
    case 1
    then show ?thesis using inv by simp
  next
    case (2 c x)
    let ?k = "recv_take c k"
    have "c \<le> length (rcv_queue k)" using 2(4) by (simp add: length_first_msg)
    then have "rx_inv (concat F) (?p + c) ?k" by (rule rx_take [OF inv])
    then have "rx_inv (concat F) (?p + c) (move_ready (rcv_buf ?k) ?k)" by (rule move_ready_extends [OF _ L])
    then have post: "rx_inv (concat F) (?p + c) k'" unfolding 2(5) by (rule rx_inv_same)
    have "0 \<le> ikcp_peeksize k" using 2(1,2) by simp
    note msg = next_message [OF F m inv 2(3) this]
    show ?thesis
      using post msg concat_take_Suc [OF msg(1)] 2(1,4,6) by auto
  qed
qed

section \<open>Every step keeps the invariant\<close>

lemma recv_frame:
  assumes "ikcp_recv k hb len = Some (r, d, k')"
  shows "snd_shrinks k k'" "output_cb k' = output_cb k"
proof -
  have m: "\<exists>x a b c e. move_ready (rcv_buf j) j = j\<lparr>rcv_buf := x, nrcv_buf := a, rcv_queue := b, nrcv_que := c, rcv_nxt := e\<rparr>" for j
    using move_ready_spec [of j "rcv_buf j"] by blast
  from assms have "snd_shrinks k k' \<and> output_cb k' = output_cb k"
  proof (cases rule: ikcp_recv_result)
    case 1
    then show ?thesis by (simp add: snd_shrinks_refl)
  next
    case (2 c x)
    then show ?thesis using m [of "recv_take c k"] by (auto simp: snd_shrinks_def recv_take_def)
  qed
  then show "snd_shrinks k k'" "output_cb k' = output_cb k" by blast+
qed

lemma send_frame:
  assumes "kcp_inv k" and "\<And>j. mem j \<noteq> None" and "length b < 2 ^ 31"
    and "ikcp_send mem k (Some b) (int (length b)) = Some (r, k')"
  shows "kcp_inv k'" "conv k' = conv k" "output_cb k' = output_cb k" "rcv_extends P k k'"
  using send_frags [where mem = mem, OF assms] assms(1) by (auto simp: rcv_extends_refl rcv_extends_same)

lemma net_inv_append: "net_inv L c N \<Longrightarrow> net_inv (L @ M) c N"
  unfolding net_inv_def using genuine_append by blast

lemma rx_inv_append:
  assumes "rx_inv L p k" shows "rx_inv (L @ M) p k"
proof -
  obtain r where r: "p \<le> r" "r \<le> length L" "rcv_nxt k = of_nat r" "map frag_of (rcv_queue k) = drop p (take r L)"
    using assms unfolding rx_inv_def by blast
  then show ?thesis
    using assms unfolding rx_inv_def by (auto simp: genuine_append intro!: exI [of _ r])
qed

lemma input_total_step:
  assumes inv: "kcp_inv k" and mem: "input_alloc mem" and cnt: "unat (ackcount k) + length d < 2 ^ 30"
    and i: "ikcp_input mem k (Some d) (int (length d)) = Some (r, k')"
  shows "input_step (\<lambda>_. True) k k'"
proof -
  have m: "fst (mem j) \<noteq> None" "snd (mem j) \<noteq> None" for j using mem by (auto simp: input_alloc_def)
  obtain r2 k2 where "ikcp_input mem k (Some d) (int (length d)) = Some (r2, k2)" "input_step (\<lambda>_. True) k k2"
    by (rule ikcp_input_total [where mem = mem and d = d and sz = "int (length d)", OF inv m]) (use cnt in auto)
  then show ?thesis using i by simp
qed

lemma link_invE:
  assumes "link_inv c l"
  obtains F m where "conv (tx l) = c" "conv (rx l) = c" "\<forall>f \<in> set F. frags_ok f" "nseg l = length (concat F)"
    "msgs l = map msg_of F" "m \<le> length F" "got l = map msg_of (take m F)"
    "tx_inv (concat F) (tx l)" "net_inv (concat F) c (net l)" "rx_inv (concat F) (length (concat (take m F))) (rx l)"
    "\<forall>f \<in> set F. cut_ok (unat (mss (tx l))) f"
  using assms unfolding link_inv_def by (elim exE conjE) (rule that)

lemma link_inv_tx:
  assumes inv: "link_inv c l" and k: "conv k = c" "output_cb k" "mss k = mss (tx l)"
    and tx': "\<And>F. nseg l = length (concat F) \<Longrightarrow> tx_inv (concat F) (tx l) \<Longrightarrow>
      tx_inv (concat F) k \<and> net_inv (concat F) c N"
  shows "link_inv c (l\<lparr>tx := k, net := net l \<union> N\<rparr>)"
proof -
  obtain F m where i: "conv (tx l) = c" "conv (rx l) = c" "\<forall>f \<in> set F. frags_ok f" "nseg l = length (concat F)"
    "msgs l = map msg_of F" "m \<le> length F" "got l = map msg_of (take m F)"
    "tx_inv (concat F) (tx l)" "net_inv (concat F) c (net l)" "rx_inv (concat F) (length (concat (take m F))) (rx l)"
    "\<forall>f \<in> set F. cut_ok (unat (mss (tx l))) f"
    by (rule link_invE [OF inv])
  have "net_inv (concat F) c (net l \<union> N)" using tx' [OF i(4,8)] i(9) by (auto simp: net_inv_def)
  then show ?thesis
    unfolding link_inv_def using i k tx' [OF i(4,8)]
    by (intro conjI exI [of _ F] exI [of _ m]) simp_all
qed

lemma link_inv_rx:
  assumes inv: "link_inv c l" and k: "conv k = c"
    and rx': "\<And>F p. \<forall>f \<in> set F. frags_ok f \<Longrightarrow> nseg l = length (concat F) \<Longrightarrow> net_inv (concat F) c (net l) \<Longrightarrow>
      rx_inv (concat F) p (rx l) \<Longrightarrow> rx_inv (concat F) p k"
  shows "link_inv c (l\<lparr>rx := k\<rparr>)"
proof -
  obtain F m where i: "conv (tx l) = c" "conv (rx l) = c" "\<forall>f \<in> set F. frags_ok f" "nseg l = length (concat F)"
    "msgs l = map msg_of F" "m \<le> length F" "got l = map msg_of (take m F)"
    "tx_inv (concat F) (tx l)" "net_inv (concat F) c (net l)" "rx_inv (concat F) (length (concat (take m F))) (rx l)"
    "\<forall>f \<in> set F. cut_ok (unat (mss (tx l))) f"
    by (rule link_invE [OF inv])
  show ?thesis
    unfolding link_inv_def using i k rx' [OF i(3,4,9,10)]
    by (intro conjI exI [of _ F] exI [of _ m]) simp_all
qed

lemma link_inv_kcp:
  assumes "link_inv c l"
  shows "kcp_inv (tx l)" "kcp_inv (rx l)" "output_cb (tx l)" "output_cb (rx l)" "conv (tx l) = c" "conv (rx l) = c"
  using assms by (auto simp: link_inv_def tx_inv_def rx_inv_def)

lemma link_inv_send:
  assumes inv: "link_inv c l" and mem: "\<And>j. mem j \<noteq> None" and b: "length b < 2 ^ 31"
    and s: "ikcp_send mem (tx l) (Some b) (int (length b)) = Some (r, k)"
  shows "link_inv c (l\<lparr>tx := k, msgs := msgs l @ (if r = 0 then [b] else []),
      nseg := nseg l + (length (snd_queue k) - length (snd_queue (tx l)))\<rparr>)"
proof -
  obtain F m where i: "conv (tx l) = c" "conv (rx l) = c" "\<forall>f \<in> set F. frags_ok f" "nseg l = length (concat F)"
    "msgs l = map msg_of F" "m \<le> length F" "got l = map msg_of (take m F)"
    "tx_inv (concat F) (tx l)" "net_inv (concat F) c (net l)" "rx_inv (concat F) (length (concat (take m F))) (rx l)"
    "\<forall>f \<in> set F. cut_ok (unat (mss (tx l))) f"
    by (rule link_invE [OF inv])
  from tx_send [where mem = mem, OF i(8) mem b s] show ?thesis
  proof (elim disjE conjE exE)
    assume "r \<noteq> 0" "k = tx l"
    then show ?thesis using inv by simp
  next
    fix f
    assume f: "r = 0" "frags_ok f" "msg_of f = b" "cut_ok (unat (mss (tx l))) f" "tx_inv (concat F @ f) k" "conv k = conv (tx l)"
      "mss k = mss (tx l)"
      "length (snd_queue k) - length (snd_queue (tx l)) = length f"
    have t: "take m (F @ [f]) = take m F" using i(6) by simp
    show ?thesis
      unfolding link_inv_def
      by (intro conjI exI [of _ "F @ [f]"] exI [of _ m])
        (use i f net_inv_append [OF i(9)] rx_inv_append [OF i(10)] t in simp_all)
  qed
qed

lemma link_inv_recv:
  assumes inv: "link_inv c l" and n: "nseg l < 2 ^ 31" and r: "ikcp_recv (rx l) True len = Some (r, d, k)"
  shows "link_inv c (l\<lparr>rx := k, got := got l @ (if r \<ge> 0 \<and> len \<ge> 0 then [d] else [])\<rparr>)"
proof -
  obtain F m where i: "conv (tx l) = c" "conv (rx l) = c" "\<forall>f \<in> set F. frags_ok f" "nseg l = length (concat F)"
    "msgs l = map msg_of F" "m \<le> length F" "got l = map msg_of (take m F)"
    "tx_inv (concat F) (tx l)" "net_inv (concat F) c (net l)" "rx_inv (concat F) (length (concat (take m F))) (rx l)"
    "\<forall>f \<in> set F. cut_ok (unat (mss (tx l))) f"
    by (rule link_invE [OF inv])
  have L: "length (concat F) < 2 ^ 31" using n i(4) by simp
  have cv: "conv k = c" using recv_frame(1) [OF r] i(2) by (simp add: snd_shrinks_def)
  note rr = rx_recv [OF i(3) L i(6,10) r]
  show ?thesis
  proof (cases "r \<ge> 0 \<and> len \<ge> 0")
    case True
    then have rr: "m < length F" "d = msg_of (F ! m)" "rx_inv (concat F) (length (concat (take (Suc m) F))) k"
      using rr by auto
    have "map msg_of (take (Suc m) F) = got l @ [d]"
      using rr(1,2) i(7) by (simp add: take_Suc_conv_app_nth)
    then show ?thesis
      unfolding link_inv_def
      by (intro conjI exI [of _ F] exI [of _ "Suc m"]) (use i cv rr True in simp_all)
  next
    case False
    then have "rx_inv (concat F) (length (concat (take m F))) k" using rr by auto
    then show ?thesis
      unfolding link_inv_def by (intro conjI exI [of _ F] exI [of _ m]) (use i cv False in simp_all)
  qed
qed

lemma link_step_inv:
  assumes "link_step l l'" and inv: "link_inv c l" and n: "nseg l < 2 ^ 31"
  shows "link_inv c l'"
  using assms(1)
proof cases
  case (send mem b r k)
  then show ?thesis using link_inv_send [OF inv] by blast
next
  case (tx_update cur k outs)
  note kk = link_inv_kcp [OF inv]
  obtain k2 outs2 where u: "ikcp_update (tx l) cur = Some (k2, outs2)" "kcp_inv k2" "flush_sends (tx l) k2"
    "outs2 = [] \<or> flush_wire (tx l) k2 outs2" "output_cb k2"
    by (rule ikcp_update_ok [OF kk(1,3) tx_update(2)])
  then have e: "k2 = k" "outs2 = outs" using tx_update(3) by simp_all
  have cv: "conv k = c" "mss k = mss (tx l)" using u(3) kk(5) e by (simp_all add: flush_sends_def)
  have "tx_inv (concat F) k \<and> net_inv (concat F) c (set outs)"
    if "nseg l = length (concat F)" "tx_inv (concat F) (tx l)" for F
  proof
    show t: "tx_inv (concat F) k" using tx_flush [OF that(2)] that(1) n u e by simp
    show "net_inv (concat F) c (set outs)"
      using u(4) flush_net [OF t _ kk(5) cv(1)] e by (auto simp: net_inv_def)
  qed
  then show ?thesis using link_inv_tx [OF inv cv(1) _ cv(2)] u(5) e tx_update(1) by simp
next
  case (tx_input mem d r k)
  note kk = link_inv_kcp [OF inv]
  have st: "input_step (\<lambda>_. True) (tx l) k"
    by (rule input_total_step [OF kk(1) tx_input(2,3,4)])
  then have k: "conv k = c" "output_cb k" "mss k = mss (tx l)" using kk(3,5) by (simp_all add: input_step_def snd_shrinks_def)
  have "link_inv c (l\<lparr>tx := k, net := net l \<union> {}\<rparr>)"
    by (rule link_inv_tx [OF inv k]) (use tx_shrinks st in \<open>simp add: net_inv_def input_step_def\<close>)
  then show ?thesis using tx_input(1) by simp
next
  case (tx_recv len r d k)
  note kk = link_inv_kcp [OF inv]
  have k: "conv k = c" "output_cb k" "mss k = mss (tx l)" "kcp_inv k" "snd_shrinks (tx l) k"
    using recv_frame [OF tx_recv(2)] kk(3,5) ikcp_recv_kcp_inv [OF kk(1) tx_recv(2)]
    by (simp_all add: snd_shrinks_def)
  have "link_inv c (l\<lparr>tx := k, net := net l \<union> {}\<rparr>)"
    by (rule link_inv_tx [OF inv k(1-3)]) (use tx_shrinks k(4,5) in \<open>simp add: net_inv_def\<close>)
  then show ?thesis using tx_recv(1) by simp
next
  case (deliver d mem r k)
  note kk = link_inv_kcp [OF inv]
  have st: "input_step (genuine (concat F)) (rx l) k"
    if "\<forall>f \<in> set F. frags_ok f" "net_inv (concat F) c (net l)" for F
    by (rule deliver_genuine(2) [OF that(1) deliver(2) _ kk(2) deliver(3,4,5)]) (use that kk(6) in simp)
  obtain F where F: "\<forall>f \<in> set F. frags_ok f" "net_inv (concat F) c (net l)" by (rule link_invE [OF inv])
  have k: "conv k = c" "output_cb k" using st [OF F] kk by (simp_all add: input_step_def snd_shrinks_def)
  have "link_inv c (l\<lparr>rx := k\<rparr>)"
    by (rule link_inv_rx [OF inv k(1)])
      (use st rx_extend n k(2) in \<open>simp add: input_step_def\<close>)
  then show ?thesis using deliver(1) by simp
next
  case (rx_update cur k outs)
  note kk = link_inv_kcp [OF inv]
  obtain k2 outs2 where u: "ikcp_update (rx l) cur = Some (k2, outs2)" "kcp_inv k2" "flush_sends (rx l) k2" "output_cb k2"
    by (rule ikcp_update_ok [OF kk(2,4) rx_update(2)])
  then have e: "k2 = k" using rx_update(3) by simp
  then have k: "conv k = c" "rcv_extends P (rx l) k" for P
    using u(3) kk(6) by (simp_all add: flush_sends_def rcv_extends_same)
  have "link_inv c (l\<lparr>rx := k\<rparr>)"
    by (rule link_inv_rx [OF inv k(1)]) (use rx_extend k(2) n u(2,4) e in simp)
  then show ?thesis using rx_update(1) by simp
next
  case (rx_send mem b r k)
  note kk = link_inv_kcp [OF inv]
  have k: "kcp_inv k" "conv k = conv (rx l)" "output_cb k = output_cb (rx l)" "rcv_extends P (rx l) k" for P
    using send_frame [where mem = mem, OF kk(2) rx_send(2-4)] by auto
  have "link_inv c (l\<lparr>rx := k\<rparr>)"
    by (rule link_inv_rx [OF inv]) (use rx_extend k n kk in simp_all)
  then show ?thesis using rx_send(1) by simp
next
  case (recv len r d k)
  then show ?thesis using link_inv_recv [OF inv n] by blast
qed

section \<open>Reachable states\<close>

lemma link_start_inv:
  assumes "fresh c a" and "fresh c b"
  shows "link_inv c (link_start a b)"
  unfolding link_inv_def link_start_def
  by (intro conjI exI [of _ "[]"] exI [of _ 0])
    (use assms in \<open>simp_all add: fresh_def tx_inv_def rx_inv_def net_inv_def\<close>)

lemma link_step_nseg: "link_step l l' \<Longrightarrow> nseg l \<le> nseg l'"
  by (cases rule: link_step.cases) auto

lemma link_reachable_inv:
  assumes "link_step\<^sup>*\<^sup>* l l'" and "link_inv c l" and "nseg l' < 2 ^ 31"
  shows "link_inv c l'"
  using assms
proof (induction rule: rtranclp_induct)
  case (step y z)
  have "nseg y < 2 ^ 31" using link_step_nseg [OF step.hyps(2)] step.prems(2) by simp
  then show ?case using step link_step_inv by blast
qed simp

lemma link_inv_prefix: "link_inv c l \<Longrightarrow> prefix (got l) (msgs l)"
  by (auto simp: link_inv_def take_map [symmetric] take_is_prefix)

section \<open>Properties\<close>

text \<open>
  C1: reliable in-order delivery. Two engines of the same conversation start empty; calls on
  both sides are interleaved in any way, the network loses, duplicates, delays and reorders
  the sender's datagrams, and the sender is fed arbitrary bytes. As long as fewer than
  \<open>2^31\<close> segments were queued, the messages read at the receiver are a prefix of the
  messages the sender accepted, bytes and boundaries included.
\<close>

theorem reliable_delivery:
  assumes "fresh c a" and "fresh c b" and "link_step\<^sup>*\<^sup>* (link_start a b) l" and "nseg l < 2 ^ 31"
  shows "prefix (got l) (msgs l) \<and> kcp_inv (tx l) \<and> kcp_inv (rx l)"
proof -
  have "link_inv c l" by (rule link_reachable_inv [OF assms(3) link_start_inv [OF assms(1,2)] assms(4)])
  then show ?thesis using link_inv_prefix link_inv_kcp(1,2) by blast
qed

text \<open>A run: the message 1, 2, 3 is sent, flushed, delivered and read.\<close>

definition run_tx1 :: IKCPCB where
  "run_tx1 = snd (the (ikcp_send demo_mem demo_kcb (Some [1, 2, 3]) 3))"

definition run_tx2 :: "IKCPCB \<times> byte list list" where
  "run_tx2 = the (ikcp_update run_tx1 100)"

definition run_dgram :: "byte list" where
  "run_dgram = [7, 0, 0, 0, 81, 0, 32, 0, 100, 0, 0, 0, 0, 0, 0, 0, 0, 0, 0, 0, 3, 0, 0, 0, 1, 2, 3]"

definition run_rx1 :: IKCPCB where
  "run_rx1 = snd (the (ikcp_input demo_alloc demo_kcb (Some run_dgram) 27))"

definition run_rx2 :: "int \<times> byte list \<times> IKCPCB" where
  "run_rx2 = the (ikcp_recv run_rx1 True 100)"

definition run_end :: link where
  "run_end = \<lparr>tx = fst run_tx2, rx = snd (snd run_rx2), net = {run_dgram}, msgs = [[1, 2, 3]],
     got = [[1, 2, 3]], nseg = 1\<rparr>"

lemma run_send: "ikcp_send demo_mem demo_kcb (Some [1, 2, 3]) 3 = Some (0, run_tx1)"
  "length (snd_queue run_tx1) = 1" "ackcount run_tx1 = 0"
proof -
  have "map_option (\<lambda>(r, k). (r, length (snd_queue k), ackcount k)) (ikcp_send demo_mem demo_kcb (Some [1, 2, 3]) 3) =
    Some (0, 1, 0)" by code_simp
  then show "ikcp_send demo_mem demo_kcb (Some [1, 2, 3]) 3 = Some (0, run_tx1)"
    "length (snd_queue run_tx1) = 1" "ackcount run_tx1 = 0" by (auto simp: run_tx1_def)
qed

lemma run_update: "ikcp_update run_tx1 100 = Some (fst run_tx2, [run_dgram])"
proof -
  have "map_option snd (ikcp_update run_tx1 100) = Some [run_dgram]" by code_simp
  then show ?thesis by (auto simp: run_tx2_def)
qed

lemma run_input: "ikcp_input demo_alloc demo_kcb (Some run_dgram) 27 = Some (0, run_rx1)"
proof -
  have "map_option fst (ikcp_input demo_alloc demo_kcb (Some run_dgram) 27) = Some 0" by code_simp
  then show ?thesis by (auto simp: run_rx1_def)
qed

lemma run_recv: "ikcp_recv run_rx1 True 100 = Some (3, [1, 2, 3], snd (snd run_rx2))"
proof -
  have "map_option (\<lambda>(r, d, k). (r, d)) (ikcp_recv run_rx1 True 100) = Some (3, [1, 2, 3])" by code_simp
  then show ?thesis by (auto simp: run_rx2_def)
qed

lemma demo_fresh: "fresh 7 demo_kcb"
  by (simp add: fresh_def demo_kcb_inv)

lemma run_steps: "link_step\<^sup>*\<^sup>* (link_start demo_kcb demo_kcb) run_end"
proof -
  define l0 where "l0 = link_start demo_kcb demo_kcb"
  define l1 where "l1 = l0\<lparr>tx := run_tx1, msgs := [[1, 2, 3]], nseg := 1\<rparr>"
  define l2 where "l2 = l1\<lparr>tx := fst run_tx2, net := {run_dgram}\<rparr>"
  define l3 where "l3 = l2\<lparr>rx := run_rx1\<rparr>"
  note d = l0_def l1_def l2_def l3_def link_start_def
  have s1: "link_step l0 l1"
    using link_step.send [of demo_mem "[1, 2, 3]" l0 0 run_tx1] run_send by (simp add: d demo_mem_def)
  have s2: "link_step l1 l2"
    using link_step.tx_update [of l1 100 "fst run_tx2" "[run_dgram]"] run_update run_send by (simp add: d)
  have s3: "link_step l2 l3"
    using link_step.deliver [of run_dgram l2 demo_alloc 0 run_rx1] run_input
    by (simp add: d input_alloc_def demo_alloc_def run_dgram_def)
  have s4: "link_step l3 run_end"
    using link_step.recv [of l3 100 3 "[1, 2, 3]" "snd (snd run_rx2)"] run_recv by (simp add: d run_end_def)
  have "link_step\<^sup>*\<^sup>* l0 run_end"
    by (rule converse_rtranclp_into_rtranclp [of link_step, OF s1] converse_rtranclp_into_rtranclp [of link_step, OF s2]
      converse_rtranclp_into_rtranclp [of link_step, OF s3] r_into_rtranclp [of link_step, OF s4])+
  then show ?thesis by (simp add: l0_def)
qed

theorem reliable_delivery_witness:
  "fresh 7 demo_kcb \<and> link_step\<^sup>*\<^sup>* (link_start demo_kcb demo_kcb) run_end \<and> nseg run_end < 2 ^ 31 \<and>
   got run_end = [[1, 2, 3]] \<and> prefix (got run_end) (msgs run_end)"
proof -
  have n: "nseg run_end < 2 ^ 31" and g: "got run_end = [[1, 2, 3]]" by (simp_all add: run_end_def)
  show ?thesis using reliable_delivery [OF demo_fresh demo_fresh run_steps n] demo_fresh run_steps n g by simp
qed

end
