(* ===== verification/Ikcp_Progress.thy ===== *)
theory Ikcp_Progress
  imports Ikcp_Transfer
begin

text \<open>
  Progress of a transfer: what one exchange without losses achieves. The sender flushes, the
  receiver is fed the datagrams, flushes in turn and the sender is fed its datagrams.

  The locale \<open>input_effect\<close> carries an effect of single segments over the loop of
  \<open>ikcp_input\<close>, a datagram and a list of datagrams. It is used twice: on the receiver every
  data segment in the window is stored and acknowledged, on the sender every acknowledged
  segment leaves \<open>snd_buf\<close>.
\<close>

section \<open>Feeding datagrams\<close>

fun feed :: "(nat \<Rightarrow> input_mem) \<Rightarrow> IKCPCB \<Rightarrow> byte list list \<Rightarrow> IKCPCB option" where
  "feed mem k [] = Some k"
| "feed mem k (d # ds) = do { (r, k) \<leftarrow> ikcp_input mem k (Some d) (int (length d)); feed mem k ds }"

lemma header_of_cmd: "wire_seg c s \<Longrightarrow> ucast (h_cmd (header_of s)) = sg_cmd s"
  using cmd_byte [of "sg_cmd s"] by (simp add: wire_seg_def header_of_def)

lemma header_of_len: "wire_seg c s \<Longrightarrow> unat (h_len (header_of s)) = length (sg_data s)"
  by (simp add: wire_seg_def seg_ok_def header_of_def)

lemma updated_same [simp]:
  "updated (ikcp_parse_ack k sn) = updated k" "updated (ikcp_parse_una k una) = updated k"
  "updated (ikcp_shrink_buf k) = updated k" "updated (ikcp_parse_fastack k sn) = updated k"
  "updated (ikcp_update_ack k rtt) = updated k"
  "nrcv_que (ikcp_parse_ack k sn) = nrcv_que k" "nrcv_que (ikcp_parse_una k una) = nrcv_que k"
  "nrcv_que (ikcp_shrink_buf k) = nrcv_que k" "nrcv_que (ikcp_parse_fastack k sn) = nrcv_que k"
  "nrcv_que (ikcp_update_ack k rtt) = nrcv_que k"
  "ts_flush (ikcp_parse_ack k sn) = ts_flush k" "ts_flush (ikcp_parse_una k una) = ts_flush k"
  "ts_flush (ikcp_shrink_buf k) = ts_flush k" "ts_flush (ikcp_parse_fastack k sn) = ts_flush k"
  "ts_flush (ikcp_update_ack k rtt) = ts_flush k"
  by (simp_all add: ikcp_parse_ack_def ikcp_parse_una_def shrink_buf_update ikcp_parse_fastack_def case_prod_beta
      ikcp_update_ack_def Let_def)

lemma finish_frame:
  assumes "kcp_inv k" and "input_cwnd una (if flag then ikcp_parse_fastack k maxack else k) = Some k'"
  shows "conv k' = conv k" "rcv_nxt k' = rcv_nxt k" "rcv_buf k' = rcv_buf k" "rcv_wnd k' = rcv_wnd k"
    "acklist k' = acklist k" "ackcount k' = ackcount k" "sg_sn ` set (snd_buf k') = sg_sn ` set (snd_buf k)"
    "updated k' = updated k" "nrcv_que k' = nrcv_que k" "snd_queue k' = snd_queue k" "ts_flush k' = ts_flush k"
proof -
  let ?k = "if flag then ikcp_parse_fastack k maxack else k"
  have "mss k \<noteq> 0" using conf_mss(2) [OF kcp_invD(4) [OF assms(1)]] by auto
  then have "mss ?k \<noteq> 0" by simp
  then obtain c j where "input_cwnd una ?k = Some (?k\<lparr>cwnd := c, incr := j\<rparr>)" by (rule input_cwnd_total)
  then have k': "k' = ?k\<lparr>cwnd := c, incr := j\<rparr>" using assms(2) by simp
  then show "conv k' = conv k" "rcv_nxt k' = rcv_nxt k" "rcv_buf k' = rcv_buf k" "rcv_wnd k' = rcv_wnd k"
    "acklist k' = acklist k" "ackcount k' = ackcount k" "updated k' = updated k" "nrcv_que k' = nrcv_que k"
    "snd_queue k' = snd_queue k" "ts_flush k' = ts_flush k"
    by simp_all
  have "map sg_sn (snd_buf (ikcp_parse_fastack k maxack)) = map sg_sn (snd_buf k)"
    using parse_fastack_map [OF kcp_invD(1) [OF assms(1)], of maxack] by simp
  then have "map sg_sn (snd_buf k') = map sg_sn (snd_buf k)" unfolding k' by simp
  then show "sg_sn ` set (snd_buf k') = sg_sn ` set (snd_buf k)" using set_map by metis
qed

section \<open>From segments to datagrams\<close>

text \<open>
  \<open>I\<close> is an invariant, \<open>W\<close> what is assumed of the segments, \<open>R\<close> how the control block develops,
  \<open>A k s\<close> the effect of the segment \<open>s\<close> and \<open>B k s\<close> the condition for it before.
\<close>

locale input_effect =
  fixes I :: "IKCPCB \<Rightarrow> bool" and W :: "IKCPSEG \<Rightarrow> bool" and R :: "IKCPCB \<Rightarrow> IKCPCB \<Rightarrow> bool"
    and A :: "IKCPCB \<Rightarrow> IKCPSEG \<Rightarrow> bool" and B :: "IKCPCB \<Rightarrow> IKCPSEG \<Rightarrow> bool"
  assumes inv: "I k \<Longrightarrow> kcp_inv k"
    and step_refl: "R k k"
    and step_trans: "R k1 k2 \<Longrightarrow> R k2 k3 \<Longrightarrow> R k1 k3"
    and keep: "R k k' \<Longrightarrow> A k s \<Longrightarrow> A k' s"
    and cond: "R k k' \<Longrightarrow> B k s \<Longrightarrow> B k' s"
    and seg: "I k \<Longrightarrow> wire_seg (conv k) s \<Longrightarrow> W s \<Longrightarrow> length (sg_data s) < 2 ^ 31 \<Longrightarrow> unat (ackcount k) < 2 ^ 30 \<Longrightarrow>
      fst mem \<noteq> None \<Longrightarrow> snd mem \<noteq> None \<Longrightarrow>
      input_seg mem k (header_of s) (sg_data s) fm = Some (Inr (k', fm')) \<Longrightarrow> I k' \<and> R k k' \<and> (B k s \<longrightarrow> A k' s)"
    and finish: "I k \<Longrightarrow> input_cwnd una (if flag then ikcp_parse_fastack k maxack else k) = Some k' \<Longrightarrow> I k' \<and> R k k'"
begin

lemma segs:
  assumes "I k" and "input_alloc mem" and "\<forall>s \<in> set ss. wire_seg (conv k) s \<and> W s" and "length (wires ss) < 2 ^ 31"
    and "unat (ackcount k) + length ss < 2 ^ 30" and "input_segs mem i k ss fm = Some (Inr (k', fm'))"
  shows "I k' \<and> R k k' \<and> conv k' = conv k \<and> unat (ackcount k') \<le> unat (ackcount k) + length ss \<and> (\<forall>s \<in> set ss. B k s \<longrightarrow> A k' s)"
  using assms
proof (induction ss arbitrary: i k fm)
  case Nil
  then show ?case by (simp add: step_refl)
next
  case (Cons s ss)
  have s: "wire_seg (conv k) s" "W s" using Cons.prems(3) by simp_all
  have len: "unat (h_len (header_of s)) \<le> length (sg_data s)" "unat (h_len (header_of s)) < 2 ^ 31" "length (sg_data s) < 2 ^ 31"
    using header_of_len [OF s(1)] Cons.prems(4) by (simp_all add: length_wire)
  have mem: "fst (mem i) \<noteq> None" "snd (mem i) \<noteq> None" using Cons.prems(2) by (auto simp: input_alloc_def)
  have cnt: "unat (ackcount k) < 2 ^ 30" using Cons.prems(5) by simp
  have cmd: "ucast (h_cmd (header_of s)) \<in> {81, 82, 83, 84 :: u32}"
    using header_of_cmd [OF s(1)] s(1) by (simp add: wire_seg_def)
  obtain k1 fm1 where k1: "input_seg (mem i) k (header_of s) (sg_data s) fm = Some (Inr (k1, fm1))"
    "input_step (\<lambda>_. True) k k1" "unat (ackcount k1) \<le> Suc (unat (ackcount k))"
    using input_seg_step [OF inv [OF Cons.prems(1)] cnt mem len(1,2), of "\<lambda>_. True" fm] cmd by blast
  have one: "I k1" "R k k1" "B k s \<longrightarrow> A k1 s"
    using seg [OF Cons.prems(1) s len(3) cnt mem k1(1)] by simp_all
  have c: "conv k1 = conv k" using k1(2) by (rule input_fields)
  have "I k' \<and> R k1 k' \<and> conv k' = conv k1 \<and> unat (ackcount k') \<le> unat (ackcount k1) + length ss \<and> (\<forall>s \<in> set ss. B k1 s \<longrightarrow> A k' s)"
  proof (rule Cons.IH [OF one(1) Cons.prems(2)])
    show "input_segs mem (Suc i) k1 ss fm1 = Some (Inr (k', fm'))" using Cons.prems(6) k1(1) by simp
  qed (use Cons.prems(3,4,5) k1(3) c in auto)
  then show ?case using one k1(3) c step_trans [of k k1 k'] keep [of k1 k' s] cond [OF one(2)] by auto
qed

lemma dgram:
  assumes "I k" and "input_alloc mem" and "g \<noteq> []" and "\<forall>s \<in> set g. wire_seg (conv k) s \<and> W s"
    and "unat (ackcount k) + length (wires g) < 2 ^ 30"
  shows "\<exists>k'. ikcp_input mem k (Some (wires g)) (int (length (wires g))) = Some (0, k') \<and> I k' \<and> R k k' \<and>
    conv k' = conv k \<and> unat (ackcount k') \<le> unat (ackcount k) + length (wires g) \<and> (\<forall>s \<in> set g. B k s \<longrightarrow> A k' s)"
proof -
  have m: "fst (mem j) \<noteq> None" "snd (mem j) \<noteq> None" for j using assms(2) by (auto simp: input_alloc_def)
  have w: "\<forall>s \<in> set g. wire_seg (conv k) s" using assms(4) by blast
  have len: "length (wires g) < 2 ^ 31" "unat (ackcount k) + length g < 2 ^ 30"
    using assms(5) length_wires [of g] by simp_all
  obtain k1 fm where k1: "input_loop mem 0 k (wires g) (int (length (wires g))) (False, 0) = Some (Inr (k1, fm))"
    "input_segs mem 0 k g (False, 0) = Some (Inr (k1, fm))"
    using input_loop_wire [where mem = mem and P = "\<lambda>_. True" and i = 0 and fm = "(False, 0)", OF inv [OF assms(1)] m w] len
    unfolding wires_def by blast
  have s: "I k1 \<and> R k k1 \<and> conv k1 = conv k \<and> unat (ackcount k1) \<le> unat (ackcount k) + length g \<and> (\<forall>s \<in> set g. B k s \<longrightarrow> A k1 s)"
    by (rule segs [OF assms(1,2,4) len k1(2)])
  then have ki: "kcp_inv k1" using inv by simp
  obtain k' where k': "input_cwnd (snd_una k) (if fst fm then ikcp_parse_fastack k1 (snd fm) else k1) = Some k'"
    using input_finish [OF ki] by blast
  have f: "I k'" "R k1 k'" using finish [OF _ k'] s by simp_all
  have fr: "conv k' = conv k1" "ackcount k' = ackcount k1" by (rule finish_frame [OF ki k'])+
  have "\<not> int (length (wires g)) < 24" using assms(3) by (cases g) (simp_all add: length_wire)
  then have "ikcp_input mem k (Some (wires g)) (int (length (wires g))) = Some (0, k')"
    using k1(1) k' by (cases "fst fm"; simp add: ikcp_input_def case_prod_beta)
  moreover have "\<forall>s \<in> set g. B k s \<longrightarrow> A k' s" using s keep [OF f(2)] by blast
  ultimately show ?thesis using s f fr step_trans [of k k1 k'] length_wires [of g] by (intro exI [of _ k']) auto
qed

lemma feeds:
  assumes "I k" and "input_alloc mem" and "\<forall>g \<in> set gs. g \<noteq> [] \<and> (\<forall>s \<in> set g. wire_seg (conv k) s \<and> W s)"
    and "unat (ackcount k) + length (concat (map wires gs)) < 2 ^ 30"
  shows "\<exists>k'. feed mem k (map wires gs) = Some k' \<and> I k' \<and> R k k' \<and> conv k' = conv k \<and>
    unat (ackcount k') < 2 ^ 30 \<and> (\<forall>s \<in> set (concat gs). B k s \<longrightarrow> A k' s)"
  using assms
proof (induction gs arbitrary: k)
  case Nil
  then show ?case by (simp add: step_refl)
next
  case (Cons g gs)
  obtain k1 where k1: "ikcp_input mem k (Some (wires g)) (int (length (wires g))) = Some (0, k1)" "I k1" "R k k1"
    "conv k1 = conv k" "unat (ackcount k1) \<le> unat (ackcount k) + length (wires g)" "\<forall>s \<in> set g. B k s \<longrightarrow> A k1 s"
    using dgram [OF Cons.prems(1,2), of g] Cons.prems(3,4) by auto
  have "\<exists>k'. feed mem k1 (map wires gs) = Some k' \<and> I k' \<and> R k1 k' \<and> conv k' = conv k1 \<and>
      unat (ackcount k') < 2 ^ 30 \<and> (\<forall>s \<in> set (concat gs). B k1 s \<longrightarrow> A k' s)"
    by (rule Cons.IH [OF k1(2) Cons.prems(2)]) (use Cons.prems(3,4) k1(4,5) in auto)
  then obtain k' where k': "feed mem k1 (map wires gs) = Some k'" "I k'" "R k1 k'" "conv k' = conv k1"
    "unat (ackcount k') < 2 ^ 30" "\<forall>s \<in> set (concat gs). B k1 s \<longrightarrow> A k' s" by blast
  have "A k' s" if "s \<in> set (concat (g # gs))" "B k s" for s
    using that k1(6) k'(6) keep [OF k'(3)] cond [OF k1(3)] by auto
  then show ?case using k1 k' step_trans [OF k1(3) k'(3)] by (intro exI [of _ k']) auto
qed

end

section \<open>The receiver\<close>

text \<open>The segment with number \<open>sn\<close> has arrived.\<close>

definition holds :: "IKCPCB \<Rightarrow> u32 \<Rightarrow> bool" where
  "holds k sn \<longleftrightarrow> unat sn < unat (rcv_nxt k) \<or> sn \<in> sg_sn ` set (rcv_buf k)"

definition grows :: "IKCPCB \<Rightarrow> IKCPCB \<Rightarrow> bool" where
  "grows k k' \<longleftrightarrow> set (ack_pairs k) \<subseteq> set (ack_pairs k') \<and> rcv_wnd k' = rcv_wnd k \<and> updated k' = updated k \<and> ts_flush k' = ts_flush k \<and>
     unat (rcv_nxt k) \<le> unat (rcv_nxt k') \<and> (\<forall>sn. holds k sn \<longrightarrow> holds k' sn)"

lemma ack_pairs_same: "acklist k' = acklist k \<Longrightarrow> ackcount k' = ackcount k \<Longrightarrow> ack_pairs k' = ack_pairs k"
  by (simp only: ack_pairs_def)

lemma grows_same:
  "rcv_nxt k' = rcv_nxt k \<Longrightarrow> rcv_buf k' = rcv_buf k \<Longrightarrow> rcv_wnd k' = rcv_wnd k \<Longrightarrow> updated k' = updated k \<Longrightarrow>
   ts_flush k' = ts_flush k \<Longrightarrow> set (ack_pairs k) \<subseteq> set (ack_pairs k') \<Longrightarrow>
   grows k k'"
  by (simp add: grows_def holds_def)

lemma grows_trans: "grows k1 k2 \<Longrightarrow> grows k2 k3 \<Longrightarrow> grows k1 k3"
  unfolding grows_def by fastforce

text \<open>What is acknowledged has arrived, and nothing that could be released waits.\<close>

definition settles :: "IKCPCB \<Rightarrow> IKCPCB \<Rightarrow> bool" where
  "settles k k' \<longleftrightarrow> (\<forall>p \<in> set (ack_pairs k'). p \<in> set (ack_pairs k) \<or> holds k' (fst p)) \<and> (rcv_drained k \<longrightarrow> rcv_drained k')"

lemma rcv_drained_same:
  "rcv_buf k' = rcv_buf k \<Longrightarrow> rcv_nxt k' = rcv_nxt k \<Longrightarrow> rcv_wnd k' = rcv_wnd k \<Longrightarrow> nrcv_que k' = nrcv_que k \<Longrightarrow>
   rcv_drained k' \<longleftrightarrow> rcv_drained k"
  by (simp add: rcv_drained_def split: list.splits)

lemma settles_same:
  "acklist k' = acklist k \<Longrightarrow> ackcount k' = ackcount k \<Longrightarrow> rcv_buf k' = rcv_buf k \<Longrightarrow> rcv_nxt k' = rcv_nxt k \<Longrightarrow>
   rcv_wnd k' = rcv_wnd k \<Longrightarrow> nrcv_que k' = nrcv_que k \<Longrightarrow> settles k k'"
  using ack_pairs_same [of k' k] rcv_drained_same [of k' k] by (simp add: settles_def)

lemma settles_trans: "settles k1 k2 \<Longrightarrow> grows k2 k3 \<Longrightarrow> settles k2 k3 \<Longrightarrow> settles k1 k3"
  unfolding settles_def grows_def by blast

lemma rx_step:
  assumes "length L < 2 ^ 31" and "rx_inv L p k" and "input_step (genuine L) k k'"
  shows "rx_inv L p k'"
  using rx_extend [OF assms(1,2), of k'] assms(2,3) by (simp add: input_step_def snd_shrinks_def rx_inv_def)

text \<open>On the receiver the numbers do not wrap: the released segments are counted.\<close>

lemma rx_released:
  assumes L: "length L < 2 ^ 31" and inv: "rx_inv L p k" and ds: "consecutive (rcv_nxt k) ds" "\<forall>s \<in> set ds. genuine L (seg_id s)"
  shows "unat (rcv_nxt k + of_nat (length ds)) = unat (rcv_nxt k) + length ds" "unat (rcv_nxt k) \<le> length L"
proof -
  obtain r where r: "r \<le> length L" "rcv_nxt k = of_nat r" using inv by (auto simp: rx_inv_def)
  have "r + length ds \<le> length L" using release_log [OF L r(1) _ ds(2)] ds(1) r(2) by simp
  then have "unat (of_nat (r + length ds) :: u32) = r + length ds" "unat (of_nat r :: u32) = r"
    using L by (simp_all add: unat_of_nat_lt del: of_nat_add)
  then show "unat (rcv_nxt k + of_nat (length ds)) = unat (rcv_nxt k) + length ds" "unat (rcv_nxt k) \<le> length L"
    using r by simp_all
qed

lemma released_below:
  assumes n: "unat (rcv_nxt k + of_nat (length ds)) = unat (rcv_nxt k) + length ds" and ds: "consecutive (rcv_nxt k) ds"
    and x: "x \<in> set ds"
  shows "unat (sg_sn x) < unat (rcv_nxt k + of_nat (length ds))"
proof -
  obtain i where i: "i < length ds" "x = ds ! i" using x by (auto simp: in_set_conv_nth)
  have lt: "unat (rcv_nxt k) + i < 2 ^ 32"
    using unat_u32_bound [of "rcv_nxt k + of_nat (length ds)"] i(1) unfolding n by linarith
  then have "unat (of_nat i :: u32) = i" by (intro unat_of_nat_lt) simp
  then show ?thesis using consecutive_nth [OF ds i(1)] i n lt by (simp add: unat_add_lt)
qed

lemma parse_data_grows:
  assumes L: "length L < 2 ^ 31" and inv: "rx_inv L p k" and s: "genuine L (seg_id s)"
  shows "grows k (ikcp_parse_data k s)" and "rcv_off k s < unat (rcv_wnd k) \<Longrightarrow> holds (ikcp_parse_data k s) (sg_sn s)"
    and "ack_pairs (ikcp_parse_data k s) = ack_pairs k"
proof -
  have rinv: "rcv_inv k" using inv by (simp add: rx_inv_def kcp_inv_def)
  obtain ds where ds: "consecutive (rcv_nxt k) ds" "rcv_nxt (ikcp_parse_data k s) = rcv_nxt k + of_nat (length ds)"
    "mset ds + mset (rcv_buf (ikcp_parse_data k s)) = mset (rcv_buf k) + (if rcv_accepts k s then {#s#} else {#})"
    using parse_data_spec [OF rinv refl, of s] by blast
  have all: "set ds \<union> set (rcv_buf (ikcp_parse_data k s)) = set (rcv_buf k) \<union> (if rcv_accepts k s then {s} else {})"
    using arg_cong [OF ds(3), of set_mset] by simp
  then have "\<forall>x \<in> set ds. genuine L (seg_id x)" using inv s by (auto simp: rx_inv_def split: if_splits)
  note n = rx_released(1) [OF L inv ds(1) this]
  have u: "unat (rcv_nxt (ikcp_parse_data k s)) = unat (rcv_nxt k) + length ds" using n ds(2) by simp
  have one: "holds (ikcp_parse_data k s) (sg_sn x)" if x: "x \<in> set ds \<union> set (rcv_buf (ikcp_parse_data k s))" for x
  proof (cases "x \<in> set (rcv_buf (ikcp_parse_data k s))")
    case False
    then show ?thesis using released_below [OF n] ds(1,2) x by (simp add: holds_def)
  qed (simp add: holds_def)
  have old: "holds (ikcp_parse_data k s) sn" if "holds k sn" for sn
    using that unfolding holds_def [of k]
  proof
    assume "unat sn < unat (rcv_nxt k)"
    then show ?thesis using u by (simp add: holds_def)
  next
    assume "sn \<in> sg_sn ` set (rcv_buf k)"
    then obtain x where "x \<in> set (rcv_buf k)" "sn = sg_sn x" by blast
    then show ?thesis using one [of x] all by simp
  qed
  obtain es rest nb nq where fr: "ikcp_parse_data k s = k\<lparr>rcv_buf := rest, nrcv_buf := nb,
      rcv_queue := rcv_queue k @ es, nrcv_que := nq, rcv_nxt := rcv_nxt k + of_nat (length es)\<rparr>"
    by (rule parse_data_frame [OF rinv])
  have w: "acklist (ikcp_parse_data k s) = acklist k" "rcv_wnd (ikcp_parse_data k s) = rcv_wnd k"
    "updated (ikcp_parse_data k s) = updated k" "ts_flush (ikcp_parse_data k s) = ts_flush k" by (simp_all add: fr)
  show ap: "ack_pairs (ikcp_parse_data k s) = ack_pairs k"
    by (rule ack_pairs_same [OF w(1) parse_data_shrinks(2) [OF rinv]])
  show "grows k (ikcp_parse_data k s)"
    unfolding grows_def ap w(2-4) u by (intro conjI allI impI old) simp_all
  assume off: "rcv_off k s < unat (rcv_wnd k)"
  show "holds (ikcp_parse_data k s) (sg_sn s)"
  proof (cases "rcv_accepts k s")
    case True
    then show ?thesis using one [of s] all by simp
  next
    case False
    then have "holds k (sg_sn s)" using off by (auto simp: rcv_accepts_def holds_def)
    then show ?thesis by (rule old)
  qed
qed

lemma push_receives:
  assumes L: "length L + unat (rcv_wnd k) < 2 ^ 31" and inv: "rx_inv L p k" and cnt: "unat (ackcount k) < 2 ^ 30"
    and mem: "fst mem \<noteq> None" "snd mem \<noteq> None" and len: "unat (h_len h) = length data" "length data < 2 ^ 31"
    and P: "genuine L (h_sn h, ucast (h_frg h), data)" and p: "input_push mem k h data = Some k'"
  shows "grows k k'" and "unat (h_sn h) < unat (rcv_nxt k) + unat (rcv_wnd k) \<Longrightarrow>
    (h_sn h, h_ts h) \<in> set (ack_pairs k') \<and> holds k' (h_sn h)" and "settles k k'"
proof -
  have kinv: "kcp_inv k" and L': "length L < 2 ^ 31" using inv L by (simp_all add: rx_inv_def)
  have n: "unat (rcv_nxt k) \<le> length L" using rx_released(2) [OF L' inv, of "[]"] by simp
  then have w: "unat (rcv_nxt k + rcv_wnd k) = unat (rcv_nxt k) + unat (rcv_wnd k)"
    "unat (rcv_nxt k) + unat (rcv_wnd k) < 2 ^ 31"
    using L by (simp_all add: unat_add_lt)
  have sn: "unat (h_sn h) < 2 ^ 31" using P L by simp
  have win: "itimediff (h_sn h) (rcv_nxt k + rcv_wnd k) < 0 \<longleftrightarrow> unat (h_sn h) < unat (rcv_nxt k) + unat (rcv_wnd k)"
    using itimediff_off(2) [of "h_sn h" 0 "rcv_nxt k + rcv_wnd k"] sn w by simp
  have old: "itimediff (h_sn h) (rcv_nxt k) < 0 \<longleftrightarrow> unat (h_sn h) < unat (rcv_nxt k)"
    using itimediff_off(2) [of "h_sn h" 0 "rcv_nxt k"] sn n L by simp
  have "grows k k' \<and> (unat (h_sn h) < unat (rcv_nxt k) + unat (rcv_wnd k) \<longrightarrow>
    (h_sn h, h_ts h) \<in> set (ack_pairs k') \<and> holds k' (h_sn h)) \<and> settles k k'"
  proof (cases "itimediff (h_sn h) (rcv_nxt k + rcv_wnd k) < 0")
    case False
    then have "k' = k" using p by (simp add: input_push_def)
    then show ?thesis using False win by (simp add: grows_same settles_same)
  next
    case True
    have len': "unat (h_len h) \<le> length data" "unat (h_len h) < 2 ^ 31" using len by simp_all
    obtain l b s where v: "input_push mem k h data =
        (let k1 = k\<lparr>acklist := Some l, ackcount := ackcount k + 1, ackblock := b\<rparr>
         in Some (if itimediff (h_sn h) (rcv_nxt k) \<ge> 0 then ikcp_parse_data k1 s else k1))"
      and inv1: "kcp_inv (k\<lparr>acklist := Some l, ackcount := ackcount k + 1, ackblock := b\<rparr>)"
      and ap: "ack_pairs (k\<lparr>acklist := Some l, ackcount := ackcount k + 1, ackblock := b\<rparr>) = ack_pairs k @ [(h_sn h, h_ts h)]"
      and s: "seg_ok s" "seg_id s = (h_sn h, ucast (h_frg h), take (unat (h_len h)) data)"
      by (rule input_push_value [OF kinv cnt mem len' True])
    define k1 where "k1 = k\<lparr>acklist := Some l, ackcount := ackcount k + 1, ackblock := b\<rparr>"
    have f1: "rcv_nxt k1 = rcv_nxt k" "rcv_wnd k1 = rcv_wnd k" "rcv_buf k1 = rcv_buf k" "rcv_queue k1 = rcv_queue k"
      "output_cb k1 = output_cb k" "updated k1 = updated k" "nrcv_que k1 = nrcv_que k" "ts_flush k1 = ts_flush k" by (simp_all add: k1_def)
    have rx1: "rx_inv L p k1" using inv inv1 f1 by (simp add: rx_inv_def k1_def [symmetric])
    have g1: "grows k k1" using ap f1 by (intro grows_same) (auto simp: k1_def [symmetric])
    have a1: "(h_sn h, h_ts h) \<in> set (ack_pairs k1)" using ap by (simp add: k1_def [symmetric])
    show ?thesis
    proof (cases "unat (h_sn h) < unat (rcv_nxt k)")
      case lt: True
      then have "\<not> itimediff (h_sn h) (rcv_nxt k) \<ge> 0" using old by simp
      then have "k' = k1" using p v by (simp add: k1_def Let_def)
      moreover have "settles k k1"
        using ap lt f1 rcv_drained_same [of k1 k] by (auto simp: settles_def k1_def [symmetric] holds_def)
      ultimately show ?thesis using g1 a1 lt f1 by (simp add: holds_def)
    next
      case ge: False
      then have "itimediff (h_sn h) (rcv_nxt k) \<ge> 0" using old by linarith
      then have k': "k' = ikcp_parse_data k1 s" using p v by (simp add: k1_def Let_def)
      have sns: "sg_sn s = h_sn h" "genuine L (seg_id s)" using s(2) P len(1) by (simp_all add: seg_id_def)
      have "rcv_off k1 s = unat (h_sn h) - unat (rcv_nxt k)"
        using ge f1(1) sns(1) by (simp add: rcv_off_def unat_sub_le word_le_nat_alt)
      then have off: "rcv_off k1 s < unat (rcv_wnd k1)" using True win ge f1(2) by simp
      note pd = parse_data_grows [OF L' rx1 sns(2)]
      have "(h_sn h, h_ts h) \<in> set (ack_pairs k')" using pd(1) a1 unfolding k' grows_def by blast
      moreover have "rcv_drained (ikcp_parse_data k1 s)"
        using parse_data_spec [OF kcp_invD(2) [OF inv1 [folded k1_def]] refl, of s] off by blast
      then have "settles k k'"
        using ap pd(2) [OF off] sns(1) unfolding settles_def k' pd(3) by (auto simp: k1_def [symmetric])
      ultimately show ?thesis using grows_trans [OF g1 pd(1)] pd(2) [OF off] sns(1) k' by simp
    qed
  qed
  then show "grows k k'" "unat (h_sn h) < unat (rcv_nxt k) + unat (rcv_wnd k) \<Longrightarrow>
    (h_sn h, h_ts h) \<in> set (ack_pairs k') \<and> holds k' (h_sn h)" "settles k k'" by blast+
qed

definition rx_ready :: "frag list \<Rightarrow> nat \<Rightarrow> IKCPCB \<Rightarrow> bool" where
  "rx_ready L p k \<longleftrightarrow> rx_inv L p k \<and> length L + unat (rcv_wnd k) < 2 ^ 31"

definition genuine_wire :: "frag list \<Rightarrow> IKCPSEG \<Rightarrow> bool" where
  "genuine_wire L s \<longleftrightarrow> (sg_cmd s = IKCP_CMD_PUSH \<longrightarrow> genuine L (sg_sn s, ucast (ucast (sg_frg s) :: byte), sg_data s))"

definition in_window :: "IKCPCB \<Rightarrow> u32 \<Rightarrow> bool" where
  "in_window k sn \<longleftrightarrow> unat sn < unat (rcv_nxt k) + unat (rcv_wnd k)"

lemma header_fields: "h_sn (header_of s) = sg_sn s" "h_ts (header_of s) = sg_ts s" "h_frg (header_of s) = ucast (sg_frg s)"
  by (simp_all add: header_of_def)

text \<open>A round that leaves the receiving side alone.\<close>

lemma input_seg_grows:
  assumes k: "rx_ready L p k" and w: "wire_seg (conv k) s" "genuine_wire L s" "length (sg_data s) < 2 ^ 31"
    and cnt: "unat (ackcount k) < 2 ^ 30" and mem: "fst mem \<noteq> None" "snd mem \<noteq> None"
    and s: "input_seg mem k (header_of s) (sg_data s) fm = Some (Inr (k', fm'))"
  shows "grows k k'" and "settles k k'" and "sg_cmd s = IKCP_CMD_PUSH \<and> in_window k (sg_sn s) \<Longrightarrow>
    (sg_sn s, sg_ts s) \<in> set (ack_pairs k') \<and> holds k' (sg_sn s)"
proof -
  define k1 where "k1 = ikcp_shrink_buf (ikcp_parse_una (k\<lparr>rmt_wnd := ucast (h_wnd (header_of s))\<rparr>) (h_una (header_of s)))"
  have rx: "rx_inv L p k" and L: "length L + unat (rcv_wnd k) < 2 ^ 31" and L': "length L < 2 ^ 31"
    using k by (simp_all add: rx_ready_def)
  have f1: "rcv_nxt k1 = rcv_nxt k" "rcv_buf k1 = rcv_buf k" "rcv_wnd k1 = rcv_wnd k" "acklist k1 = acklist k"
    "ackcount k1 = ackcount k" "updated k1 = updated k" "nrcv_que k1 = nrcv_que k" "ts_flush k1 = ts_flush k" by (simp_all add: k1_def)
  have g1: "grows k k1" using f1 ack_pairs_same [of k1 k] by (intro grows_same) simp_all
  have s1: "settles k k1" using f1 by (intro settles_same) simp_all
  have kinv: "kcp_inv k" using rx by (simp add: rx_inv_def)
  have "input_step (genuine L) k k1" unfolding k1_def by (rule input_una_step [OF kinv])
  then have rx1: "rx_inv L p k1" by (rule rx_step [OF L' rx])
  note def = input_seg_def [of mem k "header_of s" "sg_data s" fm, folded k1_def, unfolded Let_def, folded k1_def]
  have cmd: "ucast (h_cmd (header_of s)) = sg_cmd s" by (rule header_of_cmd [OF w(1)])
  have "grows k k' \<and> settles k k' \<and> (sg_cmd s = IKCP_CMD_PUSH \<and> in_window k (sg_sn s) \<longrightarrow>
    (sg_sn s, sg_ts s) \<in> set (ack_pairs k') \<and> holds k' (sg_sn s))"
  proof (cases "sg_cmd s = IKCP_CMD_PUSH")
    case True
    then have p: "input_push mem k1 (header_of s) (sg_data s) = Some k'"
      using s unfolding def cmd by (auto split: option.splits)
    have len: "unat (h_len (header_of s)) = length (sg_data s)" by (rule header_of_len [OF w(1)])
    have P: "genuine L (h_sn (header_of s), ucast (h_frg (header_of s)), sg_data s)"
      using w(2) True unfolding genuine_wire_def header_fields by blast
    have c1: "unat (ackcount k1) < 2 ^ 30" "length L + unat (rcv_wnd k1) < 2 ^ 31" using cnt L f1 by simp_all
    note r = push_receives [OF c1(2) rx1 c1(1) mem len w(3) P p]
    then show ?thesis using grows_trans [OF g1 r(1)] settles_trans [OF s1 r(1,3)] f1 by (simp add: in_window_def header_fields)
  next
    case False
    have "rcv_nxt k' = rcv_nxt k1 \<and> rcv_buf k' = rcv_buf k1 \<and> rcv_wnd k' = rcv_wnd k1 \<and> acklist k' = acklist k1 \<and>
        ackcount k' = ackcount k1 \<and> updated k' = updated k1 \<and> nrcv_que k' = nrcv_que k1 \<and> ts_flush k' = ts_flush k1"
      using s False unfolding def cmd
      by (auto simp: input_ack_def Let_def split: if_splits prod.splits)
    then have "grows k1 k'" "settles k1 k'" using ack_pairs_same [of k' k1] by (auto intro: grows_same settles_same)
    then show ?thesis using grows_trans [OF g1] settles_trans [OF s1] False by simp
  qed
  then show "grows k k'" and "settles k k'" and "sg_cmd s = IKCP_CMD_PUSH \<and> in_window k (sg_sn s) \<Longrightarrow>
    (sg_sn s, sg_ts s) \<in> set (ack_pairs k') \<and> holds k' (sg_sn s)" by blast+
qed

interpretation receiver: input_effect "rx_ready L p" "genuine_wire L" "\<lambda>k k'. grows k k' \<and> settles k k'"
  "\<lambda>k s. (sg_sn s, sg_ts s) \<in> set (ack_pairs k) \<and> holds k (sg_sn s)"
  "\<lambda>k s. sg_cmd s = IKCP_CMD_PUSH \<and> in_window k (sg_sn s)" for L p
proof unfold_locales
  show "rx_ready L p k \<Longrightarrow> kcp_inv k" for k by (simp add: rx_ready_def rx_inv_def)
  show "grows k k \<and> settles k k" for k by (simp add: grows_same settles_same)
  show "grows k1 k2 \<and> settles k1 k2 \<Longrightarrow> grows k2 k3 \<and> settles k2 k3 \<Longrightarrow> grows k1 k3 \<and> settles k1 k3" for k1 k2 k3
    using grows_trans settles_trans by blast
  show "grows k k' \<and> settles k k' \<Longrightarrow> (sg_sn s, sg_ts s) \<in> set (ack_pairs k) \<and> holds k (sg_sn s) \<Longrightarrow>
      (sg_sn s, sg_ts s) \<in> set (ack_pairs k') \<and> holds k' (sg_sn s)" for k k' s
    unfolding grows_def by blast
  show "grows k k' \<and> settles k k' \<Longrightarrow> sg_cmd s = IKCP_CMD_PUSH \<and> in_window k (sg_sn s) \<Longrightarrow>
      sg_cmd s = IKCP_CMD_PUSH \<and> in_window k' (sg_sn s)" for k k' s
    by (simp add: grows_def in_window_def)
next
  fix k s mem fm k' fm'
  assume a: "rx_ready L p k" "wire_seg (conv k) s" "genuine_wire L s" "length (sg_data s) < 2 ^ 31"
    "unat (ackcount k) < 2 ^ 30" "fst mem \<noteq> None" "snd mem \<noteq> None"
    "input_seg mem k (header_of s) (sg_data s) fm = Some (Inr (k', fm'))"
  note g = input_seg_grows [OF a]
  have kinv: "kcp_inv k" and L: "length L < 2 ^ 31" using a(1) by (simp_all add: rx_ready_def rx_inv_def)
  have n: "unat (h_len (header_of s)) \<le> length (sg_data s)" "unat (h_len (header_of s)) < 2 ^ 31"
    using header_of_len [OF a(2)] a(4) by simp_all
  have P: "genuine L (h_sn (header_of s), ucast (h_frg (header_of s)), take (unat (h_len (header_of s))) (sg_data s))"
    if "ucast (h_cmd (header_of s)) = IKCP_CMD_PUSH"
    using a(3) that header_of_cmd [OF a(2)] header_of_len [OF a(2)] by (simp add: genuine_wire_def header_fields)
  have "input_step (genuine L) k k'"
    using input_seg_step [OF kinv a(5-7) n, of "genuine L" fm] P a(8) by auto
  then have "rx_inv L p k'" by (rule rx_step [OF L, rotated]) (use a(1) in \<open>simp add: rx_ready_def\<close>)
  then show "rx_ready L p k' \<and> (grows k k' \<and> settles k k') \<and> (sg_cmd s = IKCP_CMD_PUSH \<and> in_window k (sg_sn s) \<longrightarrow>
      (sg_sn s, sg_ts s) \<in> set (ack_pairs k') \<and> holds k' (sg_sn s))"
    using g a(1) by (auto simp: rx_ready_def grows_def)
next
  fix k una flag maxack k'
  assume a: "rx_ready L p k" "input_cwnd una (if flag then ikcp_parse_fastack k maxack else k) = Some k'"
  have kinv: "kcp_inv k" and L: "length L < 2 ^ 31" using a(1) by (simp_all add: rx_ready_def rx_inv_def)
  note f = finish_frame [OF kinv a(2)]
  obtain k2 where k2: "input_cwnd una (if flag then ikcp_parse_fastack k maxack else k) = Some k2"
    "input_step (genuine L) k k2" by (rule input_finish [OF kinv])
  then have "input_step (genuine L) k k'" using a(2) by simp
  then have "rx_inv L p k'" by (rule rx_step [OF L, rotated]) (use a(1) in \<open>simp add: rx_ready_def\<close>)
  moreover have "grows k k'" "settles k k'" using f ack_pairs_same [of k' k] by (auto intro: grows_same settles_same)
  ultimately show "rx_ready L p k' \<and> grows k k' \<and> settles k k'" using a(1) f(4) by (simp add: rx_ready_def)
qed

section \<open>The sender\<close>

definition acked :: "IKCPCB \<Rightarrow> IKCPSEG \<Rightarrow> bool" where
  "acked k s \<longleftrightarrow> sg_sn s \<notin> sg_sn ` set (snd_buf k)"

definition sns_shrink :: "IKCPCB \<Rightarrow> IKCPCB \<Rightarrow> bool" where
  "sns_shrink k k' \<longleftrightarrow> sg_sn ` set (snd_buf k') \<subseteq> sg_sn ` set (snd_buf k) \<and> snd_queue k' = snd_queue k"

lemma sns_shrinkI: "snd_shrinks k k' \<Longrightarrow> sns_shrink k k'"
proof -
  have e: "sg_sn ` A = fst ` seg_id ` A" for A by (simp add: seg_id_def image_image)
  show "snd_shrinks k k' \<Longrightarrow> sns_shrink k k'" unfolding sns_shrink_def snd_shrinks_def e by blast
qed

lemma input_seg_acks:
  assumes kinv: "kcp_inv k" and w: "wire_seg (conv k) s" and c: "sg_cmd s = IKCP_CMD_ACK"
    and s: "input_seg mem k (header_of s) (sg_data s) fm = Some (Inr (k', fm'))"
  shows "acked k' s"
proof -
  define k1 where "k1 = ikcp_shrink_buf (ikcp_parse_una (k\<lparr>rmt_wnd := ucast (h_wnd (header_of s))\<rparr>) (h_una (header_of s)))"
  have "input_step (\<lambda>_. True) k k1" unfolding k1_def by (rule input_una_step [OF kinv])
  then have inv1: "kcp_inv k1" by (simp add: input_step_def)
  note def = input_seg_def [of mem k "header_of s" "sg_data s" fm, folded k1_def, unfolded Let_def, folded k1_def]
  define k2 where "k2 = (if itimediff (current k1) (h_ts (header_of s)) \<ge> 0
    then ikcp_update_ack k1 (itimediff (current k1) (h_ts (header_of s))) else k1)"
  have inv2: "kcp_inv k2" using inv1 by (simp add: k2_def update_ack_kcp_inv)
  have "Some (Inr (input_ack k1 (h_ts (header_of s)) (h_sn (header_of s)) fm)) = Some (Inr (k', fm'))"
    using s c unfolding def header_of_cmd [OF w] by simp
  then have "k' = fst (input_ack k1 (h_ts (header_of s)) (h_sn (header_of s)) fm)" by simp
  then have "k' = ikcp_shrink_buf (ikcp_parse_ack k2 (sg_sn s))"
    unfolding input_ack_state k2_def header_fields .
  then have "snd_buf k' = filter (\<lambda>x. sg_sn x \<noteq> sg_sn s) (snd_buf k2)"
    by (simp add: parse_ack_filter [OF kcp_invD(1) [OF inv2]])
  then show ?thesis by (auto simp: acked_def)
qed

interpretation sender: input_effect kcp_inv "\<lambda>_. True" sns_shrink acked "\<lambda>k s. sg_cmd s = IKCP_CMD_ACK"
proof unfold_locales
  show "sns_shrink k k" for k by (simp add: sns_shrink_def)
  show "sns_shrink k1 k2 \<Longrightarrow> sns_shrink k2 k3 \<Longrightarrow> sns_shrink k1 k3" for k1 k2 k3
    using order_trans [of "sg_sn ` set (snd_buf k3)" "sg_sn ` set (snd_buf k2)" "sg_sn ` set (snd_buf k1)"]
    by (simp add: sns_shrink_def)
  show "sns_shrink k k' \<Longrightarrow> acked k s \<Longrightarrow> acked k' s" for k k' s by (auto simp: sns_shrink_def acked_def)
next
  fix k s mem fm k' fm'
  assume a: "kcp_inv k" "wire_seg (conv k) s" "True" "length (sg_data s) < 2 ^ 31"
    "unat (ackcount k) < 2 ^ 30" "fst mem \<noteq> None" "snd mem \<noteq> None"
    "input_seg mem k (header_of s) (sg_data s) fm = Some (Inr (k', fm'))"
  have n: "unat (h_len (header_of s)) \<le> length (sg_data s)" "unat (h_len (header_of s)) < 2 ^ 31"
    using header_of_len [OF a(2)] a(4) by simp_all
  have "input_step (\<lambda>_. True) k k'"
    using input_seg_step [OF a(1,5-7) n, of "\<lambda>_. True" fm] a(8) by auto
  then show "kcp_inv k' \<and> sns_shrink k k' \<and> (sg_cmd s = IKCP_CMD_ACK \<longrightarrow> acked k' s)"
    using input_seg_acks [OF a(1,2) _ a(8)] by (simp add: input_step_def sns_shrinkI)
next
  fix k una flag maxack k'
  assume a: "kcp_inv k" "input_cwnd una (if flag then ikcp_parse_fastack k maxack else k) = Some k'"
  obtain k2 where "input_cwnd una (if flag then ikcp_parse_fastack k maxack else k) = Some k2"
    "input_step (\<lambda>_. True) k k2" by (rule input_finish [OF a(1)])
  then show "kcp_inv k' \<and> sns_shrink k k'" using a(2) by (simp add: input_step_def sns_shrinkI)
qed simp_all

section \<open>One exchange\<close>

text \<open>The state after the receiver was fed what the sender flushed.\<close>

lemma flush_feed:
  assumes F: "\<forall>f \<in> set F. frags_ok f" and L: "length (concat F) + unat (rcv_wnd b) < 2 ^ 31"
    and tx': "tx_inv (concat F) k1" and rx: "rx_inv (concat F) p b" and w: "flush_wire k k1 outs"
    and c: "conv k = c" "conv k1 = c" "conv b = c" and mem: "input_alloc mem"
    and cnt: "unat (ackcount b) + length (concat outs) < 2 ^ 30"
  obtains k2 where "feed mem b outs = Some k2" and "rx_ready (concat F) p k2" and "grows b k2" and "settles b k2" and "conv k2 = c"
    and "unat (ackcount k2) < 2 ^ 30"
    and "\<forall>sn \<in> sg_sn ` set (snd_buf k1). (sn \<notin> sg_sn ` set (snd_buf k) \<or>
        (\<exists>s \<in> set (snd_buf k). sg_sn s = sn \<and> (sg_xmit s = 0 \<or> itimediff (current k1) (sg_resendts s) \<ge> 0))) \<and>
      in_window b sn \<longrightarrow> sn \<in> fst ` set (ack_pairs k2) \<and> holds k2 sn"
proof -
  have k1: "kcp_inv k1" using tx' by (simp add: tx_inv_def)
  obtain gs sent where g: "outs = map wires gs"
    "\<forall>g \<in> set gs. g \<noteq> [] \<and> (\<forall>s \<in> set g. wire_seg c s \<and> (sg_cmd s = IKCP_CMD_PUSH \<longrightarrow> s \<in> set (snd_buf k1)))"
    "set sent \<subseteq> set (concat gs)" "set sent \<subseteq> set (snd_buf k1)" "flush_covers k k1 sent"
    by (rule flush_groups [OF k1 w c(1,2)])
  have gen: "genuine_wire (concat F) s" if "s \<in> set (snd_buf k1)" for s
    using genuine_pushed [OF F] tx' that by (simp add: genuine_wire_def tx_inv_def)
  have W: "\<forall>g \<in> set gs. g \<noteq> [] \<and> (\<forall>s \<in> set g. wire_seg (conv b) s \<and> genuine_wire (concat F) s)"
  proof
    fix g' assume "g' \<in> set gs"
    then have "g' \<noteq> [] \<and> (\<forall>s \<in> set g'. wire_seg c s \<and> (sg_cmd s = IKCP_CMD_PUSH \<longrightarrow> s \<in> set (snd_buf k1)))" using g(2) by blast
    then show "g' \<noteq> [] \<and> (\<forall>s \<in> set g'. wire_seg (conv b) s \<and> genuine_wire (concat F) s)"
      using gen c(3) by (auto simp: genuine_wire_def)
  qed
  have ready: "rx_ready (concat F) p b" using rx L by (simp add: rx_ready_def)
  obtain k2 where k2: "feed mem b (map wires gs) = Some k2" "rx_ready (concat F) p k2" "grows b k2" "settles b k2" "conv k2 = conv b"
    "unat (ackcount k2) < 2 ^ 30"
    "\<forall>s \<in> set (concat gs). sg_cmd s = IKCP_CMD_PUSH \<and> in_window b (sg_sn s) \<longrightarrow>
      (sg_sn s, sg_ts s) \<in> set (ack_pairs k2) \<and> holds k2 (sg_sn s)"
    using receiver.feeds [OF ready mem W] cnt g(1) by blast
  have "sn \<in> fst ` set (ack_pairs k2) \<and> holds k2 sn"
    if sn: "sn \<in> sg_sn ` set (snd_buf k1)" "in_window b sn"
      and d: "sn \<notin> sg_sn ` set (snd_buf k) \<or>
        (\<exists>s \<in> set (snd_buf k). sg_sn s = sn \<and> (sg_xmit s = 0 \<or> itimediff (current k1) (sg_resendts s) \<ge> 0))" for sn
  proof -
    have "sn \<in> sg_sn ` set sent" using g(5) sn(1) d unfolding flush_covers_def by blast
    then obtain s where s: "s \<in> set sent" "sg_sn s = sn" by blast
    then have "sg_cmd s = IKCP_CMD_PUSH" using g(4) kcp_invD(5) [OF k1] by (auto simp: segs_inv_def sent_ok_def)
    then have "(sn, sg_ts s) \<in> set (ack_pairs k2)" "holds k2 sn" using k2(7) g(3) s sn(2) by blast+
    then show ?thesis by force
  qed
  then have "\<forall>sn \<in> sg_sn ` set (snd_buf k1). (sn \<notin> sg_sn ` set (snd_buf k) \<or>
        (\<exists>s \<in> set (snd_buf k). sg_sn s = sn \<and> (sg_xmit s = 0 \<or> itimediff (current k1) (sg_resendts s) \<ge> 0))) \<and>
      in_window b sn \<longrightarrow> sn \<in> fst ` set (ack_pairs k2) \<and> holds k2 sn" by blast
  then show ?thesis using that [of k2] k2(1-6) unfolding g(1) c(3) by blast
qed

lemma flush_feed_acks:
  assumes inv: "kcp_inv k3" "kcp_inv a" and w: "flush_wire k2 k3 outs" and c: "conv k2 = c" "conv k3 = c" "conv a = c"
    and mem: "input_alloc mem" and cnt: "unat (ackcount a) + length (concat outs) < 2 ^ 30"
  obtains k4 where "feed mem a outs = Some k4" and "kcp_inv k4" and "conv k4 = c"
    and "\<forall>sn \<in> fst ` set (ack_pairs k2). sn \<notin> sg_sn ` set (snd_buf k4)" and "sns_shrink a k4"
proof -
  obtain gs where g: "outs = map wires gs"
    "\<forall>g \<in> set gs. g \<noteq> [] \<and> (\<forall>s \<in> set g. wire_seg c s \<and> (sg_cmd s = IKCP_CMD_PUSH \<longrightarrow> s \<in> set (snd_buf k3)))"
    "\<forall>p \<in> set (ack_pairs k2). ack_seg (flush_seg k2) p \<in> set (concat gs)"
    by (rule flush_groups [OF inv(1) w c(1,2)])
  have W: "\<forall>g \<in> set gs. g \<noteq> [] \<and> (\<forall>s \<in> set g. wire_seg (conv a) s \<and> True)" using g(2) c(3) by blast
  obtain k4 where k4: "feed mem a (map wires gs) = Some k4" "kcp_inv k4" "conv k4 = conv a"
    "\<forall>s \<in> set (concat gs). sg_cmd s = IKCP_CMD_ACK \<longrightarrow> acked k4 s" "sns_shrink a k4"
    using sender.feeds [OF inv(2) mem W] cnt g(1) by blast
  have "sn \<notin> sg_sn ` set (snd_buf k4)" if sn: "sn \<in> fst ` set (ack_pairs k2)" for sn
  proof -
    obtain ts where p: "(sn, ts) \<in> set (ack_pairs k2)" using sn by auto
    have "sg_cmd (ack_seg (flush_seg k2) (sn, ts)) = IKCP_CMD_ACK" by (simp add: ack_seg_def flush_seg_def)
    then have "acked k4 (ack_seg (flush_seg k2) (sn, ts))" using k4(4) g(3) p by blast
    then show ?thesis by (simp add: acked_def ack_seg_def)
  qed
  then have "\<forall>sn \<in> fst ` set (ack_pairs k2). sn \<notin> sg_sn ` set (snd_buf k4)" by blast
  then show ?thesis using that [of k4] k4(1-3,5) unfolding g(1) c(3) by blast
qed

text \<open>
  The traffic of an exchange stays below the bound \<open>2^30\<close> that keeps the number of pending
  acknowledgements inside an \<open>int\<close>.
\<close>

definition calm :: "(nat \<Rightarrow> input_mem) \<Rightarrow> u32 \<Rightarrow> u32 \<Rightarrow> IKCPCB \<Rightarrow> IKCPCB \<Rightarrow> bool" where
  "calm mem cur cur' a b \<longleftrightarrow>
     unat (ackcount a) < 2 ^ 31 \<and>
     (\<forall>a' outs. ikcp_update a cur = Some (a', outs) \<longrightarrow> unat (ackcount b) + length (concat outs) < 2 ^ 30 \<and>
       (\<forall>b' b'' outs2. feed mem b outs = Some b' \<longrightarrow> ikcp_update b' cur' = Some (b'', outs2) \<longrightarrow>
         length (concat outs2) < 2 ^ 30))"

lemma grows_due: "grows k k' \<Longrightarrow> update_due k' cur = update_due k cur"
  by (simp add: grows_def update_due_def)

text \<open>
  Progress. In any state of a transfer one exchange without losses, an update of the sender
  whose flush timer is due, the receiver's input, its update and the sender's input, delivers
  and acknowledges every segment that is new, was never sent or ran into its timeout and that
  the receiver's window admits: afterwards it is not in \<open>snd_buf\<close> and the receiver has it.
\<close>

theorem exchange_progress:
  assumes "fresh c a" and "fresh c b" and "link_step\<^sup>*\<^sup>* (link_start a b) l" and "nseg l + unat (rcv_wnd (rx l)) < 2 ^ 31"
    and "update_due (tx l) cur" and "update_due (rx l) cur'" and "input_alloc mem" and "input_alloc mem'"
    and "calm mem cur cur' (tx l) (rx l)"
  shows "\<exists>k1 outs k2 k3 outs2 k4. ikcp_update (tx l) cur = Some (k1, outs) \<and> feed mem (rx l) outs = Some k2 \<and>
    ikcp_update k2 cur' = Some (k3, outs2) \<and> feed mem' k1 outs2 = Some k4 \<and>
    (\<forall>sn \<in> sg_sn ` set (snd_buf k1).
       (sn \<notin> sg_sn ` set (snd_buf (tx l)) \<or> (\<exists>s \<in> set (snd_buf (tx l)). sg_sn s = sn \<and>
          (sg_xmit s = 0 \<or> itimediff cur (sg_resendts s) \<ge> 0))) \<and>
       unat sn < unat (rcv_nxt (rx l)) + unat (rcv_wnd (rx l)) \<longrightarrow>
       sn \<notin> sg_sn ` set (snd_buf k4) \<and> (unat sn < unat (rcv_nxt k3) \<or> sn \<in> sg_sn ` set (rcv_buf k3)))"
proof -
  have n: "nseg l < 2 ^ 31" using assms(4) by simp
  have inv: "link_inv c l" by (rule link_reachable_inv [OF assms(3) link_start_inv [OF assms(1,2)] n])
  obtain F m where F: "conv (tx l) = c" "conv (rx l) = c" "\<forall>f \<in> set F. frags_ok f" "nseg l = length (concat F)"
    "tx_inv (concat F) (tx l)" "rx_inv (concat F) (length (concat (take m F))) (rx l)"
    by (rule link_invE [OF inv])
  have t: "kcp_inv (tx l)" "output_cb (tx l)" using F(5) by (simp_all add: tx_inv_def)
  have cnt: "unat (ackcount (tx l)) < 2 ^ 31" using assms(9) by (simp add: calm_def)
  obtain k1 outs where k1: "ikcp_update (tx l) cur = Some (k1, outs)" "kcp_inv k1" "flush_sends (tx l) k1"
    "flush_wire (tx l) k1 outs" "output_cb k1" "current k1 = cur" "ackcount k1 = 0"
    by (rule ikcp_update_flushes [OF t cnt assms(5)])
  have cv: "conv k1 = c" using k1(3) F(1) by (simp add: flush_sends_def)
  have L: "length (concat F) < 2 ^ 31" "length (concat F) + unat (rcv_wnd (rx l)) < 2 ^ 31" using assms(4) F(4) by simp_all
  have tx1: "tx_inv (concat F) k1" by (rule tx_flush [OF F(5) L(1) k1(3,2,5)])
  have c1: "unat (ackcount (rx l)) + length (concat outs) < 2 ^ 30" using assms(9) k1(1) by (simp add: calm_def)
  obtain k2 where k2: "feed mem (rx l) outs = Some k2" "rx_ready (concat F) (length (concat (take m F))) k2"
    "grows (rx l) k2" "settles (rx l) k2" "conv k2 = c" "unat (ackcount k2) < 2 ^ 30"
    "\<forall>sn \<in> sg_sn ` set (snd_buf k1). (sn \<notin> sg_sn ` set (snd_buf (tx l)) \<or>
        (\<exists>s \<in> set (snd_buf (tx l)). sg_sn s = sn \<and> (sg_xmit s = 0 \<or> itimediff (current k1) (sg_resendts s) \<ge> 0))) \<and>
      in_window (rx l) sn \<longrightarrow> sn \<in> fst ` set (ack_pairs k2) \<and> holds k2 sn"
    by (rule flush_feed [OF F(3) L(2) tx1 F(6) k1(4) F(1) cv F(2) assms(7) c1])
  have r: "kcp_inv k2" "output_cb k2" "unat (ackcount k2) < 2 ^ 31" "update_due k2 cur'"
    using k2(2,6) assms(6) grows_due [OF k2(3)] by (simp_all add: rx_ready_def rx_inv_def)
  obtain k3 outs2 where k3: "ikcp_update k2 cur' = Some (k3, outs2)" "kcp_inv k3" "flush_sends k2 k3" "flush_wire k2 k3 outs2"
    by (rule ikcp_update_flushes [OF r])
  have f3: "conv k3 = c" "rcv_nxt k3 = rcv_nxt k2" "rcv_buf k3 = rcv_buf k2" using k3(3) k2(5) by (simp_all add: flush_sends_def)
  have c2: "unat (ackcount k1) + length (concat outs2) < 2 ^ 30"
    using assms(9) k1(1,7) k2(1) k3(1) unfolding calm_def by fastforce
  obtain k4 where k4: "feed mem' k1 outs2 = Some k4" "\<forall>sn \<in> fst ` set (ack_pairs k2). sn \<notin> sg_sn ` set (snd_buf k4)"
    by (rule flush_feed_acks [OF k3(2) k1(2) k3(4) k2(5) f3(1) cv assms(8) c2])
  show ?thesis
  proof (intro exI conjI)
    show "ikcp_update (tx l) cur = Some (k1, outs)" "feed mem (rx l) outs = Some k2" "ikcp_update k2 cur' = Some (k3, outs2)"
      "feed mem' k1 outs2 = Some k4" by (rule k1(1) k2(1) k3(1) k4(1))+
    show "\<forall>sn \<in> sg_sn ` set (snd_buf k1).
       (sn \<notin> sg_sn ` set (snd_buf (tx l)) \<or> (\<exists>s \<in> set (snd_buf (tx l)). sg_sn s = sn \<and>
          (sg_xmit s = 0 \<or> itimediff cur (sg_resendts s) \<ge> 0))) \<and>
       unat sn < unat (rcv_nxt (rx l)) + unat (rcv_wnd (rx l)) \<longrightarrow>
       sn \<notin> sg_sn ` set (snd_buf k4) \<and> (unat sn < unat (rcv_nxt k3) \<or> sn \<in> sg_sn ` set (rcv_buf k3))"
      using k2(7) k4(2) unfolding in_window_def holds_def k1(6) f3(2,3) by blast
  qed
qed

text \<open>A link on which both sides were updated once and a message is queued.\<close>

definition go_rx :: IKCPCB where
  "go_rx = fst (the (ikcp_update demo_kcb 100))"

definition go_tx :: IKCPCB where
  "go_tx = snd (the (ikcp_send demo_mem go_rx (Some [1, 2, 3]) 3))"

text \<open>The datagram of the sender's update at time 200.\<close>

definition go_dgram :: "byte list" where
  "go_dgram = [7, 0, 0, 0, 81, 0, 32, 0, 200, 0, 0, 0, 0, 0, 0, 0, 0, 0, 0, 0, 3, 0, 0, 0, 1, 2, 3]"

definition go_link :: link where
  "go_link = \<lparr>tx = go_tx, rx = go_rx, net = {}, msgs = [[1, 2, 3]], got = [], nseg = 1\<rparr>"

lemma go_update: "ikcp_update demo_kcb 100 = Some (go_rx, [])"
  "length (snd_queue go_rx) = 0" "updated go_rx = 1" "ackcount go_rx = 0" "rcv_nxt go_rx = 0" "rcv_wnd go_rx = 32"
  "ts_flush go_rx = 200"
proof -
  have "map_option (\<lambda>(k, outs). (outs, length (snd_queue k), updated k, ackcount k, rcv_nxt k, rcv_wnd k, ts_flush k))
    (ikcp_update demo_kcb 100) = Some ([], 0, 1, 0, 0, 32, 200)" by code_simp
  then show "ikcp_update demo_kcb 100 = Some (go_rx, [])"
    "length (snd_queue go_rx) = 0" "updated go_rx = 1" "ackcount go_rx = 0" "rcv_nxt go_rx = 0" "rcv_wnd go_rx = 32"
    "ts_flush go_rx = 200"
    by (auto simp: go_rx_def)
qed

lemma go_send: "ikcp_send demo_mem go_rx (Some [1, 2, 3]) 3 = Some (0, go_tx)"
  "length (snd_queue go_tx) = 1" "length (snd_buf go_tx) = 0" "updated go_tx = 1" "ackcount go_tx = 0" "ts_flush go_tx = 200"
proof -
  have "map_option (\<lambda>(r, k). (r, length (snd_queue k), length (snd_buf k), updated k, ackcount k, ts_flush k))
    (ikcp_send demo_mem go_rx (Some [1, 2, 3]) 3) = Some (0, 1, 0, 1, 0, 200)" by code_simp
  then show "ikcp_send demo_mem go_rx (Some [1, 2, 3]) 3 = Some (0, go_tx)"
    "length (snd_queue go_tx) = 1" "length (snd_buf go_tx) = 0" "updated go_tx = 1" "ackcount go_tx = 0" "ts_flush go_tx = 200"
    by (auto simp: go_tx_def)
qed

lemmas go_fields = go_update(2-) go_send(2-)

lemma go_steps: "link_step\<^sup>*\<^sup>* (link_start demo_kcb demo_kcb) go_link"
proof -
  define l0 where "l0 = link_start demo_kcb demo_kcb"
  define l1 where "l1 = l0\<lparr>tx := go_rx\<rparr>"
  define l2 where "l2 = l1\<lparr>rx := go_rx\<rparr>"
  note d = l0_def l1_def l2_def link_start_def
  have s1: "link_step l0 l1"
    using link_step.tx_update [of l0 100 go_rx "[]"] go_update(1,4) by (simp add: d)
  have s2: "link_step l1 l2"
    using link_step.rx_update [of l1 100 go_rx "[]"] go_update(1,4) by (simp add: d)
  have s3: "link_step l2 go_link"
    using link_step.send [of demo_mem "[1, 2, 3]" l2 0 go_tx] go_send(1,2) go_update(2) by (simp add: d demo_mem_def go_link_def)
  have "link_step\<^sup>*\<^sup>* l0 go_link"
    by (rule converse_rtranclp_into_rtranclp [of link_step, OF s1] converse_rtranclp_into_rtranclp [of link_step, OF s2]
      r_into_rtranclp [of link_step, OF s3])+
  then show ?thesis by (simp add: l0_def)
qed

lemma go_flush: "map_option (\<lambda>(k, outs). (outs, map sg_sn (snd_buf k))) (ikcp_update go_tx 200) = Some ([go_dgram], [0])"
  by code_simp

lemma go_feed: "map_option (\<lambda>(k, outs). length (concat outs)) (do { k \<leftarrow> feed demo_alloc go_rx [go_dgram]; ikcp_update k 200 }) = Some 24"
  by code_simp

lemma go_calm: "calm demo_alloc 200 200 go_tx go_rx"
proof -
  have "length (concat outs2) = 24" if "feed demo_alloc go_rx [go_dgram] = Some b'" "ikcp_update b' 200 = Some (b'', outs2)" for b' b'' outs2
    using go_feed by (simp only: that bind.bind_lunit option.map prod.case option.inject)
  moreover have "outs = [go_dgram]" if "ikcp_update go_tx 200 = Some (k, outs)" for k outs using go_flush that by simp
  ultimately show ?thesis by (fastforce simp: calm_def go_fields go_dgram_def)
qed

theorem exchange_progress_witness:
  "link_step\<^sup>*\<^sup>* (link_start demo_kcb demo_kcb) go_link \<and>
   (\<exists>k1 k2 k3 outs2 k4. ikcp_update (tx go_link) 200 = Some (k1, [go_dgram]) \<and> map sg_sn (snd_buf k1) = [0] \<and>
      feed demo_alloc (rx go_link) [go_dgram] = Some k2 \<and> ikcp_update k2 200 = Some (k3, outs2) \<and>
      feed demo_alloc k1 outs2 = Some k4 \<and> 0 \<notin> sg_sn ` set (snd_buf k4))"
proof -
  have al: "input_alloc demo_alloc" by (simp add: input_alloc_def demo_alloc_def)
  have f: "nseg go_link + unat (rcv_wnd (rx go_link)) < 2 ^ 31" "update_due (tx go_link) 200" "update_due (rx go_link) 200"
    "calm demo_alloc 200 200 (tx go_link) (rx go_link)"
    by (simp_all add: go_link_def go_fields go_calm update_due_def itimediff_def)
  have w: "rcv_nxt (rx go_link) = 0" "rcv_wnd (rx go_link) = 32" "snd_buf (tx go_link) = []"
    using go_update(5,6) go_send(3) by (simp_all add: go_link_def)
  obtain k1 outs k2 k3 outs2 k4 where e: "ikcp_update (tx go_link) 200 = Some (k1, outs)" "feed demo_alloc (rx go_link) outs = Some k2"
    "ikcp_update k2 200 = Some (k3, outs2)" "feed demo_alloc k1 outs2 = Some k4"
    "\<forall>sn \<in> sg_sn ` set (snd_buf k1). (sn \<notin> sg_sn ` set ([] :: IKCPSEG list) \<or> (\<exists>s \<in> set ([] :: IKCPSEG list). sg_sn s = sn \<and>
          (sg_xmit s = 0 \<or> itimediff 200 (sg_resendts s) \<ge> 0))) \<and> unat sn < unat (0 :: u32) + unat (32 :: u32) \<longrightarrow>
       sn \<notin> sg_sn ` set (snd_buf k4) \<and> (unat sn < unat (rcv_nxt k3) \<or> sn \<in> sg_sn ` set (rcv_buf k3))"
    using exchange_progress [OF demo_fresh demo_fresh go_steps f(1-3) al al f(4)] unfolding w
    by (elim exE conjE) (rule that)
  have k1: "outs = [go_dgram]" "map sg_sn (snd_buf k1) = [0]" using go_flush e(1) by (simp_all add: go_link_def)
  have "0 \<in> set (map sg_sn (snd_buf k1))" unfolding k1(2) by simp
  then have "0 \<in> sg_sn ` set (snd_buf k1)" by simp
  from bspec [OF e(5) this] have z: "0 \<notin> sg_sn ` set (snd_buf k4)" by simp
  show ?thesis
    by (intro conjI exI [of _ k1] exI [of _ k2] exI [of _ k3] exI [of _ outs2] exI [of _ k4])
      (rule go_steps e(1-4) [unfolded k1(1)] k1(2) z)+
qed

end
