(* ===== verification/Ikcp_Duplex.thy ===== *)
theory Ikcp_Duplex
  imports Ikcp_Progress
begin

text \<open>
  Two engines connected in both directions: what the sender is fed are datagrams the receiver
  emitted, again lost, repeated, delayed and reordered at will. Here an acknowledgement is
  always one of a segment that arrived, so no segment is given up before it did. Together with
  the progress of a loss-free exchange this gives complete delivery: once every segment in
  flight is due and the windows have room, one exchange without losses brings every message
  accepted so far to the user, and the send buffer is empty.
\<close>

section \<open>The transition system\<close>

record duplex =
  lk :: link
  echoes :: "byte list set"

text \<open>The steps of \<open>link_step\<close>; \<open>echoes\<close> is the network from the receiver to the sender.\<close>

inductive duplex_step :: "duplex \<Rightarrow> duplex \<Rightarrow> bool" where
  send: "(\<And>j. mem j \<noteq> None) \<Longrightarrow> length b < 2 ^ 31 \<Longrightarrow>
    ikcp_send mem (tx l) (Some b) (int (length b)) = Some (r, k) \<Longrightarrow>
    duplex_step \<lparr>lk = l, echoes = B\<rparr> \<lparr>lk = l\<lparr>tx := k, msgs := msgs l @ (if r = 0 then [b] else []),
      nseg := nseg l + (length (snd_queue k) - length (snd_queue (tx l)))\<rparr>, echoes = B\<rparr>"
| tx_update: "unat (ackcount (tx l)) < 2 ^ 31 \<Longrightarrow> ikcp_update (tx l) cur = Some (k, outs) \<Longrightarrow>
    duplex_step \<lparr>lk = l, echoes = B\<rparr> \<lparr>lk = l\<lparr>tx := k, net := net l \<union> set outs\<rparr>, echoes = B\<rparr>"
| tx_input: "d \<in> B \<Longrightarrow> input_alloc mem \<Longrightarrow> unat (ackcount (tx l)) + length d < 2 ^ 30 \<Longrightarrow>
    ikcp_input mem (tx l) (Some d) (int (length d)) = Some (r, k) \<Longrightarrow>
    duplex_step \<lparr>lk = l, echoes = B\<rparr> \<lparr>lk = l\<lparr>tx := k\<rparr>, echoes = B\<rparr>"
| tx_recv: "ikcp_recv (tx l) True len = Some (r, d, k) \<Longrightarrow>
    duplex_step \<lparr>lk = l, echoes = B\<rparr> \<lparr>lk = l\<lparr>tx := k\<rparr>, echoes = B\<rparr>"
| deliver: "d \<in> net l \<Longrightarrow> input_alloc mem \<Longrightarrow> unat (ackcount (rx l)) + length d < 2 ^ 30 \<Longrightarrow>
    ikcp_input mem (rx l) (Some d) (int (length d)) = Some (r, k) \<Longrightarrow>
    duplex_step \<lparr>lk = l, echoes = B\<rparr> \<lparr>lk = l\<lparr>rx := k\<rparr>, echoes = B\<rparr>"
| rx_update: "unat (ackcount (rx l)) < 2 ^ 31 \<Longrightarrow> ikcp_update (rx l) cur = Some (k, outs) \<Longrightarrow>
    duplex_step \<lparr>lk = l, echoes = B\<rparr> \<lparr>lk = l\<lparr>rx := k\<rparr>, echoes = B \<union> set outs\<rparr>"
| rx_send: "(\<And>j. mem j \<noteq> None) \<Longrightarrow> length b < 2 ^ 31 \<Longrightarrow>
    ikcp_send mem (rx l) (Some b) (int (length b)) = Some (r, k) \<Longrightarrow>
    duplex_step \<lparr>lk = l, echoes = B\<rparr> \<lparr>lk = l\<lparr>rx := k\<rparr>, echoes = B\<rparr>"
| recv: "ikcp_recv (rx l) True len = Some (r, d, k) \<Longrightarrow>
    duplex_step \<lparr>lk = l, echoes = B\<rparr> \<lparr>lk = l\<lparr>rx := k, got := got l @ (if r \<ge> 0 \<and> len \<ge> 0 then [d] else [])\<rparr>, echoes = B\<rparr>"

definition duplex_start :: "IKCPCB \<Rightarrow> IKCPCB \<Rightarrow> duplex" where
  "duplex_start a b = \<lparr>lk = link_start a b, echoes = {}\<rparr>"

lemma duplex_link: "duplex_step s s' \<Longrightarrow> link_step (lk s) (lk s')"
proof (induction rule: duplex_step.induct)
  case send
  show ?case unfolding duplex.select_convs by (rule link_step.send [OF send])
next
  case tx_update
  show ?case unfolding duplex.select_convs by (rule link_step.tx_update [OF tx_update])
next
  case tx_input
  show ?case unfolding duplex.select_convs by (rule link_step.tx_input [OF tx_input(2-)])
next
  case tx_recv
  show ?case unfolding duplex.select_convs by (rule link_step.tx_recv [OF tx_recv])
next
  case deliver
  show ?case unfolding duplex.select_convs by (rule link_step.deliver [OF deliver])
next
  case rx_update
  show ?case unfolding duplex.select_convs by (rule link_step.rx_update [OF rx_update])
next
  case rx_send
  show ?case unfolding duplex.select_convs by (rule link_step.rx_send [OF rx_send])
next
  case recv
  show ?case unfolding duplex.select_convs by (rule link_step.recv [OF recv])
qed

section \<open>The invariant\<close>

text \<open>What the receiver acknowledged, or will, has arrived; nothing waits that could be released.\<close>

definition acks_held :: "IKCPCB \<Rightarrow> bool" where
  "acks_held k \<longleftrightarrow> (\<forall>p \<in> set (ack_pairs k). holds k (fst p))"

definition honest :: "IKCPCB \<Rightarrow> IKCPSEG \<Rightarrow> bool" where
  "honest b s \<longleftrightarrow> unat (sg_una s) \<le> unat (rcv_nxt b) \<and> (sg_cmd s = IKCP_CMD_ACK \<longrightarrow> holds b (sg_sn s))"

definition back_inv :: "u32 \<Rightarrow> IKCPCB \<Rightarrow> byte list set \<Rightarrow> bool" where
  "back_inv c b B \<longleftrightarrow> (\<forall>d \<in> B. \<exists>g. d = wires g \<and> g \<noteq> [] \<and> (\<forall>s \<in> set g. wire_seg c s \<and> honest b s))"

text \<open>A segment that was numbered is still in \<open>snd_buf\<close> or has arrived.\<close>

definition sent_known :: "link \<Rightarrow> bool" where
  "sent_known l \<longleftrightarrow> (\<forall>i. i + length (snd_queue (tx l)) < nseg l \<longrightarrow>
     of_nat i \<in> sg_sn ` set (snd_buf (tx l)) \<or> holds (rx l) (of_nat i))"

definition duplex_inv :: "u32 \<Rightarrow> duplex \<Rightarrow> bool" where
  "duplex_inv c s \<longleftrightarrow> link_inv c (lk s) \<and> acks_held (rx (lk s)) \<and> rcv_drained (rx (lk s)) \<and> sent_known (lk s) \<and>
     back_inv c (rx (lk s)) (echoes s)"

text \<open>The part of the log that arrived only grows.\<close>

definition arrives :: "IKCPCB \<Rightarrow> IKCPCB \<Rightarrow> bool" where
  "arrives k k' \<longleftrightarrow> unat (rcv_nxt k) \<le> unat (rcv_nxt k') \<and> (\<forall>sn. holds k sn \<longrightarrow> holds k' sn)"

lemma grows_arrives: "grows k k' \<Longrightarrow> arrives k k'"
  by (simp add: grows_def arrives_def)

lemma arrives_same: "rcv_nxt k' = rcv_nxt k \<Longrightarrow> rcv_buf k' = rcv_buf k \<Longrightarrow> arrives k k'"
  by (simp add: arrives_def holds_def)

lemma arrives_honest: "arrives k k' \<Longrightarrow> honest k s \<Longrightarrow> honest k' s"
  by (auto simp: arrives_def honest_def)

lemma back_inv_arrives: "arrives k k' \<Longrightarrow> back_inv c k B \<Longrightarrow> back_inv c k' B"
  unfolding back_inv_def using arrives_honest by blast

lemma settles_held: "grows k k' \<Longrightarrow> settles k k' \<Longrightarrow> acks_held k \<Longrightarrow> acks_held k'"
  unfolding acks_held_def grows_def settles_def by blast

lemma duplex_rx:
  assumes "duplex_inv c \<lparr>lk = l, echoes = B\<rparr>" and "link_inv c l'" and "tx l' = tx l" and "nseg l' = nseg l"
    and "arrives (rx l) (rx l')" and "acks_held (rx l')" and "rcv_drained (rx l')" and "back_inv c (rx l') B'"
  shows "duplex_inv c \<lparr>lk = l', echoes = B \<union> B'\<rparr>"
proof -
  have "sent_known l'" using assms(1,3,4,5) by (auto simp: duplex_inv_def sent_known_def arrives_def)
  moreover have "back_inv c (rx l') (B \<union> B')"
    using assms(1,8) back_inv_arrives [OF assms(5), of c B] by (auto simp: duplex_inv_def back_inv_def)
  ultimately show ?thesis using assms(2,6,7) by (simp add: duplex_inv_def)
qed

lemma duplex_tx:
  assumes "duplex_inv c \<lparr>lk = l, echoes = B\<rparr>" and "link_inv c l'" and "rx l' = rx l" and "sent_known l'"
  shows "duplex_inv c \<lparr>lk = l', echoes = B\<rparr>"
  using assms by (simp add: duplex_inv_def)

section \<open>The sender and the acknowledgements\<close>

lemma remove_una_removed: "s \<in> set ss \<Longrightarrow> s \<in> set (snd (remove_una una ss)) \<or> itimediff una (sg_sn s) > 0"
  by (induction ss) (auto simp: case_prod_beta)

text \<open>A segment leaves \<open>snd_buf\<close> only when the receiver \<open>b\<close> has it.\<close>

definition loyal :: "IKCPCB \<Rightarrow> IKCPCB \<Rightarrow> IKCPCB \<Rightarrow> bool" where
  "loyal b k k' \<longleftrightarrow> snd_queue k' = snd_queue k \<and>
     (\<forall>sn \<in> sg_sn ` set (snd_buf k). sn \<in> sg_sn ` set (snd_buf k') \<or> holds b sn)"

definition small_sns :: "IKCPCB \<Rightarrow> bool" where
  "small_sns k \<longleftrightarrow> kcp_inv k \<and> (\<forall>s \<in> set (snd_buf k). unat (sg_sn s) < 2 ^ 31)"

lemma loyal_same: "snd_queue k' = snd_queue k \<Longrightarrow> sg_sn ` set (snd_buf k') = sg_sn ` set (snd_buf k) \<Longrightarrow> loyal b k k'"
  by (simp add: loyal_def)

lemma loyal_trans: "loyal b k1 k2 \<Longrightarrow> loyal b k2 k3 \<Longrightarrow> loyal b k1 k3"
  unfolding loyal_def by (metis)

lemma small_sns_step: "small_sns k \<Longrightarrow> input_step P k k' \<Longrightarrow> small_sns k'"
  unfolding small_sns_def input_step_def snd_shrinks_def by (fastforce simp: seg_id_def image_iff)

lemma una_loyal:
  assumes k: "small_sns k" and b: "unat (rcv_nxt b) < 2 ^ 31" and una: "unat una \<le> unat (rcv_nxt b)"
  shows "loyal b k (ikcp_shrink_buf (ikcp_parse_una (k\<lparr>rmt_wnd := w\<rparr>) una))"
proof -
  let ?k = "ikcp_shrink_buf (ikcp_parse_una (k\<lparr>rmt_wnd := w\<rparr>) una)"
  have f: "snd_buf ?k = snd (remove_una una (snd_buf k))" "snd_queue ?k = snd_queue k"
    by (simp_all add: shrink_buf_update ikcp_parse_una_def case_prod_beta)
  have "sg_sn s \<in> sg_sn ` set (snd_buf ?k) \<or> holds b (sg_sn s)" if s: "s \<in> set (snd_buf k)" for s
    using remove_una_removed [OF s, of una] unfolding f(1) [symmetric]
  proof
    assume "itimediff una (sg_sn s) > 0"
    moreover have "unat (sg_sn s) < 2 ^ 31" "unat una < 2 ^ 31" using k s b una by (auto simp: small_sns_def)
    ultimately have "unat (sg_sn s) < unat una" using itimediff_off(1) [of una 0 "sg_sn s"] by simp
    then show ?thesis using una by (simp add: holds_def)
  qed blast
  then show ?thesis using f(2) by (auto simp: loyal_def)
qed

text \<open>A data segment does not touch the sending side.\<close>

lemma input_push_snd:
  assumes inv: "kcp_inv k" and cnt: "unat (ackcount k) < 2 ^ 30" and mem: "fst mem \<noteq> None" "snd mem \<noteq> None"
    and len: "unat (h_len h) \<le> length data" "unat (h_len h) < 2 ^ 31" and p: "input_push mem k h data = Some k'"
  shows "snd_buf k' = snd_buf k \<and> snd_queue k' = snd_queue k"
proof (cases "itimediff (h_sn h) (rcv_nxt k + rcv_wnd k) < 0")
  case True
  obtain l b s where v: "input_push mem k h data =
      (let k1 = k\<lparr>acklist := Some l, ackcount := ackcount k + 1, ackblock := b\<rparr>
       in Some (if itimediff (h_sn h) (rcv_nxt k) \<ge> 0 then ikcp_parse_data k1 s else k1))"
    and inv1: "kcp_inv (k\<lparr>acklist := Some l, ackcount := ackcount k + 1, ackblock := b\<rparr>)"
    by (rule input_push_value [OF inv cnt mem len True])
  let ?k = "k\<lparr>acklist := Some l, ackcount := ackcount k + 1, ackblock := b\<rparr>"
  obtain ds rest nb nq where "ikcp_parse_data ?k s = ?k\<lparr>rcv_buf := rest, nrcv_buf := nb,
      rcv_queue := rcv_queue ?k @ ds, nrcv_que := nq, rcv_nxt := rcv_nxt ?k + of_nat (length ds)\<rparr>"
    by (rule parse_data_frame [OF kcp_invD(2) [OF inv1]])
  then show ?thesis using p v by (auto simp: Let_def split: if_splits)
qed (use p in \<open>simp add: input_push_def\<close>)

lemma input_seg_loyal:
  assumes k: "small_sns k" and b: "unat (rcv_nxt b) < 2 ^ 31" and w: "wire_seg (conv k) s" "honest b s"
    and len: "length (sg_data s) < 2 ^ 31" and cnt: "unat (ackcount k) < 2 ^ 30" and mem: "fst mem \<noteq> None" "snd mem \<noteq> None"
    and s: "input_seg mem k (header_of s) (sg_data s) fm = Some (Inr (k', fm'))"
  shows "loyal b k k'"
proof -
  have una: "h_una (header_of s) = sg_una s" by (simp add: header_of_def)
  define k1 where "k1 = ikcp_shrink_buf (ikcp_parse_una (k\<lparr>rmt_wnd := ucast (h_wnd (header_of s))\<rparr>) (h_una (header_of s)))"
  have l1: "loyal b k k1" unfolding k1_def una by (rule una_loyal [OF k b]) (use w(2) in \<open>simp add: honest_def\<close>)
  have "input_step (\<lambda>_. True) k k1" unfolding k1_def by (rule input_una_step) (use k in \<open>simp add: small_sns_def\<close>)
  then have inv1: "kcp_inv k1" by (simp add: input_step_def)
  note def = input_seg_def [of mem k "header_of s" "sg_data s" fm, folded k1_def, unfolded Let_def, folded k1_def]
  have cmd: "ucast (h_cmd (header_of s)) = sg_cmd s" by (rule header_of_cmd [OF w(1)])
  have "loyal b k1 k'"
  proof (cases "sg_cmd s = IKCP_CMD_ACK")
    case True
    define k2 where "k2 = (if itimediff (current k1) (h_ts (header_of s)) \<ge> 0
      then ikcp_update_ack k1 (itimediff (current k1) (h_ts (header_of s))) else k1)"
    have inv2: "kcp_inv k2" using inv1 by (simp add: k2_def update_ack_kcp_inv)
    have "Some (Inr (input_ack k1 (h_ts (header_of s)) (h_sn (header_of s)) fm)) = Some (Inr (k', fm'))"
      using s True unfolding def cmd by simp
    then have "k' = fst (input_ack k1 (h_ts (header_of s)) (h_sn (header_of s)) fm)" by simp
    then have k': "k' = ikcp_shrink_buf (ikcp_parse_ack k2 (sg_sn s))"
      unfolding input_ack_state k2_def header_fields .
    have "snd_buf k2 = snd_buf k1" "snd_queue k2 = snd_queue k1" by (simp_all add: k2_def)
    then have "snd_buf k' = filter (\<lambda>x. sg_sn x \<noteq> sg_sn s) (snd_buf k1)" "snd_queue k' = snd_queue k1"
      unfolding k' by (simp_all add: parse_ack_filter [OF kcp_invD(1) [OF inv2]] shrink_buf_update)
    moreover have "holds b (sg_sn s)" using w(2) True by (simp add: honest_def)
    ultimately show ?thesis by (auto simp: loyal_def)
  next
    case False
    have "snd_buf k' = snd_buf k1 \<and> snd_queue k' = snd_queue k1" if "sg_cmd s = IKCP_CMD_PUSH"
    proof -
      have "input_push mem k1 (header_of s) (sg_data s) = Some k'"
        using s that unfolding def cmd by (auto split: option.splits)
      moreover have "unat (ackcount k1) < 2 ^ 30" using cnt by (simp add: k1_def)
      moreover have "unat (h_len (header_of s)) \<le> length (sg_data s)" "unat (h_len (header_of s)) < 2 ^ 31"
        using header_of_len [OF w(1)] len by simp_all
      ultimately show ?thesis using input_push_snd [OF inv1 _ mem] by blast
    qed
    then have "snd_buf k' = snd_buf k1 \<and> snd_queue k' = snd_queue k1"
      using s False unfolding def cmd by (auto split: if_splits option.splits)
    then show ?thesis by (simp add: loyal_same)
  qed
  then show ?thesis by (rule loyal_trans [OF l1])
qed

interpretation faithful: input_effect "\<lambda>k. small_sns k \<and> unat (rcv_nxt b) < 2 ^ 31" "honest b" "loyal b" "\<lambda>_ _. True" "\<lambda>_ _. True"
  for b
proof unfold_locales
  show "small_sns k \<and> unat (rcv_nxt b) < 2 ^ 31 \<Longrightarrow> kcp_inv k" for k by (simp add: small_sns_def)
  show "loyal b k k" for k by (simp add: loyal_same)
  show "loyal b k1 k2 \<Longrightarrow> loyal b k2 k3 \<Longrightarrow> loyal b k1 k3" for k1 k2 k3 by (rule loyal_trans)
next
  fix k s mem fm k' fm'
  assume a: "small_sns k \<and> unat (rcv_nxt b) < 2 ^ 31" "wire_seg (conv k) s" "honest b s" "length (sg_data s) < 2 ^ 31"
    "unat (ackcount k) < 2 ^ 30" "fst mem \<noteq> None" "snd mem \<noteq> None"
    "input_seg mem k (header_of s) (sg_data s) fm = Some (Inr (k', fm'))"
  have k: "small_sns k" "unat (rcv_nxt b) < 2 ^ 31" "kcp_inv k" using a(1) by (simp_all add: small_sns_def)
  have n: "unat (h_len (header_of s)) \<le> length (sg_data s)" "unat (h_len (header_of s)) < 2 ^ 31"
    using header_of_len [OF a(2)] a(4) by simp_all
  have "input_step (\<lambda>_. True) k k'" using input_seg_step [OF k(3) a(5-7) n, of "\<lambda>_. True" fm] a(8) by auto
  then have "small_sns k'" by (rule small_sns_step [OF k(1)])
  then show "(small_sns k' \<and> unat (rcv_nxt b) < 2 ^ 31) \<and> loyal b k k' \<and> (True \<longrightarrow> True)"
    using input_seg_loyal [OF k(1,2) a(2-8)] k(2) by blast
next
  fix k una flag maxack k'
  assume a: "small_sns k \<and> unat (rcv_nxt b) < 2 ^ 31" "input_cwnd una (if flag then ikcp_parse_fastack k maxack else k) = Some k'"
  have k: "small_sns k" "kcp_inv k" using a(1) by (simp_all add: small_sns_def)
  obtain k2 where "input_cwnd una (if flag then ikcp_parse_fastack k maxack else k) = Some k2"
    "input_step (\<lambda>_. True) k k2" by (rule input_finish [OF k(2)])
  then have "small_sns k'" using a(2) small_sns_step [OF k(1)] by simp
  moreover have "loyal b k k'" by (rule loyal_same) (rule finish_frame [OF k(2) a(2)])+
  ultimately show "(small_sns k' \<and> unat (rcv_nxt b) < 2 ^ 31) \<and> loyal b k k'" using a(1) by blast
qed simp_all

section \<open>Every step keeps the invariant\<close>

lemma tx_small_sns:
  assumes "tx_inv L k" and "length L < 2 ^ 31" shows "small_sns k"
  using assms by (auto simp: tx_inv_def small_sns_def seg_id_def)

lemma rx_nxt_small:
  assumes "rx_inv L p k" and "length L < 2 ^ 31" shows "unat (rcv_nxt k) < 2 ^ 31"
  using rx_released(2) [OF assms(2,1), of "[]"] assms(2) by simp

text \<open>Numbers given by a flush: the segments taken from the queue are in \<open>snd_buf\<close> afterwards.\<close>

lemma flush_known:
  assumes inv: "tx_inv L k" and L: "length L < 2 ^ 31" and f: "flush_sends k k'"
    and i: "i + length (snd_queue k') < length L"
  shows "of_nat i \<in> sg_sn ` set (snd_buf k') \<or> i + length (snd_queue k) < length L"
proof -
  obtain ms news where m: "snd_queue k = ms @ snd_queue k'" "consecutive (snd_nxt k) news"
    "map seg_id (snd_buf k') = map seg_id (snd_buf k @ news)"
    "map (\<lambda>s. (sg_frg s, sg_data s)) news = map (\<lambda>s. (sg_frg s, sg_data s)) ms"
    using f unfolding flush_sends_def by (elim exE conjE) (rule that)
  have n: "length news = length ms" using arg_cong [OF m(4), of length] by simp
  let ?n = "length L - length (snd_queue k)"
  have nx: "snd_nxt k = of_nat ?n" "length (snd_queue k) \<le> length L" using inv by (simp_all add: tx_inv_def)
  show ?thesis
  proof (cases "i < ?n")
    case False
    then have j: "i - ?n < length news" using i m(1) n nx(2) by simp
    have "sg_sn (news ! (i - ?n)) = of_nat (?n + (i - ?n))"
      using consecutive_nth [OF m(2) j] by (simp only: nx(1) of_nat_add)
    then have "sg_sn (news ! (i - ?n)) = of_nat i" using False by simp
    then have "of_nat i \<in> sg_sn ` set news" using j by (metis image_eqI nth_mem)
    moreover have "sg_sn ` set (snd_buf k') = sg_sn ` set (snd_buf k @ news)"
      unfolding image_sn m(3) by simp
    ultimately show ?thesis by (simp add: image_Un)
  qed linarith
qed

lemma flush_keeps_sns: "flush_sends k k' \<Longrightarrow> sg_sn ` set (snd_buf k) \<subseteq> sg_sn ` set (snd_buf k')"
proof -
  assume "flush_sends k k'"
  then obtain news where m: "map seg_id (snd_buf k') = map seg_id (snd_buf k @ news)" unfolding flush_sends_def by blast
  show ?thesis unfolding image_sn m by auto
qed

text \<open>The fields of the link that the invariant of a step needs.\<close>

lemma duplex_invE:
  assumes "duplex_inv c \<lparr>lk = l, echoes = B\<rparr>"
  obtains F m where "link_inv c l" and "conv (tx l) = c" and "conv (rx l) = c" and "\<forall>f \<in> set F. frags_ok f"
    and "nseg l = length (concat F)" and "msgs l = map msg_of F" and "m \<le> length F" and "got l = map msg_of (take m F)"
    and "tx_inv (concat F) (tx l)" and "net_inv (concat F) c (net l)" and "rx_inv (concat F) (length (concat (take m F))) (rx l)"
    and "acks_held (rx l)" and "rcv_drained (rx l)" and "sent_known l" and "back_inv c (rx l) B"
    and "\<forall>f \<in> set F. cut_ok (unat (mss (tx l))) f"
proof -
  have l: "link_inv c l" "acks_held (rx l)" "rcv_drained (rx l)" "sent_known l" "back_inv c (rx l) B"
    using assms by (simp_all add: duplex_inv_def)
  show ?thesis using link_invE [OF l(1)] that l by metis
qed

lemma duplex_tx_update:
  assumes inv: "duplex_inv c \<lparr>lk = l, echoes = B\<rparr>" and n: "nseg l < 2 ^ 31" and cnt: "unat (ackcount (tx l)) < 2 ^ 31"
    and u: "ikcp_update (tx l) cur = Some (k, outs)"
  shows "duplex_inv c \<lparr>lk = l\<lparr>tx := k, net := net l \<union> set outs\<rparr>, echoes = B\<rparr>"
proof -
  obtain F m where i: "link_inv c l" "nseg l = length (concat F)" "tx_inv (concat F) (tx l)" "sent_known l"
    by (rule duplex_invE [OF inv])
  have t: "kcp_inv (tx l)" "output_cb (tx l)" using i(3) by (simp_all add: tx_inv_def)
  obtain k2 outs2 where u2: "ikcp_update (tx l) cur = Some (k2, outs2)" "kcp_inv k2" "flush_sends (tx l) k2"
    by (rule ikcp_update_ok [OF t cnt])
  then have f: "flush_sends (tx l) k" using u by simp
  let ?l = "l\<lparr>tx := k, net := net l \<union> set outs\<rparr>"
  have known: "of_nat j \<in> sg_sn ` set (snd_buf k) \<or> holds (rx l) (of_nat j)" if j: "j + length (snd_queue k) < nseg l" for j
  proof -
    have "of_nat j \<in> sg_sn ` set (snd_buf k) \<or> j + length (snd_queue (tx l)) < nseg l"
      using flush_known [OF i(3) _ f, of j] i(2) n j by simp
    then show ?thesis using i(4) flush_keeps_sns [OF f] unfolding sent_known_def by blast
  qed
  have "link_inv c ?l" by (rule link_step_inv [OF link_step.tx_update [OF cnt u] i(1) n])
  then show ?thesis by (rule duplex_tx [OF inv]) (use known in \<open>simp_all add: sent_known_def\<close>)
qed

lemma duplex_tx_input:
  assumes inv: "duplex_inv c \<lparr>lk = l, echoes = B\<rparr>" and n: "nseg l < 2 ^ 31" and d: "d \<in> B" and mem: "input_alloc mem"
    and cnt: "unat (ackcount (tx l)) + length d < 2 ^ 30"
    and s: "ikcp_input mem (tx l) (Some d) (int (length d)) = Some (r, k)"
  shows "duplex_inv c \<lparr>lk = l\<lparr>tx := k\<rparr>, echoes = B\<rparr>"
proof -
  obtain F m where i: "link_inv c l" "conv (tx l) = c" "nseg l = length (concat F)" "tx_inv (concat F) (tx l)"
    "rx_inv (concat F) (length (concat (take m F))) (rx l)" "sent_known l" "back_inv c (rx l) B"
    by (rule duplex_invE [OF inv])
  obtain g where g: "d = wires g" "g \<noteq> []" "\<forall>s \<in> set g. wire_seg (conv (tx l)) s \<and> honest (rx l) s"
    using i(2,7) d unfolding back_inv_def by blast
  have L: "length (concat F) < 2 ^ 31" using n i(3) by simp
  have I: "small_sns (tx l) \<and> unat (rcv_nxt (rx l)) < 2 ^ 31" using tx_small_sns [OF i(4) L] rx_nxt_small [OF i(5) L] ..
  obtain k2 where "ikcp_input mem (tx l) (Some (wires g)) (int (length (wires g))) = Some (0, k2)" "loyal (rx l) (tx l) k2"
    using faithful.dgram [OF I mem g(2,3)] cnt g(1) by blast
  then have lo: "loyal (rx l) (tx l) k" using s g(1) by simp
  have "snd_queue k = snd_queue (tx l)" using lo by (simp add: loyal_def)
  moreover have "of_nat j \<in> sg_sn ` set (snd_buf k) \<or> holds (rx l) (of_nat j)" if "j + length (snd_queue (tx l)) < nseg l" for j
    using i(6) lo that unfolding sent_known_def loyal_def by blast
  ultimately have "sent_known (l\<lparr>tx := k\<rparr>)" by (simp add: sent_known_def)
  moreover have "link_inv c (l\<lparr>tx := k\<rparr>)" by (rule link_step_inv [OF link_step.tx_input [OF mem cnt s] i(1) n])
  ultimately show ?thesis using duplex_tx [OF inv] by simp
qed

lemma duplex_deliver:
  assumes inv: "duplex_inv c \<lparr>lk = l, echoes = B\<rparr>" and n: "nseg l + unat (rcv_wnd (rx l)) < 2 ^ 31" and d: "d \<in> net l"
    and mem: "input_alloc mem" and cnt: "unat (ackcount (rx l)) + length d < 2 ^ 30"
    and s: "ikcp_input mem (rx l) (Some d) (int (length d)) = Some (r, k)"
  shows "duplex_inv c \<lparr>lk = l\<lparr>rx := k\<rparr>, echoes = B\<rparr> \<and> rcv_wnd k = rcv_wnd (rx l)"
proof -
  obtain F m where i: "link_inv c l" "conv (rx l) = c" "\<forall>f \<in> set F. frags_ok f" "nseg l = length (concat F)"
    "net_inv (concat F) c (net l)" "rx_inv (concat F) (length (concat (take m F))) (rx l)" "acks_held (rx l)"
    "rcv_drained (rx l)"
    by (rule duplex_invE [OF inv])
  obtain g where g: "d = wires g" "g \<noteq> []"
    "\<forall>s \<in> set g. wire_seg c s \<and> (sg_cmd s = IKCP_CMD_PUSH \<longrightarrow> genuine (concat F) (seg_id s))"
    using i(5) d unfolding net_inv_def by blast
  have W: "\<forall>s \<in> set g. wire_seg (conv (rx l)) s \<and> genuine_wire (concat F) s"
    using g(3) i(2) genuine_pushed [OF i(3)] by (simp add: genuine_wire_def)
  have I: "rx_ready (concat F) (length (concat (take m F))) (rx l)" using i(4,6) n by (simp add: rx_ready_def)
  obtain k2 where "ikcp_input mem (rx l) (Some (wires g)) (int (length (wires g))) = Some (0, k2)"
    "grows (rx l) k2" "settles (rx l) k2"
    using receiver.dgram [OF I mem g(2) W] cnt g(1) by blast
  then have gr: "grows (rx l) k" "settles (rx l) k" using s g(1) by simp_all
  have "link_inv c (l\<lparr>rx := k\<rparr>)"
    by (rule link_step_inv [OF link_step.deliver [OF d mem cnt s] i(1)]) (use n in simp)
  then have "duplex_inv c \<lparr>lk = l\<lparr>rx := k\<rparr>, echoes = B \<union> {}\<rparr>"
    by (rule duplex_rx [OF inv])
      (use gr i(8) grows_arrives settles_held [OF gr i(7)] in \<open>simp_all add: settles_def back_inv_def\<close>)
  then show ?thesis using gr(1) by (simp add: grows_def)
qed

lemma duplex_rx_update:
  assumes inv: "duplex_inv c \<lparr>lk = l, echoes = B\<rparr>" and n: "nseg l < 2 ^ 31" and cnt: "unat (ackcount (rx l)) < 2 ^ 31"
    and u: "ikcp_update (rx l) cur = Some (k, outs)"
  shows "duplex_inv c \<lparr>lk = l\<lparr>rx := k\<rparr>, echoes = B \<union> set outs\<rparr> \<and> rcv_wnd k = rcv_wnd (rx l)"
proof -
  obtain F m where i: "link_inv c l" "conv (rx l) = c" "rx_inv (concat F) (length (concat (take m F))) (rx l)"
    "acks_held (rx l)" "rcv_drained (rx l)"
    by (rule duplex_invE [OF inv])
  have t: "kcp_inv (rx l)" "output_cb (rx l)" using i(3) by (simp_all add: rx_inv_def)
  obtain k2 outs2 where u2: "ikcp_update (rx l) cur = Some (k2, outs2)" "kcp_inv k2" "flush_sends (rx l) k2"
    "outs2 = [] \<or> flush_wire (rx l) k2 outs2" "set (ack_pairs k2) \<subseteq> set (ack_pairs (rx l))"
    by (rule ikcp_update_ok [OF t cnt])
  then have k: "kcp_inv k" "flush_sends (rx l) k" "outs = [] \<or> flush_wire (rx l) k outs" "set (ack_pairs k) \<subseteq> set (ack_pairs (rx l))"
    using u by simp_all
  have f: "conv k = c" "rcv_nxt k = rcv_nxt (rx l)" "rcv_buf k = rcv_buf (rx l)" "rcv_queue k = rcv_queue (rx l)"
    "rcv_wnd k = rcv_wnd (rx l)" using k(2) i(2) by (simp_all add: flush_sends_def)
  have q: "nrcv_que k = nrcv_que (rx l)" using kcp_invD(2) [OF k(1)] kcp_invD(2) [OF t(1)] f(4) by (simp add: rcv_inv_def)
  have h: "holds k sn \<longleftrightarrow> holds (rx l) sn" for sn using f(2,3) by (simp add: holds_def)
  have held: "acks_held k" using i(4) k(4) by (auto simp: acks_held_def h)
  have B: "back_inv c k (set outs)"
    using k(3)
  proof
    assume "flush_wire (rx l) k outs"
    then obtain gs where g: "outs = map wires gs" "\<forall>g \<in> set gs. g \<noteq> [] \<and> (\<forall>s \<in> set g. wire_seg c s \<and>
        (sg_cmd s = IKCP_CMD_PUSH \<longrightarrow> s \<in> set (snd_buf k)))"
      "\<forall>s \<in> set (concat gs). sg_una s = rcv_nxt (rx l) \<and> (sg_cmd s = IKCP_CMD_ACK \<longrightarrow> sg_sn s \<in> fst ` set (ack_pairs (rx l))) \<and>
        sg_wnd s = ikcp_wnd_unused (rx l)"
      by (rule flush_groups [OF k(1) _ i(2) f(1)])
    have "honest k s" if "s \<in> set (concat gs)" for s
      using g(3) that i(4) f(2) by (force simp: honest_def acks_held_def h)
    then show ?thesis using g(1,2) unfolding back_inv_def by fastforce
  qed (simp add: back_inv_def)
  have "link_inv c (l\<lparr>rx := k\<rparr>)" by (rule link_step_inv [OF link_step.rx_update [OF cnt u] i(1) n])
  then have "duplex_inv c \<lparr>lk = l\<lparr>rx := k\<rparr>, echoes = B \<union> set outs\<rparr>"
    by (rule duplex_rx [OF inv])
      (use held B i(5) rcv_drained_same [of k "rx l"] f q arrives_same [of k "rx l"] in simp_all)
  then show ?thesis using f(5) by simp
qed

lemma duplex_recv:
  assumes inv: "duplex_inv c \<lparr>lk = l, echoes = B\<rparr>" and n: "nseg l < 2 ^ 31" and r: "ikcp_recv (rx l) True len = Some (r, d, k)"
  shows "duplex_inv c \<lparr>lk = l\<lparr>rx := k, got := got l @ (if r \<ge> 0 \<and> len \<ge> 0 then [d] else [])\<rparr>, echoes = B\<rparr> \<and>
    rcv_wnd k = rcv_wnd (rx l)"
proof -
  obtain F m where i: "link_inv c l" "nseg l = length (concat F)" "rx_inv (concat F) (length (concat (take m F))) (rx l)"
    "acks_held (rx l)" "rcv_drained (rx l)"
    by (rule duplex_invE [OF inv])
  have L: "length (concat F) < 2 ^ 31" using n i(2) by simp
  have "arrives (rx l) k \<and> ack_pairs k = ack_pairs (rx l) \<and> rcv_drained k \<and> rcv_wnd k = rcv_wnd (rx l)"
    using r
  proof (cases rule: ikcp_recv_result)
    case 1
    then show ?thesis using i(5) arrives_same [of k "rx l"] by simp
  next
    case (2 x y)
    let ?k = "recv_take x (rx l)"
    obtain ds rest where m: "rcv_buf ?k = ds @ rest" "consecutive (rcv_nxt ?k) ds" "move_ready (rcv_buf ?k) ?k =
        ?k\<lparr>rcv_buf := rest, nrcv_buf := nrcv_buf ?k - of_nat (length ds), rcv_queue := rcv_queue ?k @ ds,
          nrcv_que := nrcv_que ?k + of_nat (length ds), rcv_nxt := rcv_nxt ?k + of_nat (length ds)\<rparr>"
      "rcv_drained (move_ready (rcv_buf ?k) ?k)"
      using move_ready_spec [of ?k "rcv_buf ?k"] by blast
    have f: "rcv_buf (rx l) = ds @ rest" "consecutive (rcv_nxt (rx l)) ds" using m(1,2) by (simp_all add: recv_take_def)
    have "\<forall>s \<in> set ds. genuine (concat F) (seg_id s)" using i(3) f(1) by (simp add: rx_inv_def)
    note u = rx_released [OF L i(3) f(2) this]
    have k: "rcv_nxt k = rcv_nxt (rx l) + of_nat (length ds)" "rcv_buf k = rest" "acklist k = acklist (rx l)"
      "ackcount k = ackcount (rx l)" "rcv_wnd k = rcv_wnd (rx l)" unfolding 2(5) m(3) by (simp_all add: recv_take_def)
    have sn: "unat (sg_sn x) < unat (rcv_nxt k)" if "x \<in> set ds" for x
      unfolding k(1) by (rule released_below [OF u(1) f(2) that])
    have "arrives (rx l) k"
      unfolding arrives_def holds_def using u(1) k(1,2) f(1) sn by auto
    moreover have "rcv_drained k"
      using m(4) rcv_drained_same [of k "move_ready (rcv_buf ?k) ?k"] unfolding 2(5) by simp
    ultimately show ?thesis using k ack_pairs_same [of k "rx l"] by simp
  qed
  then have k: "arrives (rx l) k" "ack_pairs k = ack_pairs (rx l)" "rcv_drained k" "rcv_wnd k = rcv_wnd (rx l)" by simp_all
  have held: "acks_held k" using i(4) k(1,2) by (auto simp: acks_held_def arrives_def)
  have "link_inv c (l\<lparr>rx := k, got := got l @ (if r \<ge> 0 \<and> len \<ge> 0 then [d] else [])\<rparr>)"
    by (rule link_step_inv [OF link_step.recv [OF r] i(1) n])
  then have "duplex_inv c \<lparr>lk = l\<lparr>rx := k, got := got l @ (if r \<ge> 0 \<and> len \<ge> 0 then [d] else [])\<rparr>, echoes = B \<union> {}\<rparr>"
    by (rule duplex_rx [OF inv]) (use k held in \<open>simp_all add: back_inv_def\<close>)
  then show ?thesis using k(4) by simp
qed

lemma duplex_send:
  assumes inv: "duplex_inv c \<lparr>lk = l, echoes = B\<rparr>" and n: "nseg l < 2 ^ 31" and mem: "\<And>j. mem j \<noteq> None" and b: "length b < 2 ^ 31"
    and s: "ikcp_send mem (tx l) (Some b) (int (length b)) = Some (r, k)"
  shows "duplex_inv c \<lparr>lk = l\<lparr>tx := k, msgs := msgs l @ (if r = 0 then [b] else []),
      nseg := nseg l + (length (snd_queue k) - length (snd_queue (tx l)))\<rparr>, echoes = B\<rparr>"
proof -
  obtain F m where i: "link_inv c l" "tx_inv (concat F) (tx l)" "sent_known l" by (rule duplex_invE [OF inv])
  have kinv: "kcp_inv (tx l)" using i(2) by (simp add: tx_inv_def)
  obtain q x where q: "k = (tx l)\<lparr>snd_queue := snd_queue (tx l) @ q, nsnd_que := x\<rparr>"
    using send_frags [OF kinv mem b s]
  proof (elim disjE conjE exE)
    assume "k = tx l"
    then have "k = (tx l)\<lparr>snd_queue := snd_queue (tx l) @ [], nsnd_que := nsnd_que (tx l)\<rparr>" by simp
    then show ?thesis by (rule that)
  qed (rule that)
  have "link_inv c (l\<lparr>tx := k, msgs := msgs l @ (if r = 0 then [b] else []),
      nseg := nseg l + (length (snd_queue k) - length (snd_queue (tx l)))\<rparr>)"
    by (rule link_step_inv [OF link_step.send [OF mem b s] i(1) n])
  then show ?thesis by (rule duplex_tx [OF inv]) (use i(3) in \<open>simp_all add: sent_known_def q\<close>)
qed

lemma duplex_tx_recv:
  assumes inv: "duplex_inv c \<lparr>lk = l, echoes = B\<rparr>" and n: "nseg l < 2 ^ 31" and r: "ikcp_recv (tx l) True len = Some (r, d, k)"
  shows "duplex_inv c \<lparr>lk = l\<lparr>tx := k\<rparr>, echoes = B\<rparr>"
proof -
  obtain F m where i: "link_inv c l" "sent_known l" by (rule duplex_invE [OF inv])
  have k: "snd_buf k = snd_buf (tx l) \<and> snd_queue k = snd_queue (tx l)"
    using r
  proof (cases rule: ikcp_recv_result)
    case (2 x y)
    then show ?thesis using move_ready_spec [of "recv_take x (tx l)" "rcv_buf (recv_take x (tx l))"]
      by (auto simp: recv_take_def)
  qed simp
  have "link_inv c (l\<lparr>tx := k\<rparr>)" by (rule link_step_inv [OF link_step.tx_recv [OF r] i(1) n])
  then show ?thesis by (rule duplex_tx [OF inv]) (use i(2) k in \<open>simp_all add: sent_known_def\<close>)
qed

lemma duplex_rx_send:
  assumes inv: "duplex_inv c \<lparr>lk = l, echoes = B\<rparr>" and n: "nseg l < 2 ^ 31" and mem: "\<And>j. mem j \<noteq> None" and b: "length b < 2 ^ 31"
    and s: "ikcp_send mem (rx l) (Some b) (int (length b)) = Some (r, k)"
  shows "duplex_inv c \<lparr>lk = l\<lparr>rx := k\<rparr>, echoes = B\<rparr> \<and> rcv_wnd k = rcv_wnd (rx l)"
proof -
  obtain F m where i: "link_inv c l" "rx_inv (concat F) (length (concat (take m F))) (rx l)" "acks_held (rx l)" "rcv_drained (rx l)"
    by (rule duplex_invE [OF inv])
  have kinv: "kcp_inv (rx l)" using i(2) by (simp add: rx_inv_def)
  have k: "acklist k = acklist (rx l) \<and> ackcount k = ackcount (rx l) \<and> rcv_buf k = rcv_buf (rx l) \<and>
      rcv_nxt k = rcv_nxt (rx l) \<and> rcv_wnd k = rcv_wnd (rx l) \<and> nrcv_que k = nrcv_que (rx l)"
    using send_frags [OF kinv mem b s] by auto
  then have st: "settles (rx l) k" "arrives (rx l) k" "ack_pairs k = ack_pairs (rx l)"
    using ack_pairs_same [of k "rx l"] by (simp_all add: settles_same arrives_same)
  then have held: "acks_held k" using i(3) by (auto simp: acks_held_def arrives_def)
  have "link_inv c (l\<lparr>rx := k\<rparr>)" by (rule link_step_inv [OF link_step.rx_send [OF mem b s] i(1) n])
  then have "duplex_inv c \<lparr>lk = l\<lparr>rx := k\<rparr>, echoes = B \<union> {}\<rparr>"
    by (rule duplex_rx [OF inv]) (use st held i(4) in \<open>simp_all add: back_inv_def settles_def\<close>)
  then show ?thesis using k by simp
qed

lemma duplex_step_inv:
  assumes "duplex_step s s'" and inv: "duplex_inv c s" and n: "nseg (lk s) + unat (rcv_wnd (rx (lk s))) < 2 ^ 31"
  shows "duplex_inv c s' \<and> rcv_wnd (rx (lk s')) = rcv_wnd (rx (lk s))"
  using assms
proof (induction rule: duplex_step.induct)
  case (send mem b l r k B)
  then show ?case using duplex_send [OF send.prems(1) _ send.hyps(1,2,3)] by simp
next
  case (tx_update l cur k outs B)
  then show ?case using duplex_tx_update [OF tx_update.prems(1) _ tx_update.hyps] by simp
next
  case (tx_input d B mem l r k)
  then show ?case using duplex_tx_input [OF tx_input.prems(1) _ tx_input.hyps] by simp
next
  case (tx_recv l len r d k B)
  then show ?case using duplex_tx_recv [OF tx_recv.prems(1) _ tx_recv.hyps] by simp
next
  case (deliver d l mem r k B)
  then show ?case using duplex_deliver [OF deliver.prems(1) _ deliver.hyps] by simp
next
  case (rx_update l cur k outs B)
  then show ?case using duplex_rx_update [OF rx_update.prems(1) _ rx_update.hyps] by simp
next
  case (rx_send mem b l r k B)
  then show ?case using duplex_rx_send [OF rx_send.prems(1) _ rx_send.hyps(1,2,3)] by simp
next
  case (recv l len r d k B)
  then show ?case using duplex_recv [OF recv.prems(1) _ recv.hyps] by simp
qed

section \<open>Reachable states\<close>

lemma duplex_start_inv:
  assumes "fresh c a" and "fresh c b" and "ackcount b = 0"
  shows "duplex_inv c (duplex_start a b)"
proof -
  have "ack_pairs b = []" using assms(3) by (simp add: ack_pairs_def split: option.splits)
  then show ?thesis
    using link_start_inv [OF assms(1,2)] assms(2)
    by (simp add: duplex_inv_def duplex_start_def link_start_def acks_held_def rcv_drained_def sent_known_def back_inv_def fresh_def)
qed

lemma duplex_reachable:
  assumes "duplex_step\<^sup>*\<^sup>* s s'" and "duplex_inv c s" and "nseg (lk s') + unat (rcv_wnd (rx (lk s))) < 2 ^ 31"
  shows "duplex_inv c s' \<and> rcv_wnd (rx (lk s')) = rcv_wnd (rx (lk s))"
  using assms
proof (induction rule: rtranclp_induct)
  case (step y z)
  have le: "nseg (lk y) \<le> nseg (lk z)" by (rule link_step_nseg [OF duplex_link [OF step.hyps(2)]])
  then have y: "duplex_inv c y" "rcv_wnd (rx (lk y)) = rcv_wnd (rx (lk s))" using step by simp_all
  have "nseg (lk y) + unat (rcv_wnd (rx (lk y))) < 2 ^ 31" using le y(2) step.prems(2) by simp
  from duplex_step_inv [OF step.hyps(2) y(1) this] show ?case using y(2) by simp
qed simp

section \<open>Reading everything\<close>

text \<open>The calls of \<open>ikcp_recv\<close> until one fails, at most \<open>n\<close> of them.\<close>

fun read_all :: "int \<Rightarrow> nat \<Rightarrow> IKCPCB \<Rightarrow> (byte list list \<times> IKCPCB) option" where
  "read_all len 0 k = Some ([], k)"
| "read_all len (Suc n) k =
     do {
       (r, d, k) \<leftarrow> ikcp_recv k True len;
       if r < 0 then Some ([], k) else do { (ds, k) \<leftarrow> read_all len n k; Some (d # ds, k) }
     }"

lemma peek_sum_value:
  "n + (\<Sum>s\<leftarrow>first_msg q. unat (sg_len s)) < 2 ^ 31 \<Longrightarrow>
   peek_sum (int n) q = int (n + (\<Sum>s\<leftarrow>first_msg q. unat (sg_len s)))"
proof (induction q arbitrary: n)
  case (Cons s q)
  define x where "x = unat (sg_len s)"
  have b: "n + x < 2 ^ 31" using Cons.prems by (auto simp: x_def split: if_splits)
  have "word_of_int (int n) + sg_len s = (of_nat (n + x) :: u32)" by (simp add: x_def)
  moreover have "unat (of_nat (n + x) :: u32) = n + x" using b by (intro unat_of_nat_lt) simp
  ultimately have e: "sint (word_of_int (int n) + sg_len s) = int (n + x)"
    using sint_small [of "of_nat (n + x)"] b by (simp del: of_nat_add)
  show ?case
  proof (cases "sg_frg s = 0")
    case True
    then show ?thesis using e by (simp add: x_def del: of_nat_add)
  next
    case False
    have "peek_sum (int (n + x)) q = int (n + x + (\<Sum>s\<leftarrow>first_msg q. unat (sg_len s)))"
      by (rule Cons.IH) (use Cons.prems False in \<open>simp add: x_def\<close>)
    then show ?thesis using e False by (simp add: x_def Let_def del: of_nat_add)
  qed
qed simp

text \<open>When the fragments of the next message are all queued, its size is that of the message.\<close>

lemma complete_peeksize:
  assumes inv: "kcp_inv k" and q: "rcv_queue k \<noteq> []" and f: "frags_ok f" "length f \<le> length (rcv_queue k)"
    and h: "sg_frg (hd (rcv_queue k)) = of_nat (length f - 1)"
    and m: "first_msg (rcv_queue k) = take (length f) (rcv_queue k)" "map frag_of (take (length f) (rcv_queue k)) = f"
    and b: "length (msg_of f) < 2 ^ 31"
  shows "ikcp_peeksize k = int (length (msg_of f))"
proof -
  have seg: "unat (sg_len s) = length (sg_data s)" if "s \<in> set (rcv_queue k)" for s
    using kcp_invD(5) [OF inv] that by (simp add: segs_inv_def seg_ok_def)
  have "(\<Sum>s\<leftarrow>first_msg (rcv_queue k). unat (sg_len s)) = (\<Sum>s\<leftarrow>first_msg (rcv_queue k). length (sg_data s))"
    using seg by (intro arg_cong [of _ _ sum_list] map_cong) (auto simp: m(1) dest: in_set_takeD)
  also have "\<dots> = (\<Sum>x\<leftarrow>map frag_of (first_msg (rcv_queue k)). length (snd x))" by (simp add: frag_of_def comp_def)
  also have "\<dots> = length (msg_of f)" unfolding m by (simp add: msg_of_def length_concat comp_def)
  finally have s: "(\<Sum>s\<leftarrow>first_msg (rcv_queue k). unat (sg_len s)) = length (msg_of f)" .
  obtain x xs where x: "rcv_queue k = x # xs" using q by (cases "rcv_queue k") auto
  have sum: "peek_sum 0 (rcv_queue k) = int (length (msg_of f))"
    using peek_sum_value [of 0 "rcv_queue k"] b unfolding s by simp
  show ?thesis
  proof (cases "sg_frg x = 0")
    case True
    then show ?thesis using sum x by (simp add: ikcp_peeksize_def)
  next
    case False
    have rinv: "rcv_inv k" using inv by (rule kcp_invD)
    then have nq: "unat (nrcv_que k) = length (rcv_queue k)" by (simp add: rcv_inv_def unat_of_nat_lt)
    have "length f \<le> 255" using f(1) by (simp add: frags_ok_def)
    then have "unat (sg_frg x) = length f - 1" using h x by (simp add: unat_of_nat_lt)
    moreover have "unat (sg_frg x + 1) = unat (sg_frg x) + 1"
      using \<open>length f \<le> 255\<close> calculation by (subst unat_add_lt) simp_all
    moreover have "0 < length f" using f(1) by (simp add: frags_ok_def)
    ultimately have "\<not> nrcv_que k < sg_frg x + 1" using nq f(2) by (simp add: word_less_nat_alt)
    then show ?thesis using sum x False by (simp add: ikcp_peeksize_def)
  qed
qed

lemma arrived_prefix:
  assumes inv: "rx_inv L p k" and L: "length L < 2 ^ 31" and d: "rcv_drained k" and room: "length (rcv_queue k) < unat (rcv_wnd k)"
    and n: "n \<le> length L" and h: "\<And>i. i < n \<Longrightarrow> holds k (of_nat i)"
  shows "n \<le> unat (rcv_nxt k)"
proof (rule ccontr)
  assume lt: "\<not> n \<le> unat (rcv_nxt k)"
  have rinv: "rcv_inv k" using inv by (simp add: rx_inv_def kcp_inv_def)
  have "of_nat (unat (rcv_nxt k)) = rcv_nxt k" by simp
  then obtain s where s: "s \<in> set (rcv_buf k)" "sg_sn s = rcv_nxt k"
    using h [of "unat (rcv_nxt k)"] lt by (auto simp: holds_def)
  obtain x xs where x: "rcv_buf k = x # xs" using s(1) by (cases "rcv_buf k") auto
  have "\<forall>y \<in> set xs. rcv_off k x < rcv_off k y" using rinv x by (simp add: rcv_inv_def)
  then have "s = x" using s x by (auto simp: rcv_off_def)
  then have "rcv_wnd k \<le> nrcv_que k" using d x s(2) by (simp add: rcv_drained_def)
  moreover have "nrcv_que k = of_nat (length (rcv_queue k))" using rinv by (simp add: rcv_inv_def)
  moreover have "unat (of_nat (length (rcv_queue k)) :: u32) = length (rcv_queue k)"
    using room unat_u32_bound [of "rcv_wnd k"] by (intro unat_of_nat_lt) simp
  ultimately show False using room by (simp add: word_le_nat_alt)
qed

lemma arrived_all:
  assumes inv: "rx_inv L p k" and L: "length L + unat (rcv_wnd k) < 2 ^ 31" and d: "rcv_drained k"
    and h: "\<And>i. i < length L \<Longrightarrow> holds k (of_nat i)" and w: "length L \<le> p + unat (rcv_wnd k)"
  shows "rcv_nxt k = of_nat (length L) \<and> rcv_buf k = []"
proof -
  obtain r where r: "p \<le> r" "r \<le> length L" "rcv_nxt k = of_nat r" "map frag_of (rcv_queue k) = drop p (take r L)"
    using inv unfolding rx_inv_def by blast
  have rinv: "rcv_inv k" using inv by (simp add: rx_inv_def kcp_inv_def)
  have u: "unat (of_nat r :: u32) = r" using r(2) L by (intro unat_of_nat_lt) simp
  have q: "length (rcv_queue k) = r - p" using arg_cong [OF r(4), of length] r(2) by simp
  have "length L \<le> unat (rcv_nxt k)" if "r < length L"
    by (rule arrived_prefix [OF inv _ d _ order_refl h]) (use L q w r(1) that in auto)
  then have "r = length L" using r(2,3) u by fastforce
  then have n: "rcv_nxt k = of_nat (length L)" using r(3) by simp
  have False if s: "s \<in> set (rcv_buf k)" for s
  proof -
    have "unat (sg_sn s) < length L" using inv s by (auto simp: rx_inv_def seg_id_def)
    moreover have "unat (sg_sn s - rcv_nxt k) < unat (rcv_wnd k)" using rinv s by (simp add: rcv_inv_def rcv_off_def)
    moreover have "unat (rcv_nxt k) = length L" unfolding n using L by (intro unat_of_nat_lt) simp
    moreover have "unat (rcv_nxt k + (sg_sn s - rcv_nxt k)) = unat (rcv_nxt k) + unat (sg_sn s - rcv_nxt k)"
      using calculation(2,3) L by (intro unat_add_lt) simp
    ultimately show False by simp
  qed
  then have "rcv_buf k = []" by (cases "rcv_buf k") auto
  then show ?thesis using n by blast
qed

text \<open>From then on \<open>ikcp_recv\<close> returns message after message, and fails when all are read.\<close>

lemma recv_next:
  assumes F: "\<forall>f \<in> set F. frags_ok f" and L: "length (concat F) < 2 ^ 31" and m: "m < length F"
    and inv: "rx_inv (concat F) (length (concat (take m F))) k" and n: "rcv_nxt k = of_nat (length (concat F))" "rcv_buf k = []"
    and len: "length (msg_of (F ! m)) \<le> len" "len < 2 ^ 31"
  obtains k' where "ikcp_recv k True (int len) = Some (int (length (msg_of (F ! m))), msg_of (F ! m), k')"
    and "rx_inv (concat F) (length (concat (take (Suc m) F))) k'" and "rcv_nxt k' = of_nat (length (concat F))" and "rcv_buf k' = []"
proof -
  let ?p = "length (concat (take m F))"
  obtain r where r: "r \<le> length (concat F)" "rcv_nxt k = of_nat r" "map frag_of (rcv_queue k) = drop ?p (take r (concat F))"
    using inv unfolding rx_inv_def by blast
  have "unat (of_nat r :: u32) = r" "unat (of_nat (length (concat F)) :: u32) = length (concat F)"
    using r(1) L by (auto intro!: unat_of_nat_lt)
  then have rl: "r = length (concat F)" using r(2) n(1) by simp
  have fm: "frags_ok (F ! m)" using F m by simp
  have "length (concat F) = length (concat (take (Suc m) F)) + length (concat (drop (Suc m) F))"
    by (metis append_take_drop_id concat_append length_append)
  then have ql: "length (F ! m) \<le> length (rcv_queue k)"
    using arg_cong [OF r(3), of length] rl concat_take_Suc [OF m] by simp
  then have q: "rcv_queue k \<noteq> []" using fm by (auto simp: frags_ok_def)
  have kinv: "kcp_inv k" using inv by (simp add: rx_inv_def)
  obtain f where f: "f = F ! m" "sg_frg (hd (rcv_queue k)) = of_nat (length f - 1)" "length f \<le> length (rcv_queue k) \<longrightarrow>
      first_msg (rcv_queue k) = take (length f) (rcv_queue k) \<and> map frag_of (take (length f) (rcv_queue k)) = f"
    by (rule queue_head [OF F _ inv q]) (use m in auto)
  have pk: "ikcp_peeksize k = int (length (msg_of (F ! m)))"
    by (rule complete_peeksize [OF kinv q fm ql]) (use f ql len in auto)
  obtain c d k' where rv: "ikcp_recv k True (int len) = Some (c, d, k')" using ikcp_recv_some by blast
  from rv have c: "c = int (length (msg_of (F ! m))) \<and> rcv_nxt k' = rcv_nxt k \<and> rcv_buf k' = []"
  proof (cases rule: ikcp_recv_result)
    case 1
    then show ?thesis using q pk len(1) by simp
  next
    case (2 x y)
    have e: "rcv_buf (recv_take x k) = []" "rcv_nxt (recv_take x k) = rcv_nxt k" using n(2) by (simp_all add: recv_take_def)
    show ?thesis using 2(2,5) pk e by simp
  qed
  have "m < length F \<and> d = msg_of (F ! m) \<and> rx_inv (concat F) (length (concat (take (Suc m) F))) k'"
    using rx_recv [OF F L _ inv rv] m c by simp
  then show ?thesis using that [of k'] rv c n(1) by simp
qed

lemma read_all_ok:
  assumes F: "\<forall>f \<in> set F. frags_ok f" and L: "length (concat F) < 2 ^ 31" and len: "len < 2 ^ 31"
    and b: "\<forall>f \<in> set F. length (msg_of f) \<le> len"
  shows "m \<le> length F \<Longrightarrow> rx_inv (concat F) (length (concat (take m F))) k \<Longrightarrow> rcv_nxt k = of_nat (length (concat F)) \<Longrightarrow>
    rcv_buf k = [] \<Longrightarrow> length F - m < n \<Longrightarrow>
    \<exists>k'. read_all (int len) n k = Some (map msg_of (drop m F), k') \<and> rcv_queue k' = []"
proof (induction n arbitrary: m k)
  case (Suc n)
  show ?case
  proof (cases "m = length F")
    case True
    obtain r where r: "map frag_of (rcv_queue k) = drop (length (concat F)) (take r (concat F))"
      using Suc.prems(2) True unfolding rx_inv_def by auto
    then have "rcv_queue k = []" by simp
    then show ?thesis using True by (simp add: ikcp_recv_cases)
  next
    case False
    then have m: "m < length F" using Suc.prems(1) by simp
    then have bm: "length (msg_of (F ! m)) \<le> len" using b by simp
    obtain k' where k': "ikcp_recv k True (int len) = Some (int (length (msg_of (F ! m))), msg_of (F ! m), k')"
      "rx_inv (concat F) (length (concat (take (Suc m) F))) k'" "rcv_nxt k' = of_nat (length (concat F))" "rcv_buf k' = []"
      by (rule recv_next [OF F L m Suc.prems(2-4) bm len])
    have "Suc m \<le> length F" "length F - Suc m < n" using m Suc.prems(5) by simp_all
    from Suc.IH [OF this(1) k'(2-4) this(2)] obtain k'' where
      "read_all (int len) n k' = Some (map msg_of (drop (Suc m) F), k'')" "rcv_queue k'' = []" by blast
    then show ?thesis using k'(1) m by (simp add: Cons_nth_drop_Suc [symmetric])
  qed
qed simp

section \<open>Properties\<close>

text \<open>
  What an exchange without losses needs to complete: every segment in flight is due, the queue
  fits the send window and the segments not read yet fit the receive window.
\<close>

definition exchange_ready :: "u32 \<Rightarrow> u32 \<Rightarrow> link \<Rightarrow> bool" where
  "exchange_ready cur cur' l \<longleftrightarrow>
     (\<forall>s \<in> set (snd_buf (tx l)). sg_xmit s = 0 \<or> itimediff cur (sg_resendts s) \<ge> 0) \<and>
     unat (snd_nxt (tx l) - snd_una (tx l)) + length (snd_queue (tx l)) \<le> unat (flush_window (tx l)) \<and>
     nseg l + length (rcv_queue (rx l)) \<le> unat (rcv_nxt (rx l)) + unat (rcv_wnd (rx l)) \<and>
     update_due (tx l) cur \<and> update_due (rx l) cur'"

lemma exchange_receives:
  assumes inv: "duplex_inv c \<lparr>lk = l, echoes = B\<rparr>" and n: "nseg l + unat (rcv_wnd (rx l)) < 2 ^ 31"
    and ready: "exchange_ready cur cur' l" and mem: "input_alloc mem" and calm: "calm mem cur cur' (tx l) (rx l)"
  obtains F m k1 outs k2 where "\<forall>f \<in> set F. frags_ok f" and "nseg l = length (concat F)" and "msgs l = map msg_of F"
    and "m \<le> length F" and "got l = map msg_of (take m F)"
    and "ikcp_update (tx l) cur = Some (k1, outs)" and "feed mem (rx l) outs = Some k2"
    and "kcp_inv k1" and "conv k1 = c" and "ackcount k1 = 0" and "snd_queue k1 = []"
    and "rx_inv (concat F) (length (concat (take m F))) k2" and "rcv_nxt k2 = of_nat (length (concat F))" and "rcv_buf k2 = []"
    and "conv k2 = c" and "unat (ackcount k2) < 2 ^ 30" and "update_due k2 cur'"
    and "\<forall>sn \<in> sg_sn ` set (snd_buf k1). sn \<in> fst ` set (ack_pairs k2)"
proof -
  obtain F m where F: "link_inv c l" "conv (tx l) = c" "conv (rx l) = c" "\<forall>f \<in> set F. frags_ok f" "nseg l = length (concat F)"
    "msgs l = map msg_of F" "m \<le> length F" "got l = map msg_of (take m F)" "tx_inv (concat F) (tx l)"
    "rx_inv (concat F) (length (concat (take m F))) (rx l)" "rcv_drained (rx l)" "sent_known l"
    by (rule duplex_invE [OF inv])
  have t: "kcp_inv (tx l)" "output_cb (tx l)" "unat (ackcount (tx l)) < 2 ^ 31" "update_due (tx l) cur"
    using F(9) calm ready by (simp_all add: tx_inv_def calm_def exchange_ready_def)
  obtain k1 outs where k1: "ikcp_update (tx l) cur = Some (k1, outs)" "kcp_inv k1" "flush_sends (tx l) k1"
    "flush_wire (tx l) k1 outs" "ackcount k1 = 0" "output_cb k1" "current k1 = cur" "flush_opens (tx l) k1"
    by (rule ikcp_update_flushes [OF t])
  have q1: "snd_queue k1 = []"
    by (rule flush_empties [OF k1(3,8)]) (use ready in \<open>simp add: exchange_ready_def\<close>)
  have c1: "conv k1 = c" using k1(3) F(2) by (simp add: flush_sends_def)
  have L: "length (concat F) < 2 ^ 31" "length (concat F) + unat (rcv_wnd (rx l)) < 2 ^ 31" using n F(5) by simp_all
  have tx1: "tx_inv (concat F) k1" by (rule tx_flush [OF F(9) L(1) k1(3,2,6)])
  have b1: "unat (ackcount (rx l)) + length (concat outs) < 2 ^ 30" using calm k1(1) by (simp add: calm_def)
  obtain k2 where k2: "feed mem (rx l) outs = Some k2" "rx_ready (concat F) (length (concat (take m F))) k2"
    "grows (rx l) k2" "settles (rx l) k2" "conv k2 = c" "unat (ackcount k2) < 2 ^ 30"
    "\<forall>sn \<in> sg_sn ` set (snd_buf k1). (sn \<notin> sg_sn ` set (snd_buf (tx l)) \<or>
        (\<exists>s \<in> set (snd_buf (tx l)). sg_sn s = sn \<and> (sg_xmit s = 0 \<or> itimediff (current k1) (sg_resendts s) \<ge> 0))) \<and>
      in_window (rx l) sn \<longrightarrow> sn \<in> fst ` set (ack_pairs k2) \<and> holds k2 sn"
    by (rule flush_feed [OF F(4) L(2) tx1 F(10) k1(4) F(2) c1 F(3) mem b1])
  have sent: "sn \<in> fst ` set (ack_pairs k2) \<and> holds k2 sn" if sn: "sn \<in> sg_sn ` set (snd_buf k1)" for sn
  proof -
    have "unat sn < length (concat F)" using tx1 sn by (auto simp: tx_inv_def seg_id_def)
    then have "in_window (rx l) sn" using ready F(5) by (simp add: in_window_def exchange_ready_def)
    moreover have "sn \<notin> sg_sn ` set (snd_buf (tx l)) \<or>
        (\<exists>s \<in> set (snd_buf (tx l)). sg_sn s = sn \<and> (sg_xmit s = 0 \<or> itimediff (current k1) (sg_resendts s) \<ge> 0))"
      using ready k1(7) unfolding exchange_ready_def by auto
    ultimately show ?thesis using k2(7) sn by blast
  qed
  have all: "holds k2 (of_nat i)" if i: "i < length (concat F)" for i
  proof -
    have "of_nat i \<in> sg_sn ` set (snd_buf k1) \<or> i + length (snd_queue (tx l)) < nseg l"
      using flush_known [OF F(9) L(1) k1(3), of i] i q1 F(5) by simp
    then have "of_nat i \<in> sg_sn ` set (snd_buf k1) \<or> holds (rx l) (of_nat i)"
      using F(12) flush_keeps_sns [OF k1(3)] unfolding sent_known_def by blast
    then show ?thesis using sent k2(3) by (auto simp: grows_def)
  qed
  have w: "rcv_wnd k2 = rcv_wnd (rx l)" using k2(3) by (simp add: grows_def)
  have p: "length (concat F) \<le> length (concat (take m F)) + unat (rcv_wnd k2)"
  proof -
    obtain r where r: "length (concat (take m F)) \<le> r" "r \<le> length (concat F)" "rcv_nxt (rx l) = of_nat r"
      "map frag_of (rcv_queue (rx l)) = drop (length (concat (take m F))) (take r (concat F))"
      using F(10) unfolding rx_inv_def by blast
    have "unat (rcv_nxt (rx l)) = r" unfolding r(3) using r(2) L(1) by (intro unat_of_nat_lt) simp
    moreover have "length (rcv_queue (rx l)) = r - length (concat (take m F))"
      using arg_cong [OF r(4), of length] r(2) by simp
    moreover have "length (concat F) + length (rcv_queue (rx l)) \<le> unat (rcv_nxt (rx l)) + unat (rcv_wnd (rx l))"
      using ready F(5) by (simp add: exchange_ready_def)
    ultimately show ?thesis unfolding w using r(1) by linarith
  qed
  have rx2: "rx_inv (concat F) (length (concat (take m F))) k2" "length (concat F) + unat (rcv_wnd k2) < 2 ^ 31"
    using k2(2) by (simp_all add: rx_ready_def)
  have d: "rcv_drained k2" using k2(4) F(11) by (simp add: settles_def)
  have end2: "rcv_nxt k2 = of_nat (length (concat F)) \<and> rcv_buf k2 = []" by (rule arrived_all [OF rx2 d all p])
  have up: "update_due k2 cur'" using ready grows_due [OF k2(3)] by (simp add: exchange_ready_def)
  have acks: "\<forall>sn \<in> sg_sn ` set (snd_buf k1). sn \<in> fst ` set (ack_pairs k2)" using sent by blast
  show ?thesis
    by (rule that [OF F(4-8) k1(1) k2(1) k1(2) c1 k1(5) q1 rx2(1) conjunct1 [OF end2] conjunct2 [OF end2] k2(5,6) up acks])
qed

text \<open>
  C5: complete delivery. Two engines were connected by a network that loses, repeats, delays
  and reorders the datagrams of both directions. Once the timers of both engines and of every
  segment in flight are due and the windows have room, a single exchange without losses is
  enough: after \<open>ikcp_update\<close> of the sender and the input of the receiver, repeated calls of \<open>ikcp_recv\<close> return exactly the messages
  accepted so far that were not read yet, in order, and after \<open>ikcp_update\<close> of the receiver and
  the input of the sender nothing is left in \<open>snd_buf\<close> or \<open>snd_queue\<close>.
\<close>

theorem exchange_delivers:
  assumes "fresh c a" and "fresh c b" and "ackcount b = 0" and "duplex_step\<^sup>*\<^sup>* (duplex_start a b) \<lparr>lk = l, echoes = B\<rparr>"
    and "nseg l + unat (rcv_wnd b) < 2 ^ 31" and "exchange_ready cur cur' l" and "input_alloc mem" and "input_alloc mem'"
    and "calm mem cur cur' (tx l) (rx l)" and "\<forall>msg \<in> set (msgs l). length msg \<le> len" and "len < 2 ^ 31" and "length (msgs l) < n"
  shows "\<exists>k1 outs k2 ds k3 k4 outs2 k5. ikcp_update (tx l) cur = Some (k1, outs) \<and> feed mem (rx l) outs = Some k2 \<and>
    read_all (int len) n k2 = Some (ds, k3) \<and> got l @ ds = msgs l \<and>
    ikcp_update k2 cur' = Some (k4, outs2) \<and> feed mem' k1 outs2 = Some k5 \<and> snd_buf k5 = [] \<and> snd_queue k5 = []"
proof -
  have start: "duplex_inv c (duplex_start a b)" by (rule duplex_start_inv [OF assms(1-3)])
  have rs: "rcv_wnd (rx (lk (duplex_start a b))) = rcv_wnd b" by (simp add: duplex_start_def link_start_def)
  have inv: "duplex_inv c \<lparr>lk = l, echoes = B\<rparr>" "rcv_wnd (rx l) = rcv_wnd b"
    using duplex_reachable [OF assms(4) start] assms(5) rs by simp_all
  have n: "nseg l + unat (rcv_wnd (rx l)) < 2 ^ 31" using assms(5) inv(2) by simp
  obtain F m k1 outs k2 where F: "\<forall>f \<in> set F. frags_ok f" "nseg l = length (concat F)" "msgs l = map msg_of F"
      "m \<le> length F" "got l = map msg_of (take m F)"
    and k1: "ikcp_update (tx l) cur = Some (k1, outs)" "feed mem (rx l) outs = Some k2" "kcp_inv k1" "conv k1 = c" "ackcount k1 = 0"
      "snd_queue k1 = []"
    and k2: "rx_inv (concat F) (length (concat (take m F))) k2" "rcv_nxt k2 = of_nat (length (concat F))" "rcv_buf k2 = []"
      "conv k2 = c" "unat (ackcount k2) < 2 ^ 30" "update_due k2 cur'" "\<forall>sn \<in> sg_sn ` set (snd_buf k1). sn \<in> fst ` set (ack_pairs k2)"
    by (rule exchange_receives [OF inv(1) n assms(6,7,9)])
  have "length (concat F) < 2 ^ 31" "\<forall>f \<in> set F. length (msg_of f) \<le> len" "length F - m < n"
    using n F(2,3) assms(10,12) by auto
  then obtain k3 where k3: "read_all (int len) n k2 = Some (map msg_of (drop m F), k3)"
    using read_all_ok [OF F(1) _ assms(11) _ F(4) k2(1-3)] by blast
  have msgs: "got l @ map msg_of (drop m F) = msgs l" using F(3,5) by (simp flip: map_append)
  have r: "kcp_inv k2" "output_cb k2" "unat (ackcount k2) < 2 ^ 31" using k2(1,5) by (simp_all add: rx_inv_def)
  obtain k4 outs2 where k4: "ikcp_update k2 cur' = Some (k4, outs2)" "kcp_inv k4" "flush_sends k2 k4" "flush_wire k2 k4 outs2"
    by (rule ikcp_update_flushes [OF r k2(6)])
  have c4: "conv k4 = c" using k4(3) k2(4) by (simp add: flush_sends_def)
  have c2: "unat (ackcount k1) + length (concat outs2) < 2 ^ 30"
    using assms(9) k1(1,2,5) k4(1) unfolding calm_def by fastforce
  obtain k5 where k5: "feed mem' k1 outs2 = Some k5" "\<forall>sn \<in> fst ` set (ack_pairs k2). sn \<notin> sg_sn ` set (snd_buf k5)"
    "sns_shrink k1 k5"
    by (rule flush_feed_acks [OF k4(2) k1(3) k4(4) k2(4) c4 k1(4) assms(8) c2])
  have sub: "sg_sn ` set (snd_buf k5) \<subseteq> sg_sn ` set (snd_buf k1)" and q5: "snd_queue k5 = []"
    using k5(3) k1(6) by (simp_all add: sns_shrink_def)
  have False if s: "s \<in> set (snd_buf k5)" for s
  proof -
    have "sg_sn s \<in> sg_sn ` set (snd_buf k5)" using s by simp
    moreover from this have "sg_sn s \<in> fst ` set (ack_pairs k2)" using k2(7) subsetD [OF sub] by blast
    ultimately show False using k5(2) by blast
  qed
  then have b5: "snd_buf k5 = []" by (cases "snd_buf k5") auto
  show ?thesis
    by (rule exI [of _ k1], rule exI [of _ outs], rule exI [of _ k2], rule exI [of _ "map msg_of (drop m F)"], rule exI [of _ k3],
        rule exI [of _ k4], rule exI [of _ outs2], rule exI [of _ k5], intro conjI k1(1,2) k3 msgs k4(1) k5(1) b5 q5)
qed


text \<open>The link of \<open>go_link\<close> after the sender's update at time 200, whose datagram is lost.\<close>

definition lost_tx :: IKCPCB where
  "lost_tx = fst (the (ikcp_update go_tx 200))"

definition lost_link :: link where
  "lost_link = \<lparr>tx = lost_tx, rx = go_rx, net = {go_dgram}, msgs = [[1, 2, 3]], got = [], nseg = 1\<rparr>"

text \<open>The datagram of the retransmission at time 1000.\<close>

definition again_dgram :: "byte list" where
  "again_dgram = [7, 0, 0, 0, 81, 0, 32, 0, 232, 3, 0, 0, 0, 0, 0, 0, 0, 0, 0, 0, 3, 0, 0, 0, 1, 2, 3]"

lemma lost_update: "ikcp_update go_tx 200 = Some (lost_tx, [go_dgram])"
  "map (\<lambda>s. (sg_xmit s, sg_resendts s)) (snd_buf lost_tx) = [(1, 425)]" "length (snd_queue lost_tx) = 0"
  "snd_nxt lost_tx = 1" "snd_una lost_tx = 0" "flush_window lost_tx = 32" "ackcount lost_tx = 0" "ts_flush lost_tx = 300"
  "updated lost_tx = 1"
proof -
  have "map_option (\<lambda>(k, outs). (outs, map (\<lambda>s. (sg_xmit s, sg_resendts s)) (snd_buf k), length (snd_queue k),
      snd_nxt k, snd_una k, flush_window k, ackcount k, ts_flush k, updated k)) (ikcp_update go_tx 200) =
    Some ([go_dgram], [(1, 425)], 0, 1, 0, 32, 0, 300, 1)" by code_simp
  then show "ikcp_update go_tx 200 = Some (lost_tx, [go_dgram])"
    "map (\<lambda>s. (sg_xmit s, sg_resendts s)) (snd_buf lost_tx) = [(1, 425)]" "length (snd_queue lost_tx) = 0"
    "snd_nxt lost_tx = 1" "snd_una lost_tx = 0" "flush_window lost_tx = 32" "ackcount lost_tx = 0" "ts_flush lost_tx = 300"
    "updated lost_tx = 1"
    by (auto simp: lost_tx_def)
qed

lemma lost_steps: "duplex_step\<^sup>*\<^sup>* (duplex_start demo_kcb demo_kcb) \<lparr>lk = lost_link, echoes = {}\<rparr>"
proof -
  define l0 where "l0 = link_start demo_kcb demo_kcb"
  define l1 where "l1 = l0\<lparr>tx := go_rx\<rparr>"
  define l2 where "l2 = l1\<lparr>rx := go_rx\<rparr>"
  note d = l0_def l1_def l2_def link_start_def
  have s1: "duplex_step \<lparr>lk = l0, echoes = {}\<rparr> \<lparr>lk = l1, echoes = {}\<rparr>"
    using duplex_step.tx_update [of l0 100 go_rx "[]" "{}"] go_update(1,4) by (simp add: d)
  have s2: "duplex_step \<lparr>lk = l1, echoes = {}\<rparr> \<lparr>lk = l2, echoes = {}\<rparr>"
    using duplex_step.rx_update [of l1 100 go_rx "[]" "{}"] go_update(1,4) by (simp add: d)
  have s3: "duplex_step \<lparr>lk = l2, echoes = {}\<rparr> \<lparr>lk = go_link, echoes = {}\<rparr>"
    using duplex_step.send [of demo_mem "[1, 2, 3]" l2 0 go_tx "{}"] go_send(1,2) go_update(2)
    by (simp add: d demo_mem_def go_link_def)
  have s4: "duplex_step \<lparr>lk = go_link, echoes = {}\<rparr> \<lparr>lk = lost_link, echoes = {}\<rparr>"
    using duplex_step.tx_update [of go_link 200 lost_tx "[go_dgram]" "{}"] lost_update(1) go_send(5)
    by (simp add: go_link_def lost_link_def)
  have "duplex_step\<^sup>*\<^sup>* \<lparr>lk = l0, echoes = {}\<rparr> \<lparr>lk = lost_link, echoes = {}\<rparr>"
    by (rule converse_rtranclp_into_rtranclp [of duplex_step, OF s1] converse_rtranclp_into_rtranclp [of duplex_step, OF s2]
      converse_rtranclp_into_rtranclp [of duplex_step, OF s3] r_into_rtranclp [of duplex_step, OF s4])+
  then show ?thesis by (simp add: l0_def duplex_start_def)
qed

lemma lost_flush: "map_option snd (ikcp_update lost_tx 1000) = Some [again_dgram]"
  by code_simp

lemma lost_feed: "map_option (\<lambda>(k, outs). length (concat outs)) (do { k \<leftarrow> feed demo_alloc go_rx [again_dgram]; ikcp_update k 1000 }) = Some 24"
  by code_simp

lemma lost_calm: "calm demo_alloc 1000 1000 lost_tx go_rx"
proof -
  have "length (concat outs2) = 24" if "feed demo_alloc go_rx [again_dgram] = Some b'" "ikcp_update b' 1000 = Some (b'', outs2)" for b' b'' outs2
    using lost_feed by (simp only: that bind.bind_lunit option.map prod.case option.inject)
  moreover have "outs = [again_dgram]" if "ikcp_update lost_tx 1000 = Some (k, outs)" for k outs using lost_flush that by simp
  ultimately show ?thesis by (fastforce simp: calm_def go_fields lost_update(7) again_dgram_def)
qed

lemma lost_ready: "exchange_ready 1000 1000 lost_link"
proof -
  have "snd_queue lost_tx = []" using lost_update(3) by simp
  moreover obtain s where "snd_buf lost_tx = [s]" "sg_resendts s = 425" using lost_update(2) by (auto simp: map_eq_Cons_conv)
  moreover have "length (rcv_queue go_rx) = 0" by code_simp
  ultimately show ?thesis
    using lost_update(4-9) go_update by (simp add: exchange_ready_def lost_link_def update_due_def itimediff_def)
qed

theorem exchange_delivers_witness:
  "duplex_step\<^sup>*\<^sup>* (duplex_start demo_kcb demo_kcb) \<lparr>lk = lost_link, echoes = {}\<rparr> \<and> length (snd_buf (tx lost_link)) = 1 \<and>
   (\<exists>k1 k2 k3 k4 outs2 k5. ikcp_update (tx lost_link) 1000 = Some (k1, [again_dgram]) \<and>
      feed demo_alloc (rx lost_link) [again_dgram] = Some k2 \<and> read_all 100 2 k2 = Some ([[1, 2, 3]], k3) \<and>
      ikcp_update k2 1000 = Some (k4, outs2) \<and> feed demo_alloc k1 outs2 = Some k5 \<and> snd_buf k5 = [])"
proof -
  have al: "input_alloc demo_alloc" by (simp add: input_alloc_def demo_alloc_def)
  have f: "ackcount demo_kcb = 0" "nseg lost_link + unat (rcv_wnd demo_kcb) < 2 ^ 31" by (simp_all add: lost_link_def)
  have c: "calm demo_alloc 1000 1000 (tx lost_link) (rx lost_link)" by (simp add: lost_link_def lost_calm)
  have b: "\<forall>msg \<in> set (msgs lost_link). length msg \<le> 100" "(100 :: nat) < 2 ^ 31" "length (msgs lost_link) < 2"
    by (simp_all add: lost_link_def)
  obtain k1 outs k2 ds k3 k4 outs2 k5 where e: "ikcp_update (tx lost_link) 1000 = Some (k1, outs)"
    "feed demo_alloc (rx lost_link) outs = Some k2" "read_all (int 100) 2 k2 = Some (ds, k3)" "got lost_link @ ds = msgs lost_link"
    "ikcp_update k2 1000 = Some (k4, outs2)" "feed demo_alloc k1 outs2 = Some k5" "snd_buf k5 = []"
    using exchange_delivers [OF demo_fresh demo_fresh f(1) lost_steps f(2) lost_ready al al c b]
    by (elim exE conjE) (rule that)
  have w: "outs = [again_dgram]" "ds = [[1, 2, 3]]" using lost_flush e(1,4) by (simp_all add: lost_link_def)
  have r: "read_all 100 2 k2 = Some ([[1, 2, 3]], k3)" using e(3) unfolding w(2) by simp
  have l: "length (snd_buf (tx lost_link)) = 1" using arg_cong [OF lost_update(2), of length] by (simp add: lost_link_def)
  show ?thesis
    by (intro conjI exI [of _ k1] exI [of _ k2] exI [of _ k3] exI [of _ k4] exI [of _ outs2] exI [of _ k5])
      (rule lost_steps l e(1,2,5-7) [unfolded w(1)] r)+
qed

end
