(* ===== verification/Ikcp_Liveness.thy ===== *)
theory Ikcp_Liveness
  imports Ikcp_Duplex
begin

unbundle bit_operations_syntax

text \<open>
  A transfer never gets stuck. From every state that two engines can reach over a network that
  loses, repeats, delays and reorders, some continuation brings every accepted message to the
  user, provided that no message has more fragments than the receiver's window has room for; a
  message with more never arrives. The continuation is built from rounds: the user reads what
  is complete, which opens the receiver's window; a closed window is reopened by a probe and
  its answer; then the oldest segment in flight is sent again and acknowledged.
\<close>

section \<open>Clock values\<close>

text \<open>A clock value for which both the flush timer and a given time are due.\<close>

lemma clock_due: "\<exists>cur. update_due k cur"
  by (rule exI [of _ "ts_flush k"]) (simp add: update_due_def itimediff_def)

lemma itimediff_plus: "- 10000 \<le> itimediff a b \<Longrightarrow> itimediff a b < 0 \<Longrightarrow> itimediff (a + 10000) b = itimediff a b + 10000"
proof -
  assume a: "- 10000 \<le> itimediff a b" "itimediff a b < 0"
  have "itimediff (a + 10000) b = sint ((a - b) + 10000)" by (simp add: itimediff_def algebra_simps)
  also have "\<dots> = itimediff a b + 10000"
    using a by (simp add: itimediff_def sint_word_ariths(1) signed_take_bit_int_eq_self)
  finally show ?thesis .
qed

lemma clock_due_after: "\<exists>cur. update_due k cur \<and> itimediff cur t \<ge> 0"
proof (cases "update_due k t")
  case True
  then show ?thesis by (intro exI [of _ t]) (simp add: itimediff_def)
next
  case False
  then have "itimediff (t + 10000) (ts_flush k) \<ge> 0"
    using itimediff_plus [of t "ts_flush k"] by (simp add: update_due_def)
  then have "update_due k (t + 10000)" by (simp add: update_due_def)
  then show ?thesis by (intro exI [of _ "t + 10000"]) (simp add: itimediff_def)
qed

section \<open>What a segment does to the window and the probe\<close>

text \<open>The round of \<open>ikcp_input\<close> for one segment, by its command.\<close>

definition heard :: "IKCPCB \<Rightarrow> IKCPSEG \<Rightarrow> IKCPCB" where
  "heard k s = ikcp_shrink_buf (ikcp_parse_una (k\<lparr>rmt_wnd := ucast (h_wnd (header_of s))\<rparr>) (sg_una s))"

lemma input_seg_parts:
  assumes "kcp_inv k" and w: "wire_seg c s" and "input_seg mem k (header_of s) (sg_data s) fm = Some (Inr (k', fm'))"
  obtains (ack) k2 where "sg_cmd s = IKCP_CMD_ACK" and "k' = ikcp_shrink_buf (ikcp_parse_ack k2 (sg_sn s))"
      and "k2 = heard k s \<or> (\<exists>rtt. k2 = ikcp_update_ack (heard k s) rtt)"
    | (push) "sg_cmd s = IKCP_CMD_PUSH" and "input_push mem (heard k s) (header_of s) (sg_data s) = Some k'"
    | (ask) "sg_cmd s = IKCP_CMD_WASK" and "k' = (heard k s)\<lparr>probe := probe (heard k s) OR IKCP_ASK_TELL\<rparr>"
    | (tell) "sg_cmd s = IKCP_CMD_WINS" and "k' = heard k s"
proof -
  have una: "h_una (header_of s) = sg_una s" by (simp add: header_of_def)
  note def = input_seg_def [of mem k "header_of s" "sg_data s" fm, unfolded Let_def una heard_def [symmetric] header_of_cmd [OF w]]
  have "sg_cmd s \<in> {81, 82, 83, 84}" using w by (simp add: wire_seg_def)
  then consider "sg_cmd s = 82" | "sg_cmd s = 81" | "sg_cmd s = 83" | "sg_cmd s = 84" by auto
  then show ?thesis
  proof cases
    case 1
    have "k' = fst (input_ack (heard k s) (h_ts (header_of s)) (h_sn (header_of s)) fm)"
      using assms(3) 1 unfolding def by (cases "input_ack (heard k s) (h_ts (header_of s)) (h_sn (header_of s)) fm") auto
    then have k': "k' = ikcp_shrink_buf (ikcp_parse_ack (if itimediff (current (heard k s)) (sg_ts s) \<ge> 0
        then ikcp_update_ack (heard k s) (itimediff (current (heard k s)) (sg_ts s)) else heard k s) (sg_sn s))"
      unfolding input_ack_state header_fields .
    then show ?thesis using ack [OF _ k'] 1 by (auto split: if_splits)
  next
    case 2
    then have "input_push mem (heard k s) (header_of s) (sg_data s) = Some k'"
      using assms(3) unfolding def by (auto split: option.splits)
    then show ?thesis using push 2 by simp
  next
    case 3
    then have "k' = (heard k s)\<lparr>probe := probe (heard k s) OR IKCP_ASK_TELL\<rparr>" using assms(3) unfolding def by simp
    then show ?thesis using ask 3 by simp
  next
    case 4
    then have "k' = heard k s" using assms(3) unfolding def by simp
    then show ?thesis using tell 4 by simp
  qed
qed

text \<open>An engine that has nothing in flight has everything acknowledged.\<close>

definition idle :: "IKCPCB \<Rightarrow> bool" where
  "idle k \<longleftrightarrow> (snd_buf k = [] \<longrightarrow> snd_una k = snd_nxt k)"

lemma idle_shrink: "idle (ikcp_shrink_buf k)"
  by (simp add: idle_def shrink_buf_update)

lemma idle_same: "snd_buf k' = snd_buf k \<Longrightarrow> snd_una k' = snd_una k \<Longrightarrow> snd_nxt k' = snd_nxt k \<Longrightarrow> idle k' = idle k"
  by (simp add: idle_def)

definition telling :: "IKCPCB \<Rightarrow> bool" where
  "telling k \<longleftrightarrow> probe k AND IKCP_ASK_TELL \<noteq> 0"

lemma heard_fields [simp]:
  "probe (heard k s) = probe k" "rmt_wnd (heard k s) = ucast (h_wnd (header_of s))" "idle (heard k s)"
  "ackcount (heard k s) = ackcount k"
  by (simp_all add: heard_def idle_shrink)

lemma heard_inv: "kcp_inv k \<Longrightarrow> kcp_inv (heard k s)"
  using input_una_step [of k "\<lambda>_. True" "h_wnd (header_of s)" "sg_una s"] by (simp add: heard_def input_step_def)

lemma input_push_sender:
  assumes inv: "kcp_inv k" and cnt: "unat (ackcount k) < 2 ^ 30" and mem: "fst mem \<noteq> None" "snd mem \<noteq> None"
    and len: "unat (h_len h) \<le> length data" "unat (h_len h) < 2 ^ 31" and p: "input_push mem k h data = Some k'"
  shows "snd_buf k' = snd_buf k \<and> snd_una k' = snd_una k \<and> snd_nxt k' = snd_nxt k \<and> rmt_wnd k' = rmt_wnd k \<and> probe k' = probe k"
proof (cases "itimediff (h_sn h) (rcv_nxt k + rcv_wnd k) < 0")
  case True
  obtain l b s where v: "input_push mem k h data =
      (let k1 = k\<lparr>acklist := Some l, ackcount := ackcount k + 1, ackblock := b\<rparr>
       in Some (if itimediff (h_sn h) (rcv_nxt k) \<ge> 0 then ikcp_parse_data k1 s else k1))"
    and inv1: "kcp_inv (k\<lparr>acklist := Some l, ackcount := ackcount k + 1, ackblock := b\<rparr>)"
    by (rule input_push_value [OF inv cnt mem len True])
  let ?k = "k\<lparr>acklist := Some l, ackcount := ackcount k + 1, ackblock := b\<rparr>"
  obtain ds rest nb nq where "ikcp_parse_data ?k s = ?k\<lparr>rcv_buf := rest, nrcv_buf := nb,
      rcv_queue := rcv_queue ?k @ ds, nrcv_que := nq, rcv_nxt := rcv_nxt ?k + of_nat (length ds)\<rparr>"
    by (rule parse_data_frame [OF kcp_invD(2) [OF inv1]])
  then show ?thesis using p v by (auto simp: Let_def split: if_splits)
qed (use p in \<open>simp add: input_push_def\<close>)

text \<open>The window a segment announces is open.\<close>

definition open_wnd :: "IKCPSEG \<Rightarrow> bool" where
  "open_wnd s \<longleftrightarrow> (ucast (h_wnd (header_of s)) :: u32) \<noteq> 0"

lemma input_seg_window:
  assumes k: "kcp_inv k" and w: "wire_seg (conv k) s" and len: "length (sg_data s) < 2 ^ 31" and cnt: "unat (ackcount k) < 2 ^ 30"
    and mem: "fst mem \<noteq> None" "snd mem \<noteq> None"
    and s: "input_seg mem k (header_of s) (sg_data s) fm = Some (Inr (k', fm'))"
  shows "idle k'" and "rmt_wnd k' = ucast (h_wnd (header_of s))" and "telling k \<or> sg_cmd s = IKCP_CMD_WASK \<Longrightarrow> telling k'"
proof -
  have b: "(p OR 2) AND 2 = 2" for p :: u32 by (simp add: bit.conj_disj_distrib2)
  have "idle k' \<and> rmt_wnd k' = ucast (h_wnd (header_of s)) \<and> (telling k \<or> sg_cmd s = IKCP_CMD_WASK \<longrightarrow> telling k')"
    using k w s
  proof (cases rule: input_seg_parts)
    case (ack k2)
    then have "rmt_wnd k2 = rmt_wnd (heard k s)" "probe k2 = probe (heard k s)" by auto
    then show ?thesis using ack(1,2) by (simp add: idle_shrink telling_def)
  next
    case push
    have n: "unat (h_len (header_of s)) \<le> length (sg_data s)" "unat (h_len (header_of s)) < 2 ^ 31"
      using header_of_len [OF w] len by simp_all
    show ?thesis using input_push_sender [OF heard_inv [OF k] _ mem n push(2)] cnt push(1) idle_same [of k' "heard k s"]
      by (simp add: telling_def)
  next
    case ask
    then show ?thesis using idle_same [of k' "heard k s"] by (simp add: telling_def b)
  next
    case tell
    then show ?thesis by (simp add: telling_def)
  qed
  then show "idle k'" and "rmt_wnd k' = ucast (h_wnd (header_of s))" and "telling k \<or> sg_cmd s = IKCP_CMD_WASK \<Longrightarrow> telling k'"
    by blast+
qed

lemma finish_window:
  assumes "kcp_inv k" and "input_cwnd una (if flag then ikcp_parse_fastack k maxack else k) = Some k'"
  shows "kcp_inv k'" and "idle k' = idle k" and "rmt_wnd k' = rmt_wnd k" and "probe k' = probe k"
proof -
  let ?k = "if flag then ikcp_parse_fastack k maxack else k"
  obtain k2 where "input_cwnd una ?k = Some k2" "input_step (\<lambda>_. True) k k2" by (rule input_finish [OF assms(1)])
  then show "kcp_inv k'" using assms(2) by (simp add: input_step_def)
  have "mss k \<noteq> 0" using conf_mss(2) [OF kcp_invD(4) [OF assms(1)]] by auto
  then have "mss ?k \<noteq> 0" by simp
  then obtain c j where "input_cwnd una ?k = Some (?k\<lparr>cwnd := c, incr := j\<rparr>)" by (rule input_cwnd_total)
  then have k': "k' = ?k\<lparr>cwnd := c, incr := j\<rparr>" using assms(2) by simp
  then show "rmt_wnd k' = rmt_wnd k" and "probe k' = probe k" by simp_all
  have "map sg_sn (snd_buf (ikcp_parse_fastack k maxack)) = map sg_sn (snd_buf k)"
    using parse_fastack_map [OF kcp_invD(1) [OF assms(1)], of maxack] by simp
  then have "snd_buf (ikcp_parse_fastack k maxack) = [] \<longleftrightarrow> snd_buf k = []" by (metis map_is_Nil_conv)
  then show "idle k' = idle k" unfolding k' by (simp add: idle_def)
qed

text \<open>With \<open>w\<close> every segment announces an open window, without it nothing is known of them.\<close>

interpretation opener: input_effect "\<lambda>k. kcp_inv k \<and> idle k" "\<lambda>s. w \<longrightarrow> open_wnd s" "\<lambda>k k'. w \<and> rmt_wnd k \<noteq> 0 \<longrightarrow> rmt_wnd k' \<noteq> 0"
  "\<lambda>k _. w \<longrightarrow> rmt_wnd k \<noteq> 0" "\<lambda>_ _. True" for w
proof unfold_locales
  fix k s mem fm k' fm'
  assume a: "kcp_inv k \<and> idle k" "wire_seg (conv k) s" "w \<longrightarrow> open_wnd s" "length (sg_data s) < 2 ^ 31"
    "unat (ackcount k) < 2 ^ 30" "fst mem \<noteq> None" "snd mem \<noteq> None"
    "input_seg mem k (header_of s) (sg_data s) fm = Some (Inr (k', fm'))"
  have k: "kcp_inv k" using a(1) ..
  have n: "unat (h_len (header_of s)) \<le> length (sg_data s)" "unat (h_len (header_of s)) < 2 ^ 31"
    using header_of_len [OF a(2)] a(4) by simp_all
  have "input_step (\<lambda>_. True) k k'" using input_seg_step [OF k a(5-7) n, of "\<lambda>_. True" fm] a(8) by auto
  then show "(kcp_inv k' \<and> idle k') \<and> (w \<and> rmt_wnd k \<noteq> 0 \<longrightarrow> rmt_wnd k' \<noteq> 0) \<and> (True \<longrightarrow> w \<longrightarrow> rmt_wnd k' \<noteq> 0)"
    using input_seg_window(1,2) [OF k a(2,4-8)] a(3) by (simp add: input_step_def open_wnd_def)
next
  fix k una flag maxack k'
  assume a: "kcp_inv k \<and> idle k" "input_cwnd una (if flag then ikcp_parse_fastack k maxack else k) = Some k'"
  show "(kcp_inv k' \<and> idle k') \<and> (w \<and> rmt_wnd k \<noteq> 0 \<longrightarrow> rmt_wnd k' \<noteq> 0)"
    using finish_window [OF _ a(2)] a(1) by simp
qed auto

interpretation prober: input_effect kcp_inv "\<lambda>_. True" "\<lambda>k k'. telling k \<longrightarrow> telling k'" "\<lambda>k _. telling k"
  "\<lambda>_ s. sg_cmd s = IKCP_CMD_WASK"
proof unfold_locales
  fix k s mem fm k' fm'
  assume a: "kcp_inv k" "wire_seg (conv k) s" "True" "length (sg_data s) < 2 ^ 31"
    "unat (ackcount k) < 2 ^ 30" "fst mem \<noteq> None" "snd mem \<noteq> None"
    "input_seg mem k (header_of s) (sg_data s) fm = Some (Inr (k', fm'))"
  have n: "unat (h_len (header_of s)) \<le> length (sg_data s)" "unat (h_len (header_of s)) < 2 ^ 31"
    using header_of_len [OF a(2)] a(4) by simp_all
  have "input_step (\<lambda>_. True) k k'" using input_seg_step [OF a(1,5-7) n, of "\<lambda>_. True" fm] a(8) by auto
  then show "kcp_inv k' \<and> (telling k \<longrightarrow> telling k') \<and> (sg_cmd s = IKCP_CMD_WASK \<longrightarrow> telling k')"
    using input_seg_window(3) [OF a(1,2,4-8)] by (simp add: input_step_def)
next
  fix k una flag maxack k'
  assume a: "kcp_inv k" "input_cwnd una (if flag then ikcp_parse_fastack k maxack else k) = Some k'"
  show "kcp_inv k' \<and> (telling k \<longrightarrow> telling k')" using finish_window [OF a] by (simp add: telling_def)
qed auto

section \<open>The invariant\<close>

definition live :: "u32 \<Rightarrow> duplex \<Rightarrow> bool" where
  "live c s \<longleftrightarrow> duplex_inv c s \<and> nseg (lk s) + unat (rcv_wnd (rx (lk s))) < 2 ^ 31 \<and> idle (tx (lk s)) \<and>
     unat (ackcount (tx (lk s))) < 2 ^ 30 \<and> unat (ackcount (rx (lk s))) < 2 ^ 30"

text \<open>What no step changes.\<close>

definition same_conf :: "duplex \<Rightarrow> duplex \<Rightarrow> bool" where
  "same_conf s s' \<longleftrightarrow> rcv_wnd (rx (lk s')) = rcv_wnd (rx (lk s)) \<and> mss (tx (lk s')) = mss (tx (lk s)) \<and>
     snd_wnd (tx (lk s')) = snd_wnd (tx (lk s))"

lemma flush_idle: "flush_sends k k' \<Longrightarrow> idle k \<Longrightarrow> idle k'"
proof -
  assume f: "flush_sends k k'" and i: "idle k"
  then obtain ms news where m: "snd_queue k = ms @ snd_queue k'" "map seg_id (snd_buf k') = map seg_id (snd_buf k @ news)"
    "map (\<lambda>s. (sg_frg s, sg_data s)) news = map (\<lambda>s. (sg_frg s, sg_data s)) ms" "snd_nxt k' = snd_nxt k + of_nat (length ms)"
    "snd_una k' = snd_una k" unfolding flush_sends_def by (elim exE conjE) (rule that)
  show "idle k'"
    unfolding idle_def
  proof
    assume "snd_buf k' = []"
    then have "snd_buf k = []" "news = []" using m(2) by simp_all
    then show "snd_una k' = snd_nxt k'" using i m(3-5) by (simp add: idle_def)
  qed
qed

lemma recv_sender:
  assumes "ikcp_recv k hb len = Some (r, d, k')"
  shows "idle k' = idle k" "ackcount k' = ackcount k" "ack_pairs k' = ack_pairs k" "mss k' = mss k" "snd_wnd k' = snd_wnd k"
    "ts_flush k' = ts_flush k" "updated k' = updated k" "telling k \<Longrightarrow> telling k'"
proof -
  have m: "\<exists>x a b c e. move_ready (rcv_buf j) j = j\<lparr>rcv_buf := x, nrcv_buf := a, rcv_queue := b, nrcv_que := c, rcv_nxt := e\<rparr>" for j
    using move_ready_spec [of j "rcv_buf j"] by blast
  have "idle k' = idle k \<and> ackcount k' = ackcount k \<and> acklist k' = acklist k \<and> mss k' = mss k \<and> snd_wnd k' = snd_wnd k \<and>
      ts_flush k' = ts_flush k \<and> updated k' = updated k"
    using assms
  proof (cases rule: ikcp_recv_result)
    case (2 c x)
    then show ?thesis using m [of "recv_take c k"] by (auto simp: recv_take_def idle_def)
  qed simp
  then show "idle k' = idle k" "ackcount k' = ackcount k" "ack_pairs k' = ack_pairs k" "mss k' = mss k" "snd_wnd k' = snd_wnd k"
    "ts_flush k' = ts_flush k" "updated k' = updated k" using ack_pairs_same [of k' k] by simp_all
  have b: "telling (j\<lparr>probe := probe j OR 2\<rparr>)" for j
    by (simp add: telling_def bit.conj_disj_distrib2)
  have p: "probe (move_ready (rcv_buf j) j) = probe j" for j using m [of j] by auto
  define k1 where "k1 = (if len < 0 then k
     else k\<lparr>rcv_queue := drop (length (first_msg (rcv_queue k))) (rcv_queue k),
            nrcv_que := nrcv_que k - of_nat (length (first_msg (rcv_queue k)))\<rparr>)"
  have k1: "telling (move_ready (rcv_buf k1) k1) = telling k" unfolding telling_def p by (simp add: k1_def)
  show "telling k \<Longrightarrow> telling k'"
    using assms b k1 unfolding ikcp_recv_cases k1_def [symmetric] Let_def by (auto split: if_splits)
qed

lemma live_tx_update:
  assumes i: "live c \<lparr>lk = l, echoes = B\<rparr>" and u: "ikcp_update (tx l) cur = Some (k, outs)"
  shows "idle k" "unat (ackcount k) < 2 ^ 30" "mss k = mss (tx l)" "snd_wnd k = snd_wnd (tx l)"
proof -
  have inv: "duplex_inv c \<lparr>lk = l, echoes = B\<rparr>" "idle (tx l)" "unat (ackcount (tx l)) < 2 ^ 30"
    using i by (simp_all add: live_def)
  obtain F m where "tx_inv (concat F) (tx l)" by (rule duplex_invE [OF inv(1)])
  then have t: "kcp_inv (tx l)" "output_cb (tx l)" "unat (ackcount (tx l)) < 2 ^ 31"
    using inv(3) by (simp_all add: tx_inv_def)
  obtain k2 outs2 where "ikcp_update (tx l) cur = Some (k2, outs2)" "flush_sends (tx l) k2"
    "unat (ackcount k2) \<le> unat (ackcount (tx l))" by (rule ikcp_update_ok [OF t])
  then have f: "flush_sends (tx l) k" "unat (ackcount k) \<le> unat (ackcount (tx l))" using u by simp_all
  show "idle k" "unat (ackcount k) < 2 ^ 30" "mss k = mss (tx l)" "snd_wnd k = snd_wnd (tx l)"
    using flush_idle [OF f(1) inv(2)] f inv(3) by (simp_all add: flush_sends_def)
qed

lemma live_tx_input:
  assumes i: "live c \<lparr>lk = l, echoes = B\<rparr>" and d: "d \<in> B" and mem: "input_alloc mem"
    and cnt: "unat (ackcount (tx l)) + length d < 2 ^ 30"
    and s: "ikcp_input mem (tx l) (Some d) (int (length d)) = Some (r, k)"
  shows "idle k" "unat (ackcount k) < 2 ^ 30" "mss k = mss (tx l)" "snd_wnd k = snd_wnd (tx l)"
proof -
  have inv: "duplex_inv c \<lparr>lk = l, echoes = B\<rparr>" "idle (tx l)" using i by (simp_all add: live_def)
  obtain F where t: "tx_inv (concat F) (tx l)" "conv (tx l) = c" "back_inv c (rx l) B" by (rule duplex_invE [OF inv(1)])
  obtain g where g: "d = wires g" "g \<noteq> []" "\<forall>s \<in> set g. wire_seg (conv (tx l)) s \<and> (False \<longrightarrow> open_wnd s)"
    using d t(2,3) unfolding back_inv_def by blast
  have I: "kcp_inv (tx l) \<and> idle (tx l)" using t(1) inv(2) by (simp add: tx_inv_def)
  obtain k2 where "ikcp_input mem (tx l) (Some (wires g)) (int (length (wires g))) = Some (0, k2)" "idle k2"
    "unat (ackcount k2) \<le> unat (ackcount (tx l)) + length (wires g)"
    using opener.dgram [OF I mem g(2,3)] cnt g(1) by blast
  then show "idle k" "unat (ackcount k) < 2 ^ 30" using s g(1) cnt by simp_all
  have "input_step (\<lambda>_. True) (tx l) k" by (rule input_total_step [OF conjunct1 [OF I] mem cnt s])
  then show "mss k = mss (tx l)" "snd_wnd k = snd_wnd (tx l)" by (simp_all add: input_step_def snd_shrinks_def)
qed

lemma live_deliver:
  assumes i: "live c \<lparr>lk = l, echoes = B\<rparr>" and d: "d \<in> net l" and mem: "input_alloc mem"
    and cnt: "unat (ackcount (rx l)) + length d < 2 ^ 30"
    and s: "ikcp_input mem (rx l) (Some d) (int (length d)) = Some (r, k)"
  shows "unat (ackcount k) < 2 ^ 30"
proof -
  have inv: "duplex_inv c \<lparr>lk = l, echoes = B\<rparr>" using i by (simp add: live_def)
  obtain F m where t: "rx_inv (concat F) (length (concat (take m F))) (rx l)" "conv (rx l) = c" "net_inv (concat F) c (net l)"
    by (rule duplex_invE [OF inv])
  obtain g where g: "d = wires g" "g \<noteq> []" "\<forall>s \<in> set g. wire_seg (conv (rx l)) s \<and> True"
    using d t(2,3) unfolding net_inv_def by blast
  have I: "kcp_inv (rx l)" using t(1) by (simp add: rx_inv_def)
  obtain k2 where "ikcp_input mem (rx l) (Some (wires g)) (int (length (wires g))) = Some (0, k2)"
    "unat (ackcount k2) \<le> unat (ackcount (rx l)) + length (wires g)"
    using prober.dgram [OF I mem g(2,3)] cnt g(1) by blast
  then show ?thesis using s g(1) cnt by simp
qed

lemma live_rx_update:
  assumes i: "live c \<lparr>lk = l, echoes = B\<rparr>" and u: "ikcp_update (rx l) cur = Some (k, outs)"
  shows "unat (ackcount k) < 2 ^ 30"
proof -
  have inv: "duplex_inv c \<lparr>lk = l, echoes = B\<rparr>" "unat (ackcount (rx l)) < 2 ^ 30"
    using i by (simp_all add: live_def)
  obtain F m where "rx_inv (concat F) (length (concat (take m F))) (rx l)" by (rule duplex_invE [OF inv(1)])
  then have t: "kcp_inv (rx l)" "output_cb (rx l)" "unat (ackcount (rx l)) < 2 ^ 31"
    using inv(2) by (simp_all add: rx_inv_def)
  obtain k2 outs2 where "ikcp_update (rx l) cur = Some (k2, outs2)"
    "unat (ackcount k2) \<le> unat (ackcount (rx l))" by (rule ikcp_update_ok [OF t])
  then show ?thesis using u inv(2) by simp
qed

lemma live_sides:
  assumes "duplex_step s s'" and i: "live c s"
  shows "idle (tx (lk s')) \<and> unat (ackcount (tx (lk s'))) < 2 ^ 30 \<and> unat (ackcount (rx (lk s'))) < 2 ^ 30 \<and>
    mss (tx (lk s')) = mss (tx (lk s)) \<and> snd_wnd (tx (lk s')) = snd_wnd (tx (lk s))"
  using assms
proof (induction rule: duplex_step.induct)
  case (send mem b l r k B)
  obtain F where "tx_inv (concat F) (tx l)" by (rule duplex_invE [of c l B]) (use send.prems in \<open>simp add: live_def\<close>)
  then have "kcp_inv (tx l)" by (simp add: tx_inv_def)
  from send_frags [where mem = mem, OF this send.hyps(1,2,3)] show ?case using send.prems by (auto simp: live_def idle_def)
next
  case (tx_update l cur k outs B)
  then show ?case using live_tx_update [OF tx_update.prems] by (simp add: live_def)
next
  case (tx_input d B mem l r k)
  then show ?case using live_tx_input [OF tx_input.prems tx_input.hyps] by (simp add: live_def)
next
  case (tx_recv l len r d k B)
  then show ?case using recv_sender [OF tx_recv.hyps] by (simp add: live_def)
next
  case (deliver d l mem r k B)
  then show ?case using live_deliver [OF deliver.prems deliver.hyps] by (simp add: live_def)
next
  case (rx_update l cur k outs B)
  then show ?case using live_rx_update [OF rx_update.prems] by (simp add: live_def)
next
  case (rx_send mem b l r k B)
  obtain F m where "rx_inv (concat F) (length (concat (take m F))) (rx l)"
    by (rule duplex_invE [of c l B]) (use rx_send.prems in \<open>simp add: live_def\<close>)
  then have "kcp_inv (rx l)" by (simp add: rx_inv_def)
  from send_frags [where mem = mem, OF this rx_send.hyps(1,2,3)] show ?case using rx_send.prems by (auto simp: live_def)
next
  case (recv l len r d k B)
  then show ?case using recv_sender [OF recv.hyps] by (simp add: live_def)
qed

lemma live_step:
  assumes "duplex_step s s'" and i: "live c s" and n: "nseg (lk s') + unat (rcv_wnd (rx (lk s))) < 2 ^ 31"
  shows "live c s' \<and> same_conf s s'"
proof -
  have "nseg (lk s) \<le> nseg (lk s')" by (rule link_step_nseg [OF duplex_link [OF assms(1)]])
  then have "duplex_inv c s' \<and> rcv_wnd (rx (lk s')) = rcv_wnd (rx (lk s))"
    using duplex_step_inv [OF assms(1), of c] i by (simp add: live_def)
  then show ?thesis using live_sides [OF assms(1) i] n by (simp add: live_def same_conf_def)
qed

lemma live_reachable:
  assumes "duplex_step\<^sup>*\<^sup>* s s'" and "live c s" and "nseg (lk s') + unat (rcv_wnd (rx (lk s))) < 2 ^ 31"
  shows "live c s' \<and> same_conf s s'"
  using assms
proof (induction rule: rtranclp_induct)
  case (step y z)
  have "nseg (lk y) \<le> nseg (lk z)" by (rule link_step_nseg [OF duplex_link [OF step.hyps(2)]])
  then have y: "live c y" "same_conf s y" using step by simp_all
  show ?case using live_step [OF step.hyps(2) y(1)] step.prems(2) y(2) by (simp add: same_conf_def)
qed (simp add: same_conf_def)

lemma live_start:
  assumes "fresh c a" and "fresh c b" and "ackcount a = 0" and "ackcount b = 0" and "unat (rcv_wnd b) < 2 ^ 31"
  shows "live c (duplex_start a b)"
  using duplex_start_inv [OF assms(1,2,4)] assms by (simp add: live_def duplex_start_def link_start_def idle_def fresh_def)

section \<open>Continuations\<close>

text \<open>A continuation that accepts no further message.\<close>

definition onward :: "u32 \<Rightarrow> duplex \<Rightarrow> duplex \<Rightarrow> bool" where
  "onward c s s' \<longleftrightarrow> duplex_step\<^sup>*\<^sup>* s s' \<and> live c s' \<and> same_conf s s' \<and> msgs (lk s') = msgs (lk s) \<and> nseg (lk s') = nseg (lk s)"

lemma onward_refl: "live c s \<Longrightarrow> onward c s s"
  by (simp add: onward_def same_conf_def)

lemma onward_trans: "onward c s1 s2 \<Longrightarrow> onward c s2 s3 \<Longrightarrow> onward c s1 s3"
  unfolding onward_def same_conf_def by (metis rtranclp_trans)

lemma onward_live: "onward c s s' \<Longrightarrow> live c s'"
  by (simp add: onward_def)

lemma onward_step:
  assumes "duplex_step s s'" and "live c s" and "msgs (lk s') = msgs (lk s)" and "nseg (lk s') = nseg (lk s)"
  shows "onward c s s'"
  using live_step [OF assms(1,2)] assms by (simp add: onward_def live_def r_into_rtranclp)

text \<open>The facts of a state that the moves need.\<close>

lemma liveE:
  assumes "live c \<lparr>lk = l, echoes = B\<rparr>"
  obtains F m where "conv (tx l) = c" and "conv (rx l) = c" and "\<forall>f \<in> set F. frags_ok f"
    and "nseg l = length (concat F)" and "length (concat F) < 2 ^ 31" and "length (concat F) + unat (rcv_wnd (rx l)) < 2 ^ 31"
    and "msgs l = map msg_of F" and "m \<le> length F" and "got l = map msg_of (take m F)"
    and "tx_inv (concat F) (tx l)" and "rx_inv (concat F) (length (concat (take m F))) (rx l)"
    and "rcv_drained (rx l)" and "sent_known l" and "\<forall>f \<in> set F. cut_ok (unat (mss (tx l))) f"
    and "kcp_inv (tx l)" and "kcp_inv (rx l)" and "output_cb (tx l)" and "output_cb (rx l)"
    and "unat (ackcount (tx l)) < 2 ^ 31" and "unat (ackcount (rx l)) < 2 ^ 31" and "idle (tx l)"
proof -
  have i: "duplex_inv c \<lparr>lk = l, echoes = B\<rparr>" "nseg l + unat (rcv_wnd (rx l)) < 2 ^ 31" "idle (tx l)"
    "unat (ackcount (tx l)) < 2 ^ 30" "unat (ackcount (rx l)) < 2 ^ 30" using assms by (simp_all add: live_def)
  obtain F m where d: "conv (tx l) = c" "conv (rx l) = c" "\<forall>f \<in> set F. frags_ok f" "nseg l = length (concat F)" "msgs l = map msg_of F"
    "m \<le> length F" "got l = map msg_of (take m F)" "tx_inv (concat F) (tx l)" "rx_inv (concat F) (length (concat (take m F))) (rx l)"
    "rcv_drained (rx l)" "sent_known l" "\<forall>f \<in> set F. cut_ok (unat (mss (tx l))) f" by (rule duplex_invE [OF i(1)])
  have n: "length (concat F) < 2 ^ 31" "length (concat F) + unat (rcv_wnd (rx l)) < 2 ^ 31"
    "unat (ackcount (tx l)) < 2 ^ 31" "unat (ackcount (rx l)) < 2 ^ 31" using i(2,4,5) d(4) by simp_all
  have k: "kcp_inv (tx l)" "output_cb (tx l)" "kcp_inv (rx l)" "output_cb (rx l)" using d(8,9) by (simp_all add: tx_inv_def rx_inv_def)
  show ?thesis by (rule that [OF d(1-4) n(1,2) d(5-12) k(1,3,2,4) n(3,4) i(3)])
qed

text \<open>The receiver flushes its acknowledgements.\<close>

lemma rx_flushes:
  assumes i: "live c \<lparr>lk = l, echoes = B\<rparr>"
  obtains k outs where "onward c \<lparr>lk = l, echoes = B\<rparr> \<lparr>lk = l\<lparr>rx := k\<rparr>, echoes = B \<union> set outs\<rparr>"
    and "ackcount k = 0" and "flush_sends (rx l) k" and "flush_wire (rx l) k outs" and "kcp_inv k" and "conv (rx l) = c" and "conv k = c"
proof -
  obtain F where r: "conv (rx l) = c" "kcp_inv (rx l)" "output_cb (rx l)" "unat (ackcount (rx l)) < 2 ^ 31" by (rule liveE [OF i])
  obtain cur where due: "update_due (rx l) cur" using clock_due by blast
  obtain k outs where u: "ikcp_update (rx l) cur = Some (k, outs)" "kcp_inv k" "flush_sends (rx l) k" "flush_wire (rx l) k outs"
    "ackcount k = 0" by (rule ikcp_update_flushes [OF r(2-4) due])
  have "onward c \<lparr>lk = l, echoes = B\<rparr> \<lparr>lk = l\<lparr>rx := k\<rparr>, echoes = B \<union> set outs\<rparr>"
    by (rule onward_step [OF duplex_step.rx_update [OF r(4) u(1)] i]) simp_all
  moreover have "conv k = c" using u(3) r(1) by (simp add: flush_sends_def)
  ultimately show ?thesis using that u r(1) by blast
qed

lemma tx_flushes:
  assumes i: "live c \<lparr>lk = l, echoes = B\<rparr>" and due: "update_due (tx l) cur"
  obtains k outs where "onward c \<lparr>lk = l, echoes = B\<rparr> \<lparr>lk = l\<lparr>tx := k, net := net l \<union> set outs\<rparr>, echoes = B\<rparr>"
    and "ackcount k = 0" and "current k = cur" and "flush_sends (tx l) k" and "flush_wire (tx l) k outs" and "flush_opens (tx l) k"
    and "kcp_inv k" and "conv (tx l) = c" and "conv k = c"
proof -
  obtain F where r: "conv (tx l) = c" "kcp_inv (tx l)" "output_cb (tx l)" "unat (ackcount (tx l)) < 2 ^ 31" by (rule liveE [OF i])
  obtain k outs where u: "ikcp_update (tx l) cur = Some (k, outs)" "kcp_inv k" "flush_sends (tx l) k" "flush_wire (tx l) k outs"
    "current k = cur" "ackcount k = 0" "flush_opens (tx l) k" by (rule ikcp_update_flushes [OF r(2-4) due])
  have "onward c \<lparr>lk = l, echoes = B\<rparr> \<lparr>lk = l\<lparr>tx := k, net := net l \<union> set outs\<rparr>, echoes = B\<rparr>"
    by (rule onward_step [OF duplex_step.tx_update [OF r(4) u(1)] i]) simp_all
  moreover have "conv k = c" using u(3) r(1) by (simp add: flush_sends_def)
  ultimately show ?thesis using that u r(1) by blast
qed

text \<open>A datagram of the sender arrives.\<close>

lemma rx_takes:
  assumes i: "live c \<lparr>lk = l, echoes = B\<rparr>" and g: "wires g \<in> net l" "g \<noteq> []"
    and W: "\<forall>s \<in> set g. wire_seg c s \<and> (sg_cmd s = IKCP_CMD_PUSH \<longrightarrow> s \<in> set (snd_buf (tx l)))"
    and cnt: "unat (ackcount (rx l)) + length (wires g) < 2 ^ 30"
  obtains k where "onward c \<lparr>lk = l, echoes = B\<rparr> \<lparr>lk = l\<lparr>rx := k\<rparr>, echoes = B\<rparr>"
    and "\<forall>s \<in> set g. sg_cmd s = IKCP_CMD_PUSH \<and> in_window (rx l) (sg_sn s) \<longrightarrow> (sg_sn s, sg_ts s) \<in> set (ack_pairs k)"
    and "\<forall>s \<in> set g. sg_cmd s = IKCP_CMD_WASK \<longrightarrow> telling k"
proof -
  obtain F m where r: "conv (rx l) = c" "\<forall>f \<in> set F. frags_ok f" "length (concat F) + unat (rcv_wnd (rx l)) < 2 ^ 31"
    "tx_inv (concat F) (tx l)" "rx_inv (concat F) (length (concat (take m F))) (rx l)" "kcp_inv (rx l)" by (rule liveE [OF i])
  have gen: "\<forall>s \<in> set g. wire_seg (conv (rx l)) s \<and> genuine_wire (concat F) s"
    using W r(1,4) genuine_pushed [OF r(2)] by (auto simp: genuine_wire_def tx_inv_def)
  have rd: "rx_ready (concat F) (length (concat (take m F))) (rx l)" using r(3,5) by (simp add: rx_ready_def)
  have mem: "input_alloc demo_alloc" by (simp add: input_alloc_def demo_alloc_def)
  obtain k where k: "ikcp_input demo_alloc (rx l) (Some (wires g)) (int (length (wires g))) = Some (0, k)"
    "\<forall>s \<in> set g. sg_cmd s = IKCP_CMD_PUSH \<and> in_window (rx l) (sg_sn s) \<longrightarrow> (sg_sn s, sg_ts s) \<in> set (ack_pairs k) \<and> holds k (sg_sn s)"
    using receiver.dgram [OF rd mem g(2) gen cnt] by blast
  have w: "\<forall>s \<in> set g. wire_seg (conv (rx l)) s \<and> True" using W r(1) by blast
  obtain k2 where k2: "ikcp_input demo_alloc (rx l) (Some (wires g)) (int (length (wires g))) = Some (0, k2)"
    "\<forall>s \<in> set g. sg_cmd s = IKCP_CMD_WASK \<longrightarrow> telling k2"
    using prober.dgram [OF r(6) mem g(2) w cnt] by blast
  have "onward c \<lparr>lk = l, echoes = B\<rparr> \<lparr>lk = l\<lparr>rx := k\<rparr>, echoes = B\<rparr>"
    by (rule onward_step [OF duplex_step.deliver [OF g(1) mem cnt k(1)] i]) simp_all
  then show ?thesis using that k k2 by auto
qed

text \<open>A datagram of the receiver arrives.\<close>

lemma tx_takes:
  assumes i: "live c \<lparr>lk = l, echoes = B\<rparr>" and g: "wires g \<in> B" "g \<noteq> []" and W: "\<forall>s \<in> set g. wire_seg c s"
    and cnt: "unat (ackcount (tx l)) + length (wires g) < 2 ^ 30"
  obtains k where "onward c \<lparr>lk = l, echoes = B\<rparr> \<lparr>lk = l\<lparr>tx := k\<rparr>, echoes = B\<rparr>" and "kcp_inv k" and "sns_shrink (tx l) k"
    and "\<forall>s \<in> set g. sg_cmd s = IKCP_CMD_ACK \<longrightarrow> acked k s" and "(\<forall>s \<in> set g. open_wnd s) \<longrightarrow> rmt_wnd k \<noteq> 0"
proof -
  obtain F where r: "conv (tx l) = c" "kcp_inv (tx l)" "idle (tx l)" by (rule liveE [OF i])
  have mem: "input_alloc demo_alloc" by (simp add: input_alloc_def demo_alloc_def)
  have w: "\<forall>s \<in> set g. wire_seg (conv (tx l)) s \<and> True" using W r(1) by blast
  obtain k where k: "ikcp_input demo_alloc (tx l) (Some (wires g)) (int (length (wires g))) = Some (0, k)" "kcp_inv k"
    "sns_shrink (tx l) k" "\<forall>s \<in> set g. sg_cmd s = IKCP_CMD_ACK \<longrightarrow> acked k s"
    using sender.dgram [OF r(2) mem g(2) w cnt] by blast
  let ?w = "\<forall>s \<in> set g. open_wnd s"
  have w2: "\<forall>s \<in> set g. wire_seg (conv (tx l)) s \<and> (?w \<longrightarrow> open_wnd s)" using W r(1) by blast
  obtain k2 where k2: "ikcp_input demo_alloc (tx l) (Some (wires g)) (int (length (wires g))) = Some (0, k2)"
    "\<forall>s \<in> set g. ?w \<longrightarrow> rmt_wnd k2 \<noteq> 0"
    using opener.dgram [OF conjI [OF r(2,3)] mem g(2) w2 cnt] by blast
  have o: "?w \<longrightarrow> rmt_wnd k \<noteq> 0" using k(1) k2 hd_in_set [OF g(2)] by auto
  have "onward c \<lparr>lk = l, echoes = B\<rparr> \<lparr>lk = l\<lparr>tx := k\<rparr>, echoes = B\<rparr>"
    by (rule onward_step [OF duplex_step.tx_input [OF g(1) mem cnt k(1)] i]) simp_all
  then show ?thesis using that k(2-4) o by blast
qed

text \<open>The user reads until no message is complete.\<close>

lemma read_step:
  assumes i: "live c \<lparr>lk = l, echoes = B\<rparr>" and p: "ikcp_peeksize (rx l) \<ge> 0"
  obtains k d where "onward c \<lparr>lk = l, echoes = B\<rparr> \<lparr>lk = l\<lparr>rx := k, got := got l @ [d]\<rparr>, echoes = B\<rparr>"
    and "ack_pairs k = ack_pairs (rx l)" and "telling (rx l) \<longrightarrow> telling k"
proof -
  let ?n = "ikcp_peeksize (rx l)"
  obtain r d k where rv: "ikcp_recv (rx l) True ?n = Some (r, d, k)" using ikcp_recv_some by blast
  have q: "rcv_queue (rx l) \<noteq> []" using p by (auto simp: ikcp_peeksize_def)
  have r: "0 \<le> r"
    using rv by (cases rule: ikcp_recv_result) (use p q in auto)
  have "onward c \<lparr>lk = l, echoes = B\<rparr> \<lparr>lk = l\<lparr>rx := k, got := got l @ (if r \<ge> 0 \<and> ?n \<ge> 0 then [d] else [])\<rparr>, echoes = B\<rparr>"
    by (rule onward_step [OF duplex_step.recv [OF rv] i]) simp_all
  then have "onward c \<lparr>lk = l, echoes = B\<rparr> \<lparr>lk = l\<lparr>rx := k, got := got l @ [d]\<rparr>, echoes = B\<rparr>" using r p by simp
  then show ?thesis using that recv_sender(3,8) [OF rv] by blast
qed

lemma got_bound: "live c \<lparr>lk = l, echoes = B\<rparr> \<Longrightarrow> length (got l) \<le> length (msgs l)"
  using link_inv_prefix [of c l] by (simp add: live_def duplex_inv_def prefix_length_le)

lemma reads:
  assumes "live c \<lparr>lk = l, echoes = B\<rparr>"
  shows "\<exists>l'. onward c \<lparr>lk = l, echoes = B\<rparr> \<lparr>lk = l', echoes = B\<rparr> \<and> ikcp_peeksize (rx l') < 0 \<and> tx l' = tx l \<and> net l' = net l \<and>
    ack_pairs (rx l') = ack_pairs (rx l) \<and> (telling (rx l) \<longrightarrow> telling (rx l'))"
  using assms
proof (induction "length (msgs l) - length (got l)" arbitrary: l rule: less_induct)
  case less
  show ?case
  proof (cases "ikcp_peeksize (rx l) < 0")
    case True
    then show ?thesis using onward_refl [OF less.prems] by blast
  next
    case False
    then have "ikcp_peeksize (rx l) \<ge> 0" by simp
    then obtain k d where k: "onward c \<lparr>lk = l, echoes = B\<rparr> \<lparr>lk = l\<lparr>rx := k, got := got l @ [d]\<rparr>, echoes = B\<rparr>"
      "ack_pairs k = ack_pairs (rx l)" "telling (rx l) \<longrightarrow> telling k" by (rule read_step [OF less.prems])
    let ?l = "l\<lparr>rx := k, got := got l @ [d]\<rparr>"
    have "length (got l @ [d]) \<le> length (msgs l)" using got_bound [OF onward_live [OF k(1)]] by simp
    then have lt: "length (msgs ?l) - length (got ?l) < length (msgs l) - length (got l)" by simp
    obtain l' where l': "onward c \<lparr>lk = ?l, echoes = B\<rparr> \<lparr>lk = l', echoes = B\<rparr>" "ikcp_peeksize (rx l') < 0" "tx l' = tx ?l"
      "net l' = net ?l" "ack_pairs (rx l') = ack_pairs (rx ?l)" "telling (rx ?l) \<longrightarrow> telling (rx l')"
      using less.hyps [OF lt onward_live [OF k(1)]] by blast
    show ?thesis by (rule exI [of _ l']) (use onward_trans [OF k(1) l'(1)] l'(2-) k(2,3) in simp)
  qed
qed

section \<open>The receiver's window\<close>

text \<open>Every message fits the receiver's window, and the windows are usable at all.\<close>

definition fits :: "duplex \<Rightarrow> bool" where
  "fits s \<longleftrightarrow> (\<forall>msg \<in> set (msgs (lk s)). frag_count (unat (mss (tx (lk s)))) (length msg) \<le> unat (rcv_wnd (rx (lk s)))) \<and>
     0 < unat (rcv_wnd (rx (lk s))) \<and> unat (rcv_wnd (rx (lk s))) < 2 ^ 16 \<and> 0 < unat (snd_wnd (tx (lk s)))"

lemma fits_onward: "onward c s s' \<Longrightarrow> fits s \<Longrightarrow> fits s'"
  by (simp add: fits_def onward_def same_conf_def)

text \<open>When nothing can be read, the next message is not complete.\<close>

lemma read_stuck:
  assumes F: "\<forall>f \<in> set F. frags_ok f" and m: "m < length F" and inv: "rx_inv (concat F) (length (concat (take m F))) k"
    and cut: "cut_ok n (F ! m)" and p: "ikcp_peeksize k < 0"
  shows "length (rcv_queue k) < length (F ! m)"
proof (rule ccontr)
  assume len: "\<not> length (rcv_queue k) < length (F ! m)"
  have fm: "frags_ok (F ! m)" using F m by simp
  then have q: "rcv_queue k \<noteq> []" using len by (auto simp: frags_ok_def)
  obtain f where f: "f = F ! m" "sg_frg (hd (rcv_queue k)) = of_nat (length f - 1)" "length f \<le> length (rcv_queue k) \<longrightarrow>
      first_msg (rcv_queue k) = take (length f) (rcv_queue k) \<and> map frag_of (take (length f) (rcv_queue k)) = f"
    by (rule queue_head [OF F _ inv q]) (use m in auto)
  have kinv: "kcp_inv k" using inv by (simp add: rx_inv_def)
  have "ikcp_peeksize k = int (length (msg_of (F ! m)))"
    by (rule complete_peeksize [OF kinv q fm]) (use f len cut in \<open>auto simp: cut_ok_def\<close>)
  then show False using p by simp
qed

lemma read_room:
  assumes i: "live c \<lparr>lk = l, echoes = B\<rparr>" and f: "fits \<lparr>lk = l, echoes = B\<rparr>" and p: "ikcp_peeksize (rx l) < 0"
  shows "length (rcv_queue (rx l)) < unat (rcv_wnd (rx l))"
proof -
  obtain F m where F: "\<forall>f \<in> set F. frags_ok f" "msgs l = map msg_of F" "m \<le> length F"
    "rx_inv (concat F) (length (concat (take m F))) (rx l)" "\<forall>f \<in> set F. cut_ok (unat (mss (tx l))) f" by (rule liveE [OF i])
  show ?thesis
  proof (cases "m < length F")
    case True
    then have m: "F ! m \<in> set F" "cut_ok (unat (mss (tx l))) (F ! m)" using F(5) by simp_all
    have "length (F ! m) \<le> unat (rcv_wnd (rx l))" using m f F(2) by (simp add: fits_def cut_ok_def)
    then show ?thesis using read_stuck [OF F(1) True F(4) m(2) p] by simp
  next
    case False
    then have "map frag_of (rcv_queue (rx l)) = []" using F(3,4) by (auto simp: rx_inv_def)
    then show ?thesis using f by (simp add: fits_def)
  qed
qed

text \<open>An open window is announced as such.\<close>

lemma room_open:
  assumes k: "kcp_inv k" and room: "length (rcv_queue k) < unat (rcv_wnd k)" "unat (rcv_wnd k) < 2 ^ 16"
    and s: "sg_wnd s = ikcp_wnd_unused k"
  shows "open_wnd s"
proof -
  have "nrcv_que k = of_nat (length (rcv_queue k))" using kcp_invD(2) [OF k] by (simp add: rcv_inv_def)
  then have q: "unat (nrcv_que k) = length (rcv_queue k)" using room by (simp add: unat_of_nat_lt)
  then have lt: "nrcv_que k < rcv_wnd k" using room by (simp add: word_less_nat_alt)
  then have "unat (ikcp_wnd_unused k) = unat (rcv_wnd k) - length (rcv_queue k)"
    using q by (simp add: ikcp_wnd_unused_def unat_sub less_imp_le)
  then have u: "0 < unat (sg_wnd s)" "unat (sg_wnd s) < 2 ^ 16" using room s by simp_all
  have "unat (ucast (h_wnd (header_of s)) :: u32) = unat (sg_wnd s)"
    using u(2) by (simp add: header_of_def unsigned_ucast_eq unsigned_take_bit_eq take_bit_nat_eq_self)
  then have "(ucast (h_wnd (header_of s)) :: u32) \<noteq> 0" using u(1) by fastforce
  then show ?thesis by (simp add: open_wnd_def)
qed

section \<open>The segments not acknowledged\<close>

definition pend :: "IKCPCB \<Rightarrow> nat" where
  "pend k = length (snd_buf k) + length (snd_queue k)"

lemma pend_flush: "flush_sends k k' \<Longrightarrow> pend k' = pend k"
proof -
  assume "flush_sends k k'"
  then obtain ms news where m: "snd_queue k = ms @ snd_queue k'" "map seg_id (snd_buf k') = map seg_id (snd_buf k @ news)"
    "map (\<lambda>s. (sg_frg s, sg_data s)) news = map (\<lambda>s. (sg_frg s, sg_data s)) ms"
    unfolding flush_sends_def by (elim exE conjE) (rule that)
  have "length news = length ms" using arg_cong [OF m(3), of length] by simp
  moreover have "length (snd_buf k') = length (snd_buf k) + length news" using arg_cong [OF m(2), of length] by simp
  ultimately show ?thesis using m(1) by (simp add: pend_def)
qed

lemma sns_distinct: "kcp_inv k \<Longrightarrow> card (sg_sn ` set (snd_buf k)) = length (snd_buf k)"
proof -
  assume "kcp_inv k"
  then have "sorted_wrt (<) (map (snd_off k) (snd_buf k))" by (simp add: kcp_inv_def snd_inv_def)
  then have "distinct (map (snd_off k) (snd_buf k))" by (simp add: strict_sorted_iff)
  moreover have "map (snd_off k) (snd_buf k) = map (\<lambda>n. unat (n - snd_una k)) (map sg_sn (snd_buf k))"
    by (simp add: snd_off_def)
  ultimately have "distinct (map sg_sn (snd_buf k))" by (metis distinct_map)
  from distinct_card [OF this] show ?thesis by simp
qed

lemma pend_shrink:
  assumes k: "kcp_inv k" "kcp_inv k'" and s: "sns_shrink k k'"
  shows "pend k' \<le> pend k" and "sn \<in> sg_sn ` set (snd_buf k) \<Longrightarrow> sn \<notin> sg_sn ` set (snd_buf k') \<Longrightarrow> pend k' < pend k"
proof -
  have q: "snd_queue k' = snd_queue k" and sub: "sg_sn ` set (snd_buf k') \<subseteq> sg_sn ` set (snd_buf k)"
    using s by (simp_all add: sns_shrink_def)
  show "pend k' \<le> pend k" using card_mono [OF _ sub] q by (simp add: pend_def sns_distinct [OF k(1)] sns_distinct [OF k(2)])
  assume "sn \<in> sg_sn ` set (snd_buf k)" "sn \<notin> sg_sn ` set (snd_buf k')"
  then have "sg_sn ` set (snd_buf k') \<subset> sg_sn ` set (snd_buf k)" using sub by blast
  from psubset_card_mono [OF _ this] show "pend k' < pend k"
    using q by (simp add: pend_def sns_distinct [OF k(1)] sns_distinct [OF k(2)])
qed

lemma numbered_below:
  assumes inv: "tx_inv L k" and L: "length L < 2 ^ 31" and s: "s \<in> set (snd_buf k)"
  shows "unat (sg_sn s) + length (snd_queue k) < length L"
proof -
  let ?N = "length L - length (snd_queue k)"
  have t: "length (snd_queue k) \<le> length L" "snd_nxt k = of_nat ?N" "unat (sg_sn s) < length L"
    using inv s by (auto simp: tx_inv_def seg_id_def)
  have "snd_inv k" using inv by (simp add: tx_inv_def kcp_inv_def)
  then have o: "unat (sg_sn s - snd_una k) < unat (snd_nxt k - snd_una k)" "unat (snd_nxt k - snd_una k) < 2 ^ 31"
    using s by (simp_all add: snd_inv_def snd_off_def)
  have "unat (snd_nxt k - sg_sn s) = unat (snd_nxt k - snd_una k) - unat (sg_sn s - snd_una k)"
    by (rule unat_diff_shift) (use o in simp)
  then have d: "0 < unat (snd_nxt k - sg_sn s)" "unat (snd_nxt k - sg_sn s) < 2 ^ 31" using o by simp_all
  have n: "unat (snd_nxt k) = ?N" unfolding t(2) using L by (intro unat_of_nat_lt) simp
  have "unat (sg_sn s) < ?N"
  proof (rule ccontr)
    assume "\<not> unat (sg_sn s) < ?N"
    then have "unat (snd_nxt k - sg_sn s) = (if unat (sg_sn s) = ?N then 0 else 2 ^ 32 + ?N - unat (sg_sn s))"
      using n unsigned_word_eqI [of "snd_nxt k" "sg_sn s"] by (auto simp: unat_sub_if')
    then show False using d t(3) L by (auto split: if_splits)
  qed
  then show ?thesis using t(1) by simp
qed

section \<open>A closed window is reopened\<close>

text \<open>The sender asks for the window, at once or with the second flush.\<close>

lemma tx_waits:
  assumes i: "live c \<lparr>lk = l, echoes = B\<rparr>" and r: "rmt_wnd (tx l) = 0"
  obtains k N where "onward c \<lparr>lk = l, echoes = B\<rparr> \<lparr>lk = l\<lparr>tx := k, net := N\<rparr>, echoes = B\<rparr>" and "rmt_wnd k = 0"
    and "probe_wait k \<noteq> 0" and "pend k = pend (tx l)"
proof (cases "probe_wait (tx l) = 0")
  case False
  then show ?thesis using that [of "net l" "tx l"] onward_refl [OF i] r by simp
next
  case True
  obtain cur where due: "update_due (tx l) cur" using clock_due by blast
  obtain k outs where "onward c \<lparr>lk = l, echoes = B\<rparr> \<lparr>lk = l\<lparr>tx := k, net := net l \<union> set outs\<rparr>, echoes = B\<rparr>"
    "flush_sends (tx l) k" "flush_opens (tx l) k" by (rule tx_flushes [OF i due])
  then show ?thesis using that [of "net l \<union> set outs" k] True r pend_flush by (simp add: flush_opens_def)
qed

lemma tx_asks:
  assumes i: "live c \<lparr>lk = l, echoes = B\<rparr>" and r: "rmt_wnd (tx l) = 0"
  obtains k N g where "onward c \<lparr>lk = l, echoes = B\<rparr> \<lparr>lk = l\<lparr>tx := k, net := N\<rparr>, echoes = B\<rparr>" and "pend k = pend (tx l)"
    and "ackcount k = 0" and "wires g \<in> N" and "g \<noteq> []" and "length (wires g) < 2 ^ 30"
    and "\<forall>s \<in> set g. wire_seg c s \<and> (sg_cmd s = IKCP_CMD_PUSH \<longrightarrow> s \<in> set (snd_buf k))" and "\<exists>s \<in> set g. sg_cmd s = IKCP_CMD_WASK"
proof -
  obtain k1 N1 where s1: "onward c \<lparr>lk = l, echoes = B\<rparr> \<lparr>lk = l\<lparr>tx := k1, net := N1\<rparr>, echoes = B\<rparr>" and k1: "rmt_wnd k1 = 0"
    "probe_wait k1 \<noteq> 0" "pend k1 = pend (tx l)" by (rule tx_waits [OF i r])
  let ?l = "l\<lparr>tx := k1, net := N1\<rparr>"
  obtain cur where due: "update_due (tx ?l) cur" and cur: "itimediff cur (ts_probe k1) \<ge> 0"
    using clock_due_after [of k1 "ts_probe k1"] by auto
  obtain k outs where s2: "onward c \<lparr>lk = ?l, echoes = B\<rparr> \<lparr>lk = ?l\<lparr>tx := k, net := net ?l \<union> set outs\<rparr>, echoes = B\<rparr>"
    and k: "ackcount k = 0" "current k = cur" "flush_sends (tx ?l) k" "flush_wire (tx ?l) k outs" "kcp_inv k" "conv (tx ?l) = c" "conv k = c"
    by (rule tx_flushes [OF onward_live [OF s1] due])
  obtain gs where g: "outs = map wires gs"
    "\<forall>g \<in> set gs. g \<noteq> [] \<and> (\<forall>s \<in> set g. wire_seg c s \<and> (sg_cmd s = IKCP_CMD_PUSH \<longrightarrow> s \<in> set (snd_buf k)))"
    "\<forall>g \<in> set gs. length (wires g) \<le> unat (mtu (tx ?l))" "flush_asks (tx ?l) (current k) \<longrightarrow> (\<exists>s \<in> set (concat gs). sg_cmd s = IKCP_CMD_WASK)"
    by (rule flush_groups [OF k(5,4,6,7)])
  have "flush_asks (tx ?l) (current k)" using k1(1,2) k(2) cur by (simp add: flush_asks_def)
  then obtain g where gg: "g \<in> set gs" "\<exists>s \<in> set g. sg_cmd s = IKCP_CMD_WASK" using g(4) by auto
  obtain F where "kcp_inv (tx ?l)" by (rule liveE [OF onward_live [OF s1]])
  then have m: "unat (mtu (tx ?l)) < 2 ^ 30" by (simp add: kcp_inv_def conf_inv_def)
  have "onward c \<lparr>lk = l, echoes = B\<rparr> \<lparr>lk = l\<lparr>tx := k, net := N1 \<union> set outs\<rparr>, echoes = B\<rparr>"
    using onward_trans [OF s1 s2] by simp
  moreover have "pend k = pend (tx l)" using pend_flush [OF k(3)] k1(3) by simp
  moreover have "wires g \<in> N1 \<union> set outs" "g \<noteq> []" "length (wires g) < 2 ^ 30" using g(1-3) gg(1) m by auto
  ultimately show ?thesis using that [of "N1 \<union> set outs" k g] k(1) g(2) gg by blast
qed

text \<open>The receiver, asked for its window and with room in it, answers.\<close>

lemma rx_tells:
  assumes i: "live c \<lparr>lk = l, echoes = B\<rparr>" and f: "fits \<lparr>lk = l, echoes = B\<rparr>" and p: "ikcp_peeksize (rx l) < 0"
    and t: "telling (rx l)" and a: "ackcount (tx l) = 0"
  obtains k l' B' where "onward c \<lparr>lk = l, echoes = B\<rparr> \<lparr>lk = l', echoes = B'\<rparr>" and "rmt_wnd (tx l') \<noteq> 0" and "pend (tx l') \<le> pend (tx l)"
proof -
  obtain k outs where s1: "onward c \<lparr>lk = l, echoes = B\<rparr> \<lparr>lk = l\<lparr>rx := k\<rparr>, echoes = B \<union> set outs\<rparr>"
    and k: "flush_wire (rx l) k outs" "kcp_inv k" "conv (rx l) = c" "conv k = c" by (rule rx_flushes [OF i])
  obtain gs where g: "outs = map wires gs"
    "\<forall>g \<in> set gs. g \<noteq> [] \<and> (\<forall>s \<in> set g. wire_seg c s \<and> (sg_cmd s = IKCP_CMD_PUSH \<longrightarrow> s \<in> set (snd_buf k)))"
    "\<forall>s \<in> set (concat gs). sg_una s = rcv_nxt (rx l) \<and> (sg_cmd s = IKCP_CMD_ACK \<longrightarrow> sg_sn s \<in> fst ` set (ack_pairs (rx l))) \<and>
      sg_wnd s = ikcp_wnd_unused (rx l)"
    "\<forall>g \<in> set gs. length (wires g) \<le> unat (mtu (rx l))" "probe (rx l) AND IKCP_ASK_TELL \<noteq> 0 \<longrightarrow> gs \<noteq> []"
    by (rule flush_groups [OF k(2,1,3,4)])
  obtain g' where g': "g' \<in> set gs" using g(5) t unfolding telling_def by (cases gs) auto
  obtain F where ki: "kcp_inv (rx l)" "kcp_inv (tx l)" by (rule liveE [OF i])
  have wnd: "unat (rcv_wnd (rx l)) < 2 ^ 16" "unat (mtu (rx l)) < 2 ^ 30"
    using f ki(1) by (simp_all add: fits_def kcp_inv_def conf_inv_def)
  have op: "\<forall>s \<in> set g'. open_wnd s"
    using room_open [OF ki(1) read_room [OF i f p] wnd(1)] g(3) g' by auto
  let ?l = "l\<lparr>rx := k\<rparr>"
  have d: "wires g' \<in> B \<union> set outs" "g' \<noteq> []" "\<forall>s \<in> set g'. wire_seg c s" "unat (ackcount (tx ?l)) + length (wires g') < 2 ^ 30"
    using g(1,2,4) g' wnd(2) a by auto
  obtain k2 where s2: "onward c \<lparr>lk = ?l, echoes = B \<union> set outs\<rparr> \<lparr>lk = ?l\<lparr>tx := k2\<rparr>, echoes = B \<union> set outs\<rparr>"
    and k2: "kcp_inv k2" "sns_shrink (tx ?l) k2" "(\<forall>s \<in> set g'. open_wnd s) \<longrightarrow> rmt_wnd k2 \<noteq> 0"
    by (rule tx_takes [OF onward_live [OF s1] d])
  have "pend k2 \<le> pend (tx l)" using pend_shrink(1) [OF ki(2) k2(1)] k2(2) by simp
  then show ?thesis using that [OF onward_trans [OF s1 s2]] k2(3) op by simp
qed

lemma opens:
  assumes i: "live c \<lparr>lk = l, echoes = B\<rparr>" and f: "fits \<lparr>lk = l, echoes = B\<rparr>"
  obtains l' B' where "onward c \<lparr>lk = l, echoes = B\<rparr> \<lparr>lk = l', echoes = B'\<rparr>" and "rmt_wnd (tx l') \<noteq> 0" and "pend (tx l') \<le> pend (tx l)"
proof (cases "rmt_wnd (tx l) = 0")
  case False
  then show ?thesis using that [OF onward_refl [OF i]] by simp
next
  case True
  obtain k N g where s1: "onward c \<lparr>lk = l, echoes = B\<rparr> \<lparr>lk = l\<lparr>tx := k, net := N\<rparr>, echoes = B\<rparr>" and k: "pend k = pend (tx l)"
    "ackcount k = 0" and g: "wires g \<in> N" "g \<noteq> []" "length (wires g) < 2 ^ 30"
    "\<forall>s \<in> set g. wire_seg c s \<and> (sg_cmd s = IKCP_CMD_PUSH \<longrightarrow> s \<in> set (snd_buf k))" "\<exists>s \<in> set g. sg_cmd s = IKCP_CMD_WASK"
    by (rule tx_asks [OF i True])
  let ?l1 = "l\<lparr>tx := k, net := N\<rparr>"
  obtain b outs where s2: "onward c \<lparr>lk = ?l1, echoes = B\<rparr> \<lparr>lk = ?l1\<lparr>rx := b\<rparr>, echoes = B \<union> set outs\<rparr>" and b: "ackcount b = 0"
    by (rule rx_flushes [OF onward_live [OF s1]])
  let ?l2 = "?l1\<lparr>rx := b\<rparr>" and ?B = "B \<union> set outs"
  have d: "wires g \<in> net ?l2" "\<forall>s \<in> set g. wire_seg c s \<and> (sg_cmd s = IKCP_CMD_PUSH \<longrightarrow> s \<in> set (snd_buf (tx ?l2)))"
    "unat (ackcount (rx ?l2)) + length (wires g) < 2 ^ 30" using g b by simp_all
  obtain b2 where s3: "onward c \<lparr>lk = ?l2, echoes = ?B\<rparr> \<lparr>lk = ?l2\<lparr>rx := b2\<rparr>, echoes = ?B\<rparr>"
    and b2: "\<forall>s \<in> set g. sg_cmd s = IKCP_CMD_WASK \<longrightarrow> telling b2"
    by (rule rx_takes [OF onward_live [OF s2] d(1) g(2) d(2,3)])
  let ?l3 = "?l2\<lparr>rx := b2\<rparr>"
  obtain l4 where s4: "onward c \<lparr>lk = ?l3, echoes = ?B\<rparr> \<lparr>lk = l4, echoes = ?B\<rparr>" and l4: "ikcp_peeksize (rx l4) < 0" "tx l4 = k"
    "telling (rx l4)" using reads [OF onward_live [OF s3]] g(5) b2 by auto
  note s = onward_trans [OF onward_trans [OF onward_trans [OF s1 s2] s3] s4]
  have a: "ackcount (tx l4) = 0" using l4(2) k(2) by simp
  obtain l' B' where "onward c \<lparr>lk = l4, echoes = ?B\<rparr> \<lparr>lk = l', echoes = B'\<rparr>" "rmt_wnd (tx l') \<noteq> 0" "pend (tx l') \<le> pend (tx l4)"
    by (rule rx_tells [OF onward_live [OF s4] fits_onward [OF s f] l4(1,3) a])
  then show ?thesis using that [OF onward_trans [OF s]] k(1) l4(2) by simp
qed

section \<open>Every round acknowledges a segment\<close>

lemma window_pos: "1 \<le> cwnd k \<Longrightarrow> rmt_wnd k \<noteq> 0 \<Longrightarrow> 0 < unat (snd_wnd k) \<Longrightarrow> 1 \<le> unat (flush_window k)"
  by (simp add: flush_window_def imin_def Let_def word_le_nat_alt Suc_le_eq unat_gt_0)

text \<open>With an open window two flushes put a segment in flight.\<close>

lemma tx_sends:
  assumes i: "live c \<lparr>lk = l, echoes = B\<rparr>" and f: "fits \<lparr>lk = l, echoes = B\<rparr>" and r: "rmt_wnd (tx l) \<noteq> 0" and p: "0 < pend (tx l)"
  obtains k N where "onward c \<lparr>lk = l, echoes = B\<rparr> \<lparr>lk = l\<lparr>tx := k, net := N\<rparr>, echoes = B\<rparr>" and "pend k = pend (tx l)"
    and "snd_buf k \<noteq> []"
proof -
  obtain cur where "update_due (tx l) cur" using clock_due by blast
  then obtain k1 outs1 where s1: "onward c \<lparr>lk = l, echoes = B\<rparr> \<lparr>lk = l\<lparr>tx := k1, net := net l \<union> set outs1\<rparr>, echoes = B\<rparr>"
    and k1: "flush_sends (tx l) k1" "flush_opens (tx l) k1" by (rule tx_flushes [OF i])
  let ?l = "l\<lparr>tx := k1, net := net l \<union> set outs1\<rparr>"
  obtain cur2 where "update_due (tx ?l) cur2" using clock_due by blast
  then obtain k outs where s2: "onward c \<lparr>lk = ?l, echoes = B\<rparr> \<lparr>lk = ?l\<lparr>tx := k, net := net ?l \<union> set outs\<rparr>, echoes = B\<rparr>"
    and k: "flush_sends k1 k" "flush_opens k1 k" by (rule tx_flushes [OF onward_live [OF s1]]) simp
  have pk: "pend k = pend (tx l)" using pend_flush [OF k(1)] pend_flush [OF k1(1)] by simp
  have "0 < unat (snd_wnd k1)" using f k1(1) by (simp add: fits_def flush_sends_def)
  then have w: "1 \<le> unat (flush_window k1)" using window_pos k1(2) r by (simp add: flush_opens_def)
  have "snd_buf k \<noteq> []"
  proof
    assume b: "snd_buf k = []"
    have "idle k" using onward_live [OF s2] by (simp add: live_def)
    then have "snd_queue k = []" using b k(2) w by (auto simp: idle_def flush_opens_def)
    then show False using b pk p by (simp add: pend_def)
  qed
  then show ?thesis using that [of "net ?l \<union> set outs" k] onward_trans [OF s1 s2] pk by simp
qed

text \<open>The oldest segment in flight is sent again; all before it have arrived.\<close>

lemma tx_resends:
  assumes i: "live c \<lparr>lk = l, echoes = B\<rparr>" and b: "snd_buf (tx l) \<noteq> []"
  obtains k N g s where "onward c \<lparr>lk = l, echoes = B\<rparr> \<lparr>lk = l\<lparr>tx := k, net := N\<rparr>, echoes = B\<rparr>" and "pend k = pend (tx l)"
    and "ackcount k = 0" and "wires g \<in> N" and "g \<noteq> []" and "length (wires g) < 2 ^ 30"
    and "\<forall>s \<in> set g. wire_seg c s \<and> (sg_cmd s = IKCP_CMD_PUSH \<longrightarrow> s \<in> set (snd_buf k))" and "s \<in> set g"
    and "sg_cmd s = IKCP_CMD_PUSH" and "unat (sg_sn s) < nseg l" and "\<forall>j < unat (sg_sn s). holds (rx l) (of_nat j)"
proof -
  obtain F where t: "nseg l = length (concat F)" "length (concat F) < 2 ^ 31" "tx_inv (concat F) (tx l)" "sent_known l" "kcp_inv (tx l)"
    by (rule liveE [OF i])
  define M where "M = Min ((\<lambda>s. unat (sg_sn s)) ` set (snd_buf (tx l)))"
  have "M \<in> (\<lambda>s. unat (sg_sn s)) ` set (snd_buf (tx l))" unfolding M_def by (rule Min_in) (use b in auto)
  then obtain x where x: "x \<in> set (snd_buf (tx l))" "unat (sg_sn x) = M" by auto
  have least: "M \<le> unat (sg_sn y)" if "y \<in> set (snd_buf (tx l))" for y unfolding M_def by (rule Min_le) (use that in auto)
  have below: "M + length (snd_queue (tx l)) < nseg l" using numbered_below [OF t(3,2) x(1)] x(2) t(1) by simp
  have old: "holds (rx l) (of_nat j)" if j: "j < M" for j
  proof -
    have u: "unat (of_nat j :: u32) = j" using j below t(1,2) by (intro unat_of_nat_lt) simp
    have "of_nat j \<notin> sg_sn ` set (snd_buf (tx l))" using least u j by fastforce
    moreover have "j + length (snd_queue (tx l)) < nseg l" using below j by simp
    ultimately show ?thesis using t(4) unfolding sent_known_def by blast
  qed
  obtain cur where due: "update_due (tx l) cur" and cur: "itimediff cur (sg_resendts x) \<ge> 0" using clock_due_after by blast
  obtain k outs where s1: "onward c \<lparr>lk = l, echoes = B\<rparr> \<lparr>lk = l\<lparr>tx := k, net := net l \<union> set outs\<rparr>, echoes = B\<rparr>"
    and k: "ackcount k = 0" "current k = cur" "flush_sends (tx l) k" "flush_wire (tx l) k outs" "kcp_inv k" "conv (tx l) = c" "conv k = c"
    by (rule tx_flushes [OF i due])
  obtain gs sent where g: "outs = map wires gs"
    "\<forall>g \<in> set gs. g \<noteq> [] \<and> (\<forall>s \<in> set g. wire_seg c s \<and> (sg_cmd s = IKCP_CMD_PUSH \<longrightarrow> s \<in> set (snd_buf k)))"
    "set sent \<subseteq> set (concat gs)" "set sent \<subseteq> set (snd_buf k)" "flush_covers (tx l) k sent"
    "\<forall>g \<in> set gs. length (wires g) \<le> unat (mtu (tx l))"
    by (rule flush_groups [OF k(5,4,6,7)])
  have "sg_sn x \<in> sg_sn ` set (snd_buf k)" using flush_keeps_sns [OF k(3)] x(1) by blast
  then have "sg_sn x \<in> sg_sn ` set sent" using g(5) x(1) cur k(2) unfolding flush_covers_def by blast
  then obtain s where s: "s \<in> set sent" "sg_sn s = sg_sn x" by auto
  obtain g' where g': "g' \<in> set gs" "s \<in> set g'" using g(3) s(1) by auto
  have push: "sg_cmd s = IKCP_CMD_PUSH" using kcp_invD(5) [OF k(5)] g(4) s(1) by (auto simp: segs_inv_def sent_ok_def)
  have m: "length (wires g') < 2 ^ 30" using g(6) g'(1) t(5) by (fastforce simp: kcp_inv_def conf_inv_def)
  have d: "wires g' \<in> net l \<union> set outs" "g' \<noteq> []" using g(1,2) g'(1) by auto
  have n: "unat (sg_sn s) < nseg l" using below s(2) x(2) by simp
  show ?thesis
    by (rule that [OF s1 pend_flush [OF k(3)] k(1) d m _ g'(2) push n]) (use g(2) g'(1) old s(2) x(2) in auto)
qed

text \<open>The acknowledgement comes back, and the segment is done.\<close>

lemma rx_acks:
  assumes i: "live c \<lparr>lk = l, echoes = B\<rparr>" and a: "ackcount (tx l) = 0" and s: "(sn, ts) \<in> set (ack_pairs (rx l))"
    and b: "sn \<in> sg_sn ` set (snd_buf (tx l))"
  obtains l' B' where "onward c \<lparr>lk = l, echoes = B\<rparr> \<lparr>lk = l', echoes = B'\<rparr>" and "pend (tx l') < pend (tx l)"
proof -
  obtain k outs where s1: "onward c \<lparr>lk = l, echoes = B\<rparr> \<lparr>lk = l\<lparr>rx := k\<rparr>, echoes = B \<union> set outs\<rparr>"
    and k: "flush_wire (rx l) k outs" "kcp_inv k" "conv (rx l) = c" "conv k = c" by (rule rx_flushes [OF i])
  obtain gs where g: "outs = map wires gs"
    "\<forall>g \<in> set gs. g \<noteq> [] \<and> (\<forall>s \<in> set g. wire_seg c s \<and> (sg_cmd s = IKCP_CMD_PUSH \<longrightarrow> s \<in> set (snd_buf k)))"
    "\<forall>p \<in> set (ack_pairs (rx l)). ack_seg (flush_seg (rx l)) p \<in> set (concat gs)"
    "\<forall>g \<in> set gs. length (wires g) \<le> unat (mtu (rx l))"
    by (rule flush_groups [OF k(2,1,3,4)])
  let ?x = "ack_seg (flush_seg (rx l)) (sn, ts)"
  have x: "sg_cmd ?x = IKCP_CMD_ACK" "sg_sn ?x = sn" by (simp_all add: ack_seg_def flush_seg_def)
  obtain g' where g': "g' \<in> set gs" "?x \<in> set g'" using g(3) s by fastforce
  obtain F where ki: "kcp_inv (rx l)" "kcp_inv (tx l)" by (rule liveE [OF i])
  have "unat (mtu (rx l)) < 2 ^ 30" using ki(1) by (simp add: kcp_inv_def conf_inv_def)
  then have d: "wires g' \<in> B \<union> set outs" "g' \<noteq> []" "\<forall>s \<in> set g'. wire_seg c s"
    "unat (ackcount (tx (l\<lparr>rx := k\<rparr>))) + length (wires g') < 2 ^ 30"
    using g(1,2,4) g'(1) a by auto
  obtain k2 where s2: "onward c \<lparr>lk = l\<lparr>rx := k\<rparr>, echoes = B \<union> set outs\<rparr> \<lparr>lk = l\<lparr>rx := k\<rparr>\<lparr>tx := k2\<rparr>, echoes = B \<union> set outs\<rparr>"
    and k2: "kcp_inv k2" "sns_shrink (tx (l\<lparr>rx := k\<rparr>)) k2" "\<forall>s \<in> set g'. sg_cmd s = IKCP_CMD_ACK \<longrightarrow> acked k2 s"
    by (rule tx_takes [OF onward_live [OF s1] d])
  have "sn \<notin> sg_sn ` set (snd_buf k2)" using k2(3) g'(2) x by (auto simp: acked_def)
  then have "pend k2 < pend (tx l)" using pend_shrink(2) [OF ki(2) k2(1) _ b] k2(2) by simp
  then show ?thesis using that [OF onward_trans [OF s1 s2]] by simp
qed

lemma advances:
  assumes i: "live c \<lparr>lk = l, echoes = B\<rparr>" and f: "fits \<lparr>lk = l, echoes = B\<rparr>" and r: "rmt_wnd (tx l) \<noteq> 0"
    and p: "0 < pend (tx l)" and q: "ikcp_peeksize (rx l) < 0"
  obtains l' B' where "onward c \<lparr>lk = l, echoes = B\<rparr> \<lparr>lk = l', echoes = B'\<rparr>" and "pend (tx l') < pend (tx l)"
proof -
  obtain b outs where s1: "onward c \<lparr>lk = l, echoes = B\<rparr> \<lparr>lk = l\<lparr>rx := b\<rparr>, echoes = B \<union> set outs\<rparr>" and b: "ackcount b = 0"
    "flush_sends (rx l) b" by (rule rx_flushes [OF i])
  let ?l1 = "l\<lparr>rx := b\<rparr>" and ?B = "B \<union> set outs"
  obtain k2 N2 where s2: "onward c \<lparr>lk = ?l1, echoes = ?B\<rparr> \<lparr>lk = ?l1\<lparr>tx := k2, net := N2\<rparr>, echoes = ?B\<rparr>" and k2: "pend k2 = pend (tx l)"
    "snd_buf k2 \<noteq> []"
    by (rule tx_sends [OF onward_live [OF s1] fits_onward [OF s1 f]]) (use r p in simp_all)
  let ?l2 = "?l1\<lparr>tx := k2, net := N2\<rparr>"
  have b2: "snd_buf (tx ?l2) \<noteq> []" using k2(2) by simp
  obtain k N g s where s3: "onward c \<lparr>lk = ?l2, echoes = ?B\<rparr> \<lparr>lk = ?l2\<lparr>tx := k, net := N\<rparr>, echoes = ?B\<rparr>" and k: "pend k = pend (tx ?l2)"
    "ackcount k = 0" and g: "wires g \<in> N" "g \<noteq> []" "length (wires g) < 2 ^ 30"
    "\<forall>s \<in> set g. wire_seg c s \<and> (sg_cmd s = IKCP_CMD_PUSH \<longrightarrow> s \<in> set (snd_buf k))" "s \<in> set g" "sg_cmd s = IKCP_CMD_PUSH"
    and n: "unat (sg_sn s) < nseg ?l2" and old: "\<forall>j < unat (sg_sn s). holds (rx ?l2) (of_nat j)"
    by (rule tx_resends [OF onward_live [OF s2] b2])
  obtain F m where F: "nseg l = length (concat F)" "length (concat F) < 2 ^ 31" "rx_inv (concat F) (length (concat (take m F))) (rx l)"
    "rcv_drained (rx l)" by (rule liveE [OF i])
  have fr: "rcv_nxt b = rcv_nxt (rx l)" "rcv_buf b = rcv_buf (rx l)" "rcv_wnd b = rcv_wnd (rx l)" using b(2) by (simp_all add: flush_sends_def)
  have "holds (rx l) (of_nat j)" if "j < unat (sg_sn s)" for j using old that fr by (simp add: holds_def)
  then have "unat (sg_sn s) \<le> unat (rcv_nxt (rx l))"
    using arrived_prefix [OF F(3,2,4) read_room [OF i f q], of "unat (sg_sn s)"] n F(1) by simp
  then have win: "in_window b (sg_sn s)" using f fr by (simp add: in_window_def fits_def)
  let ?l3 = "?l2\<lparr>tx := k, net := N\<rparr>"
  have d: "wires g \<in> net ?l3" "\<forall>s \<in> set g. wire_seg c s \<and> (sg_cmd s = IKCP_CMD_PUSH \<longrightarrow> s \<in> set (snd_buf (tx ?l3)))"
    "unat (ackcount (rx ?l3)) + length (wires g) < 2 ^ 30" using g b(1) by simp_all
  obtain b4 where s4: "onward c \<lparr>lk = ?l3, echoes = ?B\<rparr> \<lparr>lk = ?l3\<lparr>rx := b4\<rparr>, echoes = ?B\<rparr>"
    and b4: "\<forall>s \<in> set g. sg_cmd s = IKCP_CMD_PUSH \<and> in_window (rx ?l3) (sg_sn s) \<longrightarrow> (sg_sn s, sg_ts s) \<in> set (ack_pairs b4)"
    by (rule rx_takes [OF onward_live [OF s3] d(1) g(2) d(2,3)])
  let ?l4 = "?l3\<lparr>rx := b4\<rparr>"
  have a: "ackcount (tx ?l4) = 0" "(sg_sn s, sg_ts s) \<in> set (ack_pairs (rx ?l4))" "sg_sn s \<in> sg_sn ` set (snd_buf (tx ?l4))"
    using k(2) b4 g(4-6) win by auto
  obtain l' B' where s5: "onward c \<lparr>lk = ?l4, echoes = ?B\<rparr> \<lparr>lk = l', echoes = B'\<rparr>" "pend (tx l') < pend (tx ?l4)"
    by (rule rx_acks [OF onward_live [OF s4] a])
  note s = onward_trans [OF onward_trans [OF onward_trans [OF onward_trans [OF s1 s2] s3] s4] s5(1)]
  show ?thesis by (rule that [OF s]) (use s5(2) k(1) k2(1) in simp)
qed

section \<open>Completion\<close>

text \<open>When every segment is acknowledged, reading ends with every message read.\<close>

lemma completes_reading:
  assumes i: "live c \<lparr>lk = l, echoes = B\<rparr>" and f: "fits \<lparr>lk = l, echoes = B\<rparr>" and p: "pend (tx l) = 0"
    and q: "ikcp_peeksize (rx l) < 0"
  shows "got l = msgs l"
proof -
  obtain F m where F: "\<forall>f \<in> set F. frags_ok f" "nseg l = length (concat F)" "length (concat F) < 2 ^ 31" "msgs l = map msg_of F"
    "m \<le> length F" "got l = map msg_of (take m F)" "rx_inv (concat F) (length (concat (take m F))) (rx l)" "rcv_drained (rx l)"
    "sent_known l" "\<forall>f \<in> set F. cut_ok (unat (mss (tx l))) f" by (rule liveE [OF i])
  have "holds (rx l) (of_nat j)" if "j < length (concat F)" for j
    using F(2,9) p that by (simp add: sent_known_def pend_def)
  then have n: "length (concat F) \<le> unat (rcv_nxt (rx l))"
    using arrived_prefix [OF F(7,3,8) read_room [OF i f q] order_refl] by blast
  obtain r where r: "r \<le> length (concat F)" "rcv_nxt (rx l) = of_nat r"
    "map frag_of (rcv_queue (rx l)) = drop (length (concat (take m F))) (take r (concat F))"
    using F(7) unfolding rx_inv_def by blast
  have "unat (rcv_nxt (rx l)) = r" unfolding r(2) using r(1) F(3) by (intro unat_of_nat_lt) simp
  then have rl: "r = length (concat F)" using n r(1) by simp
  have "m = length F"
  proof (rule ccontr)
    assume "m \<noteq> length F"
    then have m: "m < length F" using F(5) by simp
    have "length (concat F) = length (concat (take (Suc m) F)) + length (concat (drop (Suc m) F))"
      by (metis append_take_drop_id concat_append length_append)
    then have "length (F ! m) \<le> length (rcv_queue (rx l))"
      using arg_cong [OF r(3), of length] rl concat_take_Suc [OF m] by simp
    then show False using read_stuck [OF F(1) m F(7) _ q] F(10) m by fastforce
  qed
  then show ?thesis using F(4,6) by simp
qed

lemma completes:
  assumes "live c \<lparr>lk = l, echoes = B\<rparr>" and "fits \<lparr>lk = l, echoes = B\<rparr>"
  shows "\<exists>l' B'. onward c \<lparr>lk = l, echoes = B\<rparr> \<lparr>lk = l', echoes = B'\<rparr> \<and> got l' = msgs l' \<and> pend (tx l') = 0"
  using assms
proof (induction "pend (tx l)" arbitrary: l B rule: less_induct)
  case less
  obtain l1 where s1: "onward c \<lparr>lk = l, echoes = B\<rparr> \<lparr>lk = l1, echoes = B\<rparr>" and l1: "ikcp_peeksize (rx l1) < 0" "tx l1 = tx l"
    using reads [OF less.prems(1)] by blast
  note f1 = fits_onward [OF s1 less.prems(2)]
  show ?case
  proof (cases "pend (tx l) = 0")
    case True
    then have "pend (tx l1) = 0" using l1(2) by simp
    then show ?thesis using completes_reading [OF onward_live [OF s1] f1 _ l1(1)] s1 by blast
  next
    case False
    obtain l2 B2 where s2: "onward c \<lparr>lk = l1, echoes = B\<rparr> \<lparr>lk = l2, echoes = B2\<rparr>" and l2: "rmt_wnd (tx l2) \<noteq> 0"
      "pend (tx l2) \<le> pend (tx l1)" by (rule opens [OF onward_live [OF s1] f1])
    note f2 = fits_onward [OF s2 f1]
    obtain l3 where s3: "onward c \<lparr>lk = l2, echoes = B2\<rparr> \<lparr>lk = l3, echoes = B2\<rparr>" and l3: "ikcp_peeksize (rx l3) < 0" "tx l3 = tx l2"
      using reads [OF onward_live [OF s2]] by blast
    note f3 = fits_onward [OF s3 f2] and s = onward_trans [OF onward_trans [OF s1 s2] s3]
    have "\<exists>l4 B4. onward c \<lparr>lk = l3, echoes = B2\<rparr> \<lparr>lk = l4, echoes = B4\<rparr> \<and> pend (tx l4) < pend (tx l)"
    proof (cases "pend (tx l3) = 0")
      case True
      then show ?thesis using False onward_refl [OF onward_live [OF s3]] by (intro exI [of _ l3] exI [of _ B2]) simp
    next
      case p: False
      obtain l4 B4 where "onward c \<lparr>lk = l3, echoes = B2\<rparr> \<lparr>lk = l4, echoes = B4\<rparr>" "pend (tx l4) < pend (tx l3)"
        by (rule advances [OF onward_live [OF s3] f3 _ _ l3(1)]) (use p l2(1) l3(2) in simp_all)
      then show ?thesis using l1(2) l2(2) l3(2) by (intro exI [of _ l4] exI [of _ B4]) simp
    qed
    then obtain l4 B4 where s4: "onward c \<lparr>lk = l3, echoes = B2\<rparr> \<lparr>lk = l4, echoes = B4\<rparr>" and l4: "pend (tx l4) < pend (tx l)" by blast
    obtain l' B' where s5: "onward c \<lparr>lk = l4, echoes = B4\<rparr> \<lparr>lk = l', echoes = B'\<rparr>" "got l' = msgs l'" "pend (tx l') = 0"
      using less.hyps [OF l4 onward_live [OF s4] fits_onward [OF s4 f3]] by blast
    show ?thesis
      by (rule exI [of _ l'], rule exI [of _ B'], intro conjI onward_trans [OF onward_trans [OF s s4] s5(1)] s5(2,3))
  qed
qed

text \<open>What was read had no more fragments than the window.\<close>

definition got_fits :: "link \<Rightarrow> bool" where
  "got_fits l \<longleftrightarrow> (\<forall>d \<in> set (got l). frag_count (unat (mss (tx l))) (length d) \<le> unat (rcv_wnd (rx l)))"

lemma recv_fits:
  assumes i: "live c \<lparr>lk = l, echoes = B\<rparr>" and r: "ikcp_recv (rx l) True len = Some (r, d, k)" and n: "r \<ge> 0" "len \<ge> 0"
  shows "frag_count (unat (mss (tx l))) (length d) \<le> unat (rcv_wnd (rx l))"
proof -
  obtain F m where F: "\<forall>f \<in> set F. frags_ok f" "length (concat F) < 2 ^ 31" "m \<le> length F"
    "rx_inv (concat F) (length (concat (take m F))) (rx l)" "\<forall>f \<in> set F. cut_ok (unat (mss (tx l))) f" "kcp_inv (rx l)"
    by (rule liveE [OF i])
  have d: "m < length F" "d = msg_of (F ! m)" using rx_recv [OF F(1-4) r] n by auto
  have q: "rcv_queue (rx l) \<noteq> []" "0 \<le> ikcp_peeksize (rx l)"
    using r by (cases rule: ikcp_recv_result; use n in simp)+
  have "length (F ! m) \<le> length (rcv_queue (rx l))"
    using next_message(3) [OF F(1,3,4) q] length_first_msg [of "rcv_queue (rx l)"] by simp
  also have "\<dots> \<le> unat (rcv_wnd (rx l))" using kcp_invD(2) [OF F(6)] by (simp add: rcv_inv_def)
  finally show ?thesis using F(5) d by (simp add: cut_ok_def)
qed

lemma got_fits_step:
  assumes "duplex_step s s'" and "live c s" and "same_conf s s'" and "got_fits (lk s)"
  shows "got_fits (lk s')"
  using assms
proof (induction rule: duplex_step.induct)
  case (recv l len r d k B)
  then show ?case using recv_fits [OF recv.prems(1) recv.hyps] by (auto simp: got_fits_def same_conf_def)
qed (auto simp: got_fits_def same_conf_def)

lemma got_fits_reachable:
  assumes "duplex_step\<^sup>*\<^sup>* s s'" and "live c s" and "nseg (lk s') + unat (rcv_wnd (rx (lk s))) < 2 ^ 31" and "got_fits (lk s)"
  shows "got_fits (lk s')"
  using assms
proof (induction rule: rtranclp_induct)
  case (step y z)
  have le: "nseg (lk y) \<le> nseg (lk z)" by (rule link_step_nseg [OF duplex_link [OF step.hyps(2)]])
  then have y: "live c y" "same_conf s y" using live_reachable [OF step.hyps(1) step.prems(1)] step.prems(2) by simp_all
  have "nseg (lk z) + unat (rcv_wnd (rx (lk y))) < 2 ^ 31" using step.prems(2) y(2) by (simp add: same_conf_def)
  then have "same_conf y z" using live_step [OF step.hyps(2) y(1)] by blast
  then show ?case using got_fits_step [OF step.hyps(2) y(1)] step.IH step.prems le by simp
qed simp

text \<open>A state reached from the start satisfies the invariant, with the windows of the start.\<close>

lemma live_from_start:
  assumes "fresh c a" and "fresh c b" and "ackcount a = 0" and "ackcount b = 0" and "duplex_step\<^sup>*\<^sup>* (duplex_start a b) s"
    and "nseg (lk s) + unat (rcv_wnd b) < 2 ^ 31"
  shows "live c s" and "rcv_wnd (rx (lk s)) = rcv_wnd b" and "mss (tx (lk s)) = mss a" and "snd_wnd (tx (lk s)) = snd_wnd a"
    and "got_fits (lk s)"
proof -
  have start: "live c (duplex_start a b)" "rcv_wnd (rx (lk (duplex_start a b))) = rcv_wnd b" "got_fits (lk (duplex_start a b))"
    using live_start [OF assms(1-4)] assms(6) by (simp_all add: duplex_start_def link_start_def got_fits_def)
  have s: "live c s" "same_conf (duplex_start a b) s" using live_reachable [OF assms(5) start(1)] assms(6) start(2) by simp_all
  then show "live c s" and "rcv_wnd (rx (lk s)) = rcv_wnd b" and "mss (tx (lk s)) = mss a" and "snd_wnd (tx (lk s)) = snd_wnd a"
    by (simp_all add: same_conf_def duplex_start_def link_start_def)
  show "got_fits (lk s)" using got_fits_reachable [OF assms(5) start(1) _ start(3)] assms(6) start(2) by simp
qed

lemma live_completes:
  assumes "live c s" and "fits s"
  shows "\<exists>s'. duplex_step\<^sup>*\<^sup>* s s' \<and> msgs (lk s') = msgs (lk s) \<and> nseg (lk s') = nseg (lk s) \<and> got (lk s') = msgs (lk s) \<and>
      snd_buf (tx (lk s')) = [] \<and> snd_queue (tx (lk s')) = []"
proof -
  obtain l B where sl: "s = \<lparr>lk = l, echoes = B\<rparr>" by (cases s)
  obtain l' B' where c: "onward c s \<lparr>lk = l', echoes = B'\<rparr>" "got l' = msgs l'" "pend (tx l') = 0"
    using completes assms unfolding sl by blast
  then show ?thesis by (intro exI [of _ "\<lparr>lk = l', echoes = B'\<rparr>"]) (simp add: onward_def pend_def)
qed

section \<open>Properties\<close>

text \<open>
  C2: within the range of the window field and of the segment numbers a transfer is never stuck,
  exactly when its messages fit the window. Two engines of one conversation start fresh, the receiver with a
  window of 1 to 65535 segments and the sender with a send window that is not 0. In every state that
  they reach over a network that loses, repeats, delays and reorders datagrams in both
  directions, as long as the segments accepted so far and the receive window are together below
  \<open>2^31\<close>, whatever was lost and whatever the clocks and timers are, there is a
  continuation that delivers every message accepted so far and acknowledges every segment,
  provided that none of them has more fragments than the receiver's window; if one has, no
  continuation delivers it, although \<open>ikcp_send\<close> accepts up to 255 fragments. A receive window above 65535
  is outside the statement: the 16 bits of the header do not hold it.
\<close>

theorem transfer_completes:
  assumes "fresh c a" and "fresh c b" and "ackcount a = 0" and "ackcount b = 0" and "duplex_step\<^sup>*\<^sup>* (duplex_start a b) s"
    and "nseg (lk s) + unat (rcv_wnd b) < 2 ^ 31" and "0 < unat (rcv_wnd b)" and "unat (rcv_wnd b) < 2 ^ 16" and "0 < unat (snd_wnd a)"
  shows "(\<exists>s'. duplex_step\<^sup>*\<^sup>* s s' \<and> msgs (lk s') = msgs (lk s) \<and> nseg (lk s') = nseg (lk s) \<and> got (lk s') = msgs (lk s) \<and>
      snd_buf (tx (lk s')) = [] \<and> snd_queue (tx (lk s')) = []) \<longleftrightarrow>
    (\<forall>msg \<in> set (msgs (lk s)). frag_count (unat (mss a)) (length msg) \<le> unat (rcv_wnd b))"
proof -
  note s = live_from_start [OF assms(1-6)] and conf = live_from_start(2-4) [OF assms(1-6)]
  show ?thesis
  proof
    assume "\<exists>s'. duplex_step\<^sup>*\<^sup>* s s' \<and> msgs (lk s') = msgs (lk s) \<and> nseg (lk s') = nseg (lk s) \<and> got (lk s') = msgs (lk s) \<and>
      snd_buf (tx (lk s')) = [] \<and> snd_queue (tx (lk s')) = []"
    then obtain s' where s': "duplex_step\<^sup>*\<^sup>* s s'" "nseg (lk s') = nseg (lk s)" "got (lk s') = msgs (lk s)" by blast
    have "nseg (lk s') + unat (rcv_wnd (rx (lk s))) < 2 ^ 31" using s'(2) assms(6) conf(1) by simp
    moreover from this have "same_conf s s'" using live_reachable [OF s'(1) s(1)] by blast
    ultimately have "got_fits (lk s')" "mss (tx (lk s')) = mss a" "rcv_wnd (rx (lk s')) = rcv_wnd b"
      using got_fits_reachable [OF s'(1) s(1)] s(5) conf by (simp_all add: same_conf_def)
    then show "\<forall>msg \<in> set (msgs (lk s)). frag_count (unat (mss a)) (length msg) \<le> unat (rcv_wnd b)"
      using s'(3) by (simp add: got_fits_def)
  next
    assume "\<forall>msg \<in> set (msgs (lk s)). frag_count (unat (mss a)) (length msg) \<le> unat (rcv_wnd b)"
    then have "fits s" using assms(7-9) conf by (simp add: fits_def)
    then show "\<exists>s'. duplex_step\<^sup>*\<^sup>* s s' \<and> msgs (lk s') = msgs (lk s) \<and> nseg (lk s') = nseg (lk s) \<and> got (lk s') = msgs (lk s) \<and>
      snd_buf (tx (lk s')) = [] \<and> snd_queue (tx (lk s')) = []"
      by (rule live_completes [OF s(1)])
  qed
qed

text \<open>The first datagram was lost, and the transfer can still be completed.\<close>

theorem transfer_completes_witness:
  "\<exists>s'. duplex_step\<^sup>*\<^sup>* \<lparr>lk = lost_link, echoes = {}\<rparr> s' \<and> got (lk s') = [[1, 2, 3]] \<and> snd_buf (tx (lk s')) = []"
proof -
  have a: "ackcount demo_kcb = 0" "nseg lost_link + unat (rcv_wnd demo_kcb) < 2 ^ 31" "0 < unat (rcv_wnd demo_kcb)"
    "unat (rcv_wnd demo_kcb) < 2 ^ 16" "0 < unat (snd_wnd demo_kcb)" by (simp_all add: lost_link_def)
  have "\<forall>msg \<in> set (msgs (lk \<lparr>lk = lost_link, echoes = {}\<rparr>)). frag_count (unat (mss demo_kcb)) (length msg) \<le> unat (rcv_wnd demo_kcb)"
    by (simp add: lost_link_def frag_count_def)
  then have "\<exists>s'. duplex_step\<^sup>*\<^sup>* \<lparr>lk = lost_link, echoes = {}\<rparr> s' \<and> msgs (lk s') = msgs lost_link \<and> nseg (lk s') = nseg lost_link \<and>
      got (lk s') = msgs lost_link \<and> snd_buf (tx (lk s')) = [] \<and> snd_queue (tx (lk s')) = []"
    using transfer_completes [OF demo_fresh demo_fresh a(1,1) lost_steps] a(2-5) by simp
  then show ?thesis by (auto simp: lost_link_def)
qed

end
