(* ===== verification/Kcpev_Header.thy ===== *)
theory Kcpev_Header
  imports Ikcp_Base
begin

text \<open>
  The frames of the session layer (\<open>src/src/kcpev.c\<close>): a header of \<open>sizeof(KcpevHeader)\<close> = 8
  bytes, the total size in network byte order in the first four, the command in the fifth and
  three bytes of padding, then the payload. The same frames travel over TCP and as messages of
  the KCP engine.

  The lemmas give the bytes \<open>pack_send_buf\<close> writes and show that \<open>header_from_net\<close> reads
  them back, and what happens to payloads that do not fit.
\<close>

section \<open>The model\<close>

abbreviation (input) KCPEV_BUFFER_SIZE :: nat where "KCPEV_BUFFER_SIZE \<equiv> 65536"

text \<open>The commands of \<open>enum Command\<close> as the \<open>uint8_t\<close> the header holds.\<close>

abbreviation (input) COMMAND_DATA :: u8 where "COMMAND_DATA \<equiv> 1"
abbreviation (input) COMMAND_SHAKE_HAND1 :: u8 where "COMMAND_SHAKE_HAND1 \<equiv> 2"
abbreviation (input) COMMAND_SHAKE_HAND2 :: u8 where "COMMAND_SHAKE_HAND2 \<equiv> 3"
abbreviation (input) COMMAND_HEARTBEAT1 :: u8 where "COMMAND_HEARTBEAT1 \<equiv> 4"
abbreviation (input) COMMAND_HEARTBEAT2 :: u8 where "COMMAND_HEARTBEAT2 \<equiv> 5"
abbreviation (input) COMMAND_UDP_INVALID :: u8 where "COMMAND_UDP_INVALID \<equiv> 6"

record KcpevHeader =
  hd_size :: u32
  hd_command :: u8

text \<open>
  \<open>htobe32\<close> and \<open>be32toh\<close> of a little-endian host both reverse the bytes of the word;
  \<open>htobe64\<close> and \<open>be64toh\<close> likewise.
\<close>

definition htobe32 :: "u32 \<Rightarrow> u32" where
  "htobe32 l = le_load (rev (le_store32 l))"

definition le_store64 :: "u64 \<Rightarrow> byte list" where
  "le_store64 l = map (\<lambda>i. ucast (drop_bit (8 * i) l)) [0..<8]"

definition htobe64 :: "u64 \<Rightarrow> u64" where
  "htobe64 l = le_load (rev (le_store64 l))"

text \<open>
  \<open>header_to_net\<close> stores into the array \<open>buf\<close>; \<open>len\<close> is what the caller passes as its size.
\<close>

definition header_to_net :: "KcpevHeader \<Rightarrow> byte list \<Rightarrow> u64 \<Rightarrow> (int \<times> byte list) option" where
  "header_to_net header buf len =
     (if len < 8 then Some (-1, buf)
      else do {
        buf \<leftarrow> blit buf 0 (le_store32 (htobe32 (hd_size header)));
        buf \<leftarrow> blit buf 4 [hd_command header];
        Some (0, buf)
      })"

text \<open>
  The result is the return code and the structure, \<open>None\<close> when the function returned before
  writing it.
\<close>

definition header_from_net :: "byte list \<Rightarrow> u64 \<Rightarrow> (int \<times> KcpevHeader option) option" where
  "header_from_net buf len =
     (if len < 8 then Some (-1, None)
      else do {
        s \<leftarrow> fetch buf 0 4;
        c \<leftarrow> fetch buf 4 1;
        Some (0, Some \<lparr>hd_size = htobe32 (le_load s), hd_command = hd c\<rparr>)
      })"

text \<open>
  \<open>pack_send_buf\<close> with \<open>msg\<close> the \<open>len\<close> bytes of the payload. The size is truncated to 32
  bits; \<open>memcpy\<close> copies the whole payload.
\<close>

definition pack_send_buf :: "byte list \<Rightarrow> u32 \<Rightarrow> u8 \<Rightarrow> byte list \<Rightarrow> (u64 \<times> byte list) option" where
  "pack_send_buf buf buf_size command msg =
     (let len = of_nat (length msg) :: u64;
          header_size = 8 :: u32;
          real_size = ucast (len + ucast header_size) :: u32
      in if \<not> real_size \<le> buf_size then Some (0, buf)
         else do {
           (ret, buf) \<leftarrow> header_to_net \<lparr>hd_size = real_size, hd_command = command\<rparr> buf (ucast buf_size);
           if ret \<noteq> 0 then Some (0, buf)
           else do {
             buf \<leftarrow> blit buf (unat header_size) msg;
             Some (ucast real_size, buf)
           }
         })"

section \<open>The bytes of a frame\<close>

definition frame :: "byte list \<Rightarrow> u8 \<Rightarrow> byte list \<Rightarrow> byte list" where
  "frame pad c msg = rev (le_store32 (of_nat (length msg + 8))) @ [c] @ pad @ msg"

lemma le_load_bit:
  "n < LENGTH('a) \<Longrightarrow> bit (le_load bs :: 'a::len word) n \<longleftrightarrow> n div 8 < length bs \<and> bit (bs ! (n div 8)) (n mod 8)"
proof (induction bs arbitrary: n)
  case (Cons b bs)
  show ?case
  proof (cases "n < 8")
    case True
    then show ?thesis using Cons.prems by (simp add: bit_simps)
  next
    case False
    then have n: "n div 8 = Suc ((n - 8) div 8)" "n mod 8 = (n - 8) mod 8" by (simp_all add: le_div_geq le_mod_geq)
    have "\<not> bit b n" using False bit_imp_le_length [of b n] by auto
    then show ?thesis using Cons False n by (simp add: bit_simps)
  qed
qed simp

lemma le_store_load32: "length bs = 4 \<Longrightarrow> le_store32 (le_load bs) = bs"
  unfolding le_store32_def
  by (rule nth_equalityI) (auto intro!: bit_word_eqI simp: bit_simps le_load_bit)

lemma le_store_load64: "length bs = 8 \<Longrightarrow> le_store64 (le_load bs) = bs"
  unfolding le_store64_def
  by (rule nth_equalityI) (auto intro!: bit_word_eqI simp: bit_simps le_load_bit)

lemma store_htobe32: "le_store32 (htobe32 l) = rev (le_store32 l)"
  by (simp add: htobe32_def le_store_load32)

lemma htobe32_load: "htobe32 (le_load (rev (le_store32 l))) = l"
  by (simp add: htobe32_def le_store_load32 le_load_store32)

lemma length_frame [simp]: "length (frame pad c msg) = 5 + length pad + length msg"
  by (simp add: frame_def)

lemma frame_payload: "length pad = 3 \<Longrightarrow> drop 8 (frame pad c msg @ r) = msg @ r"
  by (simp add: frame_def)

lemma header_from_frame:
  assumes "length pad = 3" and "8 \<le> len"
  shows "header_from_net (frame pad c msg @ r) len =
    Some (0, Some \<lparr>hd_size = of_nat (length msg + 8), hd_command = c\<rparr>)"
  using assms by (simp add: header_from_net_def frame_def fetch_def htobe32_load linorder_not_less)

lemma header_from_net_total:
  assumes "8 \<le> length buf" and "8 \<le> len"
  obtains h where "header_from_net buf len = Some (0, Some h)"
  using assms by (simp add: header_from_net_def fetch_def linorder_not_less)

lemma length_le_store64 [simp]: "length (le_store64 l) = 8"
  by (simp add: le_store64_def)

lemma le_load_store64: "le_load (le_store64 l) = l"
proof (rule bit_word_eqI)
  fix n
  assume "n < LENGTH(64)"
  then show "bit (le_load (le_store64 l) :: u64) n = bit l n"
    by (simp add: le_load_bit le_store64_def bit_simps less_mult_imp_div_less)
qed

lemma htobe64_twice: "htobe64 (htobe64 l) = l"
  by (simp add: htobe64_def le_store_load64 le_load_store64)

section \<open>Packing\<close>

lemma u32_size: "n + 8 < 2 ^ 32 \<Longrightarrow> unat (ucast (of_nat n + 8 :: u64) :: u32) = n + 8"
  by (simp add: unsigned_ucast_eq unat_word_ariths unat_of_nat take_bit_nat_eq_self unsigned_take_bit_eq)

lemma u32_size_of_nat: "n + 8 < 2 ^ 32 \<Longrightarrow> ucast (of_nat n + 8 :: u64) = (of_nat (n + 8) :: u32)"
  by (subst word_unat_eq_iff, subst u32_size) (simp_all add: unat_of_nat take_bit_nat_eq_self del: of_nat_add)

lemma header_to_net_ok:
  assumes "8 \<le> len" and "8 \<le> length buf"
  shows "header_to_net h buf len = Some (0, rev (le_store32 (hd_size h)) @ [hd_command h] @ drop 5 buf)"
  using assms by (simp add: header_to_net_def blit_def store_htobe32 linorder_not_less drop_take)

lemma u64_of_u32_ge: "8 \<le> unat bs \<Longrightarrow> (8 :: u64) \<le> ucast (bs :: u32)"
proof -
  assume "8 \<le> unat bs"
  moreover have "take_bit 64 (unat bs) = unat bs"
    using unat_u32_bound [of bs] by (intro take_bit_nat_eq_self) simp
  ultimately show ?thesis by (simp add: word_le_nat_alt unsigned_ucast_eq)
qed

text \<open>Once the size check has passed, the payload is copied behind the header.\<close>

lemma pack_send_buf_copies:
  assumes "length buf = unat bs" and "8 \<le> unat bs" and "(ucast (of_nat (length msg) + 8 :: u64) :: u32) = rs" and "rs \<le> bs"
  shows "pack_send_buf buf bs c msg =
    do { b \<leftarrow> blit (rev (le_store32 rs) @ [c] @ drop 5 buf) 8 msg; Some (ucast rs, b) }"
proof -
  have "header_to_net \<lparr>hd_size = rs, hd_command = c\<rparr> buf (ucast bs) =
      Some (0, rev (le_store32 rs) @ [c] @ drop 5 buf)"
    using header_to_net_ok [OF u64_of_u32_ge [OF assms(2)]] assms(1,2) by simp
  then show ?thesis using assms(3,4) by (simp add: pack_send_buf_def Let_def)
qed

text \<open>A payload that fits is packed; the padding bytes keep what the array held.\<close>

lemma pack_send_buf_ok:
  assumes "length buf = unat bs" and "length msg + 8 \<le> unat bs"
  shows "pack_send_buf buf bs c msg =
    Some (of_nat (length msg + 8), frame (take 3 (drop 5 buf)) c msg @ drop (length msg + 8) buf)"
proof -
  have lt: "length msg + 8 < 2 ^ 32" using assms(2) unat_u32_bound [of bs] by simp
  let ?rs = "of_nat (length msg + 8) :: u32"
  have le: "?rs \<le> bs"
    using assms(2) lt by (simp add: word_le_nat_alt unat_of_nat take_bit_nat_eq_self del: of_nat_add)
  have w: "(ucast ?rs :: u64) = of_nat (length msg + 8)"
    using lt by (simp add: word_unat_eq_iff unsigned_ucast_eq unat_of_nat take_bit_nat_eq_self del: of_nat_add)
  have "blit (rev (le_store32 ?rs) @ [c] @ drop 5 buf) 8 msg =
      Some (frame (take 3 (drop 5 buf)) c msg @ drop (length msg + 8) buf)"
    using assms by (simp add: blit_def frame_def drop_Cons' add.commute del: of_nat_add)
  then show ?thesis
    using pack_send_buf_copies [OF assms(1) _ u32_size_of_nat [OF lt] le, of c] assms(2) w by (simp del: of_nat_add)
qed

text \<open>
  The size is computed in 32 bits. A payload whose size is truncated to one that fits passes the
  check, and \<open>memcpy\<close> then leaves the array.
\<close>

lemma pack_send_buf_mod:
  assumes "length buf = unat bs" and "8 \<le> unat bs" and "unat bs < length msg + 8"
  shows "pack_send_buf buf bs c msg = (if (length msg + 8) mod 2 ^ 32 \<le> unat bs then None else Some (0, buf))"
proof -
  have u: "unat (ucast (of_nat (length msg) + 8 :: u64) :: u32) = (length msg + 8) mod 2 ^ 32"
  proof -
    have "(of_nat (length msg) + 8 :: u64) = of_nat (length msg + 8)" by simp
    moreover have "unat (ucast (of_nat (length msg + 8) :: u64) :: u32) = (length msg + 8) mod 2 ^ 32"
      by (simp add: unsigned_ucast_eq unat_of_nat take_bit_eq_mod mod_mod_cancel del: of_nat_add)
    ultimately show ?thesis by simp
  qed
  show ?thesis
  proof (cases "(length msg + 8) mod 2 ^ 32 \<le> unat bs")
    case True
    then have le: "ucast (of_nat (length msg) + 8 :: u64) \<le> bs" using u by (simp add: word_le_nat_alt)
    have "blit (rev (le_store32 rs) @ [c] @ drop 5 buf) 8 msg = None" for rs
      using assms by (simp add: blit_def)
    then show ?thesis using pack_send_buf_copies [OF assms(1,2) refl le] True by simp
  next
    case False
    then have "\<not> ucast (of_nat (length msg) + 8 :: u64) \<le> bs" using u by (simp add: word_le_nat_alt)
    then show ?thesis using False by (simp add: pack_send_buf_def Let_def)
  qed
qed

section \<open>Properties\<close>

text \<open>
  C23: framing round trip. With a send buffer of \<open>KCPEV_BUFFER_SIZE\<close> bytes, \<open>pack_send_buf\<close>
  packs every payload of at most 65528 bytes: what it wrote is a frame of 8 bytes more than the
  payload from which \<open>header_from_net\<close> reads back that size and the command, with the
  payload behind the header. A longer payload gives 0 and leaves the buffer alone if the size of
  the frame modulo \<open>2^32\<close> is above the size of the buffer, in particular below 4 GiB; otherwise it is
  written behind the buffer.
\<close>

theorem pack_frame_roundtrip:
  assumes "length buf = 65536"
  shows "if length msg \<le> 65528
    then \<exists>buf'. pack_send_buf buf 65536 c msg = Some (of_nat (length msg + 8), buf') \<and> length buf' = 65536 \<and>
      header_from_net (take (length msg + 8) buf') (of_nat (length msg + 8)) =
        Some (0, Some \<lparr>hd_size = of_nat (length msg + 8), hd_command = c\<rparr>) \<and>
      drop 8 (take (length msg + 8) buf') = msg
    else pack_send_buf buf 65536 c msg = (if (length msg + 8) mod 2 ^ 32 \<le> 65536 then None else Some (0, buf))"
proof (cases "length msg \<le> 65528")
  case True
  let ?f = "frame (take 3 (drop 5 buf)) c msg"
  have pad: "length (take 3 (drop 5 buf)) = 3" using assms by simp
  have f: "length ?f = length msg + 8" using pad by simp
  have "(8 :: u64) \<le> of_nat (length msg + 8)"
    using True by (simp add: word_le_nat_alt unat_of_nat take_bit_nat_eq_self del: of_nat_add)
  then have "header_from_net ?f (of_nat (length msg + 8)) =
      Some (0, Some \<lparr>hd_size = of_nat (length msg + 8), hd_command = c\<rparr>)"
    using header_from_frame [OF pad, of "of_nat (length msg + 8)" c msg "[]"] by simp
  then show ?thesis
    using pack_send_buf_ok [of buf 65536 msg c] assms True f frame_payload [OF pad, of c msg "[]"]
    by (simp del: of_nat_add length_frame)
next
  case False
  then show ?thesis using pack_send_buf_mod [of buf 65536 msg c] assms by simp
qed

theorem pack_frame_roundtrip_witness:
  "length (replicate 65536 0 :: byte list) = 65536 \<and>
   (\<exists>buf'. pack_send_buf (replicate 65536 0) 65536 1 [7, 9] = Some (10, buf') \<and> drop 8 (take 10 buf') = [7, 9])"
  using pack_frame_roundtrip [of "replicate 65536 0" "[7, 9]" 1] by auto

end
