(* ===== verification/Kcpev_Tcp.thy ===== *)
theory Kcpev_Tcp
  imports Kcpev_Conn
begin

text \<open>
  Reassembly of frames from the TCP stream (\<open>src/src/kcpev.c\<close>): \<open>on_tcp_recv\<close> queues what
  \<open>recv\<close> returned in the ring buffer of the connection, or passes it on when it is exactly one
  frame; \<open>get_tcp_buf_chunk\<close> takes the next complete frame out; \<open>tcp_recv\<close> is the part
  \<open>client_tcp_recv\<close> and \<open>server_tcp_recv\<close> have in common, the loop that hands every complete
  frame to a handler.

  The reference definition \<open>split_frames\<close> cuts a byte stream at the sizes in the headers. The
  lemmas show that, whatever pieces the stream arrives in, the handler sees exactly the frames
  of the stream in order, as long as the bytes pending fit the ring buffer; and that otherwise
  all of them are lost.
\<close>

section \<open>The model\<close>

definition set_rb :: "ringbuf option \<Rightarrow> Kcpev \<Rightarrow> Kcpev" where
  "set_rb r k = k\<lparr>tcp := (tcp k)\<lparr>tcp_rb := r\<rparr>\<rparr>"

text \<open>
  The loop of \<open>on_tcp_recv\<close> that moves the chunks of the full buffer to the larger one. The
  result says whether every chunk was put, and is the old buffer; \<open>fuel\<close> bounds the
  iterations, each of which consumes at least one byte.
\<close>

fun move_chunks :: "nat \<Rightarrow> ringbuf \<Rightarrow> ringbuf \<Rightarrow> (bool \<times> ringbuf) option" where
  "move_chunks 0 new_rb r = None"
| "move_chunks (Suc fuel) new_rb r =
     do {
       (chunk, n) \<leftarrow> ringbuf_get_next_chunk r;
       let size = sint (ucast n :: u32);
       if size = 0 then Some (True, r)
       else do {
         at \<leftarrow> chunk;
         x \<leftarrow> fetch (rb_d r) at (nat size);
         (ret, new_rb) \<leftarrow> ringbuf_put new_rb x;
         if ret = -1 then Some (False, r)
         else do {
           r \<leftarrow> ringbuf_mark_consumed r (word_of_int size);
           move_chunks fuel new_rb r
         }
       }
     }"

text \<open>
  \<open>on_tcp_recv\<close>; \<open>mem\<close> and \<open>mem2\<close> are what \<open>malloc\<close> returns for the two ring buffers. The
  larger buffer is a local of the function: neither is it stored in the connection, nor does
  it get the new data.
\<close>

definition on_tcp_recv ::
  "(nat \<Rightarrow> byte) option \<Rightarrow> (nat \<Rightarrow> byte) option \<Rightarrow> Kcpev \<Rightarrow> byte list \<Rightarrow> (u64 \<times> Kcpev) option" where
  "on_tcp_recv mem mem2 k data =
     (let len = of_nat (length data) :: u64;
          idle = (case tcp_rb (tcp k) of None \<Rightarrow> True | Some r \<Rightarrow> ringbuf_get_pending_size r = 0)
      in do {
        (ret, header) \<leftarrow> (if idle \<and> len \<ge> 8 then header_from_net data len else Some (0, None));
        if ret \<noteq> 0 then Some (-1, k)
        else if (case header of None \<Rightarrow> False | Some h \<Rightarrow> ucast (hd_size h) = len) then Some (len, k)
        else
          (case (case tcp_rb (tcp k) of Some r \<Rightarrow> Some r | None \<Rightarrow> ringbuf_new mem (of_nat KCPEV_BUFFER_SIZE)) of
             None \<Rightarrow> Some (-1, k)
           | Some r \<Rightarrow>
               do {
                 (ret, r) \<leftarrow> ringbuf_put r data;
                 if ret = -1 then
                   (case ringbuf_new mem2 (rb_n r + of_nat KCPEV_BUFFER_SIZE) of
                      None \<Rightarrow> Some (-1, set_rb (Some r) k)
                    | Some new_rb \<Rightarrow>
                        do {
                          (ok, r) \<leftarrow> move_chunks (Suc (unat (rb_u r))) new_rb r;
                          Some (if ok then 0 else -1, set_rb (Some r) k)
                        })
                 else Some (0, set_rb (Some r) k)
               })
      })"

text \<open>\<open>get_tcp_buf_chunk\<close> writes into the array \<open>ret_data\<close> of \<open>len\<close> bytes, here \<open>buf\<close>.\<close>

definition get_tcp_buf_chunk :: "Kcpev \<Rightarrow> byte list \<Rightarrow> (u64 \<times> byte list \<times> Kcpev) option" where
  "get_tcp_buf_chunk k buf =
     (let len = of_nat (length buf) :: u64 in
      if \<not> len \<ge> 8 then Some (0, buf, k)
      else
        (case tcp_rb (tcp k) of None \<Rightarrow> Some (0, buf, k)
         | Some r \<Rightarrow>
             (let size = ringbuf_get_pending_size r in
              if \<not> size \<ge> 8 then Some (0, buf, k)
              else do {
                (ret, x) \<leftarrow> ringbuf_copy_data r 8;
                if ret \<noteq> 0 then Some (0, buf, k)
                else do {
                  buf \<leftarrow> blit buf 0 x;
                  (_, header) \<leftarrow> header_from_net buf len;
                  header \<leftarrow> header;
                  if ucast (hd_size header) \<le> size then do {
                    (ret, x) \<leftarrow> ringbuf_copy_data r (ucast (hd_size header));
                    if ret \<noteq> 0 then Some (0, buf, k)
                    else do {
                      buf \<leftarrow> blit buf 0 x;
                      r \<leftarrow> ringbuf_mark_consumed r (ucast (hd_size header));
                      Some (ucast (hd_size header), buf, set_rb (Some r) k)
                    }
                  }
                  else Some (0, buf, k)
                }
              })))"

text \<open>
  The loop over the complete frames. The state of the program is abstract: \<open>get\<close> reads the
  connection the watcher belongs to and \<open>put\<close> stores it back; \<open>h i d\<close> is the handler for the
  \<open>i\<close>-th frame \<open>d\<close>. The first component of the result is \<open>False\<close> after the jump to \<open>error\<close>.
\<close>

fun tcp_drain ::
  "('s \<Rightarrow> Kcpev option) \<Rightarrow> (Kcpev \<Rightarrow> 's \<Rightarrow> 's) \<Rightarrow> (nat \<Rightarrow> byte list \<Rightarrow> 's \<Rightarrow> (int \<times> 's \<times> event list) option) \<Rightarrow>
   nat \<Rightarrow> nat \<Rightarrow> byte list \<Rightarrow> 's \<Rightarrow> (bool \<times> 's \<times> event list) option" where
  "tcp_drain get put h 0 i buf s = None"
| "tcp_drain get put h (Suc fuel) i buf s =
     do {
       k \<leftarrow> get s;
       (n, buf, k) \<leftarrow> get_tcp_buf_chunk k buf;
       let s = put k s;
       let len = sint (ucast n :: u32);
       if len = 0 then Some (True, s, [])
       else do {
         d \<leftarrow> fetch buf 0 (nat len);
         (ret, s, out) \<leftarrow> h i d s;
         if ret \<noteq> 0 then Some (False, s, out)
         else do {
           (ok, s, out2) \<leftarrow> tcp_drain get put h fuel (Suc i) buf s;
           Some (ok, s, out @ out2)
         }
       }
     }"

text \<open>
  What both handlers do after \<open>recv\<close> stored \<open>len\<close> bytes in the local array \<open>buf\<close>. Every frame
  takes at least one byte from the ring buffer, which holds at most 65536.
\<close>

definition tcp_recv ::
  "('s \<Rightarrow> Kcpev option) \<Rightarrow> (Kcpev \<Rightarrow> 's \<Rightarrow> 's) \<Rightarrow> (nat \<Rightarrow> byte list \<Rightarrow> 's \<Rightarrow> (int \<times> 's \<times> event list) option) \<Rightarrow>
   (nat \<Rightarrow> byte) option \<Rightarrow> (nat \<Rightarrow> byte) option \<Rightarrow> byte list \<Rightarrow> nat \<Rightarrow> 's \<Rightarrow> (bool \<times> 's \<times> event list) option" where
  "tcp_recv get put h mem mem2 buf len s =
     do {
       k \<leftarrow> get s;
       data \<leftarrow> fetch buf 0 len;
       (n, k) \<leftarrow> on_tcp_recv mem mem2 k data;
       let s = put k s;
       let len = sint (ucast n :: u32);
       if len > 0 then do {
         d \<leftarrow> fetch buf 0 (nat len);
         (ret, s, out) \<leftarrow> h 0 d s;
         if ret \<noteq> 0 then Some (False, s, out)
         else do {
           (ok, s, out2) \<leftarrow> tcp_drain get put h (Suc KCPEV_BUFFER_SIZE) 1 buf s;
           Some (ok, s, out @ out2)
         }
       }
       else tcp_drain get put h (Suc KCPEV_BUFFER_SIZE) 0 buf s
     }"

section \<open>The frames of a stream\<close>

text \<open>The size in the first header of a stream.\<close>

definition frame_len :: "byte list \<Rightarrow> nat" where
  "frame_len bs = unat (htobe32 (le_load (take 4 bs)))"

definition frame_ready :: "byte list \<Rightarrow> bool" where
  "frame_ready bs \<longleftrightarrow> 8 \<le> length bs \<and> 0 < frame_len bs \<and> frame_len bs \<le> length bs"

function split_frames :: "byte list \<Rightarrow> byte list list \<times> byte list" where
  "split_frames bs =
     (if frame_ready bs
      then (let (fs, r) = split_frames (drop (frame_len bs) bs) in (take (frame_len bs) bs # fs, r))
      else ([], bs))"
  by pat_completeness auto
termination
  by (relation "measure length") (auto simp: frame_ready_def)

declare split_frames.simps [simp del]

lemma split_step:
  "frame_ready bs \<Longrightarrow> split_frames bs =
     (take (frame_len bs) bs # fst (split_frames (drop (frame_len bs) bs)), snd (split_frames (drop (frame_len bs) bs)))"
  "\<not> frame_ready bs \<Longrightarrow> split_frames bs = ([], bs)"
  by (simp_all add: split_frames.simps [of bs] split_beta)

lemma split_concat: "concat (fst (split_frames bs)) @ snd (split_frames bs) = bs"
proof (induction bs rule: split_frames.induct)
  case (1 bs)
  then show ?case by (cases "frame_ready bs") (simp_all add: split_step)
qed

lemma split_rest: "\<not> frame_ready (snd (split_frames bs))"
proof (induction bs rule: split_frames.induct)
  case (1 bs)
  then show ?case by (cases "frame_ready bs") (simp_all add: split_step)
qed

lemma frame_len_append: "4 \<le> length bs \<Longrightarrow> frame_len (bs @ cs) = frame_len bs"
  by (simp add: frame_len_def)

lemma frame_ready_append: "frame_ready bs \<Longrightarrow> frame_ready (bs @ cs) \<and> frame_len (bs @ cs) = frame_len bs"
  using frame_len_append [of bs cs] by (auto simp: frame_ready_def)

text \<open>Cutting a stream piece by piece gives the same frames as cutting it at once.\<close>

lemma split_append:
  "split_frames (bs @ cs) =
     (fst (split_frames bs) @ fst (split_frames (snd (split_frames bs) @ cs)),
      snd (split_frames (snd (split_frames bs) @ cs)))"
proof (induction bs rule: split_frames.induct)
  case (1 bs)
  show ?case
  proof (cases "frame_ready bs")
    case True
    then have "frame_len bs \<le> length bs" by (simp add: frame_ready_def)
    then show ?thesis
      using 1 [OF True] True frame_ready_append [OF True, of cs] by (simp add: split_step)
  qed (simp add: split_step)
qed

lemma frame_len_frame:
  assumes "length msg + 8 < 2 ^ 32"
  shows "frame_len (frame pad c msg @ r) = length msg + 8"
proof -
  have "frame_len (frame pad c msg @ r) = unat (of_nat (length msg + 8) :: u32)"
    by (simp add: frame_len_def frame_def htobe32_load del: of_nat_add)
  then show ?thesis using assms by (simp add: unat_of_nat_lt del: of_nat_add)
qed

text \<open>A stream of packed frames is cut into these frames.\<close>

lemma split_frame_stream:
  assumes "\<forall>(pad, c, msg) \<in> set ms. length pad = 3 \<and> length msg + 8 < 2 ^ 32"
  shows "split_frames (concat (map (\<lambda>(pad, c, msg). frame pad c msg) ms)) = (map (\<lambda>(pad, c, msg). frame pad c msg) ms, [])"
  using assms
proof (induction ms)
  case Nil
  have "\<not> frame_ready []" by (simp add: frame_ready_def)
  then show ?case by (simp add: split_step)
next
  case (Cons m ms)
  obtain pad c msg where m: "m = (pad, c, msg)" by (cases m)
  let ?s = "concat (map (\<lambda>(pad, c, msg). frame pad c msg) ms)"
  have l: "length pad = 3" "length msg + 8 < 2 ^ 32" using Cons.prems m by auto
  have "frame_len (frame pad c msg @ ?s) = length msg + 8" by (rule frame_len_frame [OF l(2)])
  moreover have "frame_ready (frame pad c msg @ ?s)" using calculation l(1) by (simp add: frame_ready_def)
  ultimately show ?case using Cons m l(1) by (simp add: split_step)
qed

lemma split_frame_size: "d \<in> set (fst (split_frames bs)) \<Longrightarrow> length d \<le> length bs"
proof -
  assume d: "d \<in> set (fst (split_frames bs))"
  have "d \<in> set fs \<Longrightarrow> length d \<le> length (concat fs)" for fs by (induction fs) auto
  then have "length d \<le> length (concat (fst (split_frames bs)) @ snd (split_frames bs))" using d by fastforce
  then show ?thesis by (simp only: split_concat)
qed

section \<open>Taking a frame from the ring buffer\<close>

lemma unat_u64_of_u32: "unat (ucast (w :: u32) :: u64) = unat w"
  using unat_u32_bound [of w] by (simp add: unsigned_ucast_eq take_bit_nat_eq_self)

lemma len_of_size: "unat (w :: u32) < 2 ^ 31 \<Longrightarrow> sint (ucast (ucast w :: u64) :: u32) = int (unat w)"
proof -
  have "ucast (ucast w :: u64) = w" by (rule bit_word_eqI) (simp add: bit_simps)
  then show "unat w < 2 ^ 31 \<Longrightarrow> ?thesis" using sint_small [of w] by simp
qed

text \<open>The ring buffer of a connection with the bytes it holds.\<close>

definition rb_holds :: "ringbuf \<Rightarrow> byte list \<Rightarrow> bool" where
  "rb_holds r bs \<longleftrightarrow> rb_inv r \<and> rb_capacity r = 65536 \<and> rb_contents r = bs"

lemma rb_holds_bound: "rb_holds r bs \<Longrightarrow> length bs \<le> 65536"
  using rb.bounded [of r] by (auto simp: rb_holds_def)

lemma rb_holds_pending: "rb_holds r bs \<Longrightarrow> unat (ringbuf_get_pending_size r) = length bs"
  using rb.pending [of r] by (simp add: rb_holds_def)

lemma header_of_bytes:
  assumes "8 \<le> length bs" and "8 \<le> len" and "take 8 buf = take 8 bs"
  obtains c where "header_from_net buf len = Some (0, Some \<lparr>hd_size = htobe32 (le_load (take 4 bs)), hd_command = c\<rparr>)"
proof -
  have "8 \<le> length buf" using assms(1,3) by (metis length_take min.absorb_iff2 min_def)
  moreover have "take 4 buf = take 4 bs"
    using arg_cong [OF assms(3), of "take 4"] by simp
  ultimately show ?thesis
    using assms(2) that by (simp add: header_from_net_def fetch_def linorder_not_less)
qed

lemma get_chunk_step:
  assumes buf: "length buf = 65536" and k: "tcp_rb (tcp k) = Some r" and r: "rb_holds r bs"
  shows "if frame_ready bs
    then \<exists>buf' r' n. get_tcp_buf_chunk k buf = Some (n, buf', set_rb (Some r') k) \<and> length buf' = 65536 \<and>
      sint (ucast n :: u32) = int (frame_len bs) \<and> take (frame_len bs) buf' = take (frame_len bs) bs \<and>
      rb_holds r' (drop (frame_len bs) bs)
    else \<exists>buf' r'. get_tcp_buf_chunk k buf = Some (0, buf', set_rb (Some r') k) \<and> length buf' = 65536 \<and> rb_holds r' bs"
proof (cases "8 \<le> length bs")
  case False
  have k0: "set_rb (Some r) k = k" using k by (simp add: set_rb_def)
  have "\<not> ringbuf_get_pending_size r \<ge> 8"
    using False rb_holds_pending [OF r] by (simp add: word_le_nat_alt)
  then have "get_tcp_buf_chunk k buf = Some (0, buf, set_rb (Some r) k)"
    using k buf by (simp add: get_tcp_buf_chunk_def Let_def k0)
  then show ?thesis using False r buf by (auto simp: frame_ready_def)
next
  case True
  let ?h = "htobe32 (le_load (take 4 bs)) :: u32"
  have inv: "rb_inv r" and cap: "rb_capacity r = 65536" and bs: "rb_contents r = bs" using r by (simp_all add: rb_holds_def)
  have pend: "ringbuf_get_pending_size r \<ge> 8"
    using True rb_holds_pending [OF r] by (simp add: word_le_nat_alt)
  have c8: "ringbuf_copy_data r 8 = Some (0, take 8 bs)" using rb.copy_ok [OF inv, of 8] True bs by simp
  let ?b1 = "take 8 bs @ drop 8 buf"
  have b1: "blit buf 0 (take 8 bs) = Some ?b1" using buf True by (simp add: blit_def)
  have l1: "length ?b1 = 65536" using buf True by simp
  obtain c where hn: "header_from_net ?b1 (of_nat (length buf)) = Some (0, Some \<lparr>hd_size = ?h, hd_command = c\<rparr>)"
    using header_of_bytes [OF True, of "of_nat (length buf)" ?b1] buf True by auto
  have fl: "unat ?h = frame_len bs" by (simp add: frame_len_def)
  have le: "ucast ?h \<le> ringbuf_get_pending_size r \<longleftrightarrow> frame_len bs \<le> length bs"
    using rb_holds_pending [OF r] by (simp add: word_le_nat_alt unat_u64_of_u32 fl)
  show ?thesis
  proof (cases "frame_len bs \<le> length bs")
    case False
    have k0: "set_rb (Some r) k = k" using k by (simp add: set_rb_def)
    have "get_tcp_buf_chunk k buf = Some (0, ?b1, set_rb (Some r) k)"
      using k buf pend c8 b1 hn le False by (simp add: get_tcp_buf_chunk_def Let_def k0)
    then show ?thesis using False r l1 by (auto simp: frame_ready_def)
  next
    case fits: True
    have u: "unat (ucast ?h :: u64) \<le> length (rb_contents r)" using fits bs by (simp add: unat_u64_of_u32 fl)
    obtain r' where r': "ringbuf_copy_data r (ucast ?h) = Some (0, take (frame_len bs) bs)"
        "ringbuf_mark_consumed r (ucast ?h) = Some r'" "rb_inv r'" "rb_capacity r' = rb_capacity r"
        "bs = take (frame_len bs) bs @ rb_contents r'"
      using rb.take_frame [OF inv u] by (metis bs fl unat_u64_of_u32)
    have holds: "rb_holds r' (drop (frame_len bs) bs)"
      using r'(3-5) cap fits by (simp add: rb_holds_def) (metis append_eq_conv_conj length_take min.absorb2)
    let ?b2 = "take (frame_len bs) bs @ drop (frame_len bs) ?b1"
    have b2: "blit ?b1 0 (take (frame_len bs) bs) = Some ?b2"
      using l1 fits rb_holds_bound [OF r] by (simp add: blit_def)
    have l2: "length ?b2 = 65536" using l1 fits rb_holds_bound [OF r] by simp
    have g: "get_tcp_buf_chunk k buf = Some (ucast ?h, ?b2, set_rb (Some r') k)"
      using k buf pend c8 b1 hn le fits r' b2 by (simp add: get_tcp_buf_chunk_def Let_def)
    have s: "sint (ucast (ucast ?h :: u64) :: u32) = int (frame_len bs)"
      using len_of_size [of ?h] fits rb_holds_bound [OF r] fl by simp
    show ?thesis
    proof (cases "frame_ready bs")
      case True
      then show ?thesis using g l2 s holds fits by (simp add: exI [of _ ?b2] exI [of _ r'])
    next
      case False
      then have "frame_len bs = 0" using \<open>8 \<le> length bs\<close> fits by (simp add: frame_ready_def)
      moreover have "(ucast ?h :: u64) = 0" using calculation fl by (simp add: unat_eq_zero)
      ultimately show ?thesis using False g l2 holds by auto
    qed
  qed
qed

section \<open>Queueing what was received\<close>

definition conn_pending :: "Kcpev \<Rightarrow> byte list \<Rightarrow> bool" where
  "conn_pending k bs \<longleftrightarrow> (case tcp_rb (tcp k) of None \<Rightarrow> bs = [] | Some r \<Rightarrow> rb_holds r bs)"

text \<open>The received bytes are exactly one frame and nothing is pending.\<close>

definition direct :: "byte list \<Rightarrow> byte list \<Rightarrow> bool" where
  "direct bs d \<longleftrightarrow> bs = [] \<and> 8 \<le> length d \<and> frame_len d = length d"

lemma new_rb_holds: "\<exists>r. ringbuf_new (Some f) 65536 = Some r \<and> rb_holds r []"
  using ringbuf_new_inv [of 65536 f] by (auto simp: rb_holds_def)

lemma idle_iff:
  assumes "conn_pending k bs"
  shows "(case tcp_rb (tcp k) of None \<Rightarrow> True | Some r \<Rightarrow> ringbuf_get_pending_size r = 0) \<longleftrightarrow> bs = []"
  using assms rb_holds_pending
  by (auto simp: conn_pending_def unat_eq_zero [symmetric] split: option.splits)

lemma u64_len: "length d \<le> 65536 \<Longrightarrow> unat (of_nat (length d) :: u64) = length d"
  by (intro unat_of_nat_lt) simp

lemma received_header:
  assumes "8 \<le> length d" and "length d \<le> 65536"
  obtains c where "header_from_net d (of_nat (length d)) = Some (0, Some \<lparr>hd_size = htobe32 (le_load (take 4 d)), hd_command = c\<rparr>)"
  using header_of_bytes [of d "of_nat (length d)" d] assms u64_len [of d] by (auto simp: word_le_nat_alt)

lemma direct_size:
  assumes "length d \<le> 65536"
  shows "ucast (htobe32 (le_load (take 4 d)) :: u32) = (of_nat (length d) :: u64) \<longleftrightarrow> frame_len d = length d"
  using u64_len [OF assms] by (simp add: word_unat_eq_iff unat_u64_of_u32 frame_len_def)

lemma on_tcp_recv_direct:
  assumes "conn_pending k []" and "direct [] d" and "length d \<le> 65536"
  shows "on_tcp_recv mem mem2 k d = Some (of_nat (length d), k)"
proof -
  have d: "8 \<le> length d" "frame_len d = length d" using assms(2) by (simp_all add: direct_def)
  obtain c where h: "header_from_net d (of_nat (length d)) = Some (0, Some \<lparr>hd_size = htobe32 (le_load (take 4 d)), hd_command = c\<rparr>)"
    by (rule received_header [OF d(1) assms(3)])
  have "(8 :: u64) \<le> of_nat (length d)" using d(1) u64_len [OF assms(3)] by (simp add: word_le_nat_alt)
  then show ?thesis
    using h d(2) direct_size [OF assms(3)] idle_iff [OF assms(1)] by (simp add: on_tcp_recv_def Let_def)
qed

text \<open>Otherwise the data goes to the ring buffer, which is allocated when there is none yet.\<close>

definition conn_rb :: "(nat \<Rightarrow> byte) option \<Rightarrow> Kcpev \<Rightarrow> ringbuf option" where
  "conn_rb mem k = (case tcp_rb (tcp k) of Some r \<Rightarrow> Some r | None \<Rightarrow> ringbuf_new mem 65536)"

lemma conn_rb_holds:
  assumes "conn_pending k bs" and "mem \<noteq> None"
  obtains r where "conn_rb mem k = Some r" and "rb_holds r bs"
  using assms new_rb_holds by (cases "tcp_rb (tcp k)") (auto simp: conn_pending_def conn_rb_def)

lemma on_tcp_recv_cases:
  assumes "conn_pending k bs" and "\<not> direct bs d" and "length d \<le> 65536"
  shows "on_tcp_recv mem mem2 k d =
    (case conn_rb mem k of None \<Rightarrow> Some (-1, k)
     | Some r \<Rightarrow>
         do {
           (ret, r) \<leftarrow> ringbuf_put r d;
           if ret = -1 then
             (case ringbuf_new mem2 (rb_n r + 65536) of
                None \<Rightarrow> Some (-1, set_rb (Some r) k)
              | Some new_rb \<Rightarrow>
                  do { (ok, r) \<leftarrow> move_chunks (Suc (unat (rb_u r))) new_rb r; Some (if ok then 0 else -1, set_rb (Some r) k) })
           else Some (0, set_rb (Some r) k)
         })"
proof -
  have h8: "(8 :: u64) \<le> of_nat (length d) \<longleftrightarrow> 8 \<le> length d" using u64_len [OF assms(3)] by (simp add: word_le_nat_alt)
  show ?thesis
  proof (cases "bs = [] \<and> 8 \<le> length d")
    case True
    obtain c where h: "header_from_net d (of_nat (length d)) = Some (0, Some \<lparr>hd_size = htobe32 (le_load (take 4 d)), hd_command = c\<rparr>)"
      by (rule received_header) (use True assms(3) in simp_all)
    have "frame_len d \<noteq> length d" using assms(2) True by (simp add: direct_def)
    then show ?thesis
      using h h8 True direct_size [OF assms(3)] idle_iff [OF assms(1)]
      unfolding on_tcp_recv_def Let_def conn_rb_def of_nat_numeral by simp
  next
    case False
    then show ?thesis
      using h8 idle_iff [OF assms(1)]
      unfolding on_tcp_recv_def Let_def conn_rb_def of_nat_numeral by auto
  qed
qed

lemma on_tcp_recv_room:
  assumes "conn_pending k bs" and "\<not> direct bs d" and "length bs + length d \<le> 65536" and "mem \<noteq> None"
  obtains r where "on_tcp_recv mem mem2 k d = Some (0, set_rb (Some r) k)" and "rb_holds r (bs @ d)"
proof -
  obtain r where r: "conn_rb mem k = Some r" "rb_holds r bs" by (rule conn_rb_holds [OF assms(1,4)])
  obtain r' where "ringbuf_put r d = Some (0, r')" "rb_holds r' (bs @ d)"
    using rb.put_room [of r d] r(2) assms(3) by (auto simp: rb_holds_def)
  then show ?thesis using that on_tcp_recv_cases [OF assms(1,2)] r(1) assms(3) by simp
qed

text \<open>The loop of the overflow case ends and empties the old buffer.\<close>

lemma move_chunks_empties:
  assumes "rb_inv r" and "rb_inv nr" and "length (rb_contents nr) + length (rb_contents r) \<le> rb_capacity nr"
    and "length (rb_contents r) \<le> 65536" and "length (rb_contents r) < fuel"
  shows "\<exists>r'. move_chunks fuel nr r = Some (True, r') \<and> rb_inv r' \<and> rb_capacity r' = rb_capacity r \<and> rb_contents r' = []"
  using assms
proof (induction fuel arbitrary: r nr)
  case (Suc fuel)
  show ?case
  proof (cases "rb_contents r = []")
    case True
    then show ?thesis using Suc.prems(1) ringbuf_get_next_chunk_empty [OF Suc.prems(1)] by simp
  next
    case False
    obtain sz where c: "ringbuf_get_next_chunk r = Some (Some (unat (rb_o r)), sz)" "0 < unat sz"
        "unat sz \<le> unat (rb_u r)" "fetch (rb_d r) (unat (rb_o r)) (unat sz) = Some (take (unat sz) (rb_contents r))"
      by (rule ringbuf_get_next_chunk_ok [OF Suc.prems(1) False])
    have le: "unat sz \<le> length (rb_contents r)" using c(3) length_rb_contents [OF Suc.prems(1)] by simp
    then have z: "unat sz \<le> 65536" using Suc.prems(4) by simp
    have "unat (ucast sz :: u32) = unat sz" using z by (simp add: unsigned_ucast_eq take_bit_nat_eq_self)
    then have s: "sint (ucast sz :: u32) = int (unat sz)" using sint_small [of "ucast sz"] z by simp
    have w: "(word_of_int (int (unat sz)) :: u64) = sz" by (simp add: of_nat_unat)
    let ?x = "take (unat sz) (rb_contents r)"
    obtain nr' where nr': "ringbuf_put nr ?x = Some (0, nr')" "rb_inv nr'" "rb_capacity nr' = rb_capacity nr"
        "rb_contents nr' = rb_contents nr @ ?x"
      using rb.put_room [OF Suc.prems(2), of ?x] le z Suc.prems(3) by auto
    obtain r' where r': "ringbuf_mark_consumed r sz = Some r'" "rb_inv r'" "rb_capacity r' = rb_capacity r"
        "rb_contents r' = drop (unat sz) (rb_contents r)"
      using rb.consume_ok [OF Suc.prems(1) le] by auto
    have "\<exists>r2. move_chunks fuel nr' r' = Some (True, r2) \<and> rb_inv r2 \<and> rb_capacity r2 = rb_capacity r' \<and> rb_contents r2 = []"
      by (rule Suc.IH) (use r' nr' le c(2) Suc.prems in simp_all)
    then show ?thesis using c s w nr'(1) r' by (auto simp del: of_nat_unat)
  qed
qed simp

lemma on_tcp_recv_overflow:
  assumes "conn_pending k bs" and "65536 < length bs + length d" and "length d \<le> 65536" and "mem2 \<noteq> None"
  obtains r where "on_tcp_recv mem mem2 k d = Some (0, set_rb (Some r) k)" and "rb_holds r []"
proof -
  have ne: "bs \<noteq> []" using assms(2,3) by auto
  then obtain r where k: "tcp_rb (tcp k) = Some r" and r: "rb_holds r bs"
    using assms(1) by (auto simp: conn_pending_def split: option.splits)
  have crb: "conn_rb mem k = Some r" using k by (simp add: conn_rb_def)
  have nd: "\<not> direct bs d" using ne by (simp add: direct_def)
  have inv: "rb_inv r" and cap: "rb_capacity r = 65536" and c: "rb_contents r = bs" using r by (simp_all add: rb_holds_def)
  have full: "ringbuf_put r d = Some (-1, r)" by (rule rb.put_full [OF inv]) (use assms(2,3) cap c in simp_all)
  have n: "rb_n r = 65536" using cap by (simp add: rb_capacity_def word_unat_eq_iff)
  obtain f where f: "mem2 = Some f" using assms(4) by blast
  have n2: "unat (rb_n r + 65536) = 131072" by (simp add: n)
  obtain nr where nr: "ringbuf_new (Some f) (rb_n r + 65536) = Some nr" "rb_inv nr" "rb_capacity nr = 131072" "rb_contents nr = []"
    using ringbuf_new_inv [of "rb_n r + 65536" f] n2 by (auto simp: n)
  have l: "length bs \<le> 65536" by (rule rb_holds_bound [OF r])
  obtain r' where "move_chunks (Suc (unat (rb_u r))) nr r = Some (True, r')" "rb_holds r' []"
    using move_chunks_empties [OF inv nr(2), of "Suc (unat (rb_u r))"] nr c cap l length_rb_contents [OF inv]
    by (auto simp: rb_holds_def)
  then show ?thesis
    using that [of r'] on_tcp_recv_cases [OF assms(1) nd assms(3)] crb full nr(1) f by simp
qed

section \<open>Every complete frame is handled\<close>

lemma set_rb_simps [simp]:
  "set_rb r (set_rb r' k) = set_rb r k" "tcp_rb (tcp (set_rb r k)) = r" "set_rb (tcp_rb (tcp k)) k = k"
  by (simp_all add: set_rb_def)

lemma conn_pending_set [simp]: "conn_pending (set_rb (Some r) k) bs \<longleftrightarrow> rb_holds r bs"
  by (simp add: conn_pending_def)

lemma conn_pending_bound: "conn_pending k bs \<Longrightarrow> length bs \<le> 65536"
  by (auto simp: conn_pending_def dest: rb_holds_bound split: option.splits)

text \<open>When the memory for a ring buffer is not available the new bytes are dropped.\<close>

lemma on_tcp_recv_fails:
  assumes "conn_pending k bs" and "\<not> direct bs d" and "length d \<le> 65536"
    and "mem = None \<and> tcp_rb (tcp k) = None \<or> mem2 = None \<and> 65536 < length bs + length d"
  shows "on_tcp_recv mem mem2 k d = Some (-1, k)"
proof (cases "tcp_rb (tcp k)")
  case None
  then have "mem = None" using assms(1,3,4) by (auto simp: conn_pending_def)
  then have "conn_rb mem k = None" using None by (simp add: conn_rb_def ringbuf_new_def)
  then show ?thesis using on_tcp_recv_cases [OF assms(1-3)] by simp
next
  case (Some r)
  then have r: "rb_inv r" "rb_capacity r = 65536" "rb_contents r = bs" "mem2 = None" "65536 < length bs + length d"
    using assms(1,4) by (auto simp: conn_pending_def rb_holds_def)
  have "ringbuf_put r d = Some (-1, r)" by (rule rb.put_full [OF r(1)]) (use r assms(3) in simp_all)
  moreover have "conn_rb mem k = Some r" "ringbuf_new mem2 (rb_n r + 65536) = None"
    using Some r(4) by (simp_all add: conn_rb_def ringbuf_new_def)
  moreover have "set_rb (Some r) k = k" using set_rb_simps(3) [of k] Some by simp
  ultimately show ?thesis using on_tcp_recv_cases [OF assms(1-3)] by simp
qed

lemma get_chunk:
  assumes "length buf = 65536" and "conn_pending k bs"
  obtains n buf' rb' where "get_tcp_buf_chunk k buf = Some (n, buf', set_rb rb' k)" and "length buf' = 65536"
    and "frame_ready bs \<longrightarrow> sint (ucast n :: u32) = int (frame_len bs) \<and> take (frame_len bs) buf' = take (frame_len bs) bs \<and>
      conn_pending (set_rb rb' k) (drop (frame_len bs) bs)"
    and "\<not> frame_ready bs \<longrightarrow> n = 0 \<and> conn_pending (set_rb rb' k) bs"
proof (cases "tcp_rb (tcp k)")
  case None
  then have bs: "bs = []" using assms(2) by (simp add: conn_pending_def)
  have nr: "\<not> frame_ready []" by (simp add: frame_ready_def)
  have "set_rb None k = k" using set_rb_simps(3) [of k] None by simp
  then show ?thesis
    using that [of 0 buf None] nr None assms bs by (simp add: get_tcp_buf_chunk_def)
next
  case (Some r)
  then have r: "rb_holds r bs" using assms(2) by (simp add: conn_pending_def)
  show ?thesis
  proof (cases "frame_ready bs")
    case True
    then show ?thesis using get_chunk_step [OF assms(1) Some r] that by (auto simp: True)
  next
    case False
    then show ?thesis using get_chunk_step [OF assms(1) Some r] that by (auto simp: False)
  qed
qed

text \<open>Handling a list of frames one after the other until one fails, the reference definition.\<close>

fun handle_all ::
  "(nat \<Rightarrow> byte list \<Rightarrow> 's \<Rightarrow> (int \<times> 's \<times> event list) option) \<Rightarrow> nat \<Rightarrow> byte list list \<Rightarrow> 's \<Rightarrow>
   (bool \<times> 's \<times> event list) option" where
  "handle_all h i [] s = Some (True, s, [])"
| "handle_all h i (d # ds) s =
     do {
       (ret, s, out) \<leftarrow> h i d s;
       if ret \<noteq> 0 then Some (False, s, out)
       else do { (ok, s, out2) \<leftarrow> handle_all h (Suc i) ds s; Some (ok, s, out @ out2) }
     }"

definition with_rb :: "('s \<Rightarrow> Kcpev option) \<Rightarrow> (Kcpev \<Rightarrow> 's \<Rightarrow> 's) \<Rightarrow> ringbuf option \<Rightarrow> 's \<Rightarrow> 's" where
  "with_rb get put r s = (case get s of None \<Rightarrow> s | Some k \<Rightarrow> put (set_rb r k) s)"

text \<open>
  The result \<open>res\<close> is that of the reference \<open>ref\<close> with another ring buffer, which holds
  \<open>rest\<close> if every frame was handled.
\<close>

definition drained ::
  "('s \<Rightarrow> Kcpev option) \<Rightarrow> (Kcpev \<Rightarrow> 's \<Rightarrow> 's) \<Rightarrow> byte list \<Rightarrow> (bool \<times> 's \<times> event list) option \<Rightarrow>
   (bool \<times> 's \<times> event list) option \<Rightarrow> bool" where
  "drained get put rest ref res \<longleftrightarrow>
     (case ref of None \<Rightarrow> res = None
      | Some (ok, s, out) \<Rightarrow>
          (\<exists>r k bs. res = Some (ok, with_rb get put r s, out) \<and> get s = Some k \<and> conn_pending (set_rb r k) bs \<and>
            (ok \<longrightarrow> bs = rest)))"

lemma drained_prefix:
  assumes "drained get put rest ref res"
  shows "drained get put rest (do { (ok, s, out2) \<leftarrow> ref; Some (ok, s, out @ out2) })
    (do { (ok, s, out2) \<leftarrow> res; Some (ok, s, out @ out2) })"
proof (cases ref)
  case None
  then show ?thesis using assms by (simp add: drained_def)
next
  case (Some x)
  obtain ok s out2 where x: "x = (ok, s, out2)" by (cases x)
  obtain r k bs where "res = Some (ok, with_rb get put r s, out2)" "get s = Some k" "conn_pending (set_rb r k) bs" "ok \<longrightarrow> bs = rest"
    using assms Some x by (auto simp: drained_def)
  then have "do { (ok, s, out2) \<leftarrow> res; Some (ok, s, out @ out2) } = Some (ok, with_rb get put r s, out @ out2) \<and>
      get s = Some k \<and> conn_pending (set_rb r k) bs \<and> (ok \<longrightarrow> bs = rest)" by simp
  then show ?thesis unfolding drained_def Some x bind.bind_lunit option.case prod.case by blast
qed

text \<open>
  The contract between the stream loop and the handler of a frame: the handler neither reads
  nor replaces the ring buffer of the connection.
\<close>

locale frame_handler =
  fixes get :: "'s \<Rightarrow> Kcpev option" and put :: "Kcpev \<Rightarrow> 's \<Rightarrow> 's"
    and h :: "nat \<Rightarrow> byte list \<Rightarrow> 's \<Rightarrow> (int \<times> 's \<times> event list) option"
  assumes put_get: "get s \<noteq> None \<Longrightarrow> get (put k s) = Some k"
    and put_put: "get s \<noteq> None \<Longrightarrow> put k (put k' s) = put k s"
    and put_same: "get s = Some k \<Longrightarrow> put k s = s"
    and h_get: "get s \<noteq> None \<Longrightarrow> h i d s = Some (ret, s', out) \<Longrightarrow> get s' \<noteq> None"
    and h_with: "get s \<noteq> None \<Longrightarrow> h i d (with_rb get put r s) =
      map_option (\<lambda>(ret, s', out). (ret, with_rb get put r s', out)) (h i d s)"
begin

abbreviation W :: "ringbuf option \<Rightarrow> 's \<Rightarrow> 's" where "W \<equiv> with_rb get put"

lemma W_put: "get s = Some k \<Longrightarrow> put (set_rb r k) s = W r s"
  by (simp add: with_rb_def)

lemma W_get: "get s = Some k \<Longrightarrow> get (W r s) = Some (set_rb r k)"
  by (simp add: with_rb_def put_get)

lemma W_W: "get s \<noteq> None \<Longrightarrow> W r (W r' s) = W r s"
  by (auto simp: with_rb_def put_get put_put)

lemma W_same: "get s = Some k \<Longrightarrow> W (tcp_rb (tcp k)) s = s"
  by (simp add: with_rb_def put_same)

text \<open>The handler keeps the ring buffer.\<close>

lemma h_keeps:
  assumes "get s = Some k" and "h i d s = Some (ret, s', out)"
  obtains k' where "get s' = Some k'" and "tcp_rb (tcp k') = tcp_rb (tcp k)"
proof -
  have "get s' \<noteq> None" using h_get [OF _ assms(2)] assms(1) by simp
  then obtain k' where k': "get s' = Some k'" by blast
  have "s' = W (tcp_rb (tcp k)) s'" using h_with [of s i d "tcp_rb (tcp k)"] W_same [OF assms(1)] assms by simp
  then have "get s' = Some (set_rb (tcp_rb (tcp k)) k')" using W_get [OF k'] by metis
  then show ?thesis using that k' by (metis option.inject set_rb_simps(2))
qed

lemma handle_all_with:
  "get s \<noteq> None \<Longrightarrow> handle_all h i ds (W r s) = map_option (\<lambda>(ok, s', out). (ok, W r s', out)) (handle_all h i ds s)"
proof (induction ds arbitrary: i s)
  case (Cons d ds)
  show ?case
  proof (cases "h i d s")
    case None
    then show ?thesis using h_with [OF Cons.prems] by simp
  next
    case (Some x)
    obtain ret s' out where x: "x = (ret, s', out)" by (cases x)
    have "get s' \<noteq> None" using h_get [OF Cons.prems] Some x by simp
    then show ?thesis
      using Cons.IH [of s' "Suc i"] h_with [OF Cons.prems, of i d r] Some x
      by (cases "handle_all h (Suc i) ds s'") auto
  qed
qed simp

lemma handle_all_get: "get s \<noteq> None \<Longrightarrow> handle_all h i ds s = Some (ok, s', out) \<Longrightarrow> get s' \<noteq> None"
proof (induction ds arbitrary: i s out)
  case (Cons d ds)
  then show ?case
    by (auto simp: outcome_simps split: if_splits) (metis h_get option.distinct(1) not_Some_eq)+
qed simp

text \<open>A result for a state with another ring buffer is one for the state itself.\<close>

lemma drained_W:
  assumes "get s \<noteq> None" and "drained get put rest (handle_all h i ds (W r s)) res"
  shows "drained get put rest (handle_all h i ds s) res"
proof (cases "handle_all h i ds s")
  case None
  then show ?thesis using assms handle_all_with [OF assms(1), of i ds r] by (simp add: drained_def)
next
  case (Some x)
  obtain ok s' out where x: "x = (ok, s', out)" by (cases x)
  have g: "get s' \<noteq> None" using handle_all_get [OF assms(1)] Some x by simp
  then obtain k' where k': "get s' = Some k'" by blast
  have "handle_all h i ds (W r s) = Some (ok, W r s', out)" using handle_all_with [OF assms(1)] Some x by simp
  then obtain r2 bs where "res = Some (ok, W r2 (W r s'), out)" "conn_pending (set_rb r2 (set_rb r k')) bs" "ok \<longrightarrow> bs = rest"
    using assms(2) W_get [OF k', of r] by (auto simp: drained_def)
  then have "res = Some (ok, W r2 s', out) \<and> get s' = Some k' \<and> conn_pending (set_rb r2 k') bs \<and> (ok \<longrightarrow> bs = rest)"
    using W_W [OF g] k' by simp
  then show ?thesis unfolding drained_def Some x option.case prod.case by blast
qed

text \<open>The step of both loops after a frame was handled.\<close>

lemma drained_handle:
  assumes "get s = Some k" and "conn_pending k bs"
    and "\<And>s' k'. get s' = Some k' \<Longrightarrow> conn_pending k' bs \<Longrightarrow>
      drained get put rest (handle_all h (Suc i) ds s') (res s')"
  shows "drained get put rest (handle_all h i (d # ds) s)
    (do { (ret, s, out) \<leftarrow> h i d s;
          if ret \<noteq> 0 then Some (False, s, out) else do { (ok, s, out2) \<leftarrow> res s; Some (ok, s, out @ out2) } })"
proof (cases "h i d s")
  case None
  then show ?thesis by (simp add: drained_def)
next
  case (Some x)
  obtain ret s2 out where x: "x = (ret, s2, out)" by (cases x)
  obtain k2 where k2: "get s2 = Some k2" "tcp_rb (tcp k2) = tcp_rb (tcp k)"
    using h_keeps [OF assms(1)] Some x by metis
  then have p: "conn_pending k2 bs" using assms(2) by (simp add: conn_pending_def)
  show ?thesis
  proof (cases "ret = 0")
    case False
    have "s2 = W (tcp_rb (tcp k2)) s2 \<and> conn_pending (set_rb (tcp_rb (tcp k2)) k2) bs"
      using W_same [OF k2(1)] p by simp
    then have "\<exists>r k bs. Some (False, s2, out) = Some (False, W r s2, out) \<and> get s2 = Some k \<and> conn_pending (set_rb r k) bs \<and>
        (False \<longrightarrow> bs = rest)"
      using k2(1) by metis
    then show ?thesis using False Some x by (simp add: drained_def)
  next
    case True
    have "drained get put rest (handle_all h (Suc i) ds s2) (res s2)" by (rule assms(3) [OF k2(1) p])
    then show ?thesis
      using drained_prefix [of get put rest _ "res s2" out] True Some x by simp
  qed
qed

lemma drain_frames:
  assumes "get s = Some k" and "conn_pending k bs" and "length buf = 65536" and "length bs < fuel"
  shows "drained get put (snd (split_frames bs)) (handle_all h i (fst (split_frames bs)) s) (tcp_drain get put h fuel i buf s)"
  using assms
proof (induction fuel arbitrary: s k bs buf i)
  case (Suc fuel)
  obtain n buf' rb' where c: "get_tcp_buf_chunk k buf = Some (n, buf', set_rb rb' k)" "length buf' = 65536"
      "frame_ready bs \<longrightarrow> sint (ucast n :: u32) = int (frame_len bs) \<and> take (frame_len bs) buf' = take (frame_len bs) bs \<and>
        conn_pending (set_rb rb' k) (drop (frame_len bs) bs)"
      "\<not> frame_ready bs \<longrightarrow> n = 0 \<and> conn_pending (set_rb rb' k) bs"
    by (rule get_chunk [OF Suc.prems(3,2)])
  note put = W_put [OF Suc.prems(1)]
  show ?case
  proof (cases "frame_ready bs")
    case False
    have "\<exists>r k2 bs2. Some (True, W rb' s, []) = Some (True, W r s, []) \<and> get s = Some k2 \<and> conn_pending (set_rb r k2) bs2 \<and>
        (True \<longrightarrow> bs2 = bs)"
      using c(4) False Suc.prems(1) by blast
    then show ?thesis using c False Suc.prems(1) put by (simp add: split_step(2) drained_def)
  next
    case True
    have fl: "0 < frame_len bs" "frame_len bs \<le> length bs" using True by (simp_all add: frame_ready_def)
    have fetch: "fetch buf' 0 (frame_len bs) = Some (take (frame_len bs) bs)"
      using c(2,3) True fl(2) conn_pending_bound [OF Suc.prems(2)] by (simp add: fetch_def)
    let ?rest = "drop (frame_len bs) bs"
    have g1: "get (W rb' s) = Some (set_rb rb' k)" by (rule W_get [OF Suc.prems(1)])
    have "drained get put (snd (split_frames ?rest)) (handle_all h i (take (frame_len bs) bs # fst (split_frames ?rest)) (W rb' s))
      (do { (ret, s, out) \<leftarrow> h i (take (frame_len bs) bs) (W rb' s);
            if ret \<noteq> 0 then Some (False, s, out)
            else do { (ok, s, out2) \<leftarrow> tcp_drain get put h fuel (Suc i) buf' s; Some (ok, s, out @ out2) } })"
    proof (rule drained_handle [OF g1])
      show "conn_pending (set_rb rb' k) ?rest" using c(3) True by simp
      show "drained get put (snd (split_frames ?rest)) (handle_all h (Suc i) (fst (split_frames ?rest)) s')
          (tcp_drain get put h fuel (Suc i) buf' s')" if "get s' = Some k'" "conn_pending k' ?rest" for s' k'
        by (rule Suc.IH [OF that c(2)]) (use fl Suc.prems(4) in simp)
    qed
    then have "drained get put (snd (split_frames ?rest)) (handle_all h i (take (frame_len bs) bs # fst (split_frames ?rest)) (W rb' s))
        (tcp_drain get put h (Suc fuel) i buf s)"
      using c(1,3) True fl fetch Suc.prems(1) put by simp
    moreover have "get s \<noteq> None" using Suc.prems(1) by simp
    ultimately show ?thesis unfolding split_step(1) [OF True] fst_conv snd_conv by (rule drained_W [rotated])
  qed
qed simp

end

lemma recv_len: "n \<le> 65536 \<Longrightarrow> sint (ucast (of_nat n :: u64) :: u32) = int n"
  by (subst sint_small) (simp_all add: unsigned_ucast_eq unat_of_nat take_bit_nat_eq_self)

lemma split_empty [simp]: "split_frames [] = ([], [])"
  by (simp add: split_step frame_ready_def)

lemma split_direct: "direct bs d \<Longrightarrow> split_frames (bs @ d) = ([d], [])"
proof -
  assume d: "direct bs d"
  then have "frame_ready d" "frame_len d = length d" "bs = []" by (auto simp: direct_def frame_ready_def)
  then show ?thesis using split_step(1) [of d] by simp
qed

context frame_handler
begin

text \<open>Receiving: the frames the new bytes complete are handled, the rest stays pending.\<close>

lemma tcp_recv_frames:
  assumes s: "get s = Some k" and p: "conn_pending k bs" and buf: "length buf = 65536" and len: "len \<le> 65536"
    and mem: "mem \<noteq> None" and room: "direct bs (take len buf) \<or> length bs + len \<le> 65536"
  shows "drained get put (snd (split_frames (bs @ take len buf)))
    (handle_all h 0 (fst (split_frames (bs @ take len buf))) s) (tcp_recv get put h mem mem2 buf len s)"
proof -
  let ?d = "take len buf"
  have d: "fetch buf 0 len = Some ?d" "length ?d = len" using buf len by (simp_all add: fetch_def)
  show ?thesis
  proof (cases "direct bs ?d")
    case True
    have b: "bs = []" and l: "8 \<le> len" using True d(2) by (simp_all add: direct_def)
    have o: "on_tcp_recv mem mem2 k ?d = Some (of_nat len, k)"
      using on_tcp_recv_direct [of k ?d mem mem2] p True b d(2) len by simp
    have "drained get put [] (handle_all h 0 [?d] s)
      (do { (ret, s, out) \<leftarrow> h 0 ?d s;
            if ret \<noteq> 0 then Some (False, s, out)
            else do { (ok, s, out2) \<leftarrow> tcp_drain get put h (Suc 65536) 1 buf s; Some (ok, s, out @ out2) } })"
    proof (rule drained_handle [OF s])
      show "conn_pending k []" using p b by simp
      show "drained get put [] (handle_all h (Suc 0) [] s') (tcp_drain get put h (Suc 65536) 1 buf s')"
        if "get s' = Some k'" "conn_pending k' []" for s' k'
        using drain_frames [OF that buf, of "Suc 65536" 1] by simp
    qed
    then show ?thesis
      using s d o recv_len [OF len] l put_same [OF s] split_direct [OF True]
      unfolding tcp_recv_def Let_def by (simp del: tcp_drain.simps handle_all.simps)
  next
    case False
    have room: "length bs + length ?d \<le> 65536" using room False d(2) by simp
    obtain r where r: "on_tcp_recv mem mem2 k ?d = Some (0, set_rb (Some r) k)" "rb_holds r (bs @ ?d)"
      by (rule on_tcp_recv_room [OF p False room mem])
    have g: "get (W (Some r) s) = Some (set_rb (Some r) k)" by (rule W_get [OF s])
    have "drained get put (snd (split_frames (bs @ ?d))) (handle_all h 0 (fst (split_frames (bs @ ?d))) (W (Some r) s))
        (tcp_drain get put h (Suc 65536) 0 buf (W (Some r) s))"
      by (rule drain_frames [OF g _ buf]) (use r(2) room in simp_all)
    moreover have "tcp_recv get put h mem mem2 buf len s = tcp_drain get put h (Suc 65536) 0 buf (W (Some r) s)"
      using s d r(1) W_put [OF s] unfolding tcp_recv_def Let_def by (simp del: tcp_drain.simps)
    ultimately show ?thesis using drained_W [of s] s by simp
  qed
qed

text \<open>When the bytes do not fit, those pending and those received are dropped.\<close>

lemma tcp_recv_overflow:
  assumes s: "get s = Some k" and p: "conn_pending k bs" and buf: "length buf = 65536" and len: "len \<le> 65536"
    and mem: "mem2 \<noteq> None" and over: "65536 < length bs + len"
  obtains r where "tcp_recv get put h mem mem2 buf len s = Some (True, W r s, [])" and "conn_pending (set_rb r k) []"
proof -
  let ?d = "take len buf"
  have d: "fetch buf 0 len = Some ?d" "length ?d = len" using buf len by (simp_all add: fetch_def)
  obtain r where r: "on_tcp_recv mem mem2 k ?d = Some (0, set_rb (Some r) k)" "rb_holds r []"
    by (rule on_tcp_recv_overflow [OF p _ _ mem, of ?d mem]) (use over len d(2) in simp_all)
  have g: "get (W (Some r) s) = Some (set_rb (Some r) k)" by (rule W_get [OF s])
  have "drained get put [] (handle_all h 0 [] (W (Some r) s)) (tcp_drain get put h (Suc 65536) 0 buf (W (Some r) s))"
    using drain_frames [OF g _ buf, of "[]" "Suc 65536" 0] r(2) by simp
  moreover have "tcp_recv get put h mem mem2 buf len s = tcp_drain get put h (Suc 65536) 0 buf (W (Some r) s)"
    using s d r(1) W_put [OF s] unfolding tcp_recv_def Let_def by (simp del: tcp_drain.simps)
  ultimately obtain r2 where "tcp_recv get put h mem mem2 buf len s = Some (True, W r2 (W (Some r) s), [])"
      "conn_pending (set_rb r2 k) []"
    using g by (auto simp: drained_def)
  then show ?thesis using that W_W [of s r2 "Some r"] s by auto
qed

text \<open>Without memory for a ring buffer the frames that are already complete are handled.\<close>

lemma tcp_recv_fails:
  assumes s: "get s = Some k" and p: "conn_pending k bs" and buf: "length buf = 65536" and len: "len \<le> 65536"
    and dir: "\<not> direct bs (take len buf)"
    and mem: "mem = None \<and> tcp_rb (tcp k) = None \<or> mem2 = None \<and> 65536 < length bs + len"
  shows "drained get put (snd (split_frames bs)) (handle_all h 0 (fst (split_frames bs)) s) (tcp_recv get put h mem mem2 buf len s)"
proof -
  have d: "fetch buf 0 len = Some (take len buf)" "length (take len buf) = len" using buf len by (simp_all add: fetch_def)
  have "on_tcp_recv mem mem2 k (take len buf) = Some (-1, k)"
    by (rule on_tcp_recv_fails [OF p dir]) (use d(2) len mem in simp_all)
  moreover have "sint (ucast (-1 :: u64) :: u32) = -1" by code_simp
  ultimately have "tcp_recv get put h mem mem2 buf len s = tcp_drain get put h (Suc 65536) 0 buf s"
    using s d(1) put_same [OF s] unfolding tcp_recv_def Let_def by (simp del: tcp_drain.simps)
  then show ?thesis using drain_frames [OF s p buf, of "Suc 65536" 0] conn_pending_bound [OF p] by simp
qed

text \<open>In every case the loop is defined if the handler is, and keeps what the handler keeps.\<close>

lemma tcp_recv_total:
  assumes s: "get s = Some k" and p: "conn_pending k bs" and buf: "length buf = 65536" and len: "len \<le> 65536"
    and h: "\<And>ds. \<forall>d \<in> set ds. length d \<le> 65536 \<Longrightarrow> \<exists>ok s' out. handle_all h 0 ds s = Some (ok, s', out) \<and> Q s'"
  shows "\<exists>ok s' out r k' bs'. tcp_recv get put h mem mem2 buf len s = Some (ok, W r s', out) \<and> Q s' \<and>
    get s' = Some k' \<and> conn_pending (set_rb r k') bs'"
proof -
  have ends: ?thesis if "drained get put (snd (split_frames x)) (handle_all h 0 (fst (split_frames x)) s) (tcp_recv get put h mem mem2 buf len s)"
    and "length x \<le> 65536" for x
  proof -
    have "\<forall>d \<in> set (fst (split_frames x)). length d \<le> 65536" using split_frame_size [of _ x] le_trans that(2) by blast
    from h [OF this] obtain ok s' out where o: "handle_all h 0 (fst (split_frames x)) s = Some (ok, s', out)" "Q s'" by blast
    from that(1) have
      "\<exists>r k' bs'. tcp_recv get put h mem mem2 buf len s = Some (ok, W r s', out) \<and> get s' = Some k' \<and> conn_pending (set_rb r k') bs'"
      unfolding drained_def o(1) option.case prod.case by blast
    then show ?thesis using o(2) by blast
  qed
  let ?d = "take len buf"
  have b: "length bs \<le> 65536" by (rule conn_pending_bound [OF p])
  consider (frames) "direct bs ?d" | (no) "\<not> direct bs ?d" "mem = None \<and> tcp_rb (tcp k) = None \<or> mem2 = None \<and> 65536 < length bs + len"
    | (room) "\<not> direct bs ?d" "length bs + len \<le> 65536" "\<not> (mem = None \<and> tcp_rb (tcp k) = None)"
    | (over) "65536 < length bs + len" "mem2 \<noteq> None" by fastforce
  then show ?thesis
  proof cases
    case frames
    have x: "length (bs @ ?d) \<le> 65536" using frames len buf by (auto simp: direct_def)
    show ?thesis
    proof (cases mem)
      case None
      have "tcp_recv get put h None mem2 buf len s = tcp_recv get put h (Some (\<lambda>_. 0)) mem2 buf len s"
        using frames on_tcp_recv_direct [of k ?d] p s buf len unfolding tcp_recv_def
        by (auto simp: direct_def fetch_def simp del: tcp_drain.simps)
      then show ?thesis using ends [OF _ x] tcp_recv_frames [OF s p buf len, of "Some (\<lambda>_. 0)" mem2] frames None by simp
    next
      case (Some f)
      then show ?thesis using ends [OF _ x] tcp_recv_frames [OF s p buf len, of mem mem2] frames by simp
    qed
  next
    case no
    show ?thesis by (rule ends [OF tcp_recv_fails [OF s p buf len no] b])
  next
    case room
    have x: "length (bs @ ?d) \<le> 65536" using room(2) buf by simp
    show ?thesis
    proof (cases mem)
      case None
      then obtain r where r: "tcp_rb (tcp k) = Some r" using room(3) by auto
      have "conn_rb None k = conn_rb (Some (\<lambda>_. 0)) k" using r by (simp add: conn_rb_def)
      then have "on_tcp_recv None mem2 k ?d = on_tcp_recv (Some (\<lambda>_. 0)) mem2 k ?d"
        using on_tcp_recv_cases [OF p room(1)] len buf by simp
      then have "tcp_recv get put h None mem2 buf len s = tcp_recv get put h (Some (\<lambda>_. 0)) mem2 buf len s"
        using s buf len unfolding tcp_recv_def by (simp add: fetch_def del: tcp_drain.simps)
      then show ?thesis using ends [OF _ x] tcp_recv_frames [OF s p buf len, of "Some (\<lambda>_. 0)" mem2] room(2) None by simp
    next
      case (Some f)
      then show ?thesis using ends [OF _ x] tcp_recv_frames [OF s p buf len, of mem mem2] room(2) by simp
    qed
  next
    case over
    have "Q s" using h [of "[]"] by simp
    moreover obtain r where "tcp_recv get put h mem mem2 buf len s = Some (True, W r s, [])" "conn_pending (set_rb r k) []"
      by (rule tcp_recv_overflow [OF s p buf len over(2,1)])
    ultimately show ?thesis using s by blast
  qed
qed

end

section \<open>A stream in pieces\<close>

text \<open>A sequence of calls of the watcher \<open>rcv\<close>, one for each piece of the stream.\<close>

fun tcp_run ::
  "(byte list \<Rightarrow> nat \<Rightarrow> 's \<Rightarrow> ('s \<times> event list) option) \<Rightarrow> (byte list \<times> nat) list \<Rightarrow> 's \<Rightarrow> ('s \<times> event list) option" where
  "tcp_run rcv [] s = Some (s, [])"
| "tcp_run rcv ((buf, len) # ps) s =
     do {
       (s, out) \<leftarrow> rcv buf len s;
       (s, out2) \<leftarrow> tcp_run rcv ps s;
       Some (s, out @ out2)
     }"

abbreviation data_frames :: "(byte list \<times> byte list) list \<Rightarrow> byte list list" where
  "data_frames ms \<equiv> map (\<lambda>(pad, msg). frame pad 1 msg) ms"

definition piece :: "byte list \<times> nat \<Rightarrow> byte list" where
  "piece p = take (snd p) (fst p)"

lemma piece_pair [simp]: "piece (buf, len) = take len buf"
  by (simp add: piece_def)

lemma split_data_frames:
  assumes "\<forall>(pad, msg) \<in> set ms. length pad = 3 \<and> length msg + 8 \<le> a" and "a \<le> 65536"
  shows "split_frames (concat (data_frames ms)) = (data_frames ms, [])"
proof -
  have "\<forall>(pad, c, msg) \<in> set (map (\<lambda>(pad, msg). (pad, 1, msg)) ms). length pad = 3 \<and> length msg + 8 < 2 ^ 32"
    using assms by fastforce
  from split_frame_stream [OF this] show ?thesis by (simp add: comp_def split_def)
qed

text \<open>An incomplete rest of the stream is shorter than the next frame.\<close>

lemma rest_short:
  assumes "\<not> frame_ready r" and "r @ t = concat (data_frames ms)"
    and "\<forall>(pad, msg) \<in> set ms. length pad = 3 \<and> length msg + 8 \<le> a" and "a \<le> 65536" and "0 < a"
  shows "length r < a"
proof (cases ms)
  case Nil
  then show ?thesis using assms(2,5) by simp
next
  case (Cons m ms')
  obtain pad msg where m: "m = (pad, msg)" by (cases m)
  let ?f = "frame pad 1 msg"
  have f: "length pad = 3" "length ?f = length msg + 8" "length msg + 8 \<le> a" using assms(3) Cons m by auto
  have "length r < length ?f"
  proof (rule ccontr)
    assume "\<not> length r < length ?f"
    then obtain r' where r': "r = ?f @ r'"
      using assms(2) Cons m by (auto simp: append_eq_append_conv2 append_eq_conv_conj)
    have "frame_len r = length msg + 8" unfolding r' by (rule frame_len_frame) (use f assms(4) in simp)
    then show False using assms(1) f(1) by (simp add: frame_ready_def r')
  qed
  then show ?thesis using f by simp
qed

text \<open>
  The contract of a side that hands the payload of a data frame to the user, as the event
  \<open>ev\<close>, and changes nothing; \<open>rcv\<close> is its watcher.
\<close>

locale data_stream = frame_handler get put h
  for get :: "'s \<Rightarrow> Kcpev option" and put :: "Kcpev \<Rightarrow> 's \<Rightarrow> 's"
    and h :: "nat \<Rightarrow> byte list \<Rightarrow> 's \<Rightarrow> (int \<times> 's \<times> event list) option" +
  fixes okay :: "'s \<Rightarrow> bool" and ev :: "byte list \<Rightarrow> event"
    and rcv :: "byte list \<Rightarrow> nat \<Rightarrow> 's \<Rightarrow> ('s \<times> event list) option"
    and mem :: "(nat \<Rightarrow> byte) option" and mem2 :: "(nat \<Rightarrow> byte) option"
  assumes data: "okay s \<Longrightarrow> length pad = 3 \<Longrightarrow> length msg \<le> 65528 \<Longrightarrow> h i (frame pad 1 msg) s = Some (0, s, [ev msg])"
    and okay_rb: "okay s \<Longrightarrow> get s = Some k \<Longrightarrow> okay (with_rb get put r s)"
    and rcv: "0 < len \<Longrightarrow> tcp_recv get put h mem mem2 buf len s = Some (True, s', out) \<Longrightarrow> rcv buf len s = Some (s', out)"
begin

lemma handle_data:
  assumes "\<forall>(pad, msg) \<in> set ms. length pad = 3 \<and> length msg \<le> 65528" and "okay s"
  shows "handle_all h i (data_frames ms) s = Some (True, s, map (\<lambda>(pad, msg). ev msg) ms)"
  using assms by (induction ms arbitrary: i) (auto simp: data)

lemma run_step:
  assumes bs: "\<not> frame_ready bs" and s: "get s = Some k" and p: "conn_pending k bs" and ok: "okay s" and mem: "mem \<noteq> None"
    and buf: "length buf = 65536" and len: "0 < len" "len \<le> b"
    and ms: "\<forall>(pad, msg) \<in> set ms. length pad = 3 \<and> length msg + 8 \<le> a" and ab: "0 < a" "a + b \<le> 65537" "a \<le> 65536"
    and t: "bs @ take len buf @ t = concat (data_frames ms)"
  obtains ms1 ms2 r rb where "ms = ms1 @ ms2" and "\<not> frame_ready r" and "conn_pending (set_rb rb k) r"
    and "r @ t = concat (data_frames ms2)" and "rcv buf len s = Some (W rb s, map (\<lambda>(pad, msg). ev msg) ms1)"
proof -
  let ?x = "bs @ take len buf"
  obtain fs r where x: "split_frames ?x = (fs, r)" by fastforce
  have all: "split_frames (?x @ t) = (data_frames ms, [])"
    using split_data_frames [OF ms ab(3)] t by simp
  have parts: "fs @ fst (split_frames (r @ t)) = data_frames ms" "snd (split_frames (r @ t)) = []"
    using split_append [of ?x t] all x by simp_all
  then obtain ms1 ms2 where m: "ms = ms1 @ ms2" "fs = data_frames ms1" "fst (split_frames (r @ t)) = data_frames ms2"
    by (metis (no_types, lifting) append_eq_map_conv)
  have rt: "r @ t = concat (data_frames ms2)"
    using split_concat [of "r @ t"] parts(2) m(3) by simp
  have nr: "\<not> frame_ready r" using split_rest [of ?x] x by simp
  have short: "length bs < a" by (rule rest_short [OF bs _ ms ab(3,1)]) (use t in simp)
  have ms1: "\<forall>(pad, msg) \<in> set ms1. length pad = 3 \<and> length msg \<le> 65528"
  proof
    fix x
    assume "x \<in> set ms1"
    then have "length (fst x) = 3 \<and> length (snd x) + 8 \<le> a" using ms m(1) by (auto simp: split_def)
    then show "case x of (pad, msg) \<Rightarrow> length pad = 3 \<and> length msg \<le> 65528" using ab(3) by (simp add: split_def)
  qed
  have "drained get put r (Some (True, s, map (\<lambda>(pad, msg). ev msg) ms1)) (tcp_recv get put h mem mem2 buf len s)"
    using tcp_recv_frames [OF s p buf _ mem, of len mem2] handle_data [OF ms1 ok, of 0] len ab short x m(2) by auto
  then obtain rb where rb: "tcp_recv get put h mem mem2 buf len s = Some (True, W rb s, map (\<lambda>(pad, msg). ev msg) ms1)"
      "conn_pending (set_rb rb k) r"
    using s by (auto simp: drained_def)
  show ?thesis by (rule that [OF m(1) nr rb(2) rt rcv [OF len(1) rb(1)]])
qed

text \<open>The pieces of a part of a stream: what is complete is handed on, the rest stays pending.\<close>

lemma stream_part:
  assumes "get s = Some k" and "conn_pending k []" and "okay s" and "mem \<noteq> None"
    and "\<forall>(buf, len) \<in> set ps. length buf = 65536 \<and> 0 < len \<and> len \<le> b"
    and "\<forall>(pad, msg) \<in> set ms. length pad = 3 \<and> length msg + 8 \<le> a"
    and "0 < a" and "a + b \<le> 65537" and "a \<le> 65536"
    and "concat (map piece ps) @ t = concat (data_frames ms)"
  shows "\<exists>ms1 ms2 r rb. ms = ms1 @ ms2 \<and> \<not> frame_ready r \<and> r @ t = concat (data_frames ms2) \<and>
    tcp_run rcv ps s = Some (W rb s, map (\<lambda>(pad, msg). ev msg) ms1) \<and> conn_pending (set_rb rb k) r"
proof -
  have "\<exists>ms1 ms2 r rb. ms = ms1 @ ms2 \<and> \<not> frame_ready r \<and> r @ t = concat (data_frames ms2) \<and>
      tcp_run rcv ps s = Some (W rb s, map (\<lambda>(pad, msg). ev msg) ms1) \<and> conn_pending (set_rb rb k) r"
    if "\<not> frame_ready bs" "get s = Some k" "conn_pending k bs" "okay s" "bs @ concat (map piece ps) @ t = concat (data_frames ms)"
      "\<forall>(buf, len) \<in> set ps. length buf = 65536 \<and> 0 < len \<and> len \<le> b"
      "\<forall>(pad, msg) \<in> set ms. length pad = 3 \<and> length msg + 8 \<le> a" for bs s k ps and ms :: "(byte list \<times> byte list) list"
    using that
  proof (induction ps arbitrary: bs s k ms)
    case Nil
    then show ?case using W_same [OF Nil.prems(2)]
      by (intro exI [of _ "[]"] exI [of _ ms] exI [of _ bs] exI [of _ "tcp_rb (tcp k)"]) simp
  next
    case (Cons p ps)
    obtain buf len where p: "p = (buf, len)" by (cases p)
    obtain ms1 ms2 r rb where *: "ms = ms1 @ ms2" "\<not> frame_ready r" "conn_pending (set_rb rb k) r"
      "r @ concat (map piece ps) @ t = concat (data_frames ms2)"
      "rcv buf len s = Some (W rb s, map (\<lambda>(pad, msg). ev msg) ms1)"
      by (rule run_step [OF Cons.prems(1-4) assms(4) _ _ _ Cons.prems(7) assms(7-9), where t = "concat (map piece ps) @ t"])
        (use Cons.prems(5,6) p in auto)
    have ms2: "\<forall>(pad, msg) \<in> set ms2. length pad = 3 \<and> length msg + 8 \<le> a"
      "\<forall>(buf, len) \<in> set ps. length buf = 65536 \<and> 0 < len \<and> len \<le> b"
      using Cons.prems(6,7) *(1) by auto
    obtain ms3 ms4 r2 rb2 where **: "ms2 = ms3 @ ms4" "\<not> frame_ready r2" "r2 @ t = concat (data_frames ms4)"
      "tcp_run rcv ps (W rb s) = Some (W rb2 (W rb s), map (\<lambda>(pad, msg). ev msg) ms3)"
      "conn_pending (set_rb rb2 (set_rb rb k)) r2"
      using Cons.IH [OF *(2) W_get [OF Cons.prems(2)] *(3) okay_rb [OF Cons.prems(4,2)] *(4) ms2(2,1)] by blast
    then show ?case using *(1,5) p W_W [of s rb2 rb] Cons.prems(2)
      by (intro exI [of _ "ms1 @ ms3"] exI [of _ ms4] exI [of _ r2] exI [of _ rb2]) simp
  qed
  from this [of "[]" s k ps ms] show ?thesis using assms by (simp add: frame_ready_def)
qed

lemma stream:
  assumes "get s = Some k" and "conn_pending k []" and "okay s" and "mem \<noteq> None"
    and "\<forall>(buf, len) \<in> set ps. length buf = 65536 \<and> 0 < len \<and> len \<le> b"
    and "\<forall>(pad, msg) \<in> set ms. length pad = 3 \<and> length msg + 8 \<le> a"
    and "0 < a" and "a + b \<le> 65537" and "a \<le> 65536"
    and "concat (map piece ps) = concat (data_frames ms)"
  shows "\<exists>rb. tcp_run rcv ps s = Some (W rb s, map (\<lambda>(pad, msg). ev msg) ms) \<and> conn_pending (set_rb rb k) []"
proof -
  have "concat (map piece ps) @ [] = concat (data_frames ms)" using assms(10) by simp
  from stream_part [OF assms(1-9) this] obtain ms1 ms2 r rb where *: "ms = ms1 @ ms2" "\<not> frame_ready r" "r = concat (data_frames ms2)"
    "tcp_run rcv ps s = Some (W rb s, map (\<lambda>(pad, msg). ev msg) ms1)" "conn_pending (set_rb rb k) r" by auto
  have "split_frames r = (data_frames ms2, [])"
    unfolding *(3) by (rule split_data_frames [OF _ assms(9)]) (use assms(6) *(1) in auto)
  then have "ms2 = [] \<and> r = []" using split_step(2) [OF *(2)] by simp
  then show ?thesis using * by auto
qed

end

end
