(* ===== verification/Kcpev_Client.thy ===== *)
theory Kcpev_Client
  imports Kcpev_Tcp
begin

text \<open>
  The client side of the session layer (\<open>src/src/kcpev.c\<close>): \<open>on_client_recv\<close> with one
  definition per command, the watchers of the TCP and the UDP socket, the loop
  \<open>try_kcp_recv\<close> as it runs for a client, and the two timers.

  A call of the user's receive callback is an event; what the user does in it is a step of
  its own of the transition system at the end of the theory. The lemmas show that no input
  from either socket leads to an undefined outcome, with one exception that is made explicit:
  a KCP message that fills the whole receive buffer.
\<close>

section \<open>The commands\<close>

text \<open>
  Each handler gets the payload of the frame. The result is the return code of
  \<open>on_client_recv\<close>, the connection and the events.
\<close>

definition client_shake_hand1 :: "sysenv \<Rightarrow> Kcpev \<Rightarrow> byte list \<Rightarrow> (int \<times> Kcpev \<times> event list) option" where
  "client_shake_hand1 env client data =
     (if sock (udp client) = 0 then Some (0, client, [])
      else if length data \<noteq> 16 then Some (-1, client, [])
      else
        (let client = client\<lparr>key := data\<rparr> in
         do {
           (ret, out) \<leftarrow> sock_send_command env (sock (udp client)) COMMAND_SHAKE_HAND1 data;
           if ret \<noteq> 0 then Some (-1, client, out)
           else Some (0, client\<lparr>udp := (udp client)\<lparr>status := UDP_SHAKING_HAND\<rparr>\<rparr>, out)
         }))"

definition client_shake_hand2 :: "sysenv \<Rightarrow> Kcpev \<Rightarrow> byte list \<Rightarrow> (int \<times> Kcpev \<times> event list) option" where
  "client_shake_hand2 env client data =
     (if sock (udp client) = 0 then Some (0, client, [])
      else if length data \<noteq> 16 then Some (-1, client, [])
      else if status (udp client) \<noteq> UDP_SHAKING_HAND then Some (-1, client, [])
      else if data \<noteq> key client then Some (-1, client, [])
      else do {
        (ret, out) \<leftarrow> sock_send_command env (sock (udp client)) COMMAND_SHAKE_HAND2 data;
        if ret \<noteq> 0 then Some (-1, client, out)
        else do {
          (ret, client) \<leftarrow> check_create_kcp_timer env client On_client_heartbeat_timer;
          if \<not> ret \<ge> 0 then Some (-1, client, out)
          else do {
            kc \<leftarrow> kcp (udp client);
            Some (0, client\<lparr>udp := (udp client)\<lparr>kcp := Some (kc\<lparr>conv := ucast (key_conv (key client))\<rparr>),
              status := UDP_READY\<rparr>\<rparr>, out)
          }
        }
      })"

definition client_heartbeat1 :: "sysenv \<Rightarrow> Kcpev \<Rightarrow> byte list \<Rightarrow> (int \<times> Kcpev \<times> event list) option" where
  "client_heartbeat1 env client data =
     (if \<not> is_kcp_valid client then Some (0, client, [])
      else if length data \<noteq> 24 then Some (-1, client, [])
      else if status (udp client) \<noteq> UDP_READY then Some (-1, client, [])
      else if take 16 data \<noteq> key client then Some (-1, client, [])
      else do {
        (ret, client, out) \<leftarrow> kcpev_send_command env client COMMAND_HEARTBEAT2 data;
        if ret \<noteq> 0 then Some (-1, client, out)
        else Some (0, client\<lparr>udp := (udp client)\<lparr>heart := now env\<rparr>\<rparr>, out)
      })"

definition client_udp_invalid :: "Kcpev \<Rightarrow> byte list \<Rightarrow> int \<times> Kcpev \<times> event list" where
  "client_udp_invalid client data =
     (if \<not> is_kcp_valid client then (0, client, [])
      else if length data \<noteq> 16 then (-1, client, [])
      else if data \<noteq> key client then (-1, client, [])
      else (0, set_kcp_invalid client, []))"

text \<open>Calling a receive callback that was not set is undefined.\<close>

definition on_client_recv :: "sysenv \<Rightarrow> Kcpev \<Rightarrow> byte list \<Rightarrow> (int \<times> Kcpev \<times> event list) option" where
  "on_client_recv env client buf =
     (let len = of_nat (length buf) :: u64 in
      if \<not> len \<ge> 8 then Some (-1, client, [])
      else do {
        (ret, header) \<leftarrow> header_from_net buf len;
        if ret \<noteq> 0 then Some (-1, client, [])
        else do {
          header \<leftarrow> header;
          if ucast (hd_size header) \<noteq> len then Some (-1, client, [])
          else
            (let data = drop 8 buf; command = hd_command header in
             if command = COMMAND_DATA then
               do { c_assert (recv_cb client); Some (0, client, [Ev_recv_cb data]) }
             else if command = COMMAND_SHAKE_HAND1 then client_shake_hand1 env client data
             else if command = COMMAND_SHAKE_HAND2 then client_shake_hand2 env client data
             else if command = COMMAND_HEARTBEAT1 then client_heartbeat1 env client data
             else if command = COMMAND_UDP_INVALID then Some (client_udp_invalid client data)
             else Some (-1, client, []))
        }
      })"

section \<open>The sockets\<close>

text \<open>
  \<open>client_tcp_recv\<close>: \<open>len\<close> is what \<open>recv\<close> returned and \<open>buf\<close> the local array after it. An
  error ends the process.
\<close>

definition client_tcp_recv ::
  "(nat \<Rightarrow> sysenv) \<Rightarrow> (nat \<Rightarrow> byte) option \<Rightarrow> (nat \<Rightarrow> byte) option \<Rightarrow> byte list \<Rightarrow> int \<Rightarrow> Kcpev \<Rightarrow>
   (Kcpev \<times> event list) option" where
  "client_tcp_recv envs mem mem2 buf len client =
     (if \<not> len > 0 then Some (client, [Ev_exit])
      else do {
        (ok, client, out) \<leftarrow>
          tcp_recv Some (\<lambda>k _. k) (\<lambda>i d client. on_client_recv (envs i) client d) mem mem2 buf (nat len) client;
        Some (client, out @ (if ok then [] else [Ev_exit]))
      })"

text \<open>
  The loop of \<open>try_kcp_recv\<close> without a server; \<open>result\<close> is the local variable. A null pointer
  fails the assertion at the start of \<open>ikcp_recv\<close>. The copy of the message has to stay in the
  local array, and so has the terminating zero written behind it.
\<close>

fun client_kcp_recv :: "nat \<Rightarrow> nat \<Rightarrow> (nat \<Rightarrow> sysenv) \<Rightarrow> int \<Rightarrow> Kcpev \<Rightarrow> (int \<times> Kcpev \<times> event list) option" where
  "client_kcp_recv 0 i envs result k = None"
| "client_kcp_recv (Suc fuel) i envs result k =
     do {
       c_assert (kcp (udp k) \<noteq> None);
       kc \<leftarrow> kcp (udp k);
       (len, d, kc) \<leftarrow> ikcp_recv kc True (int KCPEV_BUFFER_SIZE);
       c_assert (length d \<le> KCPEV_BUFFER_SIZE);
       let k = k\<lparr>udp := (udp k)\<lparr>kcp := Some kc\<rparr>\<rparr>;
       if \<not> len > 0 then Some (result, k, [])
       else do {
         c_assert (len < int KCPEV_BUFFER_SIZE);
         (result, k, out) \<leftarrow> on_client_recv (envs i) k d;
         if result \<noteq> 0 then Some (result, k, out)
         else do {
           (result, k, out2) \<leftarrow> client_kcp_recv fuel (Suc i) envs result k;
           Some (result, k, out @ out2)
         }
       }
     }"

text \<open>
  Every iteration but the last takes at least one segment out of the two receive queues; a null
  pointer ends the first one.
\<close>

definition kcp_recv_fuel :: "Kcpev \<Rightarrow> nat" where
  "kcp_recv_fuel k =
     (case kcp (udp k) of None \<Rightarrow> 1 | Some kc \<Rightarrow> Suc (length (rcv_queue kc) + length (rcv_buf kc)))"

definition try_kcp_recv :: "(nat \<Rightarrow> sysenv) \<Rightarrow> Kcpev \<Rightarrow> (int \<times> Kcpev \<times> event list) option" where
  "try_kcp_recv envs k = client_kcp_recv (kcp_recv_fuel k) 0 envs (-1) k"

definition client_udp_recv :: "(nat \<Rightarrow> sysenv) \<Rightarrow> byte list \<Rightarrow> int \<Rightarrow> Kcpev \<Rightarrow> (Kcpev \<times> event list) option" where
  "client_udp_recv envs buf len client =
     (if \<not> len > 0 then Some (client, [])
      else do {
        data \<leftarrow> fetch buf 0 (nat len);
        if \<not> is_kcp_valid client then
          do { (ret, client, out) \<leftarrow> on_client_recv (envs 0) client data; Some (client, out) }
        else do {
          kc \<leftarrow> kcp (udp client);
          (_, kc) \<leftarrow> ikcp_input (input_mem (envs 0)) kc (Some data) len;
          (_, client, out) \<leftarrow> try_kcp_recv envs (client\<lparr>udp := (udp client)\<lparr>kcp := Some kc\<rparr>\<rparr>);
          Some (client, out)
        }
      })"

section \<open>The timers\<close>

definition client_on_timer :: "(nat \<Rightarrow> sysenv) \<Rightarrow> Kcpev \<Rightarrow> (Kcpev \<times> event list) option" where
  "client_on_timer envs k =
     do {
       (k, out) \<leftarrow> kcpev_timer_repeat (envs 0) k;
       (_, k, out2) \<leftarrow> try_kcp_recv envs k;
       Some (k, out @ out2)
     }"

definition on_client_heartbeat_timer :: "sysenv \<Rightarrow> Kcpev \<Rightarrow> Kcpev option" where
  "on_client_heartbeat_timer env client =
     (if \<not> is_kcp_valid client then Some client
      else if heart_expired (now env) (heart (udp client)) then Some (set_kcp_invalid client)
      else do { (_, client) \<leftarrow> kcp_send_command env client COMMAND_HEARTBEAT1 (key client); Some client })"

section \<open>The ring buffer is not touched by the commands\<close>

lemma set_rb_fields [simp]:
  "udp (set_rb r k) = udp k" "key (set_rb r k) = key k" "recv_cb (set_rb r k) = recv_cb k"
  "sock (tcp (set_rb r k)) = sock (tcp k)" "loop (set_rb r k) = loop k" "server (set_rb r k) = server k"
  by (simp_all add: set_rb_def)

lemma set_rb_updates [simp]:
  "(set_rb r k)\<lparr>udp := u\<rparr> = set_rb r (k\<lparr>udp := u\<rparr>)" "(set_rb r k)\<lparr>key := ky\<rparr> = set_rb r (k\<lparr>key := ky\<rparr>)"
  by (simp_all add: set_rb_def)

lemma set_rb_valid [simp]: "is_kcp_valid (set_rb r k) = is_kcp_valid k"
  by (simp add: is_kcp_valid_def)

definition rb_lift :: "ringbuf option \<Rightarrow> (int \<times> Kcpev \<times> event list) option \<Rightarrow> (int \<times> Kcpev \<times> event list) option" where
  "rb_lift r = map_option (\<lambda>(ret, k, out). (ret, set_rb r k, out))"

lemma rb_lift_simps [simp]:
  "rb_lift r None = None" "rb_lift r (Some (ret, k, out)) = Some (ret, set_rb r k, out)"
  "rb_lift r (Option.bind x f) = Option.bind x (\<lambda>y. rb_lift r (f y))"
  "rb_lift r (if b then p else q) = (if b then rb_lift r p else rb_lift r q)"
  "rb_lift r (case t of (ret, u) \<Rightarrow> g ret u) = (case t of (ret, u) \<Rightarrow> rb_lift r (g ret u))"
  by (cases x; simp add: rb_lift_def split: prod.splits)+

lemma kcpev_send_command_rb: "kcpev_send_command env (set_rb r k) c msg = rb_lift r (kcpev_send_command env k c msg)"
  by (auto simp: kcpev_send_command_def Let_def split: Option.bind_split)

lemma on_client_recv_rb: "on_client_recv env (set_rb r k) d = rb_lift r (on_client_recv env k d)"
proof -
  have h1: "client_shake_hand1 env (set_rb r k) x = rb_lift r (client_shake_hand1 env k x)" for x
    by (auto simp: client_shake_hand1_def Let_def split: Option.bind_split)
  have h2: "client_shake_hand2 env (set_rb r k) x = rb_lift r (client_shake_hand2 env k x)" for x
    by (auto simp: client_shake_hand2_def check_create_kcp_timer_def split: Option.bind_split)
  have h3: "client_heartbeat1 env (set_rb r k) x = rb_lift r (client_heartbeat1 env k x)" for x
    by (cases "kcpev_send_command env k 5 x") (auto simp: client_heartbeat1_def kcpev_send_command_rb)
  have h4: "Some (client_udp_invalid (set_rb r k) x) = rb_lift r (Some (client_udp_invalid k x))" for x
    by (simp add: client_udp_invalid_def set_kcp_invalid_def)
  show ?thesis
    unfolding on_client_recv_def Let_def h1 h2 h3 h4
    by (auto simp del: bind_eq_Some_conv split: Option.bind_split)
qed

section \<open>The TCP stream of a client\<close>

interpretation client: frame_handler Some "\<lambda>k _. k" "\<lambda>i d k. on_client_recv (envs i) k d" for envs
proof unfold_locales
  fix s k k' r i d
  have w: "with_rb Some (\<lambda>k _. k) r s = set_rb r s" for s by (simp add: with_rb_def)
  show "on_client_recv (envs i) (with_rb Some (\<lambda>k _. k) r s) d =
      map_option (\<lambda>(ret, s', out). (ret, with_rb Some (\<lambda>k _. k) r s', out)) (on_client_recv (envs i) s d)"
    unfolding w by (simp add: on_client_recv_rb rb_lift_def)
qed simp_all

lemma client_tcp_recv_frames:
  assumes "conn_pending k bs" and "length buf = 65536" and "0 < len" and "len \<le> 65536" and "mem \<noteq> None"
    and "direct bs (take len buf) \<or> length bs + len \<le> 65536"
    and "handle_all (\<lambda>i d k. on_client_recv (envs i) k d) 0 (fst (split_frames (bs @ take len buf))) k = Some (ok, k', out)"
  shows "\<exists>r. client_tcp_recv envs mem mem2 buf (int len) k = Some (set_rb r k', out @ (if ok then [] else [Ev_exit])) \<and>
    (ok \<longrightarrow> conn_pending (set_rb r k') (snd (split_frames (bs @ take len buf))))"
proof -
  have "drained Some (\<lambda>k _. k) (snd (split_frames (bs @ take len buf))) (Some (ok, k', out))
      (tcp_recv Some (\<lambda>k _. k) (\<lambda>i d k. on_client_recv (envs i) k d) mem mem2 buf len k)"
    using client.tcp_recv_frames [OF refl assms(1,2,4,5,6), of envs mem2] assms(7) by simp
  then show ?thesis using assms(3) by (auto simp: drained_def with_rb_def client_tcp_recv_def)
qed

lemma on_client_recv_frame:
  assumes "length pad = 3" and "length msg \<le> 65528"
  shows "on_client_recv env k (frame pad c msg) =
    (if c = COMMAND_DATA then do { c_assert (recv_cb k); Some (0, k, [Ev_recv_cb msg]) }
     else if c = COMMAND_SHAKE_HAND1 then client_shake_hand1 env k msg
     else if c = COMMAND_SHAKE_HAND2 then client_shake_hand2 env k msg
     else if c = COMMAND_HEARTBEAT1 then client_heartbeat1 env k msg
     else if c = COMMAND_UDP_INVALID then Some (client_udp_invalid k msg)
     else Some (-1, k, []))"
proof -
  have u: "unat (of_nat (length msg + 8) :: u64) = length msg + 8" by (rule frame_size(1) [OF assms(2)])
  then have l8: "(8 :: u64) \<le> of_nat (length msg + 8)" by (simp add: word_le_nat_alt del: of_nat_add)
  have h: "header_from_net (frame pad c msg) (of_nat (length msg + 8)) =
      Some (0, Some \<lparr>hd_size = of_nat (length msg + 8), hd_command = c\<rparr>)"
    using header_from_frame [OF assms(1) l8, of c msg "[]"] by simp
  have s: "ucast (of_nat (length msg + 8) :: u32) = (of_nat (length msg + 8) :: u64)"
    using u assms(2) by (simp add: word_unat_eq_iff unat_u64_of_u32 unat_of_nat take_bit_nat_eq_self del: of_nat_add)
  have l: "length (frame pad c msg) = length msg + 8" using assms(1) by simp
  have p: "drop 8 (frame pad c msg) = msg" using frame_payload [OF assms(1), of c msg "[]"] by simp
  show ?thesis
    unfolding on_client_recv_def l Let_def p using l8 h s by (simp del: of_nat_add)
qed

text \<open>The stream as a sequence of calls of \<open>client_tcp_recv\<close>, one for each piece.\<close>

definition client_tcp_run ::
  "(nat \<Rightarrow> sysenv) \<Rightarrow> (nat \<Rightarrow> byte) option \<Rightarrow> (nat \<Rightarrow> byte) option \<Rightarrow> (byte list \<times> nat) list \<Rightarrow> Kcpev \<Rightarrow>
   (Kcpev \<times> event list) option" where
  "client_tcp_run envs mem mem2 = tcp_run (\<lambda>buf len k. client_tcp_recv envs mem mem2 buf (int len) k)"

interpretation client_stream: data_stream Some "\<lambda>k _. k" "\<lambda>i d k. on_client_recv (envs i) k d" recv_cb Ev_recv_cb
  "\<lambda>buf len k. client_tcp_recv envs mem mem2 buf (int len) k" mem mem2 for envs mem mem2
proof unfold_locales
  show "recv_cb k \<Longrightarrow> length pad = 3 \<Longrightarrow> length msg \<le> 65528 \<Longrightarrow>
      on_client_recv (envs i) k (frame pad 1 msg) = Some (0, k, [Ev_recv_cb msg])" for k pad msg i
    by (simp add: on_client_recv_frame)
  show "recv_cb k \<Longrightarrow> Some k = Some k' \<Longrightarrow> recv_cb (with_rb Some (\<lambda>k _. k) r k)" for k k' r
    by (simp add: with_rb_def)
  show "0 < len \<Longrightarrow> tcp_recv Some (\<lambda>k _. k) (\<lambda>i d k. on_client_recv (envs i) k d) mem mem2 buf len k = Some (True, k', out) \<Longrightarrow>
      client_tcp_recv envs mem mem2 buf (int len) k = Some (k', out)" for len buf k k' out
    by (simp add: client_tcp_recv_def)
qed

section \<open>Properties\<close>

text \<open>
  The TCP stream is reassembled exactly. A stream of data frames arrives in pieces of any
  length up to \<open>b\<close>, cut anywhere, also inside headers; as long as a piece and an incomplete
  frame of length up to \<open>a\<close> fit the ring buffer together, every call of \<open>client_tcp_recv\<close>
  returns, the receive callback is called with exactly the payloads of the stream, in order
  and each once, and at the end nothing is pending.
\<close>

theorem client_tcp_stream:
  assumes "conn_pending k []" and "recv_cb k" and "mem \<noteq> None"
    and "\<forall>(buf, len) \<in> set ps. length buf = 65536 \<and> 0 < len \<and> len \<le> b"
    and "\<forall>(pad, msg) \<in> set ms. length pad = 3 \<and> length msg + 8 \<le> a"
    and "0 < a" and "a + b \<le> 65537" and "a \<le> 65536"
    and "concat (map piece ps) = concat (data_frames ms)"
  shows "\<exists>k'. client_tcp_run envs mem mem2 ps k = Some (k', map (\<lambda>(pad, msg). Ev_recv_cb msg) ms) \<and> conn_pending k' []"
  using client_stream.stream [OF refl assms] by (auto simp: client_tcp_run_def with_rb_def)

text \<open>A client, and the frame with the payload 7, 9 in two pieces.\<close>

definition demo_client :: Kcpev where
  "demo_client = (the (kcpev_create True 1))\<lparr>recv_cb := True\<rparr>"

definition demo_env :: sysenv where
  "demo_env = \<lparr>now = 0, send_ret = (\<lambda>s b. int (length b)), evt_ok = True, evh_ok = True, stack = (\<lambda>_. 0),
     send_mem = demo_mem, input_mem = demo_alloc\<rparr>"

definition demo_array :: "byte list \<Rightarrow> byte list" where
  "demo_array d = d @ replicate (65536 - length d) 0"

lemma length_demo_array: "length d \<le> 65536 \<Longrightarrow> length (demo_array d) = 65536"
  by (simp add: demo_array_def)

lemma demo_client_fields [simp]:
  "recv_cb demo_client" "key demo_client = replicate 16 0" "tcp_rb (tcp demo_client) = None" "sock (udp demo_client) = 0"
  by (simp_all add: demo_client_def kcpev_create_def)

lemma demo_frame: "frame [0, 0, 0] 1 [7, 9] = [0, 0, 0, 10, 1, 0, 0, 0, 7, 9]"
  by (simp add: frame_def le_store32_def upt_0_4)

theorem client_tcp_stream_witness:
  "\<exists>k'. client_tcp_run (\<lambda>_. demo_env) (Some (\<lambda>_. 0)) None
      [(demo_array [0, 0, 0], 3), (demo_array [10, 1, 0, 0, 0, 7, 9], 7)] demo_client =
    Some (k', [Ev_recv_cb [7, 9]]) \<and> conn_pending k' []"
proof -
  have p: "take 3 (demo_array [0, 0, 0]) = [0, 0, 0]"
    "take 7 (demo_array [10, 1, 0, 0, 0, 7, 9]) = [10, 1, 0, 0, 0, 7, 9]"
    by (simp_all add: demo_array_def)
  have "conn_pending demo_client []" by (simp add: conn_pending_def)
  from client_tcp_stream [OF this, of "Some (\<lambda>_. 0)"
      "[(demo_array [0, 0, 0], 3), (demo_array [10, 1, 0, 0, 0, 7, 9], 7)]" 7 "[([0, 0, 0], [7, 9])]" 10 "\<lambda>_. demo_env" None]
  show ?thesis using p length_demo_array demo_frame by simp
qed

text \<open>
  C26: when what arrives does not fit the ring buffer, \<open>client_tcp_recv\<close> returns as if nothing
  had happened, but the bytes that were pending and the bytes received are both gone: no frame
  is handed on and the ring buffer is empty.
\<close>

theorem client_tcp_overflow:
  assumes "conn_pending k bs" and "length buf = 65536" and "len \<le> 65536" and "65536 < length bs + len"
    and "mem2 \<noteq> None"
  shows "\<exists>r. client_tcp_recv envs mem mem2 buf (int len) k = Some (set_rb r k, []) \<and> conn_pending (set_rb r k) []"
proof -
  obtain r where r: "tcp_recv Some (\<lambda>k _. k) (\<lambda>i d k. on_client_recv (envs i) k d) mem mem2 buf len k =
      Some (True, set_rb r k, [])" "conn_pending (set_rb r k) []"
    using client.tcp_recv_overflow [OF refl assms(1-3,5,4), of envs mem] by (auto simp: with_rb_def)
  have "0 < len" using assms(4) conn_pending_bound [OF assms(1)] by (cases len) auto
  then show ?thesis using r by (auto simp: client_tcp_recv_def)
qed

theorem client_tcp_overflow_witness:
  "\<exists>k r. conn_pending k [0] \<and>
    client_tcp_recv (\<lambda>_. demo_env) None (Some (\<lambda>_. 0)) (demo_array []) 65536 k = Some (set_rb r k, []) \<and>
    conn_pending (set_rb r k) []"
proof -
  obtain r0 where "rb_holds r0 []" using new_rb_holds by blast
  then obtain r1 where r1: "rb_holds r1 [0]"
    using rb.put_room [of r0 "[0]"] by (auto simp: rb_holds_def)
  have k: "conn_pending (set_rb (Some r1) demo_client) [0]" using r1 by simp
  have "\<exists>r. client_tcp_recv (\<lambda>_. demo_env) None (Some (\<lambda>_. 0)) (demo_array []) (int 65536) (set_rb (Some r1) demo_client) =
      Some (set_rb r (set_rb (Some r1) demo_client), []) \<and> conn_pending (set_rb r (set_rb (Some r1) demo_client)) []"
    by (rule client_tcp_overflow [OF k length_demo_array]) simp_all
  then show ?thesis using k unfolding of_nat_numeral by blast
qed

end
