(* ===== verification/Kcpev_Server.thy ===== *)
theory Kcpev_Server
  imports Kcpev_Client
begin

text \<open>
  The server side of the session layer (\<open>src/src/kcpev.c\<close>): the server with its table of
  connections, \<open>tcp_accept\<close>, \<open>on_server_recv\<close> with one definition per command, the watchers and
  timers of a connection, creation and destruction of the server.

  The connections live in a store from addresses to structures; an address outside the store
  is a dangling pointer, and following one is an undefined outcome. The table of the
  server is a \<open>uthash\<close> table, which is not part of the sources: its operations are the record
  \<open>uthash\<close>, an argument of the definitions, and \<open>uthash_ok\<close> is the documented behaviour the code
  relies on. In the sources the links of the table are inside the connections; here the
  table is a value that holds their addresses.
\<close>

section \<open>The table\<close>

record 'h uthash =
  ht_null :: 'h
  ht_find :: "'h \<Rightarrow> byte list \<Rightarrow> nat option"
  ht_add :: "'h \<Rightarrow> byte list \<Rightarrow> nat \<Rightarrow> 'h"
  ht_del :: "'h \<Rightarrow> nat \<Rightarrow> 'h"
  ht_iter :: "'h \<Rightarrow> nat list"

text \<open>
  \<open>ent\<close> gives the entries of a table in the order they were added. \<open>HASH_FIND\<close> finds an entry
  with the key or none, \<open>HASH_ADD\<close> adds an entry, \<open>HASH_DEL\<close> removes that of a structure and
  \<open>HASH_ITER\<close> visits the entries in order.
\<close>

definition uthash_ok :: "'h uthash \<Rightarrow> ('h \<Rightarrow> (byte list \<times> nat) list) \<Rightarrow> bool" where
  "uthash_ok T ent \<longleftrightarrow>
     ent (ht_null T) = [] \<and>
     (\<forall>h ky. case ht_find T h ky of Some c \<Rightarrow> (ky, c) \<in> set (ent h) | None \<Rightarrow> ky \<notin> fst ` set (ent h)) \<and>
     (\<forall>h ky c. ent (ht_add T h ky c) = ent h @ [(ky, c)]) \<and>
     (\<forall>h c. ent (ht_del T h c) = filter (\<lambda>e. snd e \<noteq> c) (ent h)) \<and>
     (\<forall>h. ht_iter T h = map snd (ent h))"

section \<open>State and environment\<close>

record 'h KcpevServer = KcpevBase +
  srv_cb :: bool
  port :: "byte list"
  hash :: 'h

record 'h world =
  srv :: "'h KcpevServer"
  conns :: "nat \<Rightarrow> Kcpev option"

definition put_conn :: "nat \<Rightarrow> Kcpev \<Rightarrow> 'h world \<Rightarrow> 'h world" where
  "put_conn c k w = w\<lparr>conns := (conns w)(c := Some k)\<rparr>"

definition free_conn :: "nat \<Rightarrow> 'h world \<Rightarrow> 'h world" where
  "free_conn c w = w\<lparr>conns := (conns w)(c := None)\<rparr>"

definition set_hash :: "'h \<Rightarrow> 'h world \<Rightarrow> 'h world" where
  "set_hash h w = w\<lparr>srv := (srv w)\<lparr>hash := h\<rparr>\<rparr>"

text \<open>
  What the calls of one handler return: those of \<open>sysenv\<close>, \<open>getnameinfo\<close>, \<open>getpeername\<close> and
  those of \<open>connect_client_udp\<close>.
\<close>

record srv_env =
  s_sys :: sysenv
  s_nameinfo :: int
  s_peername :: int
  s_conn :: conn_env

section \<open>The commands\<close>

text \<open>
  The result of a command is the return code, the connection whose control block the code
  replaced or released, the state and the events.
\<close>

definition server_shake_hand1 ::
  "'h uthash \<Rightarrow> srv_env \<Rightarrow> 'h world \<Rightarrow> byte list \<Rightarrow> (int \<times> nat option \<times> 'h world \<times> event list) option" where
  "server_shake_hand1 T env w data =
     (if length data \<noteq> 16 then Some (-1, None, w, [])
      else
        (case ht_find T (hash (srv w)) data of None \<Rightarrow> Some (-1, None, w, [])
         | Some c \<Rightarrow>
             do {
               client \<leftarrow> conns w c;
               let (ret, client, out) = connect_client_udp (s_conn env) (loop (srv w)) client;
               if \<not> ret \<ge> 0 then Some (-1, Some c, put_conn c client w, out)
               else do {
                 let client = client\<lparr>udp := (udp client)\<lparr>status := UDP_SHAKING_HAND\<rparr>\<rparr>;
                 (ret, out2) \<leftarrow> sock_send_command (s_sys env) (sock (udp client)) COMMAND_SHAKE_HAND2 (key client);
                 Some (0, Some c, put_conn c client w, out @ out2)
               }
             }))"

definition server_shake_hand2 ::
  "'h uthash \<Rightarrow> srv_env \<Rightarrow> 'h world \<Rightarrow> byte list \<Rightarrow> (int \<times> nat option \<times> 'h world \<times> event list) option" where
  "server_shake_hand2 T env w data =
     (if length data \<noteq> 16 then Some (-1, None, w, [])
      else
        (case ht_find T (hash (srv w)) data of None \<Rightarrow> Some (-1, None, w, [])
         | Some c \<Rightarrow>
             do {
               client \<leftarrow> conns w c;
               if status (udp client) \<noteq> UDP_SHAKING_HAND then Some (-1, None, w, [])
               else do {
                 (ret, client) \<leftarrow> check_create_kcp_timer (s_sys env) client On_server_heartbeat_timer;
                 if \<not> ret \<ge> 0 then Some (-1, None, put_conn c client w, [])
                 else Some (0, None, put_conn c (client\<lparr>udp := (udp client)\<lparr>status := UDP_READY\<rparr>\<rparr>) w, [])
               }
             }))"

definition server_heartbeat1 ::
  "srv_env \<Rightarrow> 'h world \<Rightarrow> nat option \<Rightarrow> byte list \<Rightarrow> (int \<times> nat option \<times> 'h world \<times> event list) option" where
  "server_heartbeat1 env w client data =
     (case client of None \<Rightarrow> Some (-1, None, w, [])
      | Some c \<Rightarrow>
          do {
            k \<leftarrow> conns w c;
            if \<not> is_kcp_valid k then Some (0, None, w, [])
            else if length data \<noteq> 16 then Some (-1, None, w, [])
            else if data \<noteq> key k then Some (-1, None, w, [])
            else do {
              let send_buf = key k @ le_store64 (htobe64 (heart (udp k)));
              (ret, k) \<leftarrow> kcp_send_command (s_sys env) k COMMAND_HEARTBEAT1 send_buf;
              Some (if ret = 0 then 0 else -1, None, put_conn c k w, [])
            }
          })"

definition server_heartbeat2 ::
  "srv_env \<Rightarrow> 'h world \<Rightarrow> nat option \<Rightarrow> byte list \<Rightarrow> (int \<times> nat option \<times> 'h world \<times> event list) option" where
  "server_heartbeat2 env w client data =
     (case client of None \<Rightarrow> Some (-1, None, w, [])
      | Some c \<Rightarrow>
          do {
            k \<leftarrow> conns w c;
            if \<not> is_kcp_valid k then Some (0, None, w, [])
            else if length data \<noteq> 24 then Some (-1, None, w, [])
            else if take 16 data \<noteq> key k then Some (-1, None, w, [])
            else
              (let time64 = htobe64 (le_load (drop 16 data)) in
               if time64 \<noteq> heart (udp k) then Some (0, None, w, [])
               else Some (0, None, put_conn c (k\<lparr>udp := (udp k)\<lparr>heart := now (s_sys env)\<rparr>\<rparr>) w, []))
          })"

definition on_server_recv ::
  "'h uthash \<Rightarrow> srv_env \<Rightarrow> 'h world \<Rightarrow> nat option \<Rightarrow> byte list \<Rightarrow> (int \<times> nat option \<times> 'h world \<times> event list) option" where
  "on_server_recv T env w client buf =
     (let len = of_nat (length buf) :: u64 in
      if \<not> len \<ge> 8 then Some (-1, None, w, [])
      else do {
        (ret, header) \<leftarrow> header_from_net buf len;
        if ret \<noteq> 0 then Some (-1, None, w, [])
        else do {
          header \<leftarrow> header;
          if ucast (hd_size header) \<noteq> len then Some (-1, None, w, [])
          else if s_nameinfo env \<noteq> 0 then Some (-1, None, w, [])
          else
            (let data = drop 8 buf; command = hd_command header in
             if command = COMMAND_DATA then
               do { c_assert (srv_cb (srv w)); Some (0, None, w, [Ev_server_cb client data]) }
             else if command = COMMAND_SHAKE_HAND1 then server_shake_hand1 T env w data
             else if command = COMMAND_SHAKE_HAND2 then server_shake_hand2 T env w data
             else if command = COMMAND_HEARTBEAT1 then server_heartbeat1 env w client data
             else if command = COMMAND_HEARTBEAT2 then server_heartbeat2 env w client data
             else Some (-1, None, w, []))
        }
      })"

section \<open>The watchers of a connection\<close>

definition close_client :: "'h uthash \<Rightarrow> nat \<Rightarrow> 'h world \<Rightarrow> ('h world \<times> event list) option" where
  "close_client T c w =
     do {
       client \<leftarrow> conns w c;
       Some (free_conn c (set_hash (ht_del T (hash (srv w)) c) w), kcpev_destroy client)
     }"

text \<open>The handler of the frames of connection \<open>c\<close>, for the loop of \<open>Kcpev_Tcp\<close>.\<close>

definition server_frame ::
  "'h uthash \<Rightarrow> (nat \<Rightarrow> srv_env) \<Rightarrow> nat \<Rightarrow> nat \<Rightarrow> byte list \<Rightarrow> 'h world \<Rightarrow> (int \<times> 'h world \<times> event list) option" where
  "server_frame T envs c i d w =
     do { (ret, _, w, out) \<leftarrow> on_server_recv T (envs i) w (Some c) d; Some (ret, w, out) }"

text \<open>\<open>server_tcp_recv\<close>: an error closes the connection.\<close>

definition server_tcp_recv ::
  "'h uthash \<Rightarrow> (nat \<Rightarrow> srv_env) \<Rightarrow> (nat \<Rightarrow> byte) option \<Rightarrow> (nat \<Rightarrow> byte) option \<Rightarrow> byte list \<Rightarrow> int \<Rightarrow> nat \<Rightarrow>
   'h world \<Rightarrow> ('h world \<times> event list) option" where
  "server_tcp_recv T envs mem mem2 buf len c w =
     (if \<not> len > 0 then close_client T c w
      else do {
        (ok, w, out) \<leftarrow>
          tcp_recv (\<lambda>w. conns w c) (put_conn c) (server_frame T envs c) mem mem2 buf (nat len) w;
        if ok then Some (w, out)
        else do { (w, out2) \<leftarrow> close_client T c w; Some (w, out @ out2) }
      })"

text \<open>
  The loop of \<open>try_kcp_recv\<close> for a connection of a server. The local variable \<open>kcp\<close> is read
  once: when a frame makes the code replace the control block of this connection, the loop
  goes on with the old one, here \<open>old\<close>; until then \<open>old\<close> is \<open>None\<close>. A released block is not used
  again, since the code then returns an error. A null pointer fails the assertion at the start of
  \<open>ikcp_recv\<close>.
\<close>

fun server_kcp_recv ::
  "'h uthash \<Rightarrow> nat \<Rightarrow> nat \<Rightarrow> (nat \<Rightarrow> srv_env) \<Rightarrow> int \<Rightarrow> nat \<Rightarrow> IKCPCB option \<Rightarrow> 'h world \<Rightarrow>
   (int \<times> 'h world \<times> event list) option" where
  "server_kcp_recv T 0 i envs result c old w = None"
| "server_kcp_recv T (Suc fuel) i envs result c old w =
     do {
       k \<leftarrow> conns w c;
       let kcp = (case old of None \<Rightarrow> kcp (udp k) | Some kc \<Rightarrow> Some kc);
       c_assert (kcp \<noteq> None);
       kc \<leftarrow> kcp;
       (len, d, kc) \<leftarrow> ikcp_recv kc True (int KCPEV_BUFFER_SIZE);
       c_assert (length d \<le> KCPEV_BUFFER_SIZE);
       let (old, w) =
         (case old of None \<Rightarrow> (None, put_conn c (k\<lparr>udp := (udp k)\<lparr>kcp := Some kc\<rparr>\<rparr>) w)
          | Some _ \<Rightarrow> (Some kc, w));
       if \<not> len > 0 then Some (result, w, [])
       else do {
         c_assert (len < int KCPEV_BUFFER_SIZE);
         let result = s_peername (envs i);
         if result \<noteq> 0 then Some (result, w, [])
         else do {
           (result, replaced, w, out) \<leftarrow> on_server_recv T (envs i) w (Some c) d;
           if result \<noteq> 0 then Some (result, w, out)
           else do {
             let old = (if old = None \<and> replaced = Some c then Some kc else old);
             (result, w, out2) \<leftarrow> server_kcp_recv T fuel (Suc i) envs result c old w;
             Some (result, w, out @ out2)
           }
         }
       }
     }"

definition server_try_kcp_recv ::
  "'h uthash \<Rightarrow> (nat \<Rightarrow> srv_env) \<Rightarrow> nat \<Rightarrow> 'h world \<Rightarrow> (int \<times> 'h world \<times> event list) option" where
  "server_try_kcp_recv T envs c w =
     do { k \<leftarrow> conns w c; server_kcp_recv T (kcp_recv_fuel k) 0 envs (-1) c None w }"

definition server_udp_recv ::
  "'h uthash \<Rightarrow> (nat \<Rightarrow> srv_env) \<Rightarrow> byte list \<Rightarrow> int \<Rightarrow> nat \<Rightarrow> 'h world \<Rightarrow> ('h world \<times> event list) option" where
  "server_udp_recv T envs buf len c w =
     (if \<not> len > 0 then Some (w, [])
      else do {
        data \<leftarrow> fetch buf 0 (nat len);
        client \<leftarrow> conns w c;
        if \<not> is_kcp_valid client then
          (if s_peername (envs 0) \<noteq> 0 then Some (w, [])
           else do { (_, _, w, out) \<leftarrow> on_server_recv T (envs 0) w (Some c) data; Some (w, out) })
        else do {
          kc \<leftarrow> kcp (udp client);
          (_, kc) \<leftarrow> ikcp_input (input_mem (s_sys (envs 0))) kc (Some data) len;
          (_, w, out) \<leftarrow> server_try_kcp_recv T envs c (put_conn c (client\<lparr>udp := (udp client)\<lparr>kcp := Some kc\<rparr>\<rparr>) w);
          Some (w, out)
        }
      })"

section \<open>The timers of a connection\<close>

definition server_on_timer ::
  "'h uthash \<Rightarrow> (nat \<Rightarrow> srv_env) \<Rightarrow> nat \<Rightarrow> 'h world \<Rightarrow> ('h world \<times> event list) option" where
  "server_on_timer T envs c w =
     do {
       k \<leftarrow> conns w c;
       (k, out) \<leftarrow> kcpev_timer_repeat (s_sys (envs 0)) k;
       (_, w, out2) \<leftarrow> server_try_kcp_recv T envs c (put_conn c k w);
       Some (w, out @ out2)
     }"

definition on_server_heartbeat_timer :: "sysenv \<Rightarrow> nat \<Rightarrow> 'h world \<Rightarrow> ('h world \<times> event list) option" where
  "on_server_heartbeat_timer env c w =
     do {
       client \<leftarrow> conns w c;
       if \<not> is_kcp_valid client then Some (w, [])
       else if heart_expired (now env) (heart (udp client)) then do {
         let client = set_kcp_invalid client;
         (_, out) \<leftarrow> sock_send_command env (sock (tcp client)) COMMAND_UDP_INVALID (key client);
         Some (put_conn c client w, out)
       }
       else Some (w, [])
     }"

section \<open>The sockets of the server\<close>

text \<open>
  What the calls of \<open>tcp_accept\<close> return: the socket, \<open>getnameinfo\<close>, the address of the new
  structure or \<open>None\<close>, the 16 bytes of \<open>uuid_generate\<close>, the allocation of the watcher.
\<close>

record accept_env =
  a_sock :: int
  a_nameinfo :: int
  a_at :: "nat option"
  a_uuid :: "byte list"
  a_ev_ok :: bool
  a_sys :: sysenv

text \<open>On an error after \<open>HASH_ADD\<close> the connection is freed and its entry stays in the table.\<close>

definition tcp_accept :: "'h uthash \<Rightarrow> accept_env \<Rightarrow> 'h world \<Rightarrow> ('h world \<times> event list) option" where
  "tcp_accept T e w =
     (let client_sock = a_sock e;
          failed = Some (w, if client_sock \<noteq> 0 then [Ev_close client_sock] else [])
      in if \<not> client_sock > 0 then failed
         else if a_nameinfo e \<noteq> 0 then failed
         else
           (case a_at e of None \<Rightarrow> failed
            | Some c \<Rightarrow>
                do {
                  client \<leftarrow> kcpev_create True c;
                  let client = client\<lparr>server := True, tcp := (tcp client)\<lparr>sock := client_sock\<rparr>, key := a_uuid e\<rparr>;
                  let w = set_hash (ht_add T (hash (srv w)) (key client) c) w;
                  let (ret, client) = kcpev_init_ev (a_ev_ok e) True (loop (srv w)) (Some Server_tcp_recv) None client;
                  if \<not> ret \<ge> 0 then Some (free_conn c w, kcpev_destroy client)
                  else do {
                    (ret, out) \<leftarrow> sock_send_command (a_sys e) client_sock COMMAND_SHAKE_HAND1 (key client);
                    if ret \<noteq> 0 then Some (free_conn c w, out @ kcpev_destroy client)
                    else Some (put_conn c client w, out)
                  }
                }))"

text \<open>\<open>recvfrom\<close> is given one byte less than the array has.\<close>

definition server_udp_recv_all ::
  "'h uthash \<Rightarrow> srv_env \<Rightarrow> byte list \<Rightarrow> int \<Rightarrow> 'h world \<Rightarrow> ('h world \<times> event list) option" where
  "server_udp_recv_all T env buf len w =
     (if \<not> len > 0 then Some (w, [])
      else do {
        data \<leftarrow> fetch buf 0 (nat len);
        (_, _, w, out) \<leftarrow> on_server_recv T env w None data;
        Some (w, out)
      })"

section \<open>Creation and destruction\<close>

definition kcpev_server_create :: "'h uthash \<Rightarrow> bool \<Rightarrow> 'h KcpevServer option" where
  "kcpev_server_create T ok =
     (if \<not> ok then None
      else Some \<lparr>tcp = \<lparr>sock = 0, evio = None, tcp_rb = None\<rparr>,
        udp = \<lparr>sock = 0, evio = None, evt = None, evh = None, kcp = None, status = 0, heart = 0, udp_at = 0\<rparr>,
        loop = 0, srv_cb = False, port = replicate 10 0, hash = ht_null T\<rparr>)"

text \<open>The loop of \<open>delete_hash\<close> over the connections in the order of the table.\<close>

fun delete_loop :: "'h uthash \<Rightarrow> nat list \<Rightarrow> 'h world \<Rightarrow> ('h world \<times> event list) option" where
  "delete_loop T [] w = Some (w, [])"
| "delete_loop T (c # cs) w =
     do {
       (w, out) \<leftarrow> close_client T c w;
       (w, out2) \<leftarrow> delete_loop T cs w;
       Some (w, out @ out2)
     }"

definition delete_hash :: "'h uthash \<Rightarrow> 'h world \<Rightarrow> ('h world \<times> event list) option" where
  "delete_hash T w = delete_loop T (ht_iter T (hash (srv w))) w"

text \<open>What is left is the store without the connections of the server.\<close>

definition kcpev_server_destroy :: "'h uthash \<Rightarrow> 'h world \<Rightarrow> ((nat \<Rightarrow> Kcpev option) \<times> event list) option" where
  "kcpev_server_destroy T w =
     (let (t, out) = KcpevTcp_destroy (tcp (srv w)); (u, out2) = KcpevUdp_destroy (udp (srv w)) in
      do { (w, out3) \<leftarrow> delete_hash T w; Some (conns w, out @ out2 @ out3) })"

definition kcpev_server_set_cb :: "'h KcpevServer \<Rightarrow> bool \<Rightarrow> 'h KcpevServer" where
  "kcpev_server_set_cb s cb = s\<lparr>srv_cb := cb\<rparr>"

text \<open>
  \<open>kcpev_create_server\<close>; the record has the allocations and what the calls for the sockets
  return. \<open>strncpy\<close> copies at most the ten bytes of the field and pads it with zeros.
\<close>

record server_env =
  v_alloc :: bool
  v_tcp :: "addr_try list option"
  v_names :: "int \<times> int"
  v_udp :: "addr_try list option"
  v_tcp_ev :: bool
  v_udp_ev :: bool
  v_listen :: int

definition kcpev_create_server ::
  "'h uthash \<Rightarrow> server_env \<Rightarrow> nat \<Rightarrow> byte list \<Rightarrow> ('h KcpevServer option \<times> event list) option" where
  "kcpev_create_server T e lp prt =
     (case kcpev_server_create T (v_alloc e) of None \<Rightarrow> Some (None, [])
      | Some s \<Rightarrow>
          (let s = s\<lparr>port := take 10 (prt @ replicate 10 0)\<rparr>;
               failed = (\<lambda>s out. do { (_, out2) \<leftarrow> kcpev_server_destroy T \<lparr>srv = s, conns = (\<lambda>_. None)\<rparr>;
                                      Some (None, out @ out2) });
               (ret, s, out) = kcpev_bind (v_tcp e) (v_names e) (v_udp e) True s
           in if \<not> ret \<ge> 0 then failed s out
              else
                (let (ret, s) = kcpev_init_ev (v_tcp_ev e) (v_udp_ev e) lp (Some Tcp_accept) (Some Server_udp_recv_all) s
                 in if \<not> ret \<ge> 0 then failed s out
                    else if \<not> kcpev_listen (v_listen e) \<ge> 0 then failed s out
                    else Some (Some s, out))))"

section \<open>The ring buffer is not touched by the commands\<close>

definition srv_rb :: "nat \<Rightarrow> ringbuf option \<Rightarrow> 'h world \<Rightarrow> 'h world" where
  "srv_rb c r w = (case conns w c of None \<Rightarrow> w | Some k \<Rightarrow> put_conn c (set_rb r k) w)"

lemma with_rb_server: "with_rb (\<lambda>w. conns w c) (put_conn c) r w = srv_rb c r w"
  by (simp add: with_rb_def srv_rb_def)

lemma srv_rb_srv [simp]: "srv (srv_rb c r w) = srv w"
  by (simp add: srv_rb_def put_conn_def split: option.splits)

lemma srv_rb_conn: "conns (srv_rb c r w) c' = (if c' = c then map_option (set_rb r) (conns w c') else conns w c')"
  by (simp add: srv_rb_def put_conn_def split: option.splits)

lemma srv_rb_put:
  assumes "conns w c \<noteq> None"
  shows "put_conn c' (if c' = c then set_rb r k else k) (srv_rb c r w) = srv_rb c r (put_conn c' k w)"
  using assms by (auto simp: srv_rb_def put_conn_def fun_upd_twist split: option.splits)

lemmas srv_rb_put_same = srv_rb_put [where c' = c and c = c for c, simplified]

lemma srv_rb_put_other: "conns w c \<noteq> None \<Longrightarrow> c' \<noteq> c \<Longrightarrow> put_conn c' k (srv_rb c r w) = srv_rb c r (put_conn c' k w)"
  using srv_rb_put [of w c c' r k] by simp

definition srv_lift ::
  "nat \<Rightarrow> ringbuf option \<Rightarrow> (int \<times> nat option \<times> 'h world \<times> event list) option \<Rightarrow> (int \<times> nat option \<times> 'h world \<times> event list) option" where
  "srv_lift c r = map_option (\<lambda>(ret, reb, w, out). (ret, reb, srv_rb c r w, out))"

lemma srv_lift_simps [simp]:
  "srv_lift c r None = None" "srv_lift c r (Some (ret, reb, w, out)) = Some (ret, reb, srv_rb c r w, out)"
  "srv_lift c r (if b then p else q) = (if b then srv_lift c r p else srv_lift c r q)"
  by (simp_all add: srv_lift_def)

lemma connect_client_udp_rb:
  "connect_client_udp ce lp (set_rb r k) = (let (ret, k', out) = connect_client_udp ce lp k in (ret, set_rb r k', out))"
proof -
  have "kcpev_init_ev True ok lp None (Some cb) (set_rb r k') =
      (let (ret, k'') = kcpev_init_ev True ok lp None (Some cb) k' in (ret, set_rb r k''))" for ok cb k'
    by (simp add: kcpev_init_ev_def set_rb_def Let_def split: prod.splits)
  then show ?thesis
    by (simp add: connect_client_udp_def Let_def split_def)
qed

lemma create_timer_rb:
  "check_create_kcp_timer env (set_rb r k) cb = map_option (\<lambda>(ret, k'). (ret, set_rb r k')) (check_create_kcp_timer env k cb)"
  by (simp add: check_create_kcp_timer_def)

lemma kcp_send_command_rb:
  "kcp_send_command env (set_rb r k) c msg = map_option (\<lambda>(ret, k'). (ret, set_rb r k')) (kcp_send_command env k c msg)"
  by (auto simp: kcp_send_command_def Let_def split: Option.bind_split)

lemma server_shake_hand1_rb:
  assumes "conns w c \<noteq> None"
  shows "server_shake_hand1 T env (srv_rb c r w) d = srv_lift c r (server_shake_hand1 T env w d)"
proof (cases "ht_find T (hash (srv w)) d")
  case (Some c')
  show ?thesis
  proof (cases "conns w c'")
    case (Some k)
    obtain ret k' out where "connect_client_udp (s_conn env) (loop (srv w)) k = (ret, k', out)"
      by (cases "connect_client_udp (s_conn env) (loop (srv w)) k") auto
    then show ?thesis
      using Some assms \<open>ht_find T (hash (srv w)) d = Some c'\<close>
      by (auto simp: server_shake_hand1_def srv_rb_conn connect_client_udp_rb srv_rb_put_same srv_rb_put_other
          split: Option.bind_split)
  qed (use assms in \<open>auto simp: server_shake_hand1_def srv_rb_conn \<open>ht_find T (hash (srv w)) d = Some c'\<close>\<close>)
qed (simp add: server_shake_hand1_def)

lemma server_shake_hand2_rb:
  assumes "conns w c \<noteq> None"
  shows "server_shake_hand2 T env (srv_rb c r w) d = srv_lift c r (server_shake_hand2 T env w d)"
proof (cases "ht_find T (hash (srv w)) d")
  case (Some c')
  show ?thesis
  proof (cases "conns w c'")
    case (Some k)
    then show ?thesis
      using assms \<open>ht_find T (hash (srv w)) d = Some c'\<close>
      by (cases "check_create_kcp_timer (s_sys env) k On_server_heartbeat_timer")
        (auto simp: server_shake_hand2_def srv_rb_conn create_timer_rb srv_rb_put_same srv_rb_put_other)
  qed (use assms in \<open>auto simp: server_shake_hand2_def srv_rb_conn \<open>ht_find T (hash (srv w)) d = Some c'\<close>\<close>)
qed (simp add: server_shake_hand2_def)

lemma server_heartbeat1_rb:
  assumes "conns w c = Some k"
  shows "server_heartbeat1 env (srv_rb c r w) (Some c) d = srv_lift c r (server_heartbeat1 env w (Some c) d)"
  using assms
  by (cases "kcp_send_command (s_sys env) k COMMAND_HEARTBEAT1 (key k @ le_store64 (htobe64 (heart (udp k))))")
    (auto simp: server_heartbeat1_def srv_rb_conn kcp_send_command_rb srv_rb_put_same Let_def)

lemma server_heartbeat2_rb:
  assumes "conns w c = Some k"
  shows "server_heartbeat2 env (srv_rb c r w) (Some c) d = srv_lift c r (server_heartbeat2 env w (Some c) d)"
  using assms by (simp add: server_heartbeat2_def srv_rb_conn srv_rb_put_same Let_def)

lemma on_server_recv_rb:
  assumes "conns w c = Some k"
  shows "on_server_recv T env (srv_rb c r w) (Some c) d = srv_lift c r (on_server_recv T env w (Some c) d)"
proof -
  have c: "conns w c \<noteq> None" using assms by simp
  show ?thesis
    unfolding on_server_recv_def Let_def server_shake_hand1_rb [OF c] server_shake_hand2_rb [OF c]
      server_heartbeat1_rb [OF assms] server_heartbeat2_rb [OF assms]
    by (auto split: Option.bind_split)
qed

text \<open>No command removes a connection.\<close>

lemma put_conn_dom: "conns w c \<noteq> None \<Longrightarrow> conns (put_conn c' k w) c \<noteq> None"
  by (simp add: put_conn_def)

lemma server_shake_hand1_conn:
  assumes "conns w c \<noteq> None" and "server_shake_hand1 T env w d = Some (ret, reb, w', out)"
  shows "conns w' c \<noteq> None"
proof (cases "length d = 16 \<and> ht_find T (hash (srv w)) d \<noteq> None")
  case True
  then obtain c' where c': "length d = 16" "ht_find T (hash (srv w)) d = Some c'" by blast
  then obtain k where k: "conns w c' = Some k" using assms(2) by (auto simp: server_shake_hand1_def outcome_simps)
  obtain r k' o1 where r: "connect_client_udp (s_conn env) (loop (srv w)) k = (r, k', o1)"
    by (cases "connect_client_udp (s_conn env) (loop (srv w)) k") auto
  have "w' = put_conn c' k' w \<or> w' = put_conn c' (k'\<lparr>udp := (udp k')\<lparr>status := 1\<rparr>\<rparr>) w"
    using assms(2) c' k r by (auto simp: server_shake_hand1_def outcome_simps split: if_splits)
  then show ?thesis using put_conn_dom [OF assms(1)] by blast
next
  case False
  then have "w' = w" using assms(2) by (auto simp: server_shake_hand1_def split: if_splits option.splits)
  then show ?thesis using assms(1) by simp
qed

lemma server_shake_hand2_conn:
  "conns w c \<noteq> None \<Longrightarrow> server_shake_hand2 T env w d = Some (ret, reb, w', out) \<Longrightarrow> conns w' c \<noteq> None"
  by (auto simp: server_shake_hand2_def put_conn_def outcome_simps split: if_splits option.splits prod.splits)

lemma server_heartbeat1_conn:
  "conns w c \<noteq> None \<Longrightarrow> server_heartbeat1 env w client d = Some (ret, reb, w', out) \<Longrightarrow> conns w' c \<noteq> None"
  by (auto simp: server_heartbeat1_def Let_def put_conn_def outcome_simps split: if_splits option.splits prod.splits)

lemma server_heartbeat2_conn:
  "conns w c \<noteq> None \<Longrightarrow> server_heartbeat2 env w client d = Some (ret, reb, w', out) \<Longrightarrow> conns w' c \<noteq> None"
  by (auto simp: server_heartbeat2_def Let_def put_conn_def outcome_simps split: if_splits option.splits prod.splits)

text \<open>The body of \<open>on_server_recv\<close> by the command of the header.\<close>

lemma on_server_recv_cases:
  assumes "on_server_recv T env w client d = Some (ret, reb, w', out)"
  obtains "ret = -1 \<and> reb = None \<and> w' = w \<and> out = []"
  | "ret = 0 \<and> reb = None \<and> w' = w \<and> out = [Ev_server_cb client (drop 8 d)]"
  | "server_shake_hand1 T env w (drop 8 d) = Some (ret, reb, w', out)"
  | "server_shake_hand2 T env w (drop 8 d) = Some (ret, reb, w', out)"
  | "server_heartbeat1 env w client (drop 8 d) = Some (ret, reb, w', out)"
  | "server_heartbeat2 env w client (drop 8 d) = Some (ret, reb, w', out)"
proof (cases "(8 :: u64) \<le> of_nat (length d) \<and> header_from_net d (of_nat (length d)) \<noteq> None")
  case False
  then have "ret = -1 \<and> reb = None \<and> w' = w \<and> out = []"
    using assms by (cases "header_from_net d (of_nat (length d))") (auto simp: on_server_recv_def Let_def split: if_splits)
  then show ?thesis by (rule that(1))
next
  case True
  then obtain r h where h: "header_from_net d (of_nat (length d)) = Some (r, h)" by auto
  note e = assms [unfolded on_server_recv_def Let_def h]
  show ?thesis
  proof (cases "r = 0 \<and> (\<exists>x. h = Some x \<and> ucast (hd_size x) = (of_nat (length d) :: u64) \<and> s_nameinfo env = 0)")
    case False
    then have "ret = -1 \<and> reb = None \<and> w' = w \<and> out = []"
      using e True by (cases h) (auto split: if_splits)
    then show ?thesis by (rule that(1))
  next
    case rh: True
    then obtain x where x: "h = Some x" "ucast (hd_size x) = (of_nat (length d) :: u64)" by blast
    consider "hd_command x = 1" | "hd_command x = 2" | "hd_command x = 3" | "hd_command x = 4" | "hd_command x = 5"
      | "hd_command x \<notin> {1, 2, 3, 4, 5}" by auto
    then show ?thesis
    proof cases
      case 1
      then have "ret = 0 \<and> reb = None \<and> w' = w \<and> out = [Ev_server_cb client (drop 8 d)]"
        using e True rh x by (simp add: c_assert_def split: if_splits)
      then show ?thesis by (rule that(2))
    next
      case 2
      then have "server_shake_hand1 T env w (drop 8 d) = Some (ret, reb, w', out)" using e True rh x by simp
      then show ?thesis by (rule that(3))
    next
      case 3
      then have "server_shake_hand2 T env w (drop 8 d) = Some (ret, reb, w', out)" using e True rh x by simp
      then show ?thesis by (rule that(4))
    next
      case 4
      then have "server_heartbeat1 env w client (drop 8 d) = Some (ret, reb, w', out)" using e True rh x by simp
      then show ?thesis by (rule that(5))
    next
      case 5
      then have "server_heartbeat2 env w client (drop 8 d) = Some (ret, reb, w', out)" using e True rh x by simp
      then show ?thesis by (rule that(6))
    next
      case 6
      then have "ret = -1 \<and> reb = None \<and> w' = w \<and> out = []" using e True rh x by simp
      then show ?thesis by (rule that(1))
    qed
  qed
qed

lemma on_server_recv_conn:
  assumes "conns w c \<noteq> None" and "on_server_recv T env w client d = Some (ret, reb, w', out)"
  shows "conns w' c \<noteq> None"
  using assms(2)
proof (cases rule: on_server_recv_cases)
  case 3
  then show ?thesis by (rule server_shake_hand1_conn [OF assms(1)])
next
  case 4
  then show ?thesis by (rule server_shake_hand2_conn [OF assms(1)])
next
  case 5
  then show ?thesis by (rule server_heartbeat1_conn [OF assms(1)])
next
  case 6
  then show ?thesis by (rule server_heartbeat2_conn [OF assms(1)])
qed (use assms(1) in simp_all)

interpretation server: frame_handler "\<lambda>w. conns w c" "put_conn c" "server_frame T envs c" for T :: "'h uthash" and envs c
proof unfold_locales
  fix s :: "'h world" and i d ret s' out
  show "conns (put_conn c k s) c = Some k" for k by (simp add: put_conn_def)
  show "put_conn c k (put_conn c k' s) = put_conn c k s" for k k' by (simp add: put_conn_def)
  show "conns s c = Some k \<Longrightarrow> put_conn c k s = s" for k by (simp add: put_conn_def fun_upd_idem)
  assume s: "conns s c \<noteq> None"
  then show "server_frame T envs c i d s = Some (ret, s', out) \<Longrightarrow> conns s' c \<noteq> None"
    using on_server_recv_conn by (fastforce simp: server_frame_def outcome_simps)
  obtain k where "conns s c = Some k" using s by blast
  from on_server_recv_rb [OF this] show "server_frame T envs c i d (with_rb (\<lambda>w. conns w c) (put_conn c) r s) =
      map_option (\<lambda>(ret, s', out). (ret, with_rb (\<lambda>w. conns w c) (put_conn c) r s', out)) (server_frame T envs c i d s)" for r
    unfolding with_rb_server server_frame_def
    by (cases "on_server_recv T (envs i) s (Some c) d") auto
qed

end
