(* ===== verification/Kcpev_Alloc.thy ===== *)
theory Kcpev_Alloc
  imports Kcpev_Server
begin

text \<open>
  Failing allocations. The code of the library either tests the result of an allocation or ends
  the process, through \<open>assert\<close>, \<open>abort\<close> or a null pointer; in the model the latter is an
  undefined outcome. Hence a function that returns although an allocation of the engine or of
  its timers could have failed returns the same when all of them succeed: the
  outcome with \<open>env\<close> is at most as defined as that with \<open>all_mem env\<close>. This reduces the
  invariants, which speak of the calls that return, to environments in which memory is available.
\<close>

section \<open>The order of definedness\<close>

named_theorems below_intros \<open>congruence of the order of definedness\<close>

definition below :: "'a option \<Rightarrow> 'a option \<Rightarrow> bool" where
  "below x y \<longleftrightarrow> x = None \<or> x = y"

lemma below_refl [below_intros]: "below x x"
  by (simp add: below_def)

lemma below_None [below_intros]: "below None y"
  by (simp add: below_def)

lemma below_bind [below_intros]:
  "below x y \<Longrightarrow> (\<And>r. x = Some r \<Longrightarrow> below (f r) (g r)) \<Longrightarrow> below (Option.bind x f) (Option.bind y g)"
  by (cases x) (auto simp: below_def)

lemma below_map [below_intros]: "below x y \<Longrightarrow> below (map_option f x) (map_option f y)"
  by (auto simp: below_def)

lemma below_if [below_intros]: "(b \<Longrightarrow> below x y) \<Longrightarrow> (\<not> b \<Longrightarrow> below x' y') \<Longrightarrow> below (if b then x else x') (if b then y else y')"
  by simp

lemma below_prod [below_intros]: "(\<And>a b. p = (a, b) \<Longrightarrow> below (f a b) (g a b)) \<Longrightarrow> below (case_prod f p) (case_prod g p)"
  by (cases p) simp

lemma below_option [below_intros]:
  "(x = None \<Longrightarrow> below n n') \<Longrightarrow> (\<And>a. x = Some a \<Longrightarrow> below (f a) (g a)) \<Longrightarrow> below (case_option n f x) (case_option n' g x)"
  by (cases x) simp_all

lemma below_sum [below_intros]:
  "(\<And>a. x = Inl a \<Longrightarrow> below (f a) (f' a)) \<Longrightarrow> (\<And>a. x = Inr a \<Longrightarrow> below (g a) (g' a)) \<Longrightarrow> below (case_sum f g x) (case_sum f' g' x)"
  by (cases x) simp_all

lemma below_Let [below_intros]: "(\<And>a. a = x \<Longrightarrow> below (f a) (g a)) \<Longrightarrow> below (Let x f) (Let x g)"
  by simp

lemma below_Some: "below x y \<Longrightarrow> x = Some r \<Longrightarrow> y = Some r"
  by (auto simp: below_def)

lemma belowI: "(\<And>r. x = Some r \<Longrightarrow> y = Some r) \<Longrightarrow> below x y"
  by (cases x) (auto simp: below_def)

section \<open>Memory for everything\<close>

definition fill :: "'a \<Rightarrow> 'a option \<Rightarrow> 'a option" where
  "fill d x = (case x of None \<Rightarrow> Some d | Some y \<Rightarrow> Some y)"

lemma fill_not_None [simp]: "fill d x \<noteq> None"
  by (simp add: fill_def split: option.split)

lemma below_fill [below_intros]: "below x (fill d x)"
  by (cases x) (simp_all add: below_def fill_def)

definition fill_send :: "(nat \<Rightarrow> seg_block option) \<Rightarrow> nat \<Rightarrow> seg_block option" where
  "fill_send mem i = fill (blank_seg, \<lambda>_. 0) (mem i)"

definition fill_input :: "(nat \<Rightarrow> input_mem) \<Rightarrow> nat \<Rightarrow> input_mem" where
  "fill_input mem i = (fill (\<lambda>_. 0) (fst (mem i)), fill (blank_seg, \<lambda>_. 0) (snd (mem i)))"

definition all_mem :: "sysenv \<Rightarrow> sysenv" where
  "all_mem env = env\<lparr>evt_ok := True, evh_ok := True, send_mem := fill_send (send_mem env), input_mem := fill_input (input_mem env)\<rparr>"

lemma all_mem_fields [simp]:
  "now (all_mem env) = now env" "send_ret (all_mem env) = send_ret env" "evh_ok (all_mem env)"
  "stack (all_mem env) = stack env" "stack_buf (all_mem env) = stack_buf env" "pad_of (all_mem env) = pad_of env"
  "evt_ok (all_mem env)" "send_mem (all_mem env) = fill_send (send_mem env)" "input_mem (all_mem env) = fill_input (input_mem env)"
  by (simp_all add: all_mem_def stack_buf_def pad_of_def)

lemma fill_mem_not_None [simp]: "fill_send mem i \<noteq> None" "fst (fill_input mem2 i) \<noteq> None" "snd (fill_input mem2 i) \<noteq> None"
  by (simp_all add: fill_send_def fill_input_def)

section \<open>The engine\<close>

lemma below_fill_send [below_intros]: "below (mem i) (fill_send mem i)"
  by (simp add: fill_send_def below_fill)

lemma send_loop_below: "below (send_loop mem i n k buf len) (send_loop (fill_send mem) i n k buf len)"
proof (induction n arbitrary: i k buf len)
  case (Suc n)
  show ?case
  proof (cases "mem i")
    case (Some b)
    then have "fill_send mem i = Some b" by (simp add: fill_send_def fill_def)
    then show ?thesis using Some Suc.IH by (cases b) (auto simp: Let_def intro!: below_intros)
  qed (simp add: below_None)
qed (simp add: below_refl)

lemma ikcp_send_below [below_intros]: "below (ikcp_send mem k buf len) (ikcp_send (fill_send mem) k buf len)"
  unfolding ikcp_send_def by (intro below_intros send_loop_below)

lemma ack_push_below: "below (ikcp_ack_push m k sn ts) (ikcp_ack_push (fill d m) k sn ts)"
  unfolding ikcp_ack_push_def by (intro below_intros)

lemma input_push_below: "below (input_push (mem i) k h data) (input_push (fill_input mem i) k h data)"
  unfolding input_push_def fill_input_def fst_conv snd_conv by (intro below_intros ack_push_below)

lemma input_seg_below: "below (input_seg (mem i) k h data fm) (input_seg (fill_input mem i) k h data fm)"
  unfolding input_seg_def by (intro below_intros input_push_below)

lemma input_loop_below: "below (input_loop mem i k data sz fm) (input_loop (fill_input mem) i k data sz fm)"
proof (induction mem i k data sz fm rule: input_loop.induct)
  case (1 mem i k data sz fm)
  show ?case
  proof (cases "sz < sint IKCP_OVERHEAD")
    case True
    then show ?thesis by (subst (1 2) input_loop.simps) (simp add: below_refl)
  next
    case False
    then show ?thesis by (subst (1 2) input_loop.simps) (simp only: if_False, intro below_intros input_seg_below 1; use False in simp)
  qed
qed

lemma ikcp_input_below [below_intros]: "below (ikcp_input mem k data sz) (ikcp_input (fill_input mem) k data sz)"
  unfolding ikcp_input_def by (intro below_intros input_loop_below)

section \<open>Sending and the commands of a client\<close>

lemma sock_send_command_mem [simp]: "sock_send_command (all_mem env) s c msg = sock_send_command env s c msg"
  unfolding sock_send_command_def all_mem_fields ..

lemma kcp_send_command_below [below_intros]: "below (kcp_send_command env k c msg) (kcp_send_command (all_mem env) k c msg)"
  unfolding kcp_send_command_def all_mem_fields by (intro below_intros)

lemma kcpev_send_command_below [below_intros]:
  "below (kcpev_send_command env k c msg) (kcpev_send_command (all_mem env) k c msg)"
  unfolding kcpev_send_command_def all_mem_fields by (intro below_intros)

lemma kcpev_send_below: "below (kcpev_send env k msg) (kcpev_send (all_mem env) k msg)"
  unfolding kcpev_send_def by (intro below_intros)

lemma create_timer_below [below_intros]:
  "below (check_create_kcp_timer env k cb) (check_create_kcp_timer (all_mem env) k cb)"
  by (auto simp: check_create_kcp_timer_def below_def)

lemma kcpev_timer_repeat_mem [simp]: "kcpev_timer_repeat (all_mem env) k = kcpev_timer_repeat env k"
proof -
  have "udp_output (all_mem env) = udp_output env" by (intro ext) (simp add: udp_output_def)
  then show ?thesis unfolding kcpev_timer_repeat_def all_mem_fields by (simp only:)
qed

lemma on_client_recv_below [below_intros]: "below (on_client_recv env k d) (on_client_recv (all_mem env) k d)"
proof -
  have "client_shake_hand1 (all_mem env) k x = client_shake_hand1 env k x" for x
    unfolding client_shake_hand1_def sock_send_command_mem ..
  moreover have "below (client_shake_hand2 env k x) (client_shake_hand2 (all_mem env) k x)" for x
    unfolding client_shake_hand2_def sock_send_command_mem by (intro below_intros)
  moreover have "below (client_heartbeat1 env k x) (client_heartbeat1 (all_mem env) k x)" for x
    unfolding client_heartbeat1_def all_mem_fields by (intro below_intros)
  ultimately show ?thesis unfolding on_client_recv_def by (simp only:) (intro below_intros)
qed

section \<open>The handlers of a client\<close>

lemma handle_all_below: "(\<And>i d s. below (h i d s) (h' i d s)) \<Longrightarrow> below (handle_all h i ds s) (handle_all h' i ds s)"
  by (induction ds arbitrary: i s) (auto intro!: below_intros)

lemma tcp_drain_below:
  "(\<And>i d s. below (h i d s) (h' i d s)) \<Longrightarrow> below (tcp_drain get put h fuel i buf s) (tcp_drain get put h' fuel i buf s)"
proof (induction fuel arbitrary: i buf s)
  case (Suc fuel)
  show ?case unfolding tcp_drain.simps by (intro below_intros Suc)
qed (simp add: below_refl)

lemma tcp_recv_below:
  "(\<And>i d s. below (h i d s) (h' i d s)) \<Longrightarrow> below (tcp_recv get put h mem mem2 buf len s) (tcp_recv get put h' mem mem2 buf len s)"
  unfolding tcp_recv_def by (intro below_intros tcp_drain_below)

lemma client_tcp_recv_below:
  "below (client_tcp_recv envs mem mem2 buf len k) (client_tcp_recv (\<lambda>i. all_mem (envs i)) mem mem2 buf len k)"
  unfolding client_tcp_recv_def by (intro below_intros tcp_recv_below)

lemma client_kcp_recv_below: "below (client_kcp_recv fuel i envs res k) (client_kcp_recv fuel i (\<lambda>i. all_mem (envs i)) res k)"
proof (induction fuel arbitrary: i res k)
  case (Suc fuel)
  show ?case unfolding client_kcp_recv.simps by (intro below_intros Suc)
qed (simp add: below_refl)

lemma try_kcp_recv_below [below_intros]: "below (try_kcp_recv envs k) (try_kcp_recv (\<lambda>i. all_mem (envs i)) k)"
  unfolding try_kcp_recv_def by (rule client_kcp_recv_below)

lemma client_udp_recv_below: "below (client_udp_recv envs buf len k) (client_udp_recv (\<lambda>i. all_mem (envs i)) buf len k)"
  unfolding client_udp_recv_def all_mem_fields by (intro below_intros)

lemma client_on_timer_below: "below (client_on_timer envs k) (client_on_timer (\<lambda>i. all_mem (envs i)) k)"
  unfolding client_on_timer_def kcpev_timer_repeat_mem by (intro below_intros)

lemma client_heartbeat_below: "below (on_client_heartbeat_timer env k) (on_client_heartbeat_timer (all_mem env) k)"
  unfolding on_client_heartbeat_timer_def all_mem_fields by (intro below_intros)

section \<open>The handlers of a server\<close>

definition srv_mem :: "srv_env \<Rightarrow> srv_env" where
  "srv_mem env = env\<lparr>s_sys := all_mem (s_sys env)\<rparr>"

lemma srv_mem_fields [simp]:
  "s_sys (srv_mem env) = all_mem (s_sys env)" "s_nameinfo (srv_mem env) = s_nameinfo env"
  "s_peername (srv_mem env) = s_peername env" "s_conn (srv_mem env) = s_conn env"
  by (simp_all add: srv_mem_def)

lemma on_server_recv_below [below_intros]: "below (on_server_recv T env w c d) (on_server_recv T (srv_mem env) w c d)"
proof -
  have "server_shake_hand1 T (srv_mem env) w x = server_shake_hand1 T env w x" for x
    unfolding server_shake_hand1_def srv_mem_fields sock_send_command_mem ..
  moreover have "below (server_shake_hand2 T env w x) (server_shake_hand2 T (srv_mem env) w x)" for x
    unfolding server_shake_hand2_def srv_mem_fields by (intro below_intros)
  moreover have "below (server_heartbeat1 env w c x) (server_heartbeat1 (srv_mem env) w c x)" for x
    unfolding server_heartbeat1_def srv_mem_fields by (intro below_intros)
  moreover have "server_heartbeat2 (srv_mem env) w c x = server_heartbeat2 env w c x" for x
    unfolding server_heartbeat2_def srv_mem_fields all_mem_fields ..
  ultimately show ?thesis unfolding on_server_recv_def srv_mem_fields by (simp only:) (intro below_intros)
qed

lemma server_udp_recv_all_below: "below (server_udp_recv_all T env buf len w) (server_udp_recv_all T (srv_mem env) buf len w)"
  unfolding server_udp_recv_all_def by (intro below_intros)

lemma server_tcp_recv_below:
  "below (server_tcp_recv T envs mem mem2 buf len c w) (server_tcp_recv T (\<lambda>i. srv_mem (envs i)) mem mem2 buf len c w)"
proof -
  have "below (server_frame T envs c i d s) (server_frame T (\<lambda>i. srv_mem (envs i)) c i d s)" for i d and s :: "'a world"
    unfolding server_frame_def by (intro below_intros)
  then show ?thesis unfolding server_tcp_recv_def by (intro below_intros tcp_recv_below)
qed

lemma server_kcp_recv_below:
  "below (server_kcp_recv T fuel i envs res c old w) (server_kcp_recv T fuel i (\<lambda>i. srv_mem (envs i)) res c old w)"
proof (induction fuel arbitrary: i res old w)
  case (Suc fuel)
  show ?case unfolding server_kcp_recv.simps srv_mem_fields by (intro below_intros Suc)
qed (simp add: below_refl)

lemma server_try_kcp_recv_below [below_intros]:
  "below (server_try_kcp_recv T envs c w) (server_try_kcp_recv T (\<lambda>i. srv_mem (envs i)) c w)"
  unfolding server_try_kcp_recv_def by (intro below_intros server_kcp_recv_below)

lemma server_udp_recv_below:
  "below (server_udp_recv T envs buf len c w) (server_udp_recv T (\<lambda>i. srv_mem (envs i)) buf len c w)"
  unfolding server_udp_recv_def srv_mem_fields all_mem_fields by (intro below_intros)

lemma server_on_timer_below: "below (server_on_timer T envs c w) (server_on_timer T (\<lambda>i. srv_mem (envs i)) c w)"
  unfolding server_on_timer_def srv_mem_fields kcpev_timer_repeat_mem by (intro below_intros)

end
