(* ===== verification/Kcpev_Session.thy ===== *)
theory Kcpev_Session
  imports Kcpev_Alloc
begin

text \<open>
  The client as a state machine: a step is a call of one of its watchers or timers, or of a
  sending function by the user. The invariant \<open>conn_inv\<close> says that the ring buffer is
  well-formed, that the control block of the protocol engine satisfies its own invariant,
  and that the engine was not used before the handshake set the timers, which is what allows
  the handshake to change the conversation number.

  The lemmas show that the invariant holds for the client \<open>kcpev_create_client\<close> returns and
  is kept by every call that returns, and that every call returns when the allocations
  succeed, few enough acknowledgements are pending and no message fills the receive buffer.
\<close>

section \<open>The invariant\<close>

definition udp_ok :: "KcpevUdp \<Rightarrow> bool" where
  "udp_ok u \<longleftrightarrow> status u \<in> {UDP_INVALID, UDP_SHAKING_HAND, UDP_READY} \<and>
     (\<exists>kc. kcp u = Some kc \<and> kcp_inv kc \<and> output_cb kc \<and>
        (evt u = None \<longrightarrow> snd_queue kc = [] \<and> snd_buf kc = []))"

definition conn_inv :: "Kcpev \<Rightarrow> bool" where
  "conn_inv k \<longleftrightarrow> length (key k) = 16 \<and> recv_cb k \<and> (\<exists>bs. conn_pending k bs) \<and> udp_ok (udp k)"

text \<open>The allocations of the engine and of its timers succeed.\<close>

definition env_ok :: "sysenv \<Rightarrow> bool" where
  "env_ok env \<longleftrightarrow> evt_ok env \<and> evh_ok env \<and> (\<forall>j. send_mem env j \<noteq> None) \<and> input_alloc (input_mem env)"

lemma env_ok_all_mem [simp]: "env_ok (all_mem env)"
  by (simp add: env_ok_def input_alloc_def)

lemma udp_okE:
  assumes "udp_ok u"
  obtains kc where "kcp u = Some kc" "kcp_inv kc" "output_cb kc" "evt u = None \<Longrightarrow> snd_queue kc = [] \<and> snd_buf kc = []"
  using assms by (auto simp: udp_ok_def)

lemma udp_ok_kcp:
  assumes "udp_ok u" and "kcp_inv kc" and "output_cb kc" and "evt u = None \<longrightarrow> snd_queue kc = [] \<and> snd_buf kc = []"
  shows "udp_ok (u\<lparr>kcp := Some kc\<rparr>)"
  using assms by (simp add: udp_ok_def)

lemma udp_ok_fields [simp]:
  "udp_ok (u\<lparr>heart := h\<rparr>) = udp_ok u" "udp_ok (u\<lparr>status := 0\<rparr>) = udp_ok (u\<lparr>status := 2\<rparr>)"
  "udp_ok (u\<lparr>status := 1\<rparr>) = udp_ok (u\<lparr>status := 2\<rparr>)"
  by (simp_all add: udp_ok_def)

lemma udp_ok_status: "udp_ok u \<Longrightarrow> udp_ok (u\<lparr>status := 2\<rparr>)"
  by (simp add: udp_ok_def)

lemma conn_inv_udp: "conn_inv k \<Longrightarrow> udp_ok u \<Longrightarrow> conn_inv (k\<lparr>udp := u\<rparr>)"
  by (simp add: conn_inv_def conn_pending_def)

lemma conn_inv_rb: "conn_inv k \<Longrightarrow> conn_pending (set_rb r k) bs \<Longrightarrow> conn_inv (set_rb r k)"
  by (auto simp: conn_inv_def)

text \<open>The segments received and not yet read.\<close>

definition rcv_segs :: "Kcpev \<Rightarrow> IKCPSEG list" where
  "rcv_segs k = (case kcp (udp k) of None \<Rightarrow> [] | Some kc \<Rightarrow> rcv_queue kc @ rcv_buf kc)"

text \<open>What every command does: it keeps the invariant and the segments received.\<close>

definition cmd_ok :: "Kcpev \<Rightarrow> (int \<times> Kcpev \<times> event list) option \<Rightarrow> bool" where
  "cmd_ok k res \<longleftrightarrow> (\<exists>ret k' out. res = Some (ret, k', out) \<and> conn_inv k' \<and> rcv_segs k' = rcv_segs k)"

lemma cmd_ok_Some [simp]: "cmd_ok k (Some (ret, k', out)) \<longleftrightarrow> conn_inv k' \<and> rcv_segs k' = rcv_segs k"
  by (auto simp: cmd_ok_def)

section \<open>The commands\<close>

text \<open>Before the first segment the conversation number is free.\<close>

lemma kcp_inv_conv:
  assumes "kcp_inv kc" and "snd_buf kc = []"
  shows "kcp_inv (kc\<lparr>conv := c\<rparr>)"
proof -
  have "snd_inv (kc\<lparr>conv := c\<rparr>) = snd_inv kc" by (rule snd_inv_cong) simp_all
  moreover have "rcv_inv (kc\<lparr>conv := c\<rparr>) = rcv_inv kc" by (rule rcv_inv_cong) simp_all
  ultimately show ?thesis
    using assms by (auto simp: kcp_inv_def ack_inv_def conf_inv_def segs_inv_def split: option.splits)
qed

lemma shake_hand1_ok:
  assumes "conn_inv k" and "length d \<le> 65528"
  shows "cmd_ok k (client_shake_hand1 env k d)"
proof (cases "sock (udp k) = 0 \<or> length d \<noteq> 16")
  case True
  then show ?thesis using assms(1) by (auto simp: client_shake_hand1_def)
next
  case False
  have "conn_inv (k\<lparr>key := d\<rparr>)" using assms(1) False by (simp add: conn_inv_def conn_pending_def)
  then have "conn_inv (k\<lparr>key := d, udp := (udp k)\<lparr>status := 1\<rparr>\<rparr>)"
    using conn_inv_udp [of "k\<lparr>key := d\<rparr>"] assms(1) by (simp add: conn_inv_def udp_ok_status)
  then show ?thesis
    using False \<open>conn_inv (k\<lparr>key := d\<rparr>)\<close> assms(2)
    by (simp add: client_shake_hand1_def sock_send_command_ok rcv_segs_def)
qed

lemma create_timer_ok:
  assumes "conn_inv k" and "env_ok env"
  shows "\<exists>ret k'. check_create_kcp_timer env k cb = Some (ret, k') \<and> conn_inv k' \<and> key k' = key k \<and> kcp (udp k') = kcp (udp k) \<and>
    (ret = 0 \<longrightarrow> evt (udp k) = None)"
proof (cases "evt (udp k)")
  case None
  have u: "udp_ok (udp k)" using assms(1) by (simp add: conn_inv_def)
  have "conn_inv (k\<lparr>udp := (udp k)\<lparr>evt := e, evh := g, heart := h\<rparr>\<rparr>)" for e g h
    by (rule conn_inv_udp [OF assms(1)]) (use u None in \<open>auto simp: udp_ok_def\<close>)
  then show ?thesis using None assms(2) by (simp add: check_create_kcp_timer_def env_ok_def)
qed (simp add: check_create_kcp_timer_def assms(1))

lemma shake_hand2_ok:
  assumes "conn_inv k" and "env_ok env" and "length d \<le> 65528"
  shows "cmd_ok k (client_shake_hand2 env k d)"
proof (cases "sock (udp k) = 0 \<or> length d \<noteq> 16 \<or> status (udp k) \<noteq> 1 \<or> d \<noteq> key k")
  case True
  then show ?thesis using assms(1) by (auto simp: client_shake_hand2_def)
next
  case False
  obtain ret k' where t: "check_create_kcp_timer env k On_client_heartbeat_timer = Some (ret, k')" "conn_inv k'"
      "key k' = key k" "kcp (udp k') = kcp (udp k)" "ret = 0 \<longrightarrow> evt (udp k) = None"
    using create_timer_ok [OF assms(1,2)] by blast
  have ret: "ret = 0 \<or> ret = -1" using t(1) by (auto simp: check_create_kcp_timer_def split: if_splits)
  obtain kc where kc: "kcp (udp k) = Some kc" "kcp_inv kc" "output_cb kc"
      "evt (udp k) = None \<Longrightarrow> snd_queue kc = [] \<and> snd_buf kc = []"
    using assms(1) udp_okE by (auto simp: conn_inv_def)
  let ?k = "k'\<lparr>udp := (udp k')\<lparr>kcp := Some (kc\<lparr>conv := ucast (key_conv (key k'))\<rparr>), status := 2\<rparr>\<rparr>"
  have ok: "conn_inv ?k" if "ret = 0"
  proof (rule conn_inv_udp [OF t(2)])
    have e: "snd_queue kc = []" "snd_buf kc = []" using t(5) kc(4) that by simp_all
    have "udp_ok ((udp k')\<lparr>kcp := Some (kc\<lparr>conv := ucast (key_conv (key k'))\<rparr>)\<rparr>)"
      by (rule udp_ok_kcp) (use t(2) kc(2,3) e kcp_inv_conv in \<open>simp_all add: conn_inv_def\<close>)
    then show "udp_ok ((udp k')\<lparr>kcp := Some (kc\<lparr>conv := ucast (key_conv (key k'))\<rparr>), status := 2\<rparr>)"
      using udp_ok_status by fastforce
  qed
  show ?thesis
  proof (cases "ret = 0")
    case True
    then show ?thesis
      using False t kc(1) ok assms(1,3) by (auto simp: client_shake_hand2_def sock_send_command_ok rcv_segs_def)
  next
    case ne: False
    then show ?thesis
      using False t kc(1) ret assms(1,3) by (auto simp: client_shake_hand2_def sock_send_command_ok rcv_segs_def)
  qed
qed

lemma valid_kcp: "is_kcp_valid k \<Longrightarrow> evt (udp k) \<noteq> None \<and> kcp (udp k) \<noteq> None \<and> sock (udp k) \<noteq> 0"
  by (simp add: is_kcp_valid_def split: if_splits)

text \<open>Sending through the engine keeps the invariant.\<close>

lemma engine_send:
  assumes "kcp_inv kc" and "output_cb kc" and "env_ok env" and "length f \<le> 65536"
  obtains ret kc' where "ikcp_send (send_mem env) kc (Some f) (int (length f)) = Some (ret, kc')" and "kcp_inv kc'"
    and "output_cb kc'" and "rcv_queue kc' = rcv_queue kc" and "rcv_buf kc' = rcv_buf kc"
proof -
  have mem: "send_mem env j \<noteq> None" for j using assms(3) by (simp add: env_ok_def)
  have b: "length f < 2 ^ 31" using assms(4) by simp
  obtain ret kc' where s: "ikcp_send (send_mem env) kc (Some f) (int (length f)) = Some (ret, kc')" "kcp_inv kc'"
    using ikcp_send_inv [where mem = "send_mem env", OF assms(1) mem b] by blast
  have "rcv_queue kc' = rcv_queue kc" "rcv_buf kc' = rcv_buf kc"
    using send_frags [where mem = "send_mem env", OF assms(1) mem b s(1)] by auto
  then show ?thesis
    using that s send_frame(3) [where mem = "send_mem env", OF assms(1) mem b s(1)] assms(2) by simp
qed

lemma conn_send:
  assumes "conn_inv k" and "is_kcp_valid k" and "env_ok env" and "length f \<le> 65536"
  obtains ret kc kc' where "kcp (udp k) = Some kc" and "ikcp_send (send_mem env) kc (Some f) (int (length f)) = Some (ret, kc')"
    and "conn_inv (k\<lparr>udp := (udp k)\<lparr>kcp := Some kc'\<rparr>\<rparr>)" and "rcv_queue kc' = rcv_queue kc" and "rcv_buf kc' = rcv_buf kc"
proof -
  obtain kc where kc: "kcp (udp k) = Some kc" "kcp_inv kc" "output_cb kc"
    using assms(1) udp_okE by (auto simp: conn_inv_def)
  obtain ret kc' where s: "ikcp_send (send_mem env) kc (Some f) (int (length f)) = Some (ret, kc')" "kcp_inv kc'"
      "output_cb kc'" "rcv_queue kc' = rcv_queue kc" "rcv_buf kc' = rcv_buf kc"
    by (rule engine_send [OF kc(2,3) assms(3,4)])
  have "conn_inv (k\<lparr>udp := (udp k)\<lparr>kcp := Some kc'\<rparr>\<rparr>)"
    by (rule conn_inv_udp [OF assms(1)], rule udp_ok_kcp)
      (use assms(1,2) s valid_kcp [of k] in \<open>auto simp: conn_inv_def\<close>)
  then show ?thesis using that kc(1) s by blast
qed

lemma send_command_cmd_ok:
  assumes "conn_inv k" and "env_ok env" and "length msg \<le> 65528"
  shows "cmd_ok k (kcpev_send_command env k c msg)"
proof (cases "is_kcp_valid k")
  case True
  have f: "length (frame (pad_of env) c msg) \<le> 65536" "length (frame (pad_of env) c msg) = length msg + 8"
    using assms(3) by simp_all
  obtain ret kc kc' where *: "kcp (udp k) = Some kc"
      "ikcp_send (send_mem env) kc (Some (frame (pad_of env) c msg)) (int (length (frame (pad_of env) c msg))) = Some (ret, kc')"
      "conn_inv (k\<lparr>udp := (udp k)\<lparr>kcp := Some kc'\<rparr>\<rparr>)" "rcv_queue kc' = rcv_queue kc" "rcv_buf kc' = rcv_buf kc"
    by (rule conn_send [OF assms(1) True assms(2) f(1)])
  then show ?thesis
    using True assms(3) unfolding f(2) by (simp add: kcpev_send_command_ok rcv_segs_def)
next
  case False
  then show ?thesis using assms by (simp add: kcpev_send_command_ok Let_def)
qed

lemma heartbeat1_ok:
  assumes "conn_inv k" and "env_ok env" and "length d \<le> 65528"
  shows "cmd_ok k (client_heartbeat1 env k d)"
proof -
  obtain ret k' out where s: "kcpev_send_command env k COMMAND_HEARTBEAT2 d = Some (ret, k', out)" "conn_inv k'" "rcv_segs k' = rcv_segs k"
    using send_command_cmd_ok [OF assms, of COMMAND_HEARTBEAT2] by (auto simp: cmd_ok_def)
  have "conn_inv (k'\<lparr>udp := (udp k')\<lparr>heart := now env\<rparr>\<rparr>)"
    by (rule conn_inv_udp [OF s(2)]) (use s(2) in \<open>simp add: conn_inv_def\<close>)
  then show ?thesis using s assms(1) by (auto simp: client_heartbeat1_def rcv_segs_def)
qed

lemma set_invalid_ok: "conn_inv k \<Longrightarrow> conn_inv (set_kcp_invalid k) \<and> rcv_segs (set_kcp_invalid k) = rcv_segs k"
  using conn_inv_udp [of k "(udp k)\<lparr>status := 0\<rparr>"]
  by (auto simp: set_kcp_invalid_def conn_inv_def udp_ok_status rcv_segs_def)

lemma udp_invalid_ok: "conn_inv k \<Longrightarrow> cmd_ok k (Some (client_udp_invalid k d))"
  using set_invalid_ok [of k] by (simp add: client_udp_invalid_def)

text \<open>Any bytes of the size of the local buffer are handled.\<close>

lemma on_client_recv_ok:
  assumes "conn_inv k" and "env_ok env" and "length d \<le> 65536"
  shows "cmd_ok k (on_client_recv env k d)"
proof (cases "length d < 8")
  case True
  then show ?thesis using assms u64_len [of d] by (simp add: on_client_recv_def word_less_nat_alt linorder_not_le)
next
  case False
  have l: "unat (of_nat (length d) :: u64) = length d" by (rule u64_len [OF assms(3)])
  have l8: "(8 :: u64) \<le> of_nat (length d)" using False l by (simp add: word_le_nat_alt)
  obtain h where h: "header_from_net d (of_nat (length d)) = Some (0, Some h)"
    by (rule header_from_net_total [of d "of_nat (length d)"]) (use l8 False in auto)
  have p: "length (drop 8 d) \<le> 65528" using assms(3) by simp
  show ?thesis
    using l8 h shake_hand1_ok [OF assms(1) p] shake_hand2_ok [OF assms(1,2) p] heartbeat1_ok [OF assms(1,2) p]
      udp_invalid_ok [OF assms(1)] assms(1)
    by (auto simp: on_client_recv_def Let_def conn_inv_def)
qed

section \<open>Reading the messages of the engine\<close>

text \<open>
  No message among the segments received fills the local array of \<open>try_kcp_recv\<close>.
\<close>

definition msgs_small :: "IKCPSEG list \<Rightarrow> bool" where
  "msgs_small ss \<longleftrightarrow> (\<forall>i. length (concat (map payload (first_msg (drop i ss)))) < 65536)"

lemma msgs_small_drop: "msgs_small ss \<Longrightarrow> msgs_small (drop n ss)"
  by (simp add: msgs_small_def)

lemma first_msg_append: "\<exists>r. first_msg (ss @ ts) = first_msg ss @ r"
  by (induction ss) auto

lemma msgs_small_head: "msgs_small (ss @ ts) \<Longrightarrow> length (concat (map payload (first_msg ss))) < 65536"
proof -
  assume "msgs_small (ss @ ts)"
  then have "length (concat (map payload (first_msg (ss @ ts)))) < 65536"
    unfolding msgs_small_def by (metis drop0)
  moreover obtain r where "first_msg (ss @ ts) = first_msg ss @ r" using first_msg_append by blast
  ultimately show ?thesis by simp
qed

lemma recv_lengths:
  assumes "\<forall>s \<in> set ss. seg_ok s"
  shows "sum_list (map (unat \<circ> sg_len) (first_msg ss)) = length (concat (map payload (first_msg ss)))"
  using assms by (induction ss) (auto simp: seg_ok_def payload_def)

lemma recv_step:
  assumes inv: "kcp_inv kc" and r: "ikcp_recv kc True 65536 = Some (n, d, kc')"
    and small: "msgs_small (rcv_queue kc @ rcv_buf kc)"
  shows "(n < 0 \<and> kc' = kc \<and> d = []) \<or>
    (n = int (length d) \<and> length d < 65536 \<and>
     (\<exists>c > 0. c \<le> length (rcv_queue kc) \<and> rcv_queue kc' @ rcv_buf kc' = drop c (rcv_queue kc @ rcv_buf kc)))"
  using r
proof (cases rule: ikcp_recv_result)
  case 1
  then show ?thesis using r by (auto simp: ikcp_recv_cases split: if_splits)
next
  case (2 c x)
  let ?k = "recv_take c kc"
  have d: "length d < 65536" "d = concat (map payload (first_msg (rcv_queue kc)))"
    using 2 msgs_small_head [OF small] by simp_all
  have ok: "\<forall>s \<in> set (rcv_queue kc). seg_ok s" using kcp_invD(5) [OF inv] by (simp add: segs_inv_def)
  have sum: "sum_list (map (unat \<circ> sg_len) (first_msg (rcv_queue kc))) = length d"
    using recv_lengths [OF ok] d(2) by simp
  have "n = int (length d)"
    using 2(1-3) peeksize_sum [of kc] peek_sum_total [of 0 "rcv_queue kc", unfolded sum] d(1) by simp
  moreover have "c > 0" "c \<le> length (rcv_queue kc)"
    using 2(3,4) length_first_msg [of "rcv_queue kc"] by (auto simp: neq_Nil_conv)
  moreover have "rcv_queue kc' @ rcv_buf kc' = drop c (rcv_queue kc @ rcv_buf kc)"
    using move_ready_spec [of ?k "rcv_buf ?k"] 2(5) \<open>c \<le> length (rcv_queue kc)\<close>
    by (auto simp: recv_take_def)
  ultimately show ?thesis using d(1) by blast
qed

lemma snd_shrinks_empty: "snd_shrinks k k' \<Longrightarrow> snd_queue k = [] \<and> snd_buf k = [] \<Longrightarrow> snd_queue k' = [] \<and> snd_buf k' = []"
  by (simp add: snd_shrinks_def)

lemma conn_inv_shrinks:
  assumes "conn_inv k" and "kcp (udp k) = Some kc" and "kcp_inv kc'" and "snd_shrinks kc kc'"
  shows "conn_inv (k\<lparr>udp := (udp k)\<lparr>kcp := Some kc'\<rparr>\<rparr>)"
  by (rule conn_inv_udp [OF assms(1)], rule udp_ok_kcp)
    (use assms snd_shrinks_empty [OF assms(4)] in \<open>auto simp: conn_inv_def udp_ok_def snd_shrinks_def\<close>)

text \<open>The loop ends within the fuel and is defined.\<close>

lemma client_kcp_recv_ok:
  assumes "conn_inv k" and "\<And>i. env_ok (envs i)" and "msgs_small (rcv_segs k)" and "length (rcv_segs k) < fuel"
  shows "\<exists>ret k' out. client_kcp_recv fuel i envs res k = Some (ret, k', out) \<and> conn_inv k'"
  using assms
proof (induction fuel arbitrary: k i res)
  case (Suc fuel)
  obtain kc where kc: "kcp (udp k) = Some kc" "kcp_inv kc"
    using Suc.prems(1) udp_okE by (auto simp: conn_inv_def)
  have segs: "rcv_segs k = rcv_queue kc @ rcv_buf kc" using kc(1) by (simp add: rcv_segs_def)
  obtain n d kc' where r: "ikcp_recv kc True 65536 = Some (n, d, kc')" using ikcp_recv_some by blast
  let ?k = "k\<lparr>udp := (udp k)\<lparr>kcp := Some kc'\<rparr>\<rparr>"
  have inv: "conn_inv ?k"
    by (rule conn_inv_shrinks [OF Suc.prems(1) kc(1) ikcp_recv_kcp_inv [OF kc(2) r] recv_frame(1) [OF r]])
  have small: "msgs_small (rcv_queue kc @ rcv_buf kc)" using Suc.prems(3) segs by simp
  from recv_step [OF kc(2) r small] show ?case
  proof (elim disjE conjE exE)
    assume "n < 0" "kc' = kc" "d = []"
    then show ?thesis using kc(1) r inv by simp
  next
    fix c
    assume n: "n = int (length d)" "length d < 65536"
      and c: "0 < c" "c \<le> length (rcv_queue kc)" "rcv_queue kc' @ rcv_buf kc' = drop c (rcv_queue kc @ rcv_buf kc)"
    have s': "rcv_segs ?k = drop c (rcv_segs k)" using c(3) segs by (simp add: rcv_segs_def)
    have dl: "length d \<le> 65536" using n(2) by simp
    obtain ret k2 out where o: "on_client_recv (envs i) ?k d = Some (ret, k2, out)" "conn_inv k2" "rcv_segs k2 = rcv_segs ?k"
      using on_client_recv_ok [OF inv Suc.prems(2) dl, of i] by (auto simp: cmd_ok_def)
    have "\<exists>ret' k3 out2. client_kcp_recv fuel (Suc i) envs ret k2 = Some (ret', k3, out2) \<and> conn_inv k3"
    proof (rule Suc.IH [OF o(2) Suc.prems(2)])
      show "msgs_small (rcv_segs k2)" unfolding o(3) s' by (rule msgs_small_drop [OF Suc.prems(3)])
      show "length (rcv_segs k2) < fuel" using o(3) s' c(1,2) segs Suc.prems(4) by simp
    qed
    then show ?thesis
      using kc(1) r n o inv by (cases "n > 0") auto
  qed
qed simp

lemma try_kcp_recv_ok:
  assumes "conn_inv k" and "\<And>i. env_ok (envs i)" and "msgs_small (rcv_segs k)"
  shows "\<exists>ret k' out. try_kcp_recv envs k = Some (ret, k', out) \<and> conn_inv k'"
proof -
  obtain kc where kc: "kcp (udp k) = Some kc" using assms(1) udp_okE by (auto simp: conn_inv_def)
  have "length (rcv_segs k) < kcp_recv_fuel k" using kc by (simp add: rcv_segs_def kcp_recv_fuel_def)
  then show ?thesis using client_kcp_recv_ok [where envs = envs, OF assms] by (simp add: try_kcp_recv_def)
qed

text \<open>Whatever the messages are, the invariant holds if the loop returns.\<close>

lemma client_kcp_recv_inv:
  assumes "conn_inv k" and "\<And>i. env_ok (envs i)" and "client_kcp_recv fuel i envs res k = Some (ret, k', out)"
  shows "conn_inv k'"
  using assms
proof (induction fuel arbitrary: k i res ret out)
  case (Suc fuel)
  obtain kc where kc: "kcp (udp k) = Some kc" "kcp_inv kc"
    using Suc.prems(1) udp_okE by (auto simp: conn_inv_def)
  obtain n d kc' where r: "ikcp_recv kc True 65536 = Some (n, d, kc')" using ikcp_recv_some by blast
  let ?k = "k\<lparr>udp := (udp k)\<lparr>kcp := Some kc'\<rparr>\<rparr>"
  have inv: "conn_inv ?k"
    by (rule conn_inv_shrinks [OF Suc.prems(1) kc(1) ikcp_recv_kcp_inv [OF kc(2) r] recv_frame(1) [OF r]])
  have dl: "length d \<le> 65536" using Suc.prems(3) kc(1) r by (auto simp: c_assert_def split: if_splits)
  obtain ret2 k2 out2 where o: "on_client_recv (envs i) ?k d = Some (ret2, k2, out2)" "conn_inv k2"
    using on_client_recv_ok [OF inv Suc.prems(2) dl, of i] by (auto simp: cmd_ok_def)
  have "k' = ?k \<or> k' = k2 \<or> (\<exists>ret out. client_kcp_recv fuel (Suc i) envs ret2 k2 = Some (ret, k', out))"
    using Suc.prems(3) kc(1) r o(1) dl
    by (cases "n > 0"; cases "ret2 = 0") (auto simp: c_assert_def outcome_simps split: if_splits)
  then show ?case using inv o(2) Suc.IH [OF o(2) Suc.prems(2)] by blast
qed simp

lemma try_kcp_recv_inv:
  "conn_inv k \<Longrightarrow> (\<And>i. env_ok (envs i)) \<Longrightarrow> try_kcp_recv envs k = Some (ret, k', out) \<Longrightarrow> conn_inv k'"
  unfolding try_kcp_recv_def by (rule client_kcp_recv_inv)

section \<open>The timer of the engine\<close>

lemma check_gap:
  assumes "kcp_inv kc" and "\<not> ikcp_check kc cur \<le> cur"
  shows "0 < unat (ikcp_check kc cur - cur)" "unat (ikcp_check kc cur - cur) \<le> 5000"
proof -
  have i: "0 < unat (interval kc)" "unat (interval kc) \<le> 5000"
    using kcp_invD(4) [OF assms(1)] by (simp_all add: conf_inv_def)
  have up: "updated kc \<noteq> 0" using assms(2) by (auto simp: ikcp_check_def)
  have "0 < unat (ikcp_check kc cur - cur) \<and> unat (ikcp_check kc cur - cur) \<le> 5000"
  proof (cases rule: ikcp_check_cases [OF up i, of cur])
    case 1
    then show ?thesis using assms(2) by simp
  next
    case (2 n)
    have "unat (of_nat n :: u32) = n" using 2(3) i(2) by (intro unat_of_nat_lt) simp
    then show ?thesis using 2 i(2) by simp
  qed
  then show "0 < unat (ikcp_check kc cur - cur)" "unat (ikcp_check kc cur - cur) \<le> 5000" by simp_all
qed

definition ack_bound :: "nat \<Rightarrow> Kcpev \<Rightarrow> bool" where
  "ack_bound n k \<longleftrightarrow> (\<forall>kc. kcp (udp k) = Some kc \<longrightarrow> unat (ackcount kc) < n)"

text \<open>The clock in the milliseconds of the engine, and the engine part of \<open>kcpev_timer_repeat\<close>.\<close>

definition engine_now :: "sysenv \<Rightarrow> u32" where
  "engine_now env = ucast (now_ms (now env) AND 0xffffffff)"

definition timer_drive :: "IKCPCB \<Rightarrow> u32 \<Rightarrow> (IKCPCB \<times> byte list list \<times> u32) option" where
  "timer_drive kc nw =
     (let nxt = ikcp_check kc nw in
      if nxt \<le> nw then do { (kc, outs) \<leftarrow> ikcp_update kc nw; Some (kc, outs, ikcp_check kc nw) } else Some (kc, [], nxt))"

lemma timer_drive_ok:
  assumes "kcp_inv kc" and "output_cb kc" and "unat (ackcount kc) < 2 ^ 31"
  shows "\<exists>kc' outs. timer_drive kc nw = Some (kc', outs, ikcp_check kc' nw) \<and> kcp_inv kc' \<and> output_cb kc' \<and>
    rcv_queue kc' = rcv_queue kc \<and> rcv_buf kc' = rcv_buf kc \<and> (\<forall>d \<in> set outs. length d \<le> unat (mtu kc))"
proof (cases "ikcp_check kc nw \<le> nw")
  case True
  obtain kc' outs where u: "ikcp_update kc nw = Some (kc', outs)" "kcp_inv kc'" "flush_sends kc kc'"
      "outs = [] \<or> flush_wire kc kc' outs" "output_cb kc'"
    by (rule ikcp_update_ok [OF assms])
  have "\<forall>d \<in> set outs. length d \<le> unat (mtu kc)" using u(4) by (auto simp: flush_wire_def)
  then show ?thesis using True u by (simp add: timer_drive_def flush_sends_def)
qed (use assms in \<open>simp add: timer_drive_def\<close>)

lemma timer_repeat_core:
  assumes "kcp (udp k) = Some kc" and "kcp_inv kc" and "output_cb kc" and "unat (ackcount kc) < 2 ^ 31" and "evt (udp k) = Some t"
  obtains kc' t' outs where
    "kcpev_timer_repeat env k = Some (k\<lparr>udp := (udp k)\<lparr>kcp := Some kc', evt := Some t'\<rparr>\<rparr>, map (udp_output env (udp k)) outs)"
    and "kcp_inv kc'" and "output_cb kc'" and "rcv_queue kc' = rcv_queue kc" and "rcv_buf kc' = rcv_buf kc"
    and "0 < tm_repeat t'" and "tm_repeat t' \<le> 5000" and "tm_cb t' = tm_cb t" and "\<forall>d \<in> set outs. length d \<le> unat (mtu kc)"
    and "timer_drive kc (engine_now env) = Some (kc', outs, ikcp_check kc' (engine_now env))"
    and "tm_repeat t' = (if ikcp_check kc' (engine_now env) \<le> engine_now env then 10
      else unat (ikcp_check kc' (engine_now env) - engine_now env))"
proof -
  define nw where "nw = engine_now env"
  obtain kc' outs where d: "timer_drive kc nw = Some (kc', outs, ikcp_check kc' nw)" "kcp_inv kc'" "output_cb kc'"
      "rcv_queue kc' = rcv_queue kc" "rcv_buf kc' = rcv_buf kc" "\<forall>d \<in> set outs. length d \<le> unat (mtu kc)"
    using timer_drive_ok [OF assms(2-4), of nw] by auto
  define t' where "t' = t\<lparr>tm_repeat := (if ikcp_check kc' nw \<le> nw then 10 else unat (ikcp_check kc' nw - nw))\<rparr>"
  have r: "kcpev_timer_repeat env k =
      Some (k\<lparr>udp := (udp k)\<lparr>kcp := Some kc', evt := Some t'\<rparr>\<rparr>, map (udp_output env (udp k)) outs)"
    using assms(1,5) d(1)
    by (simp add: kcpev_timer_repeat_def timer_drive_def Let_def engine_now_def [symmetric] nw_def [symmetric] t'_def)
  have "0 < tm_repeat t'" "tm_repeat t' \<le> 5000" "tm_cb t' = tm_cb t"
    using check_gap [OF d(2), of nw] by (auto simp: t'_def)
  then show ?thesis using that [OF r] d by (simp add: t'_def nw_def)
qed

lemma timer_repeat_ok:
  assumes "conn_inv k" and "evt (udp k) = Some t" and "ack_bound (2 ^ 31) k"
  obtains k' out t' where "kcpev_timer_repeat env k = Some (k', out)" and "conn_inv k'" and "rcv_segs k' = rcv_segs k"
    and "evt (udp k') = Some t'" and "0 < tm_repeat t'" and "tm_repeat t' \<le> 5000" and "tm_cb t' = tm_cb t"
    and "\<forall>e \<in> set out. \<exists>d. e = udp_output env (udp k) d \<and> (\<forall>kc. kcp (udp k) = Some kc \<longrightarrow> length d \<le> unat (mtu kc))"
proof -
  obtain kc where kc: "kcp (udp k) = Some kc" "kcp_inv kc" "output_cb kc"
    using assms(1) udp_okE by (auto simp: conn_inv_def)
  have a: "unat (ackcount kc) < 2 ^ 31" using assms(3) kc(1) by (simp add: ack_bound_def)
  obtain kc' t' outs where r:
      "kcpev_timer_repeat env k = Some (k\<lparr>udp := (udp k)\<lparr>kcp := Some kc', evt := Some t'\<rparr>\<rparr>, map (udp_output env (udp k)) outs)"
      "kcp_inv kc'" "output_cb kc'" "rcv_queue kc' = rcv_queue kc" "rcv_buf kc' = rcv_buf kc"
      "0 < tm_repeat t'" "tm_repeat t' \<le> 5000" "tm_cb t' = tm_cb t" "\<forall>d \<in> set outs. length d \<le> unat (mtu kc)"
    by (rule timer_repeat_core [OF kc a assms(2), of env])
  have "udp_ok ((udp k)\<lparr>kcp := Some kc', evt := Some t'\<rparr>)"
    using assms(1) r(2,3) by (simp add: conn_inv_def udp_ok_def)
  then have inv: "conn_inv (k\<lparr>udp := (udp k)\<lparr>kcp := Some kc', evt := Some t'\<rparr>\<rparr>)" by (rule conn_inv_udp [OF assms(1)])
  show ?thesis
    by (rule that [OF r(1) inv _ _ r(6-8)]) (use r(4,5,9) kc(1) in \<open>auto simp: rcv_segs_def\<close>)
qed

section \<open>The watchers\<close>

lemma handle_all_ok:
  assumes "conn_inv k" and "\<And>i. env_ok (envs i)" and "\<forall>d \<in> set ds. length d \<le> 65536"
  shows "\<exists>ok k' out. handle_all (\<lambda>i d k. on_client_recv (envs i) k d) i ds k = Some (ok, k', out) \<and> conn_inv k' \<and>
    rcv_segs k' = rcv_segs k"
  using assms
proof (induction ds arbitrary: i k)
  case (Cons d ds)
  obtain ret k2 out where o: "on_client_recv (envs i) k d = Some (ret, k2, out)" "conn_inv k2" "rcv_segs k2 = rcv_segs k"
    using on_client_recv_ok [OF Cons.prems(1,2), of d i] Cons.prems(3) by (auto simp: cmd_ok_def)
  have "\<exists>ok k' out. handle_all (\<lambda>i d k. on_client_recv (envs i) k d) (Suc i) ds k2 = Some (ok, k', out) \<and> conn_inv k' \<and>
      rcv_segs k' = rcv_segs k2"
    by (rule Cons.IH [OF o(2) Cons.prems(2)]) (use Cons.prems(3) in simp)
  then show ?case using o by (cases "ret = 0") auto
qed auto

lemma client_tcp_recv_ok:
  assumes "conn_inv k" and "\<And>i. env_ok (envs i)" and "length buf = 65536" and "len \<le> 65536"
  shows "\<exists>k' out. client_tcp_recv envs mem mem2 buf len k = Some (k', out) \<and> conn_inv k' \<and> rcv_segs k' = rcv_segs k"
proof (cases "0 < len")
  case False
  then show ?thesis using assms(1) by (simp add: client_tcp_recv_def)
next
  case True
  then obtain n where n: "len = int n" "0 < n" "n \<le> 65536" using assms(4) zero_less_imp_eq_int by auto
  obtain bs where bs: "conn_pending k bs" using assms(1) by (auto simp: conn_inv_def)
  have h: "\<exists>ok k' out. handle_all (\<lambda>i d k. on_client_recv (envs i) k d) 0 ds k = Some (ok, k', out) \<and>
      (conn_inv k' \<and> rcv_segs k' = rcv_segs k)" if "\<forall>d \<in> set ds. length d \<le> 65536" for ds
    using handle_all_ok [where envs = envs, OF assms(1,2) that, of 0] by blast
  have "\<exists>ok k' out r k'' bs'. tcp_recv Some (\<lambda>k _. k) (\<lambda>i d k. on_client_recv (envs i) k d) mem mem2 buf n k =
      Some (ok, with_rb Some (\<lambda>k _. k) r k', out) \<and> (conn_inv k' \<and> rcv_segs k' = rcv_segs k) \<and> Some k' = Some k'' \<and>
      conn_pending (set_rb r k'') bs'"
    by (rule client.tcp_recv_total [OF refl bs assms(3) n(3) h])
  then obtain ok k' out r bs' where
      "tcp_recv Some (\<lambda>k _. k) (\<lambda>i d k. on_client_recv (envs i) k d) mem mem2 buf n k = Some (ok, set_rb r k', out)"
      "conn_inv k'" "rcv_segs k' = rcv_segs k" "conn_pending (set_rb r k') bs'"
    by (auto simp: with_rb_def)
  then show ?thesis using n conn_inv_rb [of k'] by (auto simp: client_tcp_recv_def rcv_segs_def)
qed

lemma engine_input:
  assumes "kcp_inv kc" and "env_ok env" and "length d \<le> 65536" and "unat (ackcount kc) < 2 ^ 29" and "d \<noteq> []"
  obtains r kc' where "ikcp_input (input_mem env) kc (Some d) (int (length d)) = Some (r, kc')" and "input_step (\<lambda>_. True) kc kc'"
proof -
  have mem: "fst (input_mem env j) \<noteq> None" "snd (input_mem env j) \<noteq> None" for j
    using assms(2) by (auto simp: env_ok_def input_alloc_def)
  have cnt: "unat (ackcount kc) + nat (int (length d)) < 2 ^ 30" using assms(3,4) by simp
  show ?thesis
    by (rule ikcp_input_total [where mem = "input_mem env" and d = d and sz = "int (length d)", OF assms(1) mem _ _ cnt])
      (use that assms(3,5) in simp_all)
qed

text \<open>What \<open>client_udp_recv\<close> does up to the loop over the messages.\<close>

lemma client_udp_recv_input:
  assumes "conn_inv k" and "\<And>i. env_ok (envs i)" and "length buf = 65536" and "len \<le> 65536" and "ack_bound (2 ^ 29) k"
  shows "(\<exists>k' out. client_udp_recv envs buf len k = Some (k', out) \<and> conn_inv k') \<or>
    (\<exists>kc r kc'. kcp (udp k) = Some kc \<and> is_kcp_valid k \<and>
      ikcp_input (input_mem (envs 0)) kc (Some (take (nat len) buf)) len = Some (r, kc') \<and>
      conn_inv (k\<lparr>udp := (udp k)\<lparr>kcp := Some kc'\<rparr>\<rparr>) \<and>
      client_udp_recv envs buf len k = do { (_, k', out) \<leftarrow> try_kcp_recv envs (k\<lparr>udp := (udp k)\<lparr>kcp := Some kc'\<rparr>\<rparr>); Some (k', out) })"
proof (cases "0 < len \<and> is_kcp_valid k")
  case False
  let ?d = "take (nat len) buf"
  have "fetch buf 0 (nat len) = Some ?d" "length ?d \<le> 65536" if "0 < len" using that assms(3,4) by (simp_all add: fetch_def)
  then show ?thesis
    using False on_client_recv_ok [OF assms(1,2), of ?d 0] assms(1) by (cases "0 < len") (auto simp: client_udp_recv_def cmd_ok_def)
next
  case True
  let ?d = "take (nat len) buf"
  have d: "fetch buf 0 (nat len) = Some ?d" "length ?d \<le> 65536" "int (length ?d) = len" "?d \<noteq> []"
    using True assms(3,4) by (auto simp: fetch_def)
  obtain kc where kc: "kcp (udp k) = Some kc" "kcp_inv kc"
    using assms(1) udp_okE by (auto simp: conn_inv_def)
  have cnt: "unat (ackcount kc) < 2 ^ 29" using assms(5) kc(1) by (simp add: ack_bound_def)
  obtain r kc' where i0: "ikcp_input (input_mem (envs 0)) kc (Some ?d) (int (length ?d)) = Some (r, kc')"
      "input_step (\<lambda>_. True) kc kc'"
    by (rule engine_input [OF kc(2) assms(2) d(2) cnt d(4)])
  note i = i0 [unfolded d(3)]
  have "conn_inv (k\<lparr>udp := (udp k)\<lparr>kcp := Some kc'\<rparr>\<rparr>)"
    by (rule conn_inv_shrinks [OF assms(1) kc(1)]) (use i(2) in \<open>simp_all add: input_step_def\<close>)
  then show ?thesis using True d(1) kc(1) i(1) by (simp add: client_udp_recv_def)
qed

lemma client_udp_recv_ok:
  assumes "conn_inv k" and "\<And>i. env_ok (envs i)" and "length buf = 65536" and "len \<le> 65536"
    and "ack_bound (2 ^ 29) k"
    and small: "\<And>kc r kc'. kcp (udp k) = Some kc \<Longrightarrow> is_kcp_valid k \<Longrightarrow>
      ikcp_input (input_mem (envs 0)) kc (Some (take (nat len) buf)) len = Some (r, kc') \<Longrightarrow>
      msgs_small (rcv_queue kc' @ rcv_buf kc')"
  shows "\<exists>k' out. client_udp_recv envs buf len k = Some (k', out) \<and> conn_inv k'"
  using client_udp_recv_input [where envs = envs, OF assms(1-5)]
proof (elim disjE exE conjE)
  fix kc r kc'
  let ?k = "k\<lparr>udp := (udp k)\<lparr>kcp := Some kc'\<rparr>\<rparr>"
  assume *: "kcp (udp k) = Some kc" "is_kcp_valid k"
    "ikcp_input (input_mem (envs 0)) kc (Some (take (nat len) buf)) len = Some (r, kc')" "conn_inv ?k"
    "client_udp_recv envs buf len k = do { (_, k', out) \<leftarrow> try_kcp_recv envs ?k; Some (k', out) }"
  have "msgs_small (rcv_segs ?k)" using small [OF *(1-3)] by (simp add: rcv_segs_def)
  then show ?thesis using try_kcp_recv_ok [where envs = envs, OF *(4) assms(2)] *(5) by auto
qed auto

lemma client_on_timer_ok:
  assumes "conn_inv k" and "\<And>i. env_ok (envs i)" and "evt (udp k) \<noteq> None" and "ack_bound (2 ^ 31) k"
    and "msgs_small (rcv_segs k)"
  shows "\<exists>k' out. client_on_timer envs k = Some (k', out) \<and> conn_inv k'"
proof -
  obtain t where t: "evt (udp k) = Some t" using assms(3) by blast
  obtain k' out where r: "kcpev_timer_repeat (envs 0) k = Some (k', out)" "conn_inv k'" "rcv_segs k' = rcv_segs k"
    by (rule timer_repeat_ok [OF assms(1) t assms(4), of "envs 0"])
  then show ?thesis
    using try_kcp_recv_ok [where envs = envs, OF r(2) assms(2)] assms(5) by (auto simp: client_on_timer_def)
qed

lemma kcp_command_ok:
  assumes "conn_inv k" and "env_ok env" and "length msg \<le> 65528"
  shows "\<exists>ret k'. kcp_send_command env k c msg = Some (ret, k') \<and> conn_inv k'"
proof (cases "is_kcp_valid k")
  case True
  have f: "length (frame (pad_of env) c msg) \<le> 65536" "length (frame (pad_of env) c msg) = length msg + 8"
    using assms(3) by simp_all
  obtain ret kc kc' where *: "kcp (udp k) = Some kc"
      "ikcp_send (send_mem env) kc (Some (frame (pad_of env) c msg)) (int (length (frame (pad_of env) c msg))) = Some (ret, kc')"
      "conn_inv (k\<lparr>udp := (udp k)\<lparr>kcp := Some kc'\<rparr>\<rparr>)"
    by (rule conn_send [OF assms(1) True assms(2) f(1)])
  then show ?thesis using True assms(3) unfolding f(2) by (simp add: kcp_send_command_ok)
qed (use assms in \<open>simp add: kcp_send_command_ok\<close>)

lemma client_heartbeat_ok:
  assumes "conn_inv k" and "env_ok env"
  shows "\<exists>k'. on_client_heartbeat_timer env k = Some k' \<and> conn_inv k'"
proof -
  have "length (key k) \<le> 65528" using assms(1) by (simp add: conn_inv_def)
  then show ?thesis
    using kcp_command_ok [OF assms, of "key k" COMMAND_HEARTBEAT1] set_invalid_ok [OF assms(1)] assms(1)
    by (auto simp: on_client_heartbeat_timer_def)
qed

text \<open>Any payload the user sends: one that does not fit is refused.\<close>

lemma client_send_ok:
  assumes "conn_inv k" and "env_ok env" and "length msg + 8 < 2 ^ 32"
  shows "\<exists>ret k' out. kcpev_send env k msg = Some (ret, k', out) \<and> conn_inv k'"
    "\<exists>ret out. kcpev_send_tcp env k msg = Some (ret, out)"
proof -
  have "cmd_ok k (kcpev_send_command env k 1 msg) \<and> (\<exists>ret out. sock_send_command env (sock (tcp k)) 1 msg = Some (ret, out))"
  proof (cases "length msg \<le> 65528")
    case True
    then show ?thesis using send_command_cmd_ok [OF assms(1,2)] by (simp add: sock_send_command_ok)
  next
    case False
    then show ?thesis using send_command_large [of msg] assms(1,3) by simp
  qed
  then show "\<exists>ret k' out. kcpev_send env k msg = Some (ret, k', out) \<and> conn_inv k'"
    "\<exists>ret out. kcpev_send_tcp env k msg = Some (ret, out)"
    by (auto simp: kcpev_send_def kcpev_send_tcp_def cmd_ok_def)
qed

section \<open>Creation\<close>

lemma kcp_inv_user: "kcp_inv kc \<Longrightarrow> kcp_inv (kc\<lparr>user := u\<rparr>)"
proof -
  have "snd_inv (kc\<lparr>user := u\<rparr>) = snd_inv kc" by (rule snd_inv_cong) simp_all
  moreover have "rcv_inv (kc\<lparr>user := u\<rparr>) = rcv_inv kc" by (rule rcv_inv_cong) simp_all
  ultimately show "kcp_inv kc \<Longrightarrow> ?thesis"
    by (auto simp: kcp_inv_def ack_inv_def conf_inv_def segs_inv_def sent_ok_def split: option.splits)
qed

lemma create_kcp_fresh:
  assumes "kcpev_create_kcp a b u c KCPEV_KCP_MODE = (r, u')"
  shows "r = -1 \<and> u' = u \<or> r = 0 \<and> (\<exists>kc. u' = u\<lparr>kcp := Some kc\<rparr> \<and> fresh c kc)"
proof (cases "ikcp_create a b c (udp_at u)")
  case None
  then show ?thesis using assms by (simp add: kcpev_create_kcp_def)
next
  case (Some kc)
  let ?kc = "snd (ikcp_nodelay (snd (ikcp_wndsize kc 128 128)) 1 10 2 1)"
  have u': "r = 0" "u' = u\<lparr>kcp := Some (?kc\<lparr>output_cb := True\<rparr>)\<rparr>"
    using assms Some by (simp_all add: kcpev_create_kcp_def Let_def)
  have w: "unat (rcv_wnd kc) = 32" using Some by (auto simp: ikcp_create_def split: if_splits)
  have "kcp_inv ?kc"
    by (intro ikcp_nodelay_inv ikcp_wndsize_inv ikcp_create_inv [OF Some]) (use w in auto)
  moreover have "conv ?kc = c" "snd_una ?kc = 0" "snd_nxt ?kc = 0" "rcv_nxt ?kc = 0" "snd_queue ?kc = []" "snd_buf ?kc = []"
      "rcv_queue ?kc = []" "rcv_buf ?kc = []"
    using Some by (auto simp: ikcp_create_def ikcp_nodelay_def ikcp_wndsize_def Let_def split: if_splits)
  ultimately have "fresh c (?kc\<lparr>output_cb := True\<rparr>)" by (simp add: fresh_def)
  then show ?thesis using u' by blast
qed

text \<open>Binding sockets and setting watchers leave the other fields alone.\<close>

lemma bind_tcp_keeps: "kcpev_bind_socket ad re s = (r, s', out) \<Longrightarrow> tcp_rb s' = tcp_rb s" for s :: KcpevTcp
  by (auto simp: kcpev_bind_socket_def split: option.splits prod.splits)

definition udp_rest :: "KcpevUdp \<Rightarrow> KcpevUdp" where
  "udp_rest u = u\<lparr>sock := 0, evio := None\<rparr>"

lemma bind_udp_keeps: "kcpev_bind_socket ad re s = (r, s', out) \<Longrightarrow> udp_rest s' = udp_rest s" for s :: KcpevUdp
  by (auto simp: kcpev_bind_socket_def udp_rest_def split: option.splits prod.splits)

definition conn_rest :: "Kcpev \<Rightarrow> byte list \<times> bool \<times> ringbuf option \<times> KcpevUdp" where
  "conn_rest k = (key k, recv_cb k, tcp_rb (tcp k), udp_rest (udp k))"

lemma bind_keeps: "kcpev_bind ta nm ua reuse k = (r, k', out) \<Longrightarrow> conn_rest k' = conn_rest k"
  by (auto simp: kcpev_bind_def conn_rest_def Let_def dest: bind_tcp_keeps bind_udp_keeps split: prod.splits if_splits)

lemma set_ev_keeps:
  "kcpev_set_ev ok cb t = (r, t') \<Longrightarrow> tcp_rb t' = tcp_rb t" "kcpev_set_ev ok cb u = (r, u') \<Longrightarrow> udp_rest u' = udp_rest u"
  by (auto simp: kcpev_set_ev_def udp_rest_def split: if_splits)

lemma init_ev_keeps: "kcpev_init_ev a b lp c d k = (r, k') \<Longrightarrow> conn_rest k' = conn_rest k"
  by (auto simp: kcpev_init_ev_def conn_rest_def Let_def dest: set_ev_keeps
      split: prod.splits if_splits option.splits)

lemma create_client_made:
  assumes "kcpev_create_client e lp = (Some k, out)"
  obtains kc where "kcp (udp k) = Some kc" and "fresh (ucast (key_conv (key k))) kc" and "status (udp k) = 0"
    and "evt (udp k) = None" and "length (key k) = 16" and "tcp_rb (tcp k) = None"
proof -
  obtain k0 where k0: "kcpev_create (k_alloc e) (k_at e) = Some k0"
    using assms by (auto simp: kcpev_create_client_def split: option.splits)
  obtain r1 k1 o1 where b: "kcpev_bind (k_tcp e) (k_names e) (k_udp e) False k0 = (r1, k1, o1)"
    by (cases "kcpev_bind (k_tcp e) (k_names e) (k_udp e) False k0") auto
  obtain r2 u where c: "kcpev_create_kcp (k_kcp_ok e) (k_buf_ok e) (udp k1) (ucast (key_conv (key k1))) 2 = (r2, u)"
    by (cases "kcpev_create_kcp (k_kcp_ok e) (k_buf_ok e) (udp k1) (ucast (key_conv (key k1))) 2") auto
  obtain r3 k3 where i: "kcpev_init_ev (k_tcp_ev e) (k_udp_ev e) lp (Some Client_tcp_recv) (Some Client_udp_recv) (k1\<lparr>udp := u\<rparr>) = (r3, k3)"
    by (cases "kcpev_init_ev (k_tcp_ev e) (k_udp_ev e) lp (Some Client_tcp_recv) (Some Client_udp_recv) (k1\<lparr>udp := u\<rparr>)") auto
  have ok: "0 \<le> r2" "k = k3" using assms k0 b c i by (auto simp: kcpev_create_client_def Let_def split: if_splits)
  obtain kc where kc: "u = (udp k1)\<lparr>kcp := Some kc\<rparr>" "fresh (ucast (key_conv (key k1))) kc"
    using create_kcp_fresh [OF c] ok(1) by auto
  have "conn_rest k1 = conn_rest k0" by (rule bind_keeps [OF b])
  then have r1: "udp_rest (udp k1) = udp_rest (udp k0)" "key k1 = key k0" "tcp_rb (tcp k1) = tcp_rb (tcp k0)"
    by (simp_all add: conn_rest_def)
  have "conn_rest k = conn_rest (k1\<lparr>udp := u\<rparr>)" using init_ev_keeps [OF i] ok(2) by simp
  then have r2: "udp_rest (udp k) = udp_rest u" "key k = key k1" "tcp_rb (tcp k) = tcp_rb (tcp k1)"
    by (simp_all add: conn_rest_def)
  have f: "status (udp k0) = 0" "evt (udp k0) = None" "length (key k0) = 16" "tcp_rb (tcp k0) = None"
    using k0 by (auto simp: kcpev_create_def split: if_splits)
  have "status (udp k) = status u" "evt (udp k) = evt u" "kcp (udp k) = kcp u" "status (udp k1) = 0" "evt (udp k1) = None"
    using arg_cong [OF r2(1), of status] arg_cong [OF r2(1), of evt] arg_cong [OF r2(1), of kcp]
      arg_cong [OF r1(1), of status] arg_cong [OF r1(1), of evt] f(1,2) by (simp_all add: udp_rest_def)
  then show ?thesis using that [of kc] kc r1(2,3) r2(2,3) f(3,4) by simp
qed

lemma create_client_inv:
  assumes "kcpev_create_client e lp = (Some k, out)"
  shows "conn_inv (kcpev_set_cb k True)"
proof -
  obtain kc where kc: "kcp (udp k) = Some kc" "fresh (ucast (key_conv (key k))) kc" "status (udp k) = 0"
    "evt (udp k) = None" "length (key k) = 16" "tcp_rb (tcp k) = None"
    by (rule create_client_made [OF assms])
  then have "udp_ok (udp k)" by (simp add: udp_ok_def fresh_def)
  then show ?thesis using kc by (simp add: conn_inv_def conn_pending_def kcpev_set_cb_def)
qed

section \<open>Calls that return\<close>

text \<open>
  Whether memory is available and whatever the messages are, a call that returns keeps the
  invariant, as long as the acknowledgements pending can still be counted.
\<close>

lemma client_tcp_recv_inv:
  assumes "client_tcp_recv envs mem mem2 buf len k = Some (k', out)" and "conn_inv k" and "length buf = 65536" and "len \<le> 65536"
  shows "conn_inv k'"
  using client_tcp_recv_ok [where envs = "\<lambda>i. all_mem (envs i)", OF assms(2) env_ok_all_mem assms(3,4), of mem mem2]
    below_Some [OF client_tcp_recv_below assms(1)] by auto

lemma client_udp_recv_inv:
  assumes "client_udp_recv envs buf len k = Some (k', out)" and "conn_inv k" and "length buf = 65536" and "len \<le> 65536"
    and "ack_bound (2 ^ 29) k"
  shows "conn_inv k'"
proof -
  let ?envs = "\<lambda>i. all_mem (envs i)"
  have run: "client_udp_recv ?envs buf len k = Some (k', out)" by (rule below_Some [OF client_udp_recv_below assms(1)])
  have e: "env_ok (?envs i)" for i by simp
  show ?thesis
    using client_udp_recv_input [where envs = ?envs, OF assms(2) e assms(3-5)]
  proof (elim disjE exE conjE)
    fix kc kc'
    let ?k = "k\<lparr>udp := (udp k)\<lparr>kcp := Some kc'\<rparr>\<rparr>"
    assume *: "conn_inv ?k" "client_udp_recv ?envs buf len k = do { (_, k', out) \<leftarrow> try_kcp_recv ?envs ?k; Some (k', out) }"
    obtain ret where "try_kcp_recv ?envs ?k = Some (ret, k', out)" using run [unfolded *(2)] by (auto simp: outcome_simps)
    then show ?thesis by (rule try_kcp_recv_inv [where envs = ?envs, OF *(1) e])
  qed (use run in auto)
qed

lemma client_on_timer_inv:
  assumes "client_on_timer envs k = Some (k', out)" and "conn_inv k" and "ack_bound (2 ^ 29) k"
  shows "conn_inv k'"
proof -
  let ?envs = "\<lambda>i. all_mem (envs i)"
  have run: "client_on_timer ?envs k = Some (k', out)" by (rule below_Some [OF client_on_timer_below assms(1)])
  have e: "env_ok (?envs i)" for i by simp
  obtain kc where kc: "kcp (udp k) = Some kc" using assms(2) udp_okE by (auto simp: conn_inv_def)
  have "evt (udp k) \<noteq> None"
    using run kc by (auto simp: client_on_timer_def kcpev_timer_repeat_def Let_def outcome_simps)
  then obtain t where t: "evt (udp k) = Some t" by blast
  have a: "ack_bound (2 ^ 31) k" using assms(3) by (fastforce simp: ack_bound_def)
  obtain k1 out1 where r: "kcpev_timer_repeat (?envs 0) k = Some (k1, out1)" "conn_inv k1"
    by (rule timer_repeat_ok [OF assms(2) t a, of "?envs 0"])
  show ?thesis
    using run r try_kcp_recv_inv [where envs = ?envs, OF r(2) e] by (auto simp: client_on_timer_def outcome_simps)
qed

lemma client_heartbeat_inv:
  assumes "on_client_heartbeat_timer env k = Some k'" and "conn_inv k"
  shows "conn_inv k'"
  using client_heartbeat_ok [OF assms(2), of "all_mem env"] below_Some [OF client_heartbeat_below assms(1)] by auto

lemma client_send_inv:
  assumes "kcpev_send env k msg = Some (r, k', out)" and "conn_inv k"
  shows "conn_inv k'"
proof (cases "length msg \<le> 65528")
  case True
  then have "length msg + 8 < 2 ^ 32" by simp
  then show ?thesis
    using client_send_ok(1) [OF assms(2) env_ok_all_mem, of msg env] below_Some [OF kcpev_send_below assms(1)] by auto
next
  case False
  then have "k' = k" using assms(1) send_command_large [of msg] by (auto simp: kcpev_send_def split: if_splits)
  then show ?thesis using assms(2) by simp
qed

section \<open>The transition system\<close>

text \<open>
  A step of the client process is a call that returns. The buffers are the local arrays of the
  functions, and fewer than \<open>2^29\<close> acknowledgements are pending when the engine is called: its
  counter of them has 32 bits. The clock, the allocations, what \<open>send\<close>, \<open>recv\<close> and \<open>connect\<close> return and
  every received byte are arbitrary.
\<close>

inductive client_step :: "Kcpev \<Rightarrow> Kcpev \<Rightarrow> bool" where
  connect: "kcpev_connect ta ua k = (r, k', out) \<Longrightarrow> client_step k k'"
| tcp: "length buf = 65536 \<Longrightarrow> len \<le> 65536 \<Longrightarrow> client_tcp_recv envs mem mem2 buf len k = Some (k', out) \<Longrightarrow> client_step k k'"
| udp: "length buf = 65536 \<Longrightarrow> len \<le> 65536 \<Longrightarrow> ack_bound (2 ^ 29) k \<Longrightarrow> client_udp_recv envs buf len k = Some (k', out) \<Longrightarrow>
    client_step k k'"
| timer: "ack_bound (2 ^ 29) k \<Longrightarrow> client_on_timer envs k = Some (k', out) \<Longrightarrow> client_step k k'"
| heartbeat: "on_client_heartbeat_timer env k = Some k' \<Longrightarrow> client_step k k'"
| send: "kcpev_send env k msg = Some (r, k', out) \<Longrightarrow> client_step k k'"

lemma connect_inv:
  assumes "kcpev_connect ta ua k = (r, k', out)" and "conn_inv k"
  shows "conn_inv k'"
proof -
  have u: "udp_ok (udp k)" using assms(2) by (simp add: conn_inv_def)
  then obtain kc where kc: "kcp (udp k) = Some kc" "kcp_inv kc" "output_cb kc"
      "evt (udp k) = None \<longrightarrow> snd_queue kc = [] \<and> snd_buf kc = []"
    by (auto simp: udp_ok_def)
  have 1: "conn_inv (k\<lparr>udp := (udp k)\<lparr>sock := 0\<rparr>\<rparr>)"
    by (rule conn_inv_udp [OF assms(2)]) (use u in \<open>simp add: udp_ok_def\<close>)
  have "udp_ok ((udp k)\<lparr>kcp := Some (kc\<lparr>user := udp_at (udp k)\<rparr>)\<rparr>)"
    by (rule udp_ok_kcp [OF u kcp_inv_user [OF kc(2)]]) (use kc(3,4) in simp_all)
  then have 2: "conn_inv (k\<lparr>udp := (udp k)\<lparr>kcp := Some (kc\<lparr>user := udp_at (udp k)\<rparr>)\<rparr>\<rparr>)"
    by (rule conn_inv_udp [OF assms(2)])
  have "k' = k \<or> k' = k\<lparr>udp := (udp k)\<lparr>sock := 0\<rparr>\<rparr> \<or> k' = k\<lparr>udp := (udp k)\<lparr>kcp := Some (kc\<lparr>user := udp_at (udp k)\<rparr>)\<rparr>\<rparr>"
    using assms(1) kc(1) by (simp add: kcpev_connect_def split: if_splits)
  then show ?thesis using assms(2) 1 2 by fastforce
qed

lemma client_step_inv: "client_step k k' \<Longrightarrow> conn_inv k \<Longrightarrow> conn_inv k'"
  by (induction rule: client_step.induct)
    (auto intro: connect_inv client_tcp_recv_inv client_udp_recv_inv client_on_timer_inv client_heartbeat_inv client_send_inv)

section \<open>Properties\<close>

text \<open>
  C10: every state a client can reach satisfies the invariant: from \<open>kcpev_create_client\<close> and
  \<open>kcpev_set_cb\<close> on, after any sequence of calls that return, whatever arrives on the two sockets,
  whatever allocations, the clock and the operating system return and in whatever order watchers, timers
  and the user act, the control block of the engine is well-formed and the engine has queued
  nothing before the handshake completed. The handlers that call the engine, that of the UDP socket and the
  engine timer, are called with fewer than \<open>2^29\<close> acknowledgements pending. The calls with an undefined
  outcome, which end the sequence, are the subject of C11 and C13.
\<close>

theorem client_reachable:
  assumes "kcpev_create_client e lp = (Some k0, out)" and "client_step\<^sup>*\<^sup>* (kcpev_set_cb k0 True) k"
  shows "conn_inv k \<and> (\<exists>kc. kcp (udp k) = Some kc \<and> kcp_inv kc \<and>
    (evt (udp k) = None \<longrightarrow> ikcp_waitsnd kc = 0 \<and> snd_queue kc = []))"
proof -
  have inv: "conn_inv k" using assms(2)
  proof (induction rule: rtranclp_induct)
    case base
    show ?case by (rule create_client_inv [OF assms(1)])
  next
    case (step y z)
    show ?case by (rule client_step_inv [OF step.hyps(2) step.IH])
  qed
  then have "udp_ok (udp k)" by (simp add: conn_inv_def)
  then obtain kc where kc: "kcp (udp k) = Some kc" "kcp_inv kc" "evt (udp k) = None \<longrightarrow> snd_queue kc = [] \<and> snd_buf kc = []"
    by (auto simp: udp_ok_def)
  have "ikcp_waitsnd kc = 0" if "evt (udp k) = None"
  proof -
    have "nsnd_buf kc = 0" "nsnd_que kc = 0"
      using kcp_invD(1) [OF kc(2)] kc(3) that by (simp_all add: snd_inv_def)
    then show ?thesis by (simp add: ikcp_waitsnd_def)
  qed
  then show ?thesis using inv kc by (intro conjI exI [of _ kc]) simp_all
qed

text \<open>A client whose two sockets were bound, connected and used to send one byte.\<close>

definition demo_create :: client_env where
  "demo_create = \<lparr>k_alloc = True, k_at = 1, k_tcp = Some [\<lparr>t_socket = 5, t_setsockopt = 0, t_bind = 0\<rparr>], k_names = (0, 0),
     k_udp = Some [\<lparr>t_socket = -1, t_setsockopt = 0, t_bind = 0\<rparr>, \<lparr>t_socket = 6, t_setsockopt = 0, t_bind = 0\<rparr>],
     k_kcp_ok = True, k_buf_ok = True, k_tcp_ev = True, k_udp_ev = True\<rparr>"

definition demo_made :: Kcpev where
  "demo_made = the (fst (kcpev_create_client demo_create 1))"

lemma demo_made_eq: "kcpev_create_client demo_create 1 = (Some demo_made, [])"
  by (simp add: demo_made_def kcpev_create_client_def demo_create_def kcpev_create_def kcpev_bind_def
      kcpev_bind_socket_def kcpev_create_kcp_def ikcp_create_def kcpev_init_ev_def kcpev_set_ev_def)

lemma demo_made_fields:
  "evt (udp demo_made) = None" "sock (tcp demo_made) = 5" "sock (udp demo_made) = 6" "status (udp demo_made) = 0"
  "key demo_made = replicate 16 0" "tcp_rb (tcp demo_made) = None"
  by (simp_all add: demo_made_def kcpev_create_client_def demo_create_def kcpev_create_def kcpev_bind_def
      kcpev_bind_socket_def kcpev_create_kcp_def ikcp_create_def kcpev_init_ev_def kcpev_set_ev_def)

lemma demo_env_ok: "env_ok demo_env"
  by (auto simp: env_ok_def demo_env_def demo_mem_def input_alloc_def demo_alloc_def)

lemma demo_send_step: "client_step (kcpev_set_cb demo_made True) (kcpev_set_cb demo_made True)"
proof -
  let ?k = "kcpev_set_cb demo_made True"
  have "\<not> is_kcp_valid ?k" by (simp add: is_kcp_valid_def kcpev_set_cb_def demo_made_fields)
  then have "\<exists>r out. kcpev_send demo_env ?k [1] = Some (r, ?k, out)"
    by (simp add: kcpev_send_def kcpev_send_command_ok Let_def)
  then show ?thesis using client_step.send [of demo_env _ "[1]"] by auto
qed

theorem client_reachable_witness:
  "kcpev_create_client demo_create 1 = (Some demo_made, []) \<and>
   client_step (kcpev_set_cb demo_made True) (kcpev_set_cb demo_made True) \<and> conn_inv (kcpev_set_cb demo_made True)"
  using client_reachable [OF demo_made_eq r_into_rtranclp [of client_step, OF demo_send_step]] demo_made_eq demo_send_step by simp

end
