(* ===== verification/Kcpev_Registry.thy ===== *)
theory Kcpev_Registry
  imports Kcpev_Session
begin

text \<open>
  The server as a state machine. The invariant \<open>server_inv\<close> says that the table has exactly one
  entry for every connection, under its key, and that every connection is well-formed. The
  lemmas show that every command, watcher and timer that returns keeps it, and when it returns.
\<close>

section \<open>The invariant\<close>

definition eng_ok :: "KcpevUdp \<Rightarrow> bool" where
  "eng_ok u \<longleftrightarrow> (\<forall>kc. kcp u = Some kc \<longrightarrow> kcp_inv kc \<and> output_cb kc)"

definition srv_conn_ok :: "Kcpev \<Rightarrow> bool" where
  "srv_conn_ok k \<longleftrightarrow> length (key k) = 16 \<and> server k \<and> (\<exists>bs. conn_pending k bs) \<and> eng_ok (udp k)"

definition table_ok :: "(byte list \<times> nat) list \<Rightarrow> (nat \<Rightarrow> Kcpev option) \<Rightarrow> bool" where
  "table_ok es cs \<longleftrightarrow> distinct (map fst es) \<and> distinct (map snd es) \<and>
     (\<forall>ky c. (ky, c) \<in> set es \<longleftrightarrow> (\<exists>k. cs c = Some k \<and> key k = ky))"

definition server_inv :: "('h \<Rightarrow> (byte list \<times> nat) list) \<Rightarrow> 'h world \<Rightarrow> bool" where
  "server_inv ent w \<longleftrightarrow> srv_cb (srv w) \<and> table_ok (ent (hash (srv w))) (conns w) \<and>
     (\<forall>c k. conns w c = Some k \<longrightarrow> srv_conn_ok k)"

lemma srv_conn_udp: "srv_conn_ok k \<Longrightarrow> eng_ok u \<Longrightarrow> srv_conn_ok (k\<lparr>udp := u\<rparr>)"
  by (simp add: srv_conn_ok_def conn_pending_def)

lemma eng_ok_fields [simp]:
  "eng_ok (u\<lparr>heart := h\<rparr>) = eng_ok u" "eng_ok (u\<lparr>status := s\<rparr>) = eng_ok u" "eng_ok (u\<lparr>evt := e\<rparr>) = eng_ok u"
  "eng_ok (u\<lparr>evh := e\<rparr>) = eng_ok u" "eng_ok (u\<lparr>sock := n\<rparr>) = eng_ok u" "eng_ok (u\<lparr>evio := i\<rparr>) = eng_ok u"
  "eng_ok (u\<lparr>kcp := None\<rparr>)" "eng_ok (u\<lparr>kcp := Some kc\<rparr>) \<longleftrightarrow> kcp_inv kc \<and> output_cb kc"
  by (auto simp: eng_ok_def)

lemma put_conn_simps [simp]:
  "srv (put_conn c k w) = srv w" "conns (put_conn c k w) = (conns w)(c := Some k)"
  "srv (free_conn c w) = srv w" "conns (free_conn c w) = (conns w)(c := None)"
  "conns (set_hash h w) = conns w" "srv (set_hash h w) = (srv w)\<lparr>hash := h\<rparr>"
  by (simp_all add: put_conn_def free_conn_def set_hash_def)

lemma table_ok_put:
  assumes "table_ok es cs" and "cs c = Some k" and "key k' = key k"
  shows "table_ok es (cs(c := Some k'))"
proof -
  have "(\<exists>k''. (cs(c := Some k')) c' = Some k'' \<and> key k'' = ky) \<longleftrightarrow> (\<exists>k''. cs c' = Some k'' \<and> key k'' = ky)" for c' ky
    using assms(2,3) by auto
  then show ?thesis using assms(1) by (simp add: table_ok_def)
qed

lemma server_inv_put:
  assumes "server_inv ent w" and "conns w c = Some k" and "key k' = key k" and "srv_conn_ok k'"
  shows "server_inv ent (put_conn c k' w)"
  using assms table_ok_put [of "ent (hash (srv w))" "conns w" c k k'] by (simp add: server_inv_def)

text \<open>A table without an entry for a connection that is freed.\<close>

lemma table_ok_del:
  assumes "table_ok es cs"
  shows "table_ok (filter (\<lambda>e. snd e \<noteq> c) es) (cs(c := None))"
proof -
  have "distinct (map f (filter P es))" if "distinct (map f es)" for f :: "_ \<Rightarrow> 'z" and P
    using that by (rule distinct_map_filter)
  moreover have "(ky, c') \<in> set (filter (\<lambda>e. snd e \<noteq> c) es) \<longleftrightarrow> (\<exists>k. (cs(c := None)) c' = Some k \<and> key k = ky)" for ky c'
    using assms by (auto simp: table_ok_def)
  ultimately show ?thesis using assms by (simp add: table_ok_def distinct_map_filter)
qed

lemma close_client_ok:
  assumes "uthash_ok T ent" and "server_inv ent w" and "conns w c = Some k"
  shows "\<exists>w' out. close_client T c w = Some (w', out) \<and> server_inv ent w' \<and> conns w' = (conns w)(c := None) \<and>
    srv w' = (srv w)\<lparr>hash := ht_del T (hash (srv w)) c\<rparr>"
proof -
  have "ent (ht_del T (hash (srv w)) c) = filter (\<lambda>e. snd e \<noteq> c) (ent (hash (srv w)))"
    using assms(1) by (simp add: uthash_ok_def)
  then show ?thesis
    using assms(2,3) table_ok_del [of "ent (hash (srv w))" "conns w" c]
    by (simp add: close_client_def server_inv_def)
qed

text \<open>\<open>HASH_FIND\<close> on a well-formed table finds the connection with the key.\<close>

lemma find_conn:
  assumes "uthash_ok T ent" and "server_inv ent w"
  shows "case ht_find T (hash (srv w)) ky of
      Some c \<Rightarrow> \<exists>k. conns w c = Some k \<and> key k = ky
    | None \<Rightarrow> \<forall>c k. conns w c = Some k \<longrightarrow> key k \<noteq> ky"
proof -
  have f: "case ht_find T h ky of Some c \<Rightarrow> (ky, c) \<in> set (ent h) | None \<Rightarrow> ky \<notin> fst ` set (ent h)" for h
    using assms(1) unfolding uthash_ok_def by blast
  have t: "(ky', c) \<in> set (ent (hash (srv w))) \<longleftrightarrow> (\<exists>k. conns w c = Some k \<and> key k = ky')" for ky' c
    using assms(2) by (simp add: server_inv_def table_ok_def)
  show ?thesis
  proof (cases "ht_find T (hash (srv w)) ky")
    case None
    then have "ky \<notin> fst ` set (ent (hash (srv w)))" using f [of "hash (srv w)"] by simp
    then have "(ky, c) \<notin> set (ent (hash (srv w)))" for c by force
    then show ?thesis using None t by auto
  next
    case (Some c)
    then show ?thesis using f [of "hash (srv w)"] t by simp
  qed
qed

lemma find_live:
  assumes "uthash_ok T ent" and "server_inv ent w" and "conns w c = Some k"
  shows "ht_find T (hash (srv w)) (key k) = Some c"
proof (cases "ht_find T (hash (srv w)) (key k)")
  case None
  then show ?thesis using find_conn [OF assms(1,2), of "key k"] assms(3) by auto
next
  case (Some c')
  then obtain k' where k': "conns w c' = Some k'" "key k' = key k" using find_conn [OF assms(1,2), of "key k"] by auto
  have "distinct (map fst (ent (hash (srv w))))" "(key k, c) \<in> set (ent (hash (srv w)))" "(key k, c') \<in> set (ent (hash (srv w)))"
    using assms(2,3) k' by (auto simp: server_inv_def table_ok_def)
  then have "c' = c" using eq_key_imp_eq_value by metis
  then show ?thesis using Some by simp
qed

section \<open>The commands\<close>

text \<open>
  What a command leaves alone: the server, the TCP part and the key of every connection, and,
  unless it replaced the control block, the segments received.
\<close>

definition conn_kept :: "bool \<Rightarrow> Kcpev \<Rightarrow> Kcpev \<Rightarrow> bool" where
  "conn_kept reb k k' \<longleftrightarrow> key k' = key k \<and> tcp k' = tcp k \<and> server k' = server k \<and>
     (\<not> reb \<longrightarrow> rcv_segs k' = rcv_segs k \<and> (kcp (udp k') = None \<longleftrightarrow> kcp (udp k) = None))"

definition world_kept :: "nat option \<Rightarrow> 'h world \<Rightarrow> 'h world \<Rightarrow> bool" where
  "world_kept reb w w' \<longleftrightarrow> srv w' = srv w \<and>
     (\<forall>c. case conns w c of None \<Rightarrow> conns w' c = None
        | Some k \<Rightarrow> \<exists>k'. conns w' c = Some k' \<and> conn_kept (reb = Some c) k k')"

lemma conn_kept_refl [simp]: "conn_kept reb k k"
  by (simp add: conn_kept_def)

lemma world_kept_refl [simp]: "world_kept reb w w"
  by (auto simp: world_kept_def split: option.splits)

lemma world_kept_put: "conns w c = Some k \<Longrightarrow> conn_kept (reb = Some c) k k' \<Longrightarrow> world_kept reb w (put_conn c k' w)"
  by (auto simp: world_kept_def split: option.splits)

lemma world_kept_conn:
  "world_kept reb w w' \<Longrightarrow> conns w c = Some k \<Longrightarrow> \<exists>k'. conns w' c = Some k' \<and> conn_kept (reb = Some c) k k'"
  unfolding world_kept_def by (drule conjunct2, drule spec [of _ c]) simp

definition srv_cmd_ok ::
  "('h \<Rightarrow> (byte list \<times> nat) list) \<Rightarrow> 'h world \<Rightarrow> (int \<times> nat option \<times> 'h world \<times> event list) option \<Rightarrow> bool" where
  "srv_cmd_ok ent w res \<longleftrightarrow>
     (\<exists>ret reb w' out. res = Some (ret, reb, w', out) \<and> server_inv ent w' \<and> world_kept reb w w')"

lemma srv_cmd_ok_Some [simp]: "srv_cmd_ok ent w (Some (ret, reb, w', out)) \<longleftrightarrow> server_inv ent w' \<and> world_kept reb w w'"
  by (auto simp: srv_cmd_ok_def)

lemma srv_cmd_ok_put:
  assumes "server_inv ent w" and "conns w c = Some k" and "conn_kept (reb = Some c) k k'" and "eng_ok (udp k')"
  shows "srv_cmd_ok ent w (Some (ret, reb, put_conn c k' w, out))"
proof -
  have "srv_conn_ok k" using assms(1,2) by (auto simp: server_inv_def)
  then have "srv_conn_ok k'" using assms(3,4) by (auto simp: srv_conn_ok_def conn_kept_def conn_pending_def)
  then show ?thesis
    using server_inv_put [OF assms(1,2)] world_kept_put [OF assms(2,3)] assms(3) by (simp add: conn_kept_def)
qed

text \<open>\<open>connect_client_udp\<close> ends with a fresh control block or with none.\<close>

lemma destroy_udp:
  "kcp (fst (KcpevUdp_destroy u)) = None" "sock (fst (KcpevUdp_destroy u)) = 0" "evt (fst (KcpevUdp_destroy u)) = None"
  by (auto simp: KcpevUdp_destroy_def KcpevSock_destroy_def Let_def split: prod.splits)

lemma init_ev_udp:
  "\<exists>e. kcpev_init_ev True ok lp None (Some cb) x = (0, x\<lparr>loop := lp, udp := (udp x)\<lparr>evio := e\<rparr>\<rparr>)" for x :: Kcpev
proof (cases "sock (udp x) = 0 \<or> \<not> ok")
  case True
  then have "kcpev_init_ev True ok lp None (Some cb) x = (0, x\<lparr>loop := lp, udp := (udp x)\<lparr>evio := evio (udp x)\<rparr>\<rparr>)"
    by (auto simp: kcpev_init_ev_def kcpev_set_ev_def Let_def)
  then show ?thesis by blast
qed (auto simp: kcpev_init_ev_def kcpev_set_ev_def Let_def)

lemma connect_client_udp_ok:
  assumes "connect_client_udp ce lp k = (ret, k', out)" and "eng_ok (udp k)"
  shows "key k' = key k \<and> tcp k' = tcp k \<and> server k' = server k \<and> recv_cb k' = recv_cb k \<and> eng_ok (udp k') \<and>
    (0 \<le> ret \<longrightarrow> ret = 0 \<and> (\<exists>kc. kcp (udp k') = Some kc \<and> fresh (ucast (key_conv (key k))) kc)) \<and>
    (ret < 0 \<longrightarrow> kcp (udp k') = None \<and> sock (udp k') = 0 \<and> evt (udp k') = None)"
proof -
  obtain r1 u1 o1 where b: "kcpev_bind_socket (c_addrs ce) True (udp k) = (r1, u1, o1)"
    by (cases "kcpev_bind_socket (c_addrs ce) True (udp k)") auto
  obtain r2 u2 where c: "kcpev_create_kcp (c_kcp_ok ce) (c_buf_ok ce) u1 (ucast (key_conv (key k))) 2 = (r2, u2)"
    by (cases "kcpev_create_kcp (c_kcp_ok ce) (c_buf_ok ce) u1 (ucast (key_conv (key k))) 2") auto
  obtain e where i: "kcpev_init_ev True (c_ev_ok ce) lp None (Some Server_udp_recv) (k\<lparr>udp := u2\<rparr>) =
      (0, k\<lparr>loop := lp, udp := u2\<lparr>evio := e\<rparr>\<rparr>)"
    using init_ev_udp [of "c_ev_ok ce" lp Server_udp_recv "k\<lparr>udp := u2\<rparr>"] by auto
  show ?thesis
  proof (cases "0 \<le> r1 \<and> 0 \<le> c_connect ce \<and> 0 \<le> r2")
    case False
    have "\<exists>u. ret = -1 \<and> k' = k\<lparr>udp := fst (KcpevUdp_destroy u)\<rparr>"
      using assms(1) False b c by (simp add: connect_client_udp_def Let_def split_def split: if_splits) blast+
    then show ?thesis using destroy_udp by (auto simp: eng_ok_def)
  next
    case True
    then obtain kc where kc: "u2 = u1\<lparr>kcp := Some kc\<rparr>" "fresh (ucast (key_conv (key k))) kc"
      using create_kcp_fresh [OF c] by auto
    have "ret = 0" "k' = k\<lparr>loop := lp, udp := u2\<lparr>evio := e\<rparr>\<rparr>"
      using assms(1) True b c i by (simp_all add: connect_client_udp_def Let_def)
    then show ?thesis using kc by (simp add: fresh_def)
  qed
qed

lemma rcv_segs_kcp: "kcp (udp k') = kcp (udp k) \<Longrightarrow> rcv_segs k' = rcv_segs k"
  by (simp add: rcv_segs_def)

lemma server_shake_hand1_ok:
  assumes "uthash_ok T ent" and "server_inv ent w"
  shows "srv_cmd_ok ent w (server_shake_hand1 T env w d)"
proof (cases "length d = 16 \<and> ht_find T (hash (srv w)) d \<noteq> None")
  case False
  then show ?thesis using assms(2) by (auto simp: server_shake_hand1_def)
next
  case True
  then obtain c where c: "ht_find T (hash (srv w)) d = Some c" by blast
  then obtain k where k: "conns w c = Some k" "key k = d" using find_conn [OF assms, of d] by auto
  obtain ret k' out where r: "connect_client_udp (s_conn env) (loop (srv w)) k = (ret, k', out)"
    by (cases "connect_client_udp (s_conn env) (loop (srv w)) k") auto
  have e: "eng_ok (udp k)" using assms(2) k(1) by (auto simp: server_inv_def srv_conn_ok_def)
  note k' = connect_client_udp_ok [OF r e]
  have kept: "conn_kept (Some c = Some c) k k'" using k' by (simp add: conn_kept_def)
  have kept2: "conn_kept (Some c = Some c) k (k'\<lparr>udp := (udp k')\<lparr>status := 1\<rparr>\<rparr>)" using k' by (simp add: conn_kept_def)
  have l: "length (key k') \<le> 65528" using k' k(2) True by simp
  show ?thesis
    using True c k(1) r k' l srv_cmd_ok_put [OF assms(2) k(1) kept] srv_cmd_ok_put [OF assms(2) k(1) kept2]
    by (simp add: server_shake_hand1_def sock_send_command_ok)
qed

lemma create_timer_keeps:
  assumes "env_ok env"
  obtains ret k' where "check_create_kcp_timer env k cb = Some (ret, k')" and "conn_kept False k k'"
    and "eng_ok (udp k') = eng_ok (udp k)"
proof (cases "evt (udp k)")
  case (Some t)
  then show ?thesis using that by (simp add: check_create_kcp_timer_def)
next
  case None
  then show ?thesis
    using that assms by (auto simp: check_create_kcp_timer_def env_ok_def conn_kept_def rcv_segs_def)
qed

lemma conn_kept_status: "conn_kept reb k k' \<Longrightarrow> conn_kept reb k (k'\<lparr>udp := (udp k')\<lparr>status := s\<rparr>\<rparr>)"
  by (simp add: conn_kept_def rcv_segs_def)

lemma server_shake_hand2_ok:
  assumes "uthash_ok T ent" and "server_inv ent w" and "env_ok (s_sys env)"
  shows "srv_cmd_ok ent w (server_shake_hand2 T env w d)"
proof (cases "length d = 16 \<and> ht_find T (hash (srv w)) d \<noteq> None")
  case False
  then show ?thesis using assms(2) by (auto simp: server_shake_hand2_def)
next
  case True
  then obtain c where c: "ht_find T (hash (srv w)) d = Some c" by blast
  then obtain k where k: "conns w c = Some k" "key k = d" using find_conn [OF assms(1,2), of d] by auto
  have e: "eng_ok (udp k)" using assms(2) k(1) by (auto simp: server_inv_def srv_conn_ok_def)
  obtain ret k' where r: "check_create_kcp_timer (s_sys env) k On_server_heartbeat_timer = Some (ret, k')"
      "conn_kept (None = Some c) k k'" "eng_ok (udp k') = eng_ok (udp k)"
    by (rule create_timer_keeps [OF assms(3), of k On_server_heartbeat_timer]) auto
  show ?thesis
    using True c k(1) r(1,3) e assms(2) srv_cmd_ok_put [OF assms(2) k(1) r(2)]
      srv_cmd_ok_put [OF assms(2) k(1) conn_kept_status [OF r(2), of 2]]
    by (simp add: server_shake_hand2_def)
qed

lemma kcp_command_keeps:
  assumes "eng_ok (udp k)" and "is_kcp_valid k" and "env_ok env" and "length msg \<le> 65528"
  obtains ret k' where "kcp_send_command env k c msg = Some (ret, k')" and "conn_kept False k k'" and "eng_ok (udp k')"
proof -
  obtain kc where kc: "kcp (udp k) = Some kc" "kcp_inv kc" "output_cb kc"
    using assms(1) valid_kcp [OF assms(2)] by (auto simp: eng_ok_def)
  have f: "length (frame (pad_of env) c msg) \<le> 65536" "length (frame (pad_of env) c msg) = length msg + 8"
    using assms(4) by simp_all
  obtain ret kc' where s: "ikcp_send (send_mem env) kc (Some (frame (pad_of env) c msg)) (int (length (frame (pad_of env) c msg))) = Some (ret, kc')"
      "kcp_inv kc'" "output_cb kc'" "rcv_queue kc' = rcv_queue kc" "rcv_buf kc' = rcv_buf kc"
    by (rule engine_send [OF kc(2,3) assms(3) f(1)])
  show ?thesis
    by (rule that [of ret "k\<lparr>udp := (udp k)\<lparr>kcp := Some kc'\<rparr>\<rparr>"])
      (use s [unfolded f(2)] kc(1) assms(2,4) in \<open>simp_all add: kcp_send_command_ok conn_kept_def rcv_segs_def\<close>)
qed

lemma server_heartbeat1_ok:
  assumes "server_inv ent w" and "env_ok (s_sys env)" and "client = Some c \<Longrightarrow> conns w c \<noteq> None" and "client = None \<or> client = Some c"
  shows "srv_cmd_ok ent w (server_heartbeat1 env w client d)"
proof (cases "client = None \<or> (\<exists>k. conns w c = Some k \<and> (\<not> is_kcp_valid k \<or> length d \<noteq> 16 \<or> d \<noteq> key k))")
  case True
  then show ?thesis using assms by (auto simp: server_heartbeat1_def)
next
  case False
  then obtain k where k: "client = Some c" "conns w c = Some k" "is_kcp_valid k" "length d = 16" "d = key k"
    using assms(3,4) by auto
  have ok: "eng_ok (udp k)" "length (key k @ le_store64 (htobe64 (heart (udp k)))) \<le> 65528"
    using assms(1) k(2) by (auto simp: server_inv_def srv_conn_ok_def)
  obtain ret k' where r: "kcp_send_command (s_sys env) k COMMAND_HEARTBEAT1 (key k @ le_store64 (htobe64 (heart (udp k)))) = Some (ret, k')"
      "conn_kept (None = Some c) k k'" "eng_ok (udp k')"
    by (rule kcp_command_keeps [OF ok(1) k(3) assms(2) ok(2), of COMMAND_HEARTBEAT1]) auto
  show ?thesis
    using k r(1) srv_cmd_ok_put [OF assms(1) k(2) r(2,3)] by (simp add: server_heartbeat1_def Let_def)
qed

lemma server_heartbeat2_ok:
  assumes "server_inv ent w" and "client = Some c \<Longrightarrow> conns w c \<noteq> None" and "client = None \<or> client = Some c"
  shows "srv_cmd_ok ent w (server_heartbeat2 env w client d)"
proof (cases client)
  case None
  then show ?thesis using assms(1) by (simp add: server_heartbeat2_def)
next
  case (Some c')
  then obtain k where k: "client = Some c" "conns w c = Some k" using assms(2,3) by auto
  have e: "eng_ok (udp k)" using assms(1) k(2) by (auto simp: server_inv_def srv_conn_ok_def)
  have "conn_kept (None = Some c) k (k\<lparr>udp := (udp k)\<lparr>heart := h\<rparr>\<rparr>)" for h by (simp add: conn_kept_def rcv_segs_def)
  from srv_cmd_ok_put [OF assms(1) k(2) this] show ?thesis
    using k e assms(1) by (simp add: server_heartbeat2_def Let_def)
qed

text \<open>Any bytes of the size of the local buffers are handled.\<close>

lemma on_server_recv_ok:
  assumes "uthash_ok T ent" and "server_inv ent w" and "env_ok (s_sys env)" and "length d \<le> 65536"
    and "client = Some c \<Longrightarrow> conns w c \<noteq> None" and "client = None \<or> client = Some c"
  shows "srv_cmd_ok ent w (on_server_recv T env w client d)"
proof (cases "length d < 8")
  case True
  then show ?thesis using assms(2,4) u64_len [of d] by (simp add: on_server_recv_def word_less_nat_alt linorder_not_le)
next
  case False
  have l: "unat (of_nat (length d) :: u64) = length d" by (rule u64_len [OF assms(4)])
  have l8: "(8 :: u64) \<le> of_nat (length d)" using False l by (simp add: word_le_nat_alt)
  obtain h where h: "header_from_net d (of_nat (length d)) = Some (0, Some h)"
    by (rule header_from_net_total [of d "of_nat (length d)"]) (use l8 False in auto)
  have "srv_cb (srv w)" using assms(2) by (simp add: server_inv_def)
  then show ?thesis
    using l8 h assms(2) server_shake_hand1_ok [OF assms(1,2)] server_shake_hand2_ok [OF assms(1-3)]
      server_heartbeat1_ok [OF assms(2,3,5,6)] server_heartbeat2_ok [OF assms(2,5,6)]
    by (simp add: on_server_recv_def Let_def)
qed

section \<open>The receive loop\<close>

lemma world_kept_dom: "world_kept reb w w' \<Longrightarrow> dom (conns w') = dom (conns w)"
proof -
  assume a: "world_kept reb w w'"
  have "conns w' c = None \<longleftrightarrow> conns w c = None" for c
    using a [unfolded world_kept_def, THEN conjunct2, THEN spec, of c] by (auto split: option.splits)
  then show ?thesis by (auto simp: dom_def)
qed

text \<open>The control block the loop reads, and the state after it took a message out.\<close>

definition loop_kcp :: "IKCPCB option \<Rightarrow> Kcpev \<Rightarrow> IKCPCB \<Rightarrow> bool" where
  "loop_kcp old k kc \<longleftrightarrow> (case old of None \<Rightarrow> kcp (udp k) = Some kc | Some kc' \<Rightarrow> kc' = kc \<and> kcp_inv kc)"

definition loop_put :: "IKCPCB option \<Rightarrow> nat \<Rightarrow> Kcpev \<Rightarrow> IKCPCB \<Rightarrow> 'h world \<Rightarrow> IKCPCB option \<times> 'h world" where
  "loop_put old c k kc w =
     (case old of None \<Rightarrow> (None, put_conn c (k\<lparr>udp := (udp k)\<lparr>kcp := Some kc\<rparr>\<rparr>) w) | Some _ \<Rightarrow> (Some kc, w))"

lemma loop_put_ok:
  assumes "server_inv ent w" and "conns w c = Some k" and "loop_kcp old k kc" and "kcp_inv kc'" and "output_cb kc' = output_cb kc"
  obtains old' w' k' where "loop_put old c k kc' w = (old', w')" and "server_inv ent w'" and "srv w' = srv w"
    and "dom (conns w') = dom (conns w)" and "conns w' c = Some k'" and "loop_kcp old' k' kc'" and "old' = None \<longleftrightarrow> old = None"
proof (cases old)
  case None
  let ?k = "k\<lparr>udp := (udp k)\<lparr>kcp := Some kc'\<rparr>\<rparr>"
  have k: "srv_conn_ok k" "kcp (udp k) = Some kc" using assms(1-3) None by (auto simp: server_inv_def loop_kcp_def)
  then have "eng_ok ((udp k)\<lparr>kcp := Some kc'\<rparr>)" using assms(4,5) by (auto simp: srv_conn_ok_def eng_ok_def)
  then have "server_inv ent (put_conn c ?k w)"
    using server_inv_put [OF assms(1,2), of ?k] srv_conn_udp [OF k(1)] by simp
  then show ?thesis using that [of None "put_conn c ?k w" ?k] None assms(2) by (auto simp: loop_put_def loop_kcp_def)
next
  case (Some x)
  then show ?thesis using that [of "Some kc'" w k] assms by (auto simp: loop_put_def loop_kcp_def)
qed

lemma server_kcp_recv_step:
  assumes "conns w c = Some k" and "loop_kcp old k kc" and "ikcp_recv kc True 65536 = Some (len, d, kc')"
    and "loop_put old c k kc' w = (old', w')" and "length d \<le> 65536"
  shows "server_kcp_recv T (Suc fuel) i envs result c old w =
    (if \<not> len > 0 then Some (result, w', [])
     else do {
       c_assert (len < 65536);
       if s_peername (envs i) \<noteq> 0 then Some (s_peername (envs i), w', [])
       else do {
         (result, replaced, w, out) \<leftarrow> on_server_recv T (envs i) w' (Some c) d;
         if result \<noteq> 0 then Some (result, w, out)
         else do {
           (result, w, out2) \<leftarrow> server_kcp_recv T fuel (Suc i) envs result c
             (if old' = None \<and> replaced = Some c then Some kc' else old') w;
           Some (result, w, out @ out2)
         }
       }
     })"
proof -
  have "(case old of None \<Rightarrow> kcp (udp k) | Some kc \<Rightarrow> Some kc) = Some kc"
    using assms(2) by (auto simp: loop_kcp_def split: option.splits)
  then show ?thesis
    using assms(1,3,5) assms(4) [unfolded loop_put_def] unfolding server_kcp_recv.simps Let_def by simp
qed

lemma recv_small:
  assumes "kcp_inv kc" and "ikcp_recv kc True 65536 = Some (n, d, kc')" and "msgs_small (rcv_queue kc @ rcv_buf kc)"
  shows "msgs_small (rcv_queue kc' @ rcv_buf kc')" "d = [] \<longrightarrow> \<not> 0 < n"
    "d = [] \<or> n = int (length d) \<and> length d < 65536 \<and>
      length (rcv_queue kc' @ rcv_buf kc') < length (rcv_queue kc @ rcv_buf kc)"
proof -
  have "msgs_small (rcv_queue kc' @ rcv_buf kc') \<and> (d = [] \<longrightarrow> \<not> 0 < n) \<and> (d = [] \<or> n = int (length d) \<and> length d < 65536 \<and>
      length (rcv_queue kc' @ rcv_buf kc') < length (rcv_queue kc @ rcv_buf kc))"
    using recv_step [OF assms]
  proof (elim disjE conjE exE)
    fix c
    assume *: "n = int (length d)" "length d < 65536" "0 < c" "c \<le> length (rcv_queue kc)"
      "rcv_queue kc' @ rcv_buf kc' = drop c (rcv_queue kc @ rcv_buf kc)"
    have "length (drop c (rcv_queue kc @ rcv_buf kc)) < length (rcv_queue kc @ rcv_buf kc)" using *(3,4) by simp
    then show ?thesis unfolding *(5) using *(1,2) msgs_small_drop [OF assms(3)] by simp
  qed (use assms(3) in simp)
  then show "msgs_small (rcv_queue kc' @ rcv_buf kc')" "d = [] \<longrightarrow> \<not> 0 < n"
    "d = [] \<or> n = int (length d) \<and> length d < 65536 \<and>
      length (rcv_queue kc' @ rcv_buf kc') < length (rcv_queue kc @ rcv_buf kc)" by auto
qed

lemma server_kcp_recv_ok:
  assumes "uthash_ok T ent" and "server_inv ent w" and "\<And>i. env_ok (s_sys (envs i))" and "conns w c = Some k"
    and "loop_kcp old k kc" and "msgs_small (rcv_queue kc @ rcv_buf kc)" and "length (rcv_queue kc @ rcv_buf kc) < fuel"
  shows "\<exists>ret w' out. server_kcp_recv T fuel i envs res c old w = Some (ret, w', out) \<and> server_inv ent w' \<and> srv w' = srv w \<and>
    dom (conns w') = dom (conns w)"
  using assms(2-7)
proof (induction fuel arbitrary: w k kc i res old)
  case (Suc fuel)
  have inv: "kcp_inv kc"
    using Suc.prems(1,3,4) by (auto simp: loop_kcp_def server_inv_def srv_conn_ok_def eng_ok_def split: option.splits)
  obtain n d kc' where r: "ikcp_recv kc True 65536 = Some (n, d, kc')" using ikcp_recv_some by blast
  have inv': "kcp_inv kc'" "output_cb kc' = output_cb kc"
    using ikcp_recv_kcp_inv [OF inv r] recv_frame(1) [OF r] by (simp_all add: snd_shrinks_def)
  obtain old' w1 k1 where p: "loop_put old c k kc' w = (old', w1)" "server_inv ent w1" "srv w1 = srv w"
      "dom (conns w1) = dom (conns w)" "conns w1 c = Some k1" "loop_kcp old' k1 kc'" "old' = None \<longleftrightarrow> old = None"
    by (rule loop_put_ok [OF Suc.prems(1,3,4) inv'])
  note small = recv_small(1) [OF inv r Suc.prems(5)] recv_small(3) [OF inv r Suc.prems(5)] recv_small(2) [OF inv r Suc.prems(5)]
  have dl: "length d \<le> 65536" using small(2) by auto
  note step = server_kcp_recv_step [OF Suc.prems(3,4) r p(1) dl, of T fuel i envs res]
  show ?case
  proof (cases "d = [] \<or> s_peername (envs i) \<noteq> 0")
    case True
    then show ?thesis using step small(2,3) p(2-4) by (auto simp: c_assert_def)
  next
    case False
    obtain ret reb w2 out where o: "on_server_recv T (envs i) w1 (Some c) d = Some (ret, reb, w2, out)"
        "server_inv ent w2" "world_kept reb w1 w2"
      using on_server_recv_ok [OF assms(1) p(2) Suc.prems(2) dl, of "Some c" c i] p(5) by (auto simp: srv_cmd_ok_def)
    have keep: "srv w2 = srv w" "dom (conns w2) = dom (conns w)"
      using o(3) p(3,4) world_kept_dom [OF o(3)] by (auto simp: world_kept_def)
    obtain k2 where k2: "conns w2 c = Some k2" "conn_kept (reb = Some c) k1 k2" using world_kept_conn [OF o(3) p(5)] by blast
    let ?old = "if old' = None \<and> reb = Some c then Some kc' else old'"
    have "\<exists>kc2. loop_kcp ?old k2 kc2 \<and> rcv_queue kc2 @ rcv_buf kc2 = rcv_queue kc' @ rcv_buf kc'"
      using p(6) k2(2) inv' by (auto simp: loop_kcp_def conn_kept_def rcv_segs_def split: option.splits)
    then obtain kc2 where kc2: "loop_kcp ?old k2 kc2" "rcv_queue kc2 @ rcv_buf kc2 = rcv_queue kc' @ rcv_buf kc'" by blast
    have "\<exists>ret w' out. server_kcp_recv T fuel (Suc i) envs 0 c ?old w2 = Some (ret, w', out) \<and> server_inv ent w' \<and>
        srv w' = srv w2 \<and> dom (conns w') = dom (conns w2)"
      by (rule Suc.IH [OF o(2) Suc.prems(2) k2(1) kc2(1)]) (use kc2(2) small False Suc.prems(6) in auto)
    then show ?thesis
      using step False small(2) o(1,2) keep by (cases "ret = 0") auto
  qed
qed simp

text \<open>Whatever the messages are, the invariant holds if the loop returns.\<close>

lemma server_kcp_recv_inv:
  assumes "uthash_ok T ent" and "server_inv ent w" and "\<And>i. env_ok (s_sys (envs i))"
    and "old = None \<or> (\<exists>kc. old = Some kc \<and> kcp_inv kc)"
    and "server_kcp_recv T fuel i envs res c old w = Some (ret, w', out)"
  shows "server_inv ent w'"
  using assms(2-5)
proof (induction fuel arbitrary: w i res old ret out)
  case (Suc fuel)
  obtain k where k: "conns w c = Some k" using Suc.prems(4) by (cases "conns w c") auto
  then have ok: "srv_conn_ok k" using Suc.prems(1) by (auto simp: server_inv_def)
  have "\<exists>kc. loop_kcp old k kc"
    using Suc.prems(3,4) k by (cases old; cases "kcp (udp k)") (auto simp: loop_kcp_def c_assert_def)
  then obtain kc where kc: "loop_kcp old k kc" by blast
  have inv: "kcp_inv kc"
    using kc ok by (auto simp: loop_kcp_def srv_conn_ok_def eng_ok_def split: option.splits)
  obtain n d kc' where r: "ikcp_recv kc True 65536 = Some (n, d, kc')" using ikcp_recv_some by blast
  have inv': "kcp_inv kc'" "output_cb kc' = output_cb kc"
    using ikcp_recv_kcp_inv [OF inv r] recv_frame(1) [OF r] by (simp_all add: snd_shrinks_def)
  obtain old' w1 k1 where p: "loop_put old c k kc' w = (old', w1)" "server_inv ent w1" "conns w1 c = Some k1" "loop_kcp old' k1 kc'"
    by (rule loop_put_ok [OF Suc.prems(1) k kc inv'])
  have dl: "length d \<le> 65536"
    using Suc.prems(4) k kc r by (cases old) (auto simp: loop_kcp_def c_assert_def split: if_splits)
  note step = server_kcp_recv_step [OF k kc r p(1) dl, of T fuel i envs res]
  obtain ret2 reb w2 out2 where o: "on_server_recv T (envs i) w1 (Some c) d = Some (ret2, reb, w2, out2)" "server_inv ent w2"
    using on_server_recv_ok [OF assms(1) p(2) Suc.prems(2) dl, of "Some c" c i] p(3) by (auto simp: srv_cmd_ok_def)
  let ?old = "if old' = None \<and> reb = Some c then Some kc' else old'"
  have old: "?old = None \<or> (\<exists>kc. ?old = Some kc \<and> kcp_inv kc)"
    using p(4) inv' by (auto simp: loop_kcp_def split: option.splits)
  have "w' = w1 \<or> w' = w2 \<or> (\<exists>ret out. server_kcp_recv T fuel (Suc i) envs ret2 c ?old w2 = Some (ret, w', out))"
    using Suc.prems(4) unfolding step o(1)
    by (cases "n > 0"; cases "s_peername (envs i) = 0"; cases "ret2 = 0")
      (auto simp: c_assert_def outcome_simps simp del: server_kcp_recv.simps split: if_splits)
  then show ?case using p(2) o(2) Suc.IH [OF o(2) Suc.prems(2) old] by blast
qed simp

lemma server_try_kcp_recv_inv:
  assumes "uthash_ok T ent" and "server_inv ent w" and "\<And>i. env_ok (s_sys (envs i))"
    and "server_try_kcp_recv T envs c w = Some (ret, w', out)"
  shows "server_inv ent w'"
  using assms(4) server_kcp_recv_inv [where envs = envs, OF assms(1-3), of None]
  by (auto simp: server_try_kcp_recv_def outcome_simps)

lemma server_try_kcp_recv_ok:
  assumes "uthash_ok T ent" and "server_inv ent w" and "\<And>i. env_ok (s_sys (envs i))" and "conns w c = Some k"
    and "kcp (udp k) \<noteq> None" and "msgs_small (rcv_segs k)"
  shows "\<exists>ret w' out. server_try_kcp_recv T envs c w = Some (ret, w', out) \<and> server_inv ent w' \<and> srv w' = srv w \<and>
    dom (conns w') = dom (conns w)"
proof -
  obtain kc where kc: "kcp (udp k) = Some kc" using assms(5) by blast
  have "loop_kcp None k kc" "msgs_small (rcv_queue kc @ rcv_buf kc)" "length (rcv_queue kc @ rcv_buf kc) < kcp_recv_fuel k"
    using kc assms(6) by (simp_all add: loop_kcp_def rcv_segs_def kcp_recv_fuel_def)
  from server_kcp_recv_ok [where envs = envs, OF assms(1-4) this] show ?thesis
    using assms(4) by (simp add: server_try_kcp_recv_def)
qed

section \<open>The watchers and timers\<close>

lemma srv_rb_inv:
  assumes "server_inv ent w" and "conns w c = Some k" and "conn_pending (set_rb r k) bs"
  shows "server_inv ent (srv_rb c r w)"
proof -
  have "srv_conn_ok (set_rb r k)" using assms by (auto simp: server_inv_def srv_conn_ok_def)
  then show ?thesis using server_inv_put [OF assms(1,2), of "set_rb r k"] assms(2) by (simp add: srv_rb_def)
qed

lemma srv_handle_all_ok:
  assumes "uthash_ok T ent" and "server_inv ent w" and "\<And>i. env_ok (s_sys (envs i))" and "\<forall>d \<in> set ds. length d \<le> 65536"
    and "conns w c \<noteq> None"
  shows "\<exists>ok w' out. handle_all (server_frame T envs c) i ds w = Some (ok, w', out) \<and> server_inv ent w' \<and> srv w' = srv w"
  using assms(2-5)
proof (induction ds arbitrary: i w)
  case (Cons d ds)
  have d: "length d \<le> 65536" using Cons.prems(3) by simp
  have "srv_cmd_ok ent w (on_server_recv T (envs i) w (Some c) d)"
    by (rule on_server_recv_ok [OF assms(1) Cons.prems(1,2) d, of "Some c" c]) (use Cons.prems(4) in simp_all)
  then obtain ret reb w2 out where o: "on_server_recv T (envs i) w (Some c) d = Some (ret, reb, w2, out)"
      "server_inv ent w2" "world_kept reb w w2"
    by (auto simp: srv_cmd_ok_def)
  have c: "conns w2 c \<noteq> None" by (rule on_server_recv_conn [OF Cons.prems(4) o(1)])
  have "\<exists>ok w' out. handle_all (server_frame T envs c) (Suc i) ds w2 = Some (ok, w', out) \<and> server_inv ent w' \<and> srv w' = srv w2"
    by (rule Cons.IH [OF o(2) Cons.prems(2) _ c]) (use Cons.prems(3) in simp)
  moreover have "server_frame T envs c i d w = Some (ret, w2, out)" "srv w2 = srv w"
    using o(1,3) by (simp_all add: server_frame_def world_kept_def)
  ultimately show ?case using o(2) by (cases "ret = 0") auto
qed auto

lemma server_tcp_recv_ok:
  assumes "uthash_ok T ent" and "server_inv ent w" and "\<And>i. env_ok (s_sys (envs i))" and "conns w c = Some k"
    and "length buf = 65536" and "len \<le> 65536"
  shows "\<exists>w' out. server_tcp_recv T envs mem mem2 buf len c w = Some (w', out) \<and> server_inv ent w'"
proof (cases "0 < len")
  case False
  then show ?thesis using close_client_ok [OF assms(1,2,4)] by (auto simp: server_tcp_recv_def)
next
  case True
  then obtain n where n: "len = int n" "0 < n" "n \<le> 65536" using assms(6) zero_less_imp_eq_int by auto
  obtain bs where bs: "conn_pending k bs" using assms(2,4) by (auto simp: server_inv_def srv_conn_ok_def)
  have h: "\<exists>ok w' out. handle_all (server_frame T envs c) 0 ds w = Some (ok, w', out) \<and> server_inv ent w'"
    if "\<forall>d \<in> set ds. length d \<le> 65536" for ds
    using srv_handle_all_ok [where envs = envs, OF assms(1-3) that, of c 0] assms(4) by auto
  have "\<exists>ok w' out r k' bs'. tcp_recv (\<lambda>w. conns w c) (put_conn c) (server_frame T envs c) mem mem2 buf n w =
      Some (ok, with_rb (\<lambda>w. conns w c) (put_conn c) r w', out) \<and> server_inv ent w' \<and> conns w' c = Some k' \<and>
      conn_pending (set_rb r k') bs'"
    by (rule server.tcp_recv_total [OF assms(4) bs assms(5) n(3) h])
  then obtain ok w' out r k' bs' where t: "tcp_recv (\<lambda>w. conns w c) (put_conn c) (server_frame T envs c) mem mem2 buf n w =
      Some (ok, srv_rb c r w', out)" "server_inv ent w'" "conns w' c = Some k'" "conn_pending (set_rb r k') bs'"
    by (auto simp: with_rb_server)
  have inv: "server_inv ent (srv_rb c r w')" by (rule srv_rb_inv [OF t(2-4)])
  have "conns (srv_rb c r w') c = Some (set_rb r k')" using t(3) by (simp add: srv_rb_conn)
  from close_client_ok [OF assms(1) inv this] show ?thesis
    using n t(1) inv by (cases ok) (auto simp: server_tcp_recv_def)
qed

text \<open>What \<open>server_udp_recv\<close> does up to the loop over the messages.\<close>

lemma server_udp_recv_input:
  assumes "uthash_ok T ent" and "server_inv ent w" and "\<And>i. env_ok (s_sys (envs i))" and "conns w c = Some k"
    and "length buf = 65536" and "len \<le> 65536" and "ack_bound (2 ^ 29) k"
  shows "(\<exists>w' out. server_udp_recv T envs buf len c w = Some (w', out) \<and> server_inv ent w') \<or>
    (\<exists>kc r kc'. kcp (udp k) = Some kc \<and> is_kcp_valid k \<and>
      ikcp_input (input_mem (s_sys (envs 0))) kc (Some (take (nat len) buf)) len = Some (r, kc') \<and>
      server_inv ent (put_conn c (k\<lparr>udp := (udp k)\<lparr>kcp := Some kc'\<rparr>\<rparr>) w) \<and>
      server_udp_recv T envs buf len c w =
        do { (_, w', out) \<leftarrow> server_try_kcp_recv T envs c (put_conn c (k\<lparr>udp := (udp k)\<lparr>kcp := Some kc'\<rparr>\<rparr>) w); Some (w', out) })"
proof (cases "0 < len \<and> is_kcp_valid k")
  case False
  let ?d = "take (nat len) buf"
  have d: "fetch buf 0 (nat len) = Some ?d" "length ?d \<le> 65536" if "0 < len" using that assms(5,6) by (simp_all add: fetch_def)
  show ?thesis
  proof (cases "0 < len")
    case True
    have "srv_cmd_ok ent w (on_server_recv T (envs 0) w (Some c) ?d)"
      by (rule on_server_recv_ok [OF assms(1-3) d(2) [OF True], of "Some c" c]) (use assms(4) in simp_all)
    then show ?thesis using True False d(1) assms(2,4) by (auto simp: server_udp_recv_def srv_cmd_ok_def)
  qed (use assms(2) in \<open>simp add: server_udp_recv_def\<close>)
next
  case True
  let ?d = "take (nat len) buf"
  have d: "fetch buf 0 (nat len) = Some ?d" "length ?d \<le> 65536" "int (length ?d) = len" "?d \<noteq> []"
    using True assms(5,6) by (auto simp: fetch_def)
  have ok: "srv_conn_ok k" using assms(2,4) by (auto simp: server_inv_def)
  then obtain kc where kc: "kcp (udp k) = Some kc" "kcp_inv kc" "output_cb kc"
    using valid_kcp True by (auto simp: srv_conn_ok_def eng_ok_def)
  have cnt: "unat (ackcount kc) < 2 ^ 29" using assms(7) kc(1) by (simp add: ack_bound_def)
  obtain r kc' where i0: "ikcp_input (input_mem (s_sys (envs 0))) kc (Some ?d) (int (length ?d)) = Some (r, kc')"
      "input_step (\<lambda>_. True) kc kc'"
    by (rule engine_input [OF kc(2) assms(3) d(2) cnt d(4)])
  note i = i0 [unfolded d(3)]
  let ?k = "k\<lparr>udp := (udp k)\<lparr>kcp := Some kc'\<rparr>\<rparr>"
  have "eng_ok ((udp k)\<lparr>kcp := Some kc'\<rparr>)" using i(2) kc(3) by (simp add: input_step_def snd_shrinks_def)
  then have inv: "server_inv ent (put_conn c ?k w)"
    using server_inv_put [OF assms(2,4), of ?k] srv_conn_udp [OF ok] by simp
  then show ?thesis using True d(1) kc(1) i(1) assms(4) by (simp add: server_udp_recv_def)
qed

text \<open>The messages of a datagram do not fill the receive buffer.\<close>

definition quiet_input :: "(nat \<Rightarrow> srv_env) \<Rightarrow> byte list \<Rightarrow> int \<Rightarrow> Kcpev \<Rightarrow> bool" where
  "quiet_input envs buf len k \<longleftrightarrow>
     (\<forall>kc r kc'. kcp (udp k) = Some kc \<and> is_kcp_valid k \<and>
        ikcp_input (input_mem (s_sys (envs 0))) kc (Some (take (nat len) buf)) len = Some (r, kc') \<longrightarrow>
        msgs_small (rcv_queue kc' @ rcv_buf kc'))"

lemma server_udp_recv_ok:
  assumes "uthash_ok T ent" and "server_inv ent w" and "\<And>i. env_ok (s_sys (envs i))" and "conns w c = Some k"
    and "length buf = 65536" and "len \<le> 65536" and "ack_bound (2 ^ 29) k" and "quiet_input envs buf len k"
  shows "\<exists>w' out. server_udp_recv T envs buf len c w = Some (w', out) \<and> server_inv ent w'"
  using server_udp_recv_input [where envs = envs, OF assms(1-7)]
proof (elim disjE exE conjE)
  fix kc r kc'
  let ?k = "k\<lparr>udp := (udp k)\<lparr>kcp := Some kc'\<rparr>\<rparr>"
  assume *: "kcp (udp k) = Some kc" "is_kcp_valid k"
    "ikcp_input (input_mem (s_sys (envs 0))) kc (Some (take (nat len) buf)) len = Some (r, kc')"
    "server_inv ent (put_conn c ?k w)"
    "server_udp_recv T envs buf len c w = do { (_, w', out) \<leftarrow> server_try_kcp_recv T envs c (put_conn c ?k w); Some (w', out) }"
  have "msgs_small (rcv_segs ?k)" using assms(8) *(1-3) by (simp add: rcv_segs_def quiet_input_def)
  then show ?thesis using server_try_kcp_recv_ok [where envs = envs, OF assms(1) *(4) assms(3), of c ?k] *(5) by auto
qed auto

lemma server_on_timer_ok:
  assumes "uthash_ok T ent" and "server_inv ent w" and "\<And>i. env_ok (s_sys (envs i))" and "conns w c = Some k"
    and "evt (udp k) = Some t" and "kcp (udp k) = Some kc" and "unat (ackcount kc) < 2 ^ 31" and "msgs_small (rcv_segs k)"
  shows "\<exists>w' out. server_on_timer T envs c w = Some (w', out) \<and> server_inv ent w'"
proof -
  have ok: "srv_conn_ok k" using assms(2,4) by (auto simp: server_inv_def)
  then have kc: "kcp_inv kc" "output_cb kc" using assms(6) by (auto simp: srv_conn_ok_def eng_ok_def)
  obtain kc' t' outs where r: "kcpev_timer_repeat (s_sys (envs 0)) k =
      Some (k\<lparr>udp := (udp k)\<lparr>kcp := Some kc', evt := Some t'\<rparr>\<rparr>, map (udp_output (s_sys (envs 0)) (udp k)) outs)"
      "kcp_inv kc'" "output_cb kc'" "rcv_queue kc' = rcv_queue kc" "rcv_buf kc' = rcv_buf kc"
    by (rule timer_repeat_core [OF assms(6) kc assms(7,5), of "s_sys (envs 0)"])
  let ?k = "k\<lparr>udp := (udp k)\<lparr>kcp := Some kc', evt := Some t'\<rparr>\<rparr>"
  have "eng_ok ((udp k)\<lparr>kcp := Some kc', evt := Some t'\<rparr>)" using r(2,3) by simp
  then have inv: "server_inv ent (put_conn c ?k w)"
    using server_inv_put [OF assms(2,4), of ?k] srv_conn_udp [OF ok] by simp
  have "msgs_small (rcv_segs ?k)" using assms(6,8) r(4,5) by (simp add: rcv_segs_def)
  then show ?thesis
    using server_try_kcp_recv_ok [where envs = envs, OF assms(1) inv assms(3), of c ?k] r(1) assms(4)
    by (auto simp: server_on_timer_def)
qed

lemma server_heartbeat_ok:
  assumes "server_inv ent w" and "conns w c = Some k"
  shows "\<exists>w' out. on_server_heartbeat_timer env c w = Some (w', out) \<and> server_inv ent w'"
proof -
  have ok: "srv_conn_ok k" using assms by (auto simp: server_inv_def)
  have l: "length (key (set_kcp_invalid k)) \<le> 65528" using ok by (simp add: srv_conn_ok_def set_kcp_invalid_def)
  have "srv_conn_ok (set_kcp_invalid k)"
    using ok srv_conn_udp [OF ok, of "(udp k)\<lparr>status := 0\<rparr>"] by (simp add: set_kcp_invalid_def srv_conn_ok_def)
  then have "server_inv ent (put_conn c (set_kcp_invalid k) w)"
    using server_inv_put [OF assms, of "set_kcp_invalid k"] by (simp add: set_kcp_invalid_def)
  then show ?thesis
    using assms l by (auto simp: on_server_heartbeat_timer_def sock_send_command_ok Let_def)
qed

lemma server_send_ok:
  assumes "server_inv ent w" and "conns w c = Some k" and "env_ok env" and "length msg + 8 < 2 ^ 32"
  shows "\<exists>ret k' out. kcpev_send env k msg = Some (ret, k', out) \<and> server_inv ent (put_conn c k' w)"
proof (cases "length msg \<le> 65528 \<and> is_kcp_valid k")
  case True
  have ok: "srv_conn_ok k" using assms(1,2) by (auto simp: server_inv_def)
  obtain kc where kc: "kcp (udp k) = Some kc" "kcp_inv kc" "output_cb kc"
    using ok valid_kcp True by (auto simp: srv_conn_ok_def eng_ok_def)
  have f: "length (frame (pad_of env) 1 msg) \<le> 65536" "length (frame (pad_of env) 1 msg) = length msg + 8"
    using True by simp_all
  obtain ret kc' where s: "ikcp_send (send_mem env) kc (Some (frame (pad_of env) 1 msg)) (int (length (frame (pad_of env) 1 msg))) = Some (ret, kc')"
      "kcp_inv kc'" "output_cb kc'"
    by (rule engine_send [OF kc(2,3) assms(3) f(1)])
  have "srv_conn_ok (k\<lparr>udp := (udp k)\<lparr>kcp := Some kc'\<rparr>\<rparr>)" using srv_conn_udp [OF ok] s(2,3) by simp
  then show ?thesis
    using True kc(1) s(1) [unfolded f(2)] server_inv_put [OF assms(1,2)] by (simp add: kcpev_send_def kcpev_send_command_ok)
next
  case False
  have "server_inv ent (put_conn c k w)"
    using server_inv_put [OF assms(1,2), of k] assms(1,2) by (auto simp: server_inv_def)
  then show ?thesis
    using False assms(4) send_command_large [of msg]
    by (cases "length msg \<le> 65528") (auto simp: kcpev_send_def kcpev_send_command_ok Let_def)
qed

section \<open>Accepting and creating\<close>

text \<open>
  What the server relies on when a connection was accepted: the new structure has an address
  of its own, the new key is not in use, and nothing fails once it is in the table.
\<close>

definition accept_ok :: "accept_env \<Rightarrow> 'h world \<Rightarrow> bool" where
  "accept_ok e w \<longleftrightarrow>
     (\<forall>c. a_sock e > 0 \<and> a_nameinfo e = 0 \<and> a_at e = Some c \<longrightarrow>
       conns w c = None \<and> length (a_uuid e) = 16 \<and> (\<forall>c k. conns w c = Some k \<longrightarrow> key k \<noteq> a_uuid e) \<and> a_ev_ok e \<and>
       send_ret (a_sys e) (a_sock e) (frame (pad_of (a_sys e)) COMMAND_SHAKE_HAND1 (a_uuid e)) = 24)"

text \<open>The connection \<open>tcp_accept\<close> makes.\<close>

definition accepted :: "accept_env \<Rightarrow> nat \<Rightarrow> 'h world \<Rightarrow> Kcpev" where
  "accepted e c w = (the (kcpev_create True c))\<lparr>server := True, key := a_uuid e, loop := loop (srv w),
     tcp := \<lparr>sock = a_sock e, evio = Some Server_tcp_recv, tcp_rb = None\<rparr>\<rparr>"

lemma tcp_accept_new:
  assumes "a_sock e > 0" and "a_nameinfo e = 0" and "a_at e = Some c" and "a_ev_ok e" and "length (a_uuid e) = 16"
    and "send_ret (a_sys e) (a_sock e) (frame (pad_of (a_sys e)) COMMAND_SHAKE_HAND1 (a_uuid e)) = 24"
  shows "tcp_accept T e w =
    Some (put_conn c (accepted e c w) (set_hash (ht_add T (hash (srv w)) (a_uuid e) c) w),
      [Ev_send (a_sock e) (frame (pad_of (a_sys e)) COMMAND_SHAKE_HAND1 (a_uuid e)) 24])"
  using assms
  by (simp add: tcp_accept_def kcpev_create_def kcpev_init_ev_def kcpev_set_ev_def sock_send_command_ok accepted_def Let_def)

lemma accepted_fields [simp]:
  "key (accepted e c w) = a_uuid e" "server (accepted e c w)" "tcp_rb (tcp (accepted e c w)) = None"
  "kcp (udp (accepted e c w)) = None" "evt (udp (accepted e c w)) = None" "status (udp (accepted e c w)) = 0"
  by (simp_all add: accepted_def kcpev_create_def)

lemma accepted_ok: "length (a_uuid e) = 16 \<Longrightarrow> srv_conn_ok (accepted e c w)"
  by (simp add: srv_conn_ok_def conn_pending_def eng_ok_def)

lemma tcp_accept_ok:
  assumes "uthash_ok T ent" and "server_inv ent w" and "accept_ok e w"
  shows "\<exists>w' out. tcp_accept T e w = Some (w', out) \<and> server_inv ent w'"
proof (cases "a_sock e > 0 \<and> a_nameinfo e = 0 \<and> a_at e \<noteq> None")
  case False
  then show ?thesis using assms(2) by (auto simp: tcp_accept_def Let_def)
next
  case True
  then obtain c where c: "a_at e = Some c" by blast
  have a: "conns w c = None" "length (a_uuid e) = 16" "\<And>c k. conns w c = Some k \<Longrightarrow> key k \<noteq> a_uuid e" "a_ev_ok e"
    "send_ret (a_sys e) (a_sock e) (frame (pad_of (a_sys e)) COMMAND_SHAKE_HAND1 (a_uuid e)) = 24"
    using assms(3) True c by (auto simp: accept_ok_def)
  have t: "table_ok (ent (hash (srv w))) (conns w)" using assms(2) by (simp add: server_inv_def)
  have n: "a_uuid e \<notin> fst ` set (ent (hash (srv w)))" "c \<notin> snd ` set (ent (hash (srv w)))"
    using t a(1,3) by (force simp: table_ok_def)+
  have e: "ent (ht_add T (hash (srv w)) (a_uuid e) c) = ent (hash (srv w)) @ [(a_uuid e, c)]"
    using assms(1) by (simp add: uthash_ok_def)
  have "table_ok (ent (hash (srv w)) @ [(a_uuid e, c)]) ((conns w)(c \<mapsto> accepted e c w))"
    using t n a(1) by (auto simp: table_ok_def)
  moreover have "srv_conn_ok (accepted e c w)" by (rule accepted_ok [OF a(2)])
  ultimately have "server_inv ent (put_conn c (accepted e c w) (set_hash (ht_add T (hash (srv w)) (a_uuid e) c) w))"
    using assms(2) e by (simp add: server_inv_def)
  then show ?thesis using tcp_accept_new [OF _ _ c a(4,2,5), of T w] True by simp
qed

lemma server_udp_recv_all_ok:
  assumes "uthash_ok T ent" and "server_inv ent w" and "env_ok (s_sys env)" and "length buf = 65536" and "len < 65536"
  shows "\<exists>w' out. server_udp_recv_all T env buf len w = Some (w', out) \<and> server_inv ent w'"
proof (cases "0 < len")
  case False
  then show ?thesis using assms(2) by (simp add: server_udp_recv_all_def)
next
  case True
  have d: "fetch buf 0 (nat len) = Some (take (nat len) buf)" "length (take (nat len) buf) \<le> 65536"
    using True assms(4,5) by (simp_all add: fetch_def)
  have "srv_cmd_ok ent w (on_server_recv T env w None (take (nat len) buf))"
    by (rule on_server_recv_ok [OF assms(1-3) d(2), of None undefined]) simp_all
  then show ?thesis using True d(1) by (auto simp: server_udp_recv_all_def srv_cmd_ok_def)
qed

text \<open>Creation.\<close>

lemma bind_server_keeps: "kcpev_bind ta nm ua reuse s = (r, s', out) \<Longrightarrow> hash s' = hash s" for s :: "'h KcpevServer"
  by (auto simp: kcpev_bind_def Let_def split: prod.splits if_splits)

lemma init_ev_server_keeps: "kcpev_init_ev a b lp c d s = (r, s') \<Longrightarrow> hash s' = hash s" for s :: "'h KcpevServer"
  by (auto simp: kcpev_init_ev_def Let_def split: prod.splits if_splits option.splits)

lemma server_destroy_null:
  assumes "uthash_ok T ent" and "hash s = ht_null T"
  shows "\<exists>cs out. kcpev_server_destroy T \<lparr>srv = s, conns = (\<lambda>_. None)\<rparr> = Some (cs, out)"
proof -
  have "ht_iter T (ht_null T) = []" using assms(1) by (simp add: uthash_ok_def)
  then show ?thesis using assms(2) by (simp add: kcpev_server_destroy_def delete_hash_def split_def)
qed

lemma create_server_inv:
  assumes "uthash_ok T ent"
  shows "\<exists>res out. kcpev_create_server T e lp prt = Some (res, out) \<and>
    (\<forall>s. res = Some s \<longrightarrow> server_inv ent \<lparr>srv = kcpev_server_set_cb s True, conns = (\<lambda>_. None)\<rparr>)"
proof (cases "v_alloc e")
  case False
  then show ?thesis by (simp add: kcpev_create_server_def kcpev_server_create_def)
next
  case True
  then obtain s where s: "kcpev_server_create T (v_alloc e) = Some s" "hash s = ht_null T"
    by (simp add: kcpev_server_create_def)
  let ?s = "s\<lparr>port := take 10 (prt @ replicate 10 0)\<rparr>"
  obtain r1 s1 o1 where b: "kcpev_bind (v_tcp e) (v_names e) (v_udp e) True ?s = (r1, s1, o1)"
    by (cases "kcpev_bind (v_tcp e) (v_names e) (v_udp e) True ?s") auto
  obtain r2 s2 where i: "kcpev_init_ev (v_tcp_ev e) (v_udp_ev e) lp (Some Tcp_accept) (Some Server_udp_recv_all) s1 = (r2, s2)"
    by (cases "kcpev_init_ev (v_tcp_ev e) (v_udp_ev e) lp (Some Tcp_accept) (Some Server_udp_recv_all) s1") auto
  have h: "hash s1 = ht_null T" "hash s2 = ht_null T"
    using bind_server_keeps [OF b] init_ev_server_keeps [OF i] s(2) by simp_all
  have "ent (ht_null T) = []" using assms by (simp add: uthash_ok_def)
  then have "server_inv ent \<lparr>srv = kcpev_server_set_cb s2 True, conns = (\<lambda>_. None)\<rparr>"
    using h(2) by (simp add: server_inv_def table_ok_def kcpev_server_set_cb_def)
  then show ?thesis
    using s(1) b i server_destroy_null [OF assms h(1)] server_destroy_null [OF assms h(2)]
    by (auto simp: kcpev_create_server_def Let_def)
qed

section \<open>Calls that return\<close>

text \<open>
  As for the client, a call that returns keeps the invariant whether memory is available or not
  and whatever the messages are.
\<close>

lemma server_udp_recv_all_inv:
  assumes "server_udp_recv_all T env buf len w = Some (w', out)" and "uthash_ok T ent" and "server_inv ent w"
    and "length buf = 65536" and "len < 65536"
  shows "server_inv ent w'"
  using server_udp_recv_all_ok [OF assms(2,3) _ assms(4,5), of "srv_mem env"]
    below_Some [OF server_udp_recv_all_below assms(1)] by auto

lemma server_tcp_recv_inv:
  assumes "server_tcp_recv T envs mem mem2 buf len c w = Some (w', out)" and "uthash_ok T ent" and "server_inv ent w"
    and "conns w c = Some k" and "length buf = 65536" and "len \<le> 65536"
  shows "server_inv ent w'"
  using server_tcp_recv_ok [where envs = "\<lambda>i. srv_mem (envs i)", OF assms(2,3) _ assms(4-6), of mem mem2]
    below_Some [OF server_tcp_recv_below assms(1)] by auto

lemma server_udp_recv_inv:
  assumes "server_udp_recv T envs buf len c w = Some (w', out)" and "uthash_ok T ent" and "server_inv ent w"
    and "conns w c = Some k" and "length buf = 65536" and "len \<le> 65536" and "ack_bound (2 ^ 29) k"
  shows "server_inv ent w'"
proof -
  let ?envs = "\<lambda>i. srv_mem (envs i)"
  have run: "server_udp_recv T ?envs buf len c w = Some (w', out)" by (rule below_Some [OF server_udp_recv_below assms(1)])
  have e: "env_ok (s_sys (?envs i))" for i by simp
  show ?thesis
    using server_udp_recv_input [where envs = ?envs, OF assms(2,3) e assms(4-7)]
  proof (elim disjE exE conjE)
    fix kc kc'
    let ?w = "put_conn c (k\<lparr>udp := (udp k)\<lparr>kcp := Some kc'\<rparr>\<rparr>) w"
    assume *: "server_inv ent ?w"
      "server_udp_recv T ?envs buf len c w = do { (_, w', out) \<leftarrow> server_try_kcp_recv T ?envs c ?w; Some (w', out) }"
    obtain ret where "server_try_kcp_recv T ?envs c ?w = Some (ret, w', out)" using run [unfolded *(2)] by (auto simp: outcome_simps)
    then show ?thesis by (rule server_try_kcp_recv_inv [where envs = ?envs, OF assms(2) *(1) e])
  qed (use run in auto)
qed

lemma server_on_timer_inv:
  assumes "server_on_timer T envs c w = Some (w', out)" and "uthash_ok T ent" and "server_inv ent w"
    and "conns w c = Some k" and "ack_bound (2 ^ 29) k"
  shows "server_inv ent w'"
proof -
  let ?envs = "\<lambda>i. srv_mem (envs i)"
  have run: "server_on_timer T ?envs c w = Some (w', out)" by (rule below_Some [OF server_on_timer_below assms(1)])
  have e: "env_ok (s_sys (?envs i))" for i by simp
  obtain kc where kc: "kcp (udp k) = Some kc"
  proof (cases "kcp (udp k)")
    case None
    then have "server_on_timer T ?envs c w = None"
      using assms(4)
      by (simp add: server_on_timer_def kcpev_timer_repeat_def server_try_kcp_recv_def kcp_recv_fuel_def c_assert_def)
    then show ?thesis using run by simp
  qed
  have ok: "srv_conn_ok k" using assms(3,4) by (auto simp: server_inv_def)
  then have inv: "kcp_inv kc" "output_cb kc" using kc by (auto simp: srv_conn_ok_def eng_ok_def)
  have "evt (udp k) \<noteq> None"
    using run kc assms(4) by (auto simp: server_on_timer_def kcpev_timer_repeat_def Let_def outcome_simps)
  then obtain t where t: "evt (udp k) = Some t" by blast
  have a: "unat (ackcount kc) < 2 ^ 31" using assms(5) kc by (fastforce simp: ack_bound_def)
  obtain kc' t' outs where r: "kcpev_timer_repeat (s_sys (?envs 0)) k =
      Some (k\<lparr>udp := (udp k)\<lparr>kcp := Some kc', evt := Some t'\<rparr>\<rparr>, map (udp_output (s_sys (?envs 0)) (udp k)) outs)"
      "kcp_inv kc'" "output_cb kc'"
    by (rule timer_repeat_core [OF kc inv a t, of "s_sys (?envs 0)"])
  let ?w = "put_conn c (k\<lparr>udp := (udp k)\<lparr>kcp := Some kc', evt := Some t'\<rparr>\<rparr>) w"
  have "eng_ok ((udp k)\<lparr>kcp := Some kc', evt := Some t'\<rparr>)" using r(2,3) by simp
  then have "server_inv ent ?w"
    using server_inv_put [OF assms(3,4)] srv_conn_udp [OF ok] by simp
  moreover obtain ret out2 where "server_try_kcp_recv T ?envs c ?w = Some (ret, w', out2)"
    using run r(1) assms(4) by (auto simp: server_on_timer_def outcome_simps)
  ultimately show ?thesis using server_try_kcp_recv_inv [where envs = ?envs, OF assms(2) _ e] by blast
qed

lemma server_send_inv:
  assumes "kcpev_send env k msg = Some (r, k', out)" and "server_inv ent w" and "conns w c = Some k"
  shows "server_inv ent (put_conn c k' w)"
proof (cases "length msg \<le> 65528")
  case True
  then have "length msg + 8 < 2 ^ 32" by simp
  then show ?thesis
    using server_send_ok [OF assms(2,3) env_ok_all_mem, of msg env] below_Some [OF kcpev_send_below assms(1)] by auto
next
  case False
  then have "k' = k" using assms(1) send_command_large [of msg] by (auto simp: kcpev_send_def split: if_splits)
  moreover have "srv_conn_ok k" using assms(2,3) by (auto simp: server_inv_def)
  ultimately show ?thesis using server_inv_put [OF assms(2,3) refl] by simp
qed

section \<open>The transition system\<close>

text \<open>
  A step of the server process is a call that returns. The buffers are the local arrays and fewer
  than \<open>2^29\<close> acknowledgements are pending, as for the client. A connection is accepted with a new
  address and a new key, and nothing fails between \<open>HASH_ADD\<close> and the end of \<open>tcp_accept\<close>; accepts that
  fail before are steps. The allocations, what arrives, from whom and in which order are arbitrary.
\<close>

inductive server_step :: "'h uthash \<Rightarrow> 'h world \<Rightarrow> 'h world \<Rightarrow> bool" for T where
  accept: "accept_ok e w \<Longrightarrow> tcp_accept T e w = Some (w', out) \<Longrightarrow> server_step T w w'"
| udp_all: "length buf = 65536 \<Longrightarrow> len < 65536 \<Longrightarrow> server_udp_recv_all T env buf len w = Some (w', out) \<Longrightarrow> server_step T w w'"
| tcp: "conns w c = Some k \<Longrightarrow> length buf = 65536 \<Longrightarrow> len \<le> 65536 \<Longrightarrow>
    server_tcp_recv T envs mem mem2 buf len c w = Some (w', out) \<Longrightarrow> server_step T w w'"
| udp: "conns w c = Some k \<Longrightarrow> length buf = 65536 \<Longrightarrow> len \<le> 65536 \<Longrightarrow> ack_bound (2 ^ 29) k \<Longrightarrow>
    server_udp_recv T envs buf len c w = Some (w', out) \<Longrightarrow> server_step T w w'"
| timer: "conns w c = Some k \<Longrightarrow> ack_bound (2 ^ 29) k \<Longrightarrow> server_on_timer T envs c w = Some (w', out) \<Longrightarrow> server_step T w w'"
| heartbeat: "conns w c = Some k \<Longrightarrow> on_server_heartbeat_timer env c w = Some (w', out) \<Longrightarrow> server_step T w w'"
| send: "conns w c = Some k \<Longrightarrow> kcpev_send env k msg = Some (r, k', out) \<Longrightarrow> server_step T w (put_conn c k' w)"

lemma server_step_inv:
  assumes "uthash_ok T ent"
  shows "server_step T w w' \<Longrightarrow> server_inv ent w \<Longrightarrow> server_inv ent w'"
proof (induction rule: server_step.induct)
  case (accept e w w' out)
  then show ?case using tcp_accept_ok [OF assms accept.prems accept.hyps(1)] by auto
next
  case (heartbeat w c k env w' out)
  then show ?case using server_heartbeat_ok [OF heartbeat.prems heartbeat.hyps(1), of env] by auto
qed (auto intro: server_udp_recv_all_inv server_tcp_recv_inv server_udp_recv_inv server_on_timer_inv server_send_inv assms)

text \<open>The timer of the engine can drive the connection: it has an engine, and no message fills the receive buffer.\<close>

definition timer_ready :: "Kcpev \<Rightarrow> bool" where
  "timer_ready k \<longleftrightarrow> evt (udp k) \<noteq> None \<and> msgs_small (rcv_segs k) \<and>
     (\<exists>kc. kcp (udp k) = Some kc \<and> unat (ackcount kc) < 2 ^ 31)"

lemma server_timer_ready:
  assumes "uthash_ok T ent" and "server_inv ent w" and "\<And>i. env_ok (s_sys (envs i))" and "conns w c = Some k" and "timer_ready k"
  shows "\<exists>w' out. server_on_timer T envs c w = Some (w', out) \<and> server_inv ent w'"
proof -
  obtain t kc where "evt (udp k) = Some t" "kcp (udp k) = Some kc" "unat (ackcount kc) < 2 ^ 31" "msgs_small (rcv_segs k)"
    using assms(5) by (auto simp: timer_ready_def)
  then show ?thesis using server_on_timer_ok [where envs = envs, OF assms(1-4)] by blast
qed

text \<open>Accepting returns also when a call fails, with a key of 16 bytes.\<close>

lemma tcp_accept_defined: "length (a_uuid e) = 16 \<Longrightarrow> tcp_accept T e w \<noteq> None"
  by (cases "a_at e") (auto simp: tcp_accept_def kcpev_create_def kcpev_init_ev_def sock_send_command_ok Let_def split: prod.splits)

section \<open>Properties\<close>

text \<open>
  C7: in every state a server can reach, from \<open>kcpev_create_server\<close> and \<open>kcpev_server_set_cb\<close> on, by
  calls that return, the table is exact: \<open>HASH_FIND\<close> finds every live connection under its key and
  nothing else, so no entry dangles; and every control block is well-formed. The accepts take a new
  address and a new key and do not fail once the entry is in the table: C37 shows that such a
  failure leaves an entry that dangles. Fewer than \<open>2^29\<close> acknowledgements of a connection are pending when its UDP
  socket or its engine timer calls the engine.
\<close>

theorem server_reachable:
  assumes "uthash_ok T ent" and "kcpev_create_server T e lp prt = Some (Some s, out)"
    and "(server_step T)\<^sup>*\<^sup>* \<lparr>srv = kcpev_server_set_cb s True, conns = (\<lambda>_. None)\<rparr> w"
  shows "(\<forall>c k. conns w c = Some k \<longrightarrow> ht_find T (hash (srv w)) (key k) = Some c \<and> length (key k) = 16 \<and>
      (\<forall>kc. kcp (udp k) = Some kc \<longrightarrow> kcp_inv kc)) \<and>
    (\<forall>ky c. ht_find T (hash (srv w)) ky = Some c \<longrightarrow> (\<exists>k. conns w c = Some k \<and> key k = ky))"
proof -
  have inv: "server_inv ent w" using assms(3)
  proof (induction rule: rtranclp_induct)
    case base
    show ?case using create_server_inv [OF assms(1), of e lp prt] assms(2) by auto
  next
    case (step y z)
    show ?case by (rule server_step_inv [OF assms(1) step.hyps(2) step.IH])
  qed
  have found: "\<exists>k. conns w c = Some k \<and> key k = ky" if "ht_find T (hash (srv w)) ky = Some c" for ky c
    using find_conn [OF assms(1) inv, of ky] that by simp
  have "ht_find T (hash (srv w)) (key k) = Some c" if k: "conns w c = Some k" for c k
    by (rule find_live [OF assms(1) inv k])
  then show ?thesis using inv found by (auto simp: server_inv_def srv_conn_ok_def eng_ok_def)
qed

text \<open>A table as an association list, a server and one accepted connection.\<close>

definition list_table :: "(byte list \<times> nat) list uthash" where
  "list_table = \<lparr>ht_null = [], ht_find = map_of, ht_add = (\<lambda>h ky c. h @ [(ky, c)]),
     ht_del = (\<lambda>h c. filter (\<lambda>e. snd e \<noteq> c) h), ht_iter = map snd\<rparr>"

lemma list_table_ok: "uthash_ok list_table (\<lambda>h. h)"
  by (auto simp: uthash_ok_def list_table_def map_of_eq_None_iff dest: map_of_SomeD split: option.splits)

definition demo_server :: "(byte list \<times> nat) list KcpevServer" where
  "demo_server = the (fst (the (kcpev_create_server list_table
     \<lparr>v_alloc = True, v_tcp = Some [\<lparr>t_socket = 3, t_setsockopt = 0, t_bind = 0\<rparr>], v_names = (0, 0),
       v_udp = Some [\<lparr>t_socket = 4, t_setsockopt = 0, t_bind = 0\<rparr>], v_tcp_ev = True, v_udp_ev = True, v_listen = 0\<rparr> 1 [56, 48])))"

lemma demo_server_eq:
  "kcpev_create_server list_table
     \<lparr>v_alloc = True, v_tcp = Some [\<lparr>t_socket = 3, t_setsockopt = 0, t_bind = 0\<rparr>], v_names = (0, 0),
       v_udp = Some [\<lparr>t_socket = 4, t_setsockopt = 0, t_bind = 0\<rparr>], v_tcp_ev = True, v_udp_ev = True, v_listen = 0\<rparr> 1 [56, 48] =
   Some (Some demo_server, [])"
  by (simp add: demo_server_def kcpev_create_server_def kcpev_server_create_def kcpev_bind_def
      kcpev_bind_socket_def kcpev_init_ev_def kcpev_set_ev_def kcpev_listen_def)

definition demo_world :: "(byte list \<times> nat) list world" where
  "demo_world = \<lparr>srv = kcpev_server_set_cb demo_server True, conns = (\<lambda>_. None)\<rparr>"

definition demo_accept :: accept_env where
  "demo_accept = \<lparr>a_sock = 7, a_nameinfo = 0, a_at = Some 1, a_uuid = replicate 15 0 @ [9], a_ev_ok = True, a_sys = demo_env\<rparr>"

definition demo_world1 :: "(byte list \<times> nat) list world" where
  "demo_world1 = put_conn 1 (accepted demo_accept 1 demo_world)
     (set_hash (ht_add list_table (hash (srv demo_world)) (replicate 15 0 @ [9]) 1) demo_world)"

lemma demo_accept_eq: "tcp_accept list_table demo_accept demo_world =
  Some (demo_world1, [Ev_send 7 (frame (pad_of demo_env) COMMAND_SHAKE_HAND1 (replicate 15 0 @ [9])) 24])"
  using tcp_accept_new [of demo_accept 1 list_table demo_world]
  by (simp add: demo_accept_def demo_world1_def demo_env_def del: replicate.simps)

lemma demo_world_inv: "server_inv (\<lambda>h. h) demo_world"
proof -
  obtain res out where "kcpev_create_server list_table
     \<lparr>v_alloc = True, v_tcp = Some [\<lparr>t_socket = 3, t_setsockopt = 0, t_bind = 0\<rparr>], v_names = (0, 0),
       v_udp = Some [\<lparr>t_socket = 4, t_setsockopt = 0, t_bind = 0\<rparr>], v_tcp_ev = True, v_udp_ev = True, v_listen = 0\<rparr> 1 [56, 48] =
     Some (res, out)"
    "\<forall>s. res = Some s \<longrightarrow> server_inv (\<lambda>h. h) \<lparr>srv = kcpev_server_set_cb s True, conns = (\<lambda>_. None)\<rparr>"
    using create_server_inv [OF list_table_ok] by blast
  then show ?thesis using demo_server_eq by (simp add: demo_world_def)
qed

lemma demo_accept_ok: "accept_ok demo_accept demo_world"
  by (simp add: accept_ok_def demo_accept_def demo_world_def demo_env_def)

lemma demo_world1_inv: "server_inv (\<lambda>h. h) demo_world1"
  using tcp_accept_ok [OF list_table_ok demo_world_inv demo_accept_ok] demo_accept_eq by simp

lemma demo_server_step: "server_step list_table demo_world demo_world1"
  by (rule server_step.accept [OF demo_accept_ok demo_accept_eq])

theorem server_reachable_witness:
  "uthash_ok list_table (\<lambda>h. h) \<and> server_step list_table demo_world demo_world1 \<and>
   ht_find list_table (hash (srv demo_world1)) (replicate 15 0 @ [9]) = Some 1"
proof -
  have c: "conns demo_world1 1 = Some (accepted demo_accept 1 demo_world)" by (simp add: demo_world1_def)
  have k: "key (accepted demo_accept 1 demo_world) = replicate 15 0 @ [9]" by (simp add: demo_accept_def)
  have "ht_find list_table (hash (srv demo_world1)) (key (accepted demo_accept 1 demo_world)) = Some 1"
    using server_reachable [OF list_table_ok demo_server_eq r_into_rtranclp [of "server_step list_table",
      OF demo_server_step [unfolded demo_world_def]]] c by blast
  then show ?thesis unfolding k using list_table_ok demo_server_step by simp
qed


definition demo_srv_env :: srv_env where
  "demo_srv_env = \<lparr>s_sys = demo_env, s_nameinfo = 0, s_peername = 0,
     s_conn = \<lparr>c_addrs = Some [\<lparr>t_socket = 8, t_setsockopt = 0, t_bind = 0\<rparr>], c_connect = 0, c_kcp_ok = True,
       c_buf_ok = True, c_ev_ok = True\<rparr>\<rparr>"

lemma demo_srv_env_fields [simp]: "s_sys demo_srv_env = demo_env" "s_nameinfo demo_srv_env = 0" "s_peername demo_srv_env = 0"
  by (simp_all add: demo_srv_env_def)


section \<open>Destruction\<close>

text \<open>The sockets that destroying a connection or the server closes.\<close>

definition closes :: "'a KcpevBase_scheme \<Rightarrow> event list" where
  "closes k = map Ev_close (filter (\<lambda>s. s \<noteq> 0) [sock (tcp k), sock (udp k)])"

lemma tcp_destroy_out: "snd (KcpevTcp_destroy t) = map Ev_close (filter (\<lambda>s. s \<noteq> 0) [sock t])"
  by (simp add: KcpevTcp_destroy_def KcpevSock_destroy_def Let_def)

lemma udp_destroy_out: "snd (KcpevUdp_destroy u) = map Ev_close (filter (\<lambda>s. s \<noteq> 0) [sock u])"
  by (simp add: KcpevUdp_destroy_def KcpevSock_destroy_def Let_def)

lemma destroy_closes: "snd (KcpevTcp_destroy (tcp k)) @ snd (KcpevUdp_destroy (udp k)) = closes k"
  by (simp add: tcp_destroy_out udp_destroy_out closes_def)

lemma delete_loop_ok:
  assumes "uthash_ok T ent"
  shows "server_inv ent w \<Longrightarrow> map snd (ent (hash (srv w))) = cs \<Longrightarrow>
    \<exists>w'. delete_loop T cs w = Some (w', concat (map (\<lambda>c. closes (the (conns w c))) cs)) \<and> conns w' = (\<lambda>_. None)"
proof (induction cs arbitrary: w)
  case Nil
  have "conns w c = None" for c
  proof (cases "conns w c")
    case (Some k)
    then have "(key k, c) \<in> set (ent (hash (srv w)))" using Nil.prems(1) by (simp add: server_inv_def table_ok_def)
    then show ?thesis using Nil.prems(2) by simp
  qed
  then show ?case by auto
next
  case (Cons c cs)
  have t: "table_ok (ent (hash (srv w))) (conns w)" using Cons.prems(1) by (simp add: server_inv_def)
  obtain ky es where es: "ent (hash (srv w)) = (ky, c) # es" "map snd es = cs" using Cons.prems(2) by auto
  then have "(ky, c) \<in> set (ent (hash (srv w)))" by simp
  then obtain k where k: "conns w c = Some k" using t unfolding table_ok_def by blast
  obtain w1 where w1: "close_client T c w = Some (w1, kcpev_destroy k)" "server_inv ent w1" "conns w1 = (conns w)(c := None)"
      "hash (srv w1) = ht_del T (hash (srv w)) c"
    using close_client_ok [OF assms Cons.prems(1) k] k by (auto simp: close_client_def)
  have c: "c \<notin> set cs" using t es by (auto simp: table_ok_def)
  then have "filter (\<lambda>e. snd e \<noteq> c) es = es" using es(2) by (force simp: filter_id_conv)
  then have "map snd (ent (hash (srv w1))) = cs" using assms es w1(4) by (simp add: uthash_ok_def)
  then obtain w' where w': "delete_loop T cs w1 = Some (w', concat (map (\<lambda>c. closes (the (conns w1 c))) cs))"
      "conns w' = (\<lambda>_. None)"
    using Cons.IH [OF w1(2)] by blast
  have m: "map (\<lambda>c. closes (the (conns w1 c))) cs = map (\<lambda>c. closes (the (conns w c))) cs"
    using c w1(3) by (intro map_cong) auto
  show ?case
    using w1(1) w'(2) w'(1) [unfolded m] k destroy_closes [of k] by (simp add: kcpev_destroy_def del: map_eq_conv)
qed

text \<open>
  C36: destroying the server closes its own sockets and then those of every live connection, each
  once, and frees all of them.
\<close>

theorem server_destroyed:
  assumes "uthash_ok T ent" and "server_inv ent w"
  shows "\<exists>cs. distinct cs \<and> set cs = dom (conns w) \<and>
    kcpev_server_destroy T w = Some (\<lambda>_. None, closes (srv w) @ concat (map (\<lambda>c. closes (the (conns w c))) cs))"
proof -
  let ?cs = "ht_iter T (hash (srv w))"
  have cs: "?cs = map snd (ent (hash (srv w)))" using assms(1) by (simp add: uthash_ok_def)
  have t: "table_ok (ent (hash (srv w))) (conns w)" using assms(2) by (simp add: server_inv_def)
  have "c \<in> set ?cs \<longleftrightarrow> c \<in> dom (conns w)" for c
    using t unfolding cs table_ok_def by (force simp: image_iff)
  then have "distinct ?cs" "set ?cs = dom (conns w)" using t cs by (auto simp: table_ok_def)
  moreover obtain w' where "delete_loop T ?cs w = Some (w', concat (map (\<lambda>c. closes (the (conns w c))) ?cs))"
      "conns w' = (\<lambda>_. None)"
    using delete_loop_ok [OF assms] cs by metis
  then have "kcpev_server_destroy T w = Some (\<lambda>_. None, closes (srv w) @ concat (map (\<lambda>c. closes (the (conns w c))) ?cs))"
    using destroy_closes [of "srv w"] by (simp add: kcpev_server_destroy_def delete_hash_def Let_def split_def)
  ultimately show ?thesis by blast
qed

theorem server_destroyed_witness:
  "server_inv (\<lambda>h. h) demo_world1 \<and>
   (\<exists>out. kcpev_server_destroy list_table demo_world1 = Some (\<lambda>_. None, out) \<and>
     set out = set (closes (srv demo_world1)) \<union> {Ev_close (a_sock demo_accept)})"
proof -
  have d: "conns demo_world1 = [1 \<mapsto> accepted demo_accept 1 demo_world]"
    by (simp add: demo_world1_def demo_world_def put_conn_def set_hash_def)
  have "closes (accepted demo_accept 1 demo_world) = [Ev_close (a_sock demo_accept)]"
    by (simp add: closes_def demo_accept_def accepted_def kcpev_create_def)
  moreover obtain cs where "set cs = {1}"
      "kcpev_server_destroy list_table demo_world1 = Some (\<lambda>_. None, closes (srv demo_world1) @ concat (map (\<lambda>c. closes (the (conns demo_world1 c))) cs))"
    using server_destroyed [OF list_table_ok demo_world1_inv] unfolding d by auto
  ultimately show ?thesis using demo_world1_inv d by auto
qed

end
