(* ===== verification/Kcpev_Link.thy ===== *)
theory Kcpev_Link
  imports Kcpev_Session Complex_Main
begin

text \<open>
  What the session layer promises its user (\<open>src/src/kcpev.c\<close>): no input leads to an
  undefined outcome, a message is sent over the transport that works, the handshake makes the
  KCP connection usable, missing heartbeats make it unusable again, and the timer that drives
  the engine never stops. The last property shows the one message size for which the
  receiving loop leaves its buffer.
\<close>

section \<open>A frame in the send queue\<close>

lemma queue_frame:
  assumes inv: "kcp_inv kc" and "length msg \<le> 65528" and "\<And>j. send_mem env j \<noteq> None"
    and n: "frag_count (unat (mss kc)) (length msg + 8) \<le> 255"
  obtains kc' where "ikcp_send (send_mem env) kc (Some (frame (pad_of env) c msg)) (int (length msg + 8)) = Some (0, kc')"
    and "kcp_inv kc'" and "snd_queue kc' = snd_queue kc @ queued kc kc'"
    and "concat (map sg_data (queued kc kc')) = frame (pad_of env) c msg"
    and "length (queued kc kc') = frag_count (unat (mss kc)) (length msg + 8)"
proof -
  define f where "f = frame (pad_of env) c msg"
  have l: "length f = length msg + 8" by (simp add: f_def)
  have m: "0 < unat (mss kc)" "unat (mss kc) < 2 ^ 31" using conf_mss [OF kcp_invD(4) [OF inv]] by simp_all
  have b: "length f < 2 ^ 31" using assms(2) l by simp
  have nf: "frag_count (unat (mss kc)) (length f) \<le> 255" using n unfolding l .
  let ?q = "frag_segs (send_mem env) 0 (pieces (unat (mss kc)) (frag_count (unat (mss kc)) (length f)) f)"
  obtain kc2 where kc2: "kc2 = kc\<lparr>snd_queue := snd_queue kc @ ?q,
    nsnd_que := nsnd_que kc + of_nat (frag_count (unat (mss kc)) (length f))\<rparr>" by simp
  have s: "ikcp_send (send_mem env) kc (Some f) (int (length f)) = Some (0, kc2)"
    unfolding kc2 by (rule ikcp_send_ok [where mem = "send_mem env", OF assms(3) m b nf])
  have "kcp_inv kc2" by (rule send_frame(1) [where mem = "send_mem env", OF inv assms(3) b s])
  moreover have "snd_queue kc2 = snd_queue kc @ queued kc kc2" "concat (map sg_data (queued kc kc2)) = f"
    "length (queued kc kc2) = frag_count (unat (mss kc)) (length f)"
    unfolding kc2 by (simp_all add: queued_def sg_data_frag_segs concat_pieces [OF frag_count_covers [OF m(1)]])
  ultimately show ?thesis using that [of kc2] s unfolding l unfolding f_def by simp
qed

text \<open>The segment size of a connection is large enough for every frame.\<close>

lemma frag_count_frame:
  assumes "258 \<le> m" and "n \<le> 65528"
  shows "frag_count m (n + 8) \<le> 255"
proof -
  have "n + 8 + m - 1 < 256 * m" using assms by simp
  then have "(n + 8 + m - 1) div m < 256" by (simp add: less_mult_imp_div_less)
  then show ?thesis by (simp add: frag_count_def)
qed

lemma frag_count_le: "0 < m \<Longrightarrow> 0 < n \<Longrightarrow> frag_count m n \<le> n"
proof -
  assume "0 < m" "0 < n"
  then have "n + m - 1 < (n + 1) * m" by (cases m) auto
  then have "(n + m - 1) div m < n + 1" by (simp add: less_mult_imp_div_less)
  then show ?thesis using \<open>0 < n\<close> by (simp add: frag_count_def)
qed

section \<open>Properties\<close>

text \<open>
  C11: when the allocations succeed, no handler of a client has an undefined outcome in a state
  with the client invariant, whatever bytes and sizes arrive, whatever the clock and \<open>send\<close> return: no
  assertion fails, nothing is read or written outside an array and every loop ends. Payloads of
  the user are below 4 GiB. The two handlers that read from the engine, that of the UDP socket and
  the engine timer, are called with fewer than \<open>2^29\<close> and \<open>2^31\<close> acknowledgements pending, and no message among
  the segments they read from, for a datagram those received after its input, fills the receive buffer.
\<close>

theorem client_defined:
  assumes "conn_inv k" and "\<And>i. env_ok (envs i)" and "length buf = 65536" and "len \<le> 65536"
  shows "client_tcp_recv envs mem mem2 buf len k \<noteq> None \<and> on_client_heartbeat_timer (envs 0) k \<noteq> None \<and>
    (length msg + 8 < 2 ^ 32 \<longrightarrow> kcpev_send (envs 0) k msg \<noteq> None \<and> kcpev_send_tcp (envs 0) k msg \<noteq> None) \<and>
    (ack_bound (2 ^ 29) k \<and>
      (\<forall>kc r kc'. kcp (udp k) = Some kc \<and> is_kcp_valid k \<and>
        ikcp_input (input_mem (envs 0)) kc (Some (take (nat len) buf)) len = Some (r, kc') \<longrightarrow>
        msgs_small (rcv_queue kc' @ rcv_buf kc')) \<longrightarrow> client_udp_recv envs buf len k \<noteq> None) \<and>
    (evt (udp k) \<noteq> None \<and> ack_bound (2 ^ 31) k \<and> msgs_small (rcv_segs k) \<longrightarrow> client_on_timer envs k \<noteq> None)"
proof (intro conjI impI)
  show "client_tcp_recv envs mem mem2 buf len k \<noteq> None"
    using client_tcp_recv_ok [where envs = envs, OF assms, of mem mem2] by auto
  show "on_client_heartbeat_timer (envs 0) k \<noteq> None" using client_heartbeat_ok [OF assms(1) assms(2) [of 0]] by auto
  show "kcpev_send (envs 0) k msg \<noteq> None" if "length msg + 8 < 2 ^ 32"
    using client_send_ok(1) [OF assms(1) assms(2) [of 0] that] by auto
  show "kcpev_send_tcp (envs 0) k msg \<noteq> None" if "length msg + 8 < 2 ^ 32"
    using client_send_ok(2) [OF assms(1) assms(2) [of 0] that] by auto
  show "client_udp_recv envs buf len k \<noteq> None"
    if "ack_bound (2 ^ 29) k \<and>
      (\<forall>kc r kc'. kcp (udp k) = Some kc \<and> is_kcp_valid k \<and>
        ikcp_input (input_mem (envs 0)) kc (Some (take (nat len) buf)) len = Some (r, kc') \<longrightarrow>
        msgs_small (rcv_queue kc' @ rcv_buf kc'))"
    using client_udp_recv_ok [where envs = envs, OF assms] that by auto
  show "client_on_timer envs k \<noteq> None" if "evt (udp k) \<noteq> None \<and> ack_bound (2 ^ 31) k \<and> msgs_small (rcv_segs k)"
    using client_on_timer_ok [where envs = envs, OF assms(1,2)] that by auto
qed

lemma demo_conn_inv: "conn_inv (kcpev_set_cb demo_made True)"
  by (rule create_client_inv [OF demo_made_eq])

lemma demo_not_valid: "\<not> is_kcp_valid (kcpev_set_cb demo_made True)"
  by (simp add: is_kcp_valid_def kcpev_set_cb_def demo_made_fields)

lemma demo_kcp:
  obtains kc where "kcp (udp demo_made) = Some kc" "ackcount kc = 0" "updated kc = 0" "rcv_queue kc = []" "rcv_buf kc = []" "mss kc = 1376" "rcv_wnd kc = 128"
  by (rule that [of "the (kcp (udp demo_made))"])
    (simp_all add: demo_made_def kcpev_create_client_def demo_create_def kcpev_create_def kcpev_bind_def
      kcpev_bind_socket_def kcpev_create_kcp_def ikcp_create_def kcpev_init_ev_def kcpev_set_ev_def
      ikcp_nodelay_def ikcp_wndsize_def)

theorem client_defined_witness:
  "conn_inv (kcpev_set_cb demo_made True) \<and>
   client_tcp_recv (\<lambda>_. demo_env) (Some (\<lambda>_. 0)) (Some (\<lambda>_. 0)) (demo_array [1, 2, 3]) 3 (kcpev_set_cb demo_made True) \<noteq> None \<and>
   client_udp_recv (\<lambda>_. demo_env) (demo_array [1, 2, 3]) 3 (kcpev_set_cb demo_made True) \<noteq> None"
proof -
  let ?k = "kcpev_set_cb demo_made True"
  obtain kc where kc: "kcp (udp demo_made) = Some kc" "ackcount kc = 0" "rcv_queue kc = []" "rcv_buf kc = []"
    by (rule demo_kcp)
  have a: "ack_bound (2 ^ 29) ?k" using kc by (simp add: ack_bound_def kcpev_set_cb_def)
  have l: "length (demo_array [1, 2, 3]) = 65536" by (simp add: length_demo_array)
  show ?thesis
    using client_defined [where envs = "\<lambda>_. demo_env", OF demo_conn_inv demo_env_ok l, of 3 "Some (\<lambda>_. 0)" "Some (\<lambda>_. 0)" "[]"]
      a demo_not_valid demo_conn_inv by simp
qed

text \<open>
  C19: the transport of a message. With a usable KCP connection the frame of the message is cut
  into the fragments the engine queues and nothing is sent elsewhere; otherwise the same bytes
  go to the TCP socket in one \<open>send\<close>, whose success decides the result.
\<close>

theorem kcpev_send_route:
  assumes "conn_inv k" and "length msg \<le> 65528" and "\<And>j. send_mem env j \<noteq> None" and "kcp (udp k) = Some kc"
    and "258 \<le> unat (mss kc)"
  shows "if is_kcp_valid k
    then \<exists>kc'. kcpev_send env k msg = Some (0, k\<lparr>udp := (udp k)\<lparr>kcp := Some kc'\<rparr>\<rparr>, []) \<and> kcp_inv kc' \<and>
      snd_queue kc' = snd_queue kc @ queued kc kc' \<and> concat (map sg_data (queued kc kc')) = frame (pad_of env) 1 msg
    else kcpev_send env k msg =
      Some (if send_ret env (sock (tcp k)) (frame (pad_of env) 1 msg) = int (length msg + 8) then 0 else -1, k,
        [Ev_send (sock (tcp k)) (frame (pad_of env) 1 msg) (send_ret env (sock (tcp k)) (frame (pad_of env) 1 msg))])"
proof (cases "is_kcp_valid k")
  case False
  then show ?thesis using assms(2) by (simp add: kcpev_send_def kcpev_send_command_ok Let_def)
next
  case True
  have inv: "kcp_inv kc" using assms(1,4) by (auto simp: conn_inv_def udp_ok_def)
  obtain kc' where "ikcp_send (send_mem env) kc (Some (frame (pad_of env) 1 msg)) (int (length msg + 8)) = Some (0, kc')"
    "kcp_inv kc'" "snd_queue kc' = snd_queue kc @ queued kc kc'" "concat (map sg_data (queued kc kc')) = frame (pad_of env) 1 msg"
    by (rule queue_frame [OF inv assms(2,3) frag_count_frame [OF assms(5,2)]])
  then show ?thesis
    using True assms(2,4) by (auto simp: kcpev_send_def kcpev_send_command_ok simp del: of_nat_add)
qed

theorem kcpev_send_route_witness:
  "\<not> is_kcp_valid (kcpev_set_cb demo_made True) \<and>
   kcpev_send demo_env (kcpev_set_cb demo_made True) [7, 9] =
     Some (0, kcpev_set_cb demo_made True, [Ev_send 5 (frame [0, 0, 0] 1 [7, 9]) 10])"
proof -
  let ?k = "kcpev_set_cb demo_made True"
  obtain kc where kc: "kcp (udp ?k) = Some kc" "mss kc = 1376" using demo_kcp by (auto simp: kcpev_set_cb_def)
  have p: "pad_of demo_env = [0, 0, 0]"
  proof -
    have "length (pad_of demo_env) = 3" "set (pad_of demo_env) \<subseteq> {0}"
      by (auto simp: pad_of_def stack_buf_def demo_env_def dest!: in_set_takeD in_set_dropD)
    then have "pad_of demo_env = replicate 3 0" by (intro replicate_eqI) auto
    then show ?thesis by (simp add: numeral_3_eq_3)
  qed
  have m: "send_mem demo_env j \<noteq> None" for j using demo_env_ok by (simp add: env_ok_def)
  have "length [7, 9 :: byte] \<le> 65528" "258 \<le> unat (mss kc)" using kc(2) by simp_all
  from kcpev_send_route [OF demo_conn_inv this(1) m kc(1) this(2)] show ?thesis
    using demo_not_valid p by (simp add: kcpev_set_cb_def demo_made_fields demo_env_def)
qed

text \<open>
  C16: the handshake. A client with a UDP socket and without timers answers the key of the server
  with the first datagram and waits; the second frame makes the connection usable only with
  the same key: the timers are set and the conversation number is the last byte of the key,
  also if the engine was created with another number. With another key nothing changes.
\<close>

theorem client_handshake:
  assumes "conn_inv k" and "sock (udp k) \<noteq> 0" and "evt (udp k) = None" and "evt_ok env" and "evh_ok env"
    and "\<And>s b. send_ret env s b = int (length b)" and "length pad = 3" and "length ky = 16" and "length ky' = 16"
  shows "\<exists>k1. on_client_recv env k (frame pad COMMAND_SHAKE_HAND1 ky) =
      Some (0, k1, [Ev_send (sock (udp k)) (frame (pad_of env) COMMAND_SHAKE_HAND1 ky) 24]) \<and>
    status (udp k1) = UDP_SHAKING_HAND \<and> \<not> is_kcp_valid k1 \<and>
    (if ky' = ky
     then \<exists>k2 kc. on_client_recv env k1 (frame pad COMMAND_SHAKE_HAND2 ky') =
         Some (0, k2, [Ev_send (sock (udp k)) (frame (pad_of env) COMMAND_SHAKE_HAND2 ky) 24]) \<and>
       is_kcp_valid k2 \<and> status (udp k2) = UDP_READY \<and> kcp (udp k2) = Some kc \<and> conv kc = ucast (ky ! 15) \<and>
       heart (udp k2) = now env
     else on_client_recv env k1 (frame pad COMMAND_SHAKE_HAND2 ky') = Some (-1, k1, []))"
proof -
  obtain kc where kc: "kcp (udp k) = Some kc" using assms(1) by (auto simp: conn_inv_def udp_ok_def)
  let ?k1 = "k\<lparr>key := ky, udp := (udp k)\<lparr>status := 1\<rparr>\<rparr>"
  have "on_client_recv env k (frame pad 2 ky) = Some (0, ?k1, [Ev_send (sock (udp k)) (frame (pad_of env) 2 ky) 24])"
    using assms(2,6,7,8) by (simp add: on_client_recv_frame client_shake_hand1_def sock_send_command_ok)
  moreover have "on_client_recv env ?k1 (frame pad 3 ky') = Some (-1, ?k1, [])" if "ky' \<noteq> ky"
    using that assms(2,7,9) by (simp add: on_client_recv_frame client_shake_hand2_def)
  moreover have "\<exists>k2 kc. on_client_recv env ?k1 (frame pad 3 ky) =
         Some (0, k2, [Ev_send (sock (udp k)) (frame (pad_of env) 3 ky) 24]) \<and>
       is_kcp_valid k2 \<and> status (udp k2) = UDP_READY \<and> kcp (udp k2) = Some kc \<and> conv kc = ucast (ky ! 15) \<and>
       heart (udp k2) = now env"
    using assms(2-8) kc
    by (simp add: on_client_recv_frame client_shake_hand2_def sock_send_command_ok check_create_kcp_timer_def
        is_kcp_valid_def key_conv_def)
  ultimately show ?thesis by (intro exI [of _ ?k1]) (auto simp: is_kcp_valid_def)
qed

theorem client_handshake_witness:
  "\<exists>k1 k2 kc ky pad. conn_inv (kcpev_set_cb demo_made True) \<and> length ky = 16 \<and>
    on_client_recv demo_env (kcpev_set_cb demo_made True) (frame pad COMMAND_SHAKE_HAND1 ky) =
      Some (0, k1, [Ev_send 6 (frame (pad_of demo_env) COMMAND_SHAKE_HAND1 ky) 24]) \<and> \<not> is_kcp_valid k1 \<and>
    on_client_recv demo_env k1 (frame pad COMMAND_SHAKE_HAND2 ky) =
      Some (0, k2, [Ev_send 6 (frame (pad_of demo_env) COMMAND_SHAKE_HAND2 ky) 24]) \<and>
    is_kcp_valid k2 \<and> kcp (udp k2) = Some kc \<and> conv kc = 9"
proof -
  let ?k = "kcpev_set_cb demo_made True" and ?ky = "replicate 15 0 @ [9] :: byte list"
  have u: "sock (udp ?k) = 6" "evt (udp ?k) = None" by (simp_all add: kcpev_set_cb_def demo_made_fields)
  have e: "evt_ok demo_env" "evh_ok demo_env" "send_ret demo_env s b = int (length b)" for s b
    by (simp_all add: demo_env_def)
  have c: "?ky ! 15 = 9" by (simp add: nth_append)
  have "sock (udp ?k) \<noteq> 0" "length [0, 0, 0 :: byte] = 3" "length ?ky = 16" using u by simp_all
  from client_handshake [OF demo_conn_inv this(1) u(2) e this(2,3,3)] obtain k1 k2 kc where
    "on_client_recv demo_env ?k (frame [0, 0, 0] 2 ?ky) = Some (0, k1, [Ev_send 6 (frame (pad_of demo_env) 2 ?ky) 24])"
    "\<not> is_kcp_valid k1"
    "on_client_recv demo_env k1 (frame [0, 0, 0] 3 ?ky) = Some (0, k2, [Ev_send 6 (frame (pad_of demo_env) 3 ?ky) 24])"
    "is_kcp_valid k2" "kcp (udp k2) = Some kc" "conv kc = 9"
    unfolding u c by (auto simp del: length_append length_replicate)
  then show ?thesis using demo_conn_inv \<open>length ?ky = 16\<close> by blast
qed

text \<open>
  C20: heartbeats. Once the last answer of the server is too old the client stops using KCP, and
  whatever it sends next goes to the TCP socket; until then every heartbeat timer queues one
  heartbeat frame with the key and leaves the connection usable.
\<close>

theorem client_heartbeat:
  assumes "conn_inv k" and "is_kcp_valid k" and "\<And>j. send_mem env j \<noteq> None" and "length msg \<le> 65528"
  shows "if heart_expired (now env) (heart (udp k))
    then \<exists>k'. on_client_heartbeat_timer env k = Some k' \<and> \<not> is_kcp_valid k' \<and>
      (\<exists>ret. kcpev_send env' k' msg = Some (ret, k', [Ev_send (sock (tcp k)) (frame (pad_of env') COMMAND_DATA msg)
        (send_ret env' (sock (tcp k)) (frame (pad_of env') COMMAND_DATA msg))]))
    else \<exists>kc kc'. kcp (udp k) = Some kc \<and>
      on_client_heartbeat_timer env k = Some (k\<lparr>udp := (udp k)\<lparr>kcp := Some kc'\<rparr>\<rparr>) \<and>
      is_kcp_valid (k\<lparr>udp := (udp k)\<lparr>kcp := Some kc'\<rparr>\<rparr>) \<and>
      concat (map sg_data (queued kc kc')) = frame (pad_of env) COMMAND_HEARTBEAT1 (key k)"
proof (cases "heart_expired (now env) (heart (udp k))")
  case True
  let ?k = "set_kcp_invalid k"
  have "on_client_heartbeat_timer env k = Some ?k" using assms(2) True by (simp add: on_client_heartbeat_timer_def)
  moreover have "\<not> is_kcp_valid ?k" "tcp ?k = tcp k" by (simp_all add: set_kcp_invalid_def is_kcp_valid_def)
  ultimately show ?thesis
    using True assms(4) by (simp add: kcpev_send_def kcpev_send_command_ok Let_def)
next
  case False
  obtain kc where kc: "kcp (udp k) = Some kc" "kcp_inv kc" using assms(1) by (auto simp: conn_inv_def udp_ok_def)
  have l: "length (key k) = 16" using assms(1) by (simp add: conn_inv_def)
  have m: "0 < unat (mss kc)" using conf_mss [OF kcp_invD(4) [OF kc(2)]] by simp
  have n: "frag_count (unat (mss kc)) (length (key k) + 8) \<le> 255" using frag_count_le [OF m, of 24] l by simp
  obtain kc' where s: "ikcp_send (send_mem env) kc (Some (frame (pad_of env) 4 (key k))) (int (length (key k) + 8)) = Some (0, kc')"
    "concat (map sg_data (queued kc kc')) = frame (pad_of env) 4 (key k)"
    by (rule queue_frame [OF kc(2) _ assms(3) n]) (use l in simp_all)
  have "on_client_heartbeat_timer env k = Some (k\<lparr>udp := (udp k)\<lparr>kcp := Some kc'\<rparr>\<rparr>)"
    using assms(2) False kc(1) s(1) l by (simp add: on_client_heartbeat_timer_def kcp_send_command_ok)
  moreover have "is_kcp_valid (k\<lparr>udp := (udp k)\<lparr>kcp := Some kc'\<rparr>\<rparr>)"
    using assms(2) by (auto simp: is_kcp_valid_def split: if_splits)
  ultimately show ?thesis using False kc(1) s(2) by auto
qed

text \<open>The client of the examples after the handshake.\<close>

definition demo_shaken :: Kcpev where
  "demo_shaken = demo_made\<lparr>recv_cb := True, udp := (udp demo_made)\<lparr>status := 2,
     evt := Some \<lparr>tm_cb = Kcpev_on_timer, tm_repeat = 10\<rparr>\<rparr>\<rparr>"

lemma demo_shaken_valid: "is_kcp_valid demo_shaken" "evt (udp demo_shaken) = Some \<lparr>tm_cb = Kcpev_on_timer, tm_repeat = 10\<rparr>"
  using demo_kcp by (auto simp: demo_shaken_def is_kcp_valid_def demo_made_fields)

lemma demo_shaken_inv: "conn_inv demo_shaken"
proof -
  have e: "demo_shaken = (kcpev_set_cb demo_made True)\<lparr>udp := (udp demo_made)\<lparr>status := 2,
     evt := Some \<lparr>tm_cb = Kcpev_on_timer, tm_repeat = 10\<rparr>\<rparr>\<rparr>" by (simp add: demo_shaken_def kcpev_set_cb_def)
  have "udp_ok (udp (kcpev_set_cb demo_made True))" using demo_conn_inv by (simp add: conn_inv_def)
  then have "udp_ok ((udp demo_made)\<lparr>status := 2, evt := Some \<lparr>tm_cb = Kcpev_on_timer, tm_repeat = 10\<rparr>\<rparr>)"
    by (auto simp: udp_ok_def kcpev_set_cb_def)
  then show ?thesis unfolding e by (rule conn_inv_udp [OF demo_conn_inv])
qed

lemma demo_shaken_fields:
  "heart (udp demo_shaken) = 0" "sock (tcp demo_shaken) = 5" "kcp (udp demo_shaken) = kcp (udp demo_made)" "recv_cb demo_shaken"
  by (simp_all add: demo_shaken_def demo_made_def kcpev_create_client_def demo_create_def kcpev_create_def kcpev_bind_def
      kcpev_bind_socket_def kcpev_create_kcp_def ikcp_create_def kcpev_init_ev_def kcpev_set_ev_def)

theorem client_heartbeat_witness:
  "conn_inv demo_shaken \<and> is_kcp_valid demo_shaken \<and>
   (\<exists>kc'. on_client_heartbeat_timer demo_env demo_shaken = Some (demo_shaken\<lparr>udp := (udp demo_shaken)\<lparr>kcp := Some kc'\<rparr>\<rparr>)) \<and>
   (\<exists>k'. on_client_heartbeat_timer (demo_env\<lparr>now := 0x4040000000000000\<rparr>) demo_shaken = Some k' \<and> \<not> is_kcp_valid k')"
proof -
  have m: "send_mem demo_env j \<noteq> None" "send_mem (demo_env\<lparr>now := 0x4040000000000000\<rparr>) j \<noteq> None" for j
    using demo_env_ok by (simp_all add: env_ok_def)
  have "\<not> heart_expired 0 0" by (simp add: heart_expired_def dbl_mant_def dbl_pow_def Let_def)
  moreover have "heart_expired 0x4040000000000000 0"
    by (simp add: heart_expired_def dbl_mant_def dbl_pow_def Let_def mask_eq_exp_minus_1)
  ultimately have h: "\<not> heart_expired (now demo_env) (heart (udp demo_shaken))"
    "heart_expired (now (demo_env\<lparr>now := 0x4040000000000000\<rparr>)) (heart (udp demo_shaken))"
    by (simp_all add: demo_env_def demo_shaken_fields)
  show ?thesis
    using client_heartbeat [OF demo_shaken_inv demo_shaken_valid(1) m(1), of "[]" demo_env]
      client_heartbeat [OF demo_shaken_inv demo_shaken_valid(1) m(2), of "[]" demo_env]
      h demo_shaken_inv demo_shaken_valid(1) by auto
qed



text \<open>Once the fragments of one call are in the receive queue of a peer, \<open>ikcp_recv\<close> gives the frame back.\<close>

lemma sent_frame_received:
  assumes "conn_inv k" and "is_kcp_valid k" and "length msg \<le> 65528" and "\<And>j. send_mem env j \<noteq> None"
    and "kcp (udp k) = Some kc" and "258 \<le> unat (mss kc)"
    and "kcpev_send env k msg = Some (r, k', out)" and "kcp (udp k') = Some kc'"
    and "rcv_inv kp" and "rcv_queue kp = queued kc kc'" and "rcv_buf kp = []"
  obtains kp' where "r = 0" and "out = []" and "rcv_queue kp \<noteq> []" and "rcv_queue kp' = []"
    and "ikcp_recv kp True 65536 = Some (int (length msg + 8), frame (pad_of env) 1 msg, kp')"
proof -
  let ?f = "frame (pad_of env) 1 msg"
  have l: "length ?f = length msg + 8" by simp
  have inv: "kcp_inv kc" using assms(1,5) by (auto simp: conn_inv_def udp_ok_def)
  have m: "0 < unat (mss kc)" "unat (mss kc) < 2 ^ 31" using conf_mss [OF kcp_invD(4) [OF inv]] by simp_all
  have n: "frag_count (unat (mss kc)) (length msg + 8) \<le> 255" by (rule frag_count_frame [OF assms(6,3)])
  obtain kc2 where s: "ikcp_send (send_mem env) kc (Some ?f) (int (length msg + 8)) = Some (0, kc2)"
    by (rule queue_frame [OF inv assms(3,4) n])
  have ro: "r = 0 \<and> out = [] \<and> kc' = kc2"
    using assms(2,3,5,7,8) s by (auto simp: kcpev_send_def kcpev_send_command_ok simp del: of_nat_add)
  note sent = s [folded l]
  have rcv: "nrcv_que kp = of_nat (length (rcv_queue kp))" "length (rcv_queue kp) < 2 ^ 32"
    using assms(9) by (auto simp: rcv_inv_def)
  have b: "length ?f < 2 ^ 31" using assms(3) l by simp
  have q: "rcv_queue kp = queued kc kc2 @ []" using assms(10) ro by simp
  note p = queued_message [where mem = "send_mem env", OF assms(4) m b n [folded l] sent q rcv]
  obtain c d kp' where r: "ikcp_recv kp True 65536 = Some (c, d, kp')" using ikcp_recv_some by blast
  have d: "c = int (length ?f) \<and> d = ?f \<and> rcv_queue kp' = []"
    using r
  proof (cases rule: ikcp_recv_result)
    case 1
    then show ?thesis using p(2,3) assms(3) by simp
  next
    case (2 c' x)
    have e: "rcv_queue (recv_take c' kp) = []" "rcv_buf (recv_take c' kp) = []" using 2(4) p(5) assms(11) by (simp_all add: recv_take_def)
    show ?thesis using 2(2,5,6) p(3,4) e by (simp add: move_ready.simps)
  qed
  then have d': "c = int (length msg + 8)" "d = ?f" "rcv_queue kp' = []" using l by simp_all
  show ?thesis using that [OF _ _ p(2) d'(3)] ro r unfolding d'(1,2) by blast
qed

lemma recv_fuel_two: "kcp (udp peer) = Some kp \<Longrightarrow> rcv_queue kp \<noteq> [] \<Longrightarrow> \<exists>fuel. kcp_recv_fuel peer = Suc (Suc fuel)"
  by (cases "rcv_queue kp") (auto simp: kcp_recv_fuel_def)

text \<open>
  C13: from \<open>kcpev_send\<close> to the receive callback of the peer. Once the fragments one call
  queued are all in the receive queue of a client, \<open>try_kcp_recv\<close> calls the receive callback
  once with the same bytes; but a payload of exactly 65528 bytes, the largest \<open>kcpev_send\<close>
  accepts, makes it write its terminating zero behind the local array.
\<close>

theorem kcpev_message:
  assumes "conn_inv k" and "is_kcp_valid k" and "length msg \<le> 65528" and "\<And>j. send_mem env j \<noteq> None"
    and "kcp (udp k) = Some kc" and "258 \<le> unat (mss kc)"
    and "kcpev_send env k msg = Some (r, k', out)" and "kcp (udp k') = Some kc'"
    and "kcp (udp peer) = Some kp" and "rcv_inv kp" and "rcv_queue kp = queued kc kc'" and "rcv_buf kp = []" and "recv_cb peer"
  shows "r = 0 \<and> out = [] \<and>
    (if length msg < 65528 then \<exists>peer'. try_kcp_recv envs peer = Some (0, peer', [Ev_recv_cb msg])
     else try_kcp_recv envs peer = None)"
proof -
  obtain kp' where ro: "r = 0" "out = []" and q: "rcv_queue kp \<noteq> []" "rcv_queue kp' = []"
    and r: "ikcp_recv kp True 65536 = Some (int (length msg + 8), frame (pad_of env) 1 msg, kp')"
    by (rule sent_frame_received [OF assms(1-8,10-12)])
  show ?thesis
  proof (cases "length msg < 65528")
    case False
    then show ?thesis
      using ro assms(3,9) r by (simp add: try_kcp_recv_def kcp_recv_fuel_def c_assert_def)
  next
    case True
    obtain fuel where f: "kcp_recv_fuel peer = Suc (Suc fuel)" using recv_fuel_two [OF assms(9) q(1)] by blast
    have e: "ikcp_recv kp' True 65536 = Some (-1, [], kp')" using q(2) by (simp add: ikcp_recv_cases)
    have h: "on_client_recv (envs 0) (peer\<lparr>udp := (udp peer)\<lparr>kcp := Some kp'\<rparr>\<rparr>) (frame (pad_of env) 1 msg) =
        Some (0, peer\<lparr>udp := (udp peer)\<lparr>kcp := Some kp'\<rparr>\<rparr>, [Ev_recv_cb msg])"
      using on_client_recv_frame [OF length_pad_of assms(3)] assms(13) by simp
    show ?thesis
      using True ro assms(9) r e h unfolding try_kcp_recv_def f by simp
  qed
qed

text \<open>A message that a connection sends, as its peer with the same state receives it.\<close>

lemma demo_sent:
  obtains kc kc' where "kcp (udp demo_shaken) = Some kc" and "rcv_buf kc = []" and "258 \<le> unat (mss kc)"
    and "kcpev_send demo_env demo_shaken [7, 9] = Some (0, demo_shaken\<lparr>udp := (udp demo_shaken)\<lparr>kcp := Some kc'\<rparr>\<rparr>, [])"
    and "rcv_inv (kc\<lparr>rcv_queue := queued kc kc', nrcv_que := 1\<rparr>)"
proof -
  obtain kc where kc: "kcp (udp demo_shaken) = Some kc" "mss kc = 1376" "rcv_buf kc = []" "rcv_queue kc = []" "rcv_wnd kc = 128"
    using demo_kcp by (auto simp: demo_shaken_fields)
  have inv: "kcp_inv kc" using demo_shaken_inv kc(1) by (auto simp: conn_inv_def udp_ok_def)
  have m: "send_mem demo_env j \<noteq> None" for j using demo_env_ok by (simp add: env_ok_def)
  have sizes: "length [7, 9 :: byte] \<le> 65528" "258 \<le> unat (mss kc)" using kc(2) by simp_all
  obtain kc' where s: "ikcp_send (send_mem demo_env) kc (Some (frame (pad_of demo_env) 1 [7, 9])) (int (length [7, 9 :: byte] + 8)) = Some (0, kc')"
    "length (queued kc kc') = frag_count (unat (mss kc)) (length [7, 9 :: byte] + 8)"
    by (rule queue_frame [OF inv sizes(1) m frag_count_frame [OF sizes(2,1)]])
  have "length (queued kc kc') = 1" using s(2) kc(2) by (simp add: frag_count_def)
  then have "rcv_inv (kc\<lparr>rcv_queue := queued kc kc', nrcv_que := 1\<rparr>)"
    using kcp_invD(2) [OF inv] kc(3-5) by (simp add: rcv_inv_def)
  moreover have "kcpev_send demo_env demo_shaken [7, 9] = Some (0, demo_shaken\<lparr>udp := (udp demo_shaken)\<lparr>kcp := Some kc'\<rparr>\<rparr>, [])"
    using s(1) sizes(1) kc(1) demo_shaken_valid(1) by (simp add: kcpev_send_def kcpev_send_command_ok)
  ultimately show ?thesis using that kc(1,3) sizes(2) by blast
qed

theorem kcpev_message_witness:
  "\<exists>k' kc kc' peer peer'. kcpev_send demo_env demo_shaken [7, 9] = Some (0, k', []) \<and> kcp (udp demo_shaken) = Some kc \<and>
    kcp (udp k') = Some kc' \<and> peer = demo_shaken\<lparr>udp := (udp demo_shaken)\<lparr>kcp := Some (kc\<lparr>rcv_queue := queued kc kc', nrcv_que := 1\<rparr>)\<rparr>\<rparr> \<and>
    try_kcp_recv (\<lambda>_. demo_env) peer = Some (0, peer', [Ev_recv_cb [7, 9]])"
proof -
  obtain kc kc' where kc: "kcp (udp demo_shaken) = Some kc" "rcv_buf kc = []" "258 \<le> unat (mss kc)"
    and send: "kcpev_send demo_env demo_shaken [7, 9] = Some (0, demo_shaken\<lparr>udp := (udp demo_shaken)\<lparr>kcp := Some kc'\<rparr>\<rparr>, [])"
    and inv: "rcv_inv (kc\<lparr>rcv_queue := queued kc kc', nrcv_que := 1\<rparr>)" by (rule demo_sent)
  let ?kp = "kc\<lparr>rcv_queue := queued kc kc', nrcv_que := 1\<rparr>"
  let ?peer = "demo_shaken\<lparr>udp := (udp demo_shaken)\<lparr>kcp := Some ?kp\<rparr>\<rparr>"
  have m: "send_mem demo_env j \<noteq> None" for j using demo_env_ok by (simp add: env_ok_def)
  have l: "length [7, 9 :: byte] \<le> 65528" by simp
  from kcpev_message [OF demo_shaken_inv demo_shaken_valid(1) l m kc(1,3) send, of kc' ?peer ?kp "\<lambda>_. demo_env"] inv
  show ?thesis using send kc(1,2) demo_shaken_fields(4) by auto
qed

section \<open>Clock values\<close>

definition dbl_val :: "KcpevTimestamp \<Rightarrow> real" where
  "dbl_val b = real (dbl_mant b) * 2 ^ dbl_pow b / 2 ^ 1075"

text \<open>
  The comparison of the heartbeat, done in the model on the bits of the two clock values, is
  the comparison of the real numbers they stand for with the exact threshold that rounding to
  a double gives: \<open>30 + 2^-49\<close> seconds.
\<close>

theorem heart_expired_real: "heart_expired nw h \<longleftrightarrow> dbl_val nw - dbl_val h > 30 + 1 / 2 ^ 49"
proof -
  define m where "m = min (dbl_pow nw) (dbl_pow h)"
  define d where "d = int (dbl_mant nw * 2 ^ (dbl_pow nw - m)) - int (dbl_mant h * 2 ^ (dbl_pow h - m))"
  have p: "(2 :: real) ^ (dbl_pow b - m) * 2 ^ m = 2 ^ dbl_pow b" if "b = nw \<or> b = h" for b
    using that by (auto simp: m_def power_add [symmetric])
  have v: "dbl_val nw - dbl_val h = d * 2 ^ m / 2 ^ 1075"
    using p [of nw] p [of h] by (simp add: dbl_val_def d_def left_diff_distrib diff_divide_distrib mult.assoc)
  have "heart_expired nw h \<longleftrightarrow> (30 * 2 ^ 49 + 1) * 2 ^ (1075 - m) < d * 2 ^ (49 + (m - 1075))"
    by (simp add: heart_expired_def Let_def m_def d_def)
  also have "\<dots> \<longleftrightarrow> real_of_int ((30 * 2 ^ 49 + 1) * 2 ^ (1075 - m)) < real_of_int (d * 2 ^ (49 + (m - 1075)))"
    by (simp only: of_int_less_iff)
  also have "\<dots> \<longleftrightarrow> (30 * 2 ^ 49 + 1) * 2 ^ (1075 - m) < real_of_int d * 2 ^ (49 + (m - 1075))"
    by simp
  also have "\<dots> \<longleftrightarrow> (30 * 2 ^ 49 + 1) * 2 ^ 1075 < real_of_int d * 2 ^ m * 2 ^ 49"
  proof (cases "m \<le> 1075")
    case True
    have e: "(2 :: real) ^ 1075 = 2 ^ (1075 - m) * 2 ^ m" using True by (simp only: power_add [symmetric]) simp
    show ?thesis unfolding e using True by (simp add: mult.assoc [symmetric] mult.commute [of "2 ^ m"] del: power_numeral)
  next
    case False
    have e: "(2 :: real) ^ m = 2 ^ (m - 1075) * 2 ^ 1075" using False by (simp only: power_add [symmetric]) simp
    have f: "real_of_int d * (2 ^ (m - 1075) * 2 ^ 1075) * 2 ^ 49 = (real_of_int d * 2 ^ (49 + (m - 1075))) * 2 ^ 1075"
      by (simp only: power_add mult.assoc mult.left_commute mult.commute)
    have g: "1075 - m = 0" using False by simp
    show ?thesis unfolding e f g by simp
  qed
  also have "\<dots> \<longleftrightarrow> 30 + 1 / 2 ^ 49 < dbl_val nw - dbl_val h"
    unfolding v by (simp add: field_simps)
  finally show ?thesis .
qed

end
