(* ===== verification/Kcpev_Handshake.thy ===== *)
theory Kcpev_Handshake
  imports Kcpev_Registry Kcpev_Link
begin

text \<open>
  Both sides of a connection together (\<open>src/src/kcpev.c\<close>): the handshake from \<open>tcp_accept\<close> to two
  engines that deliver in order, the exchange of heartbeats, the isolation of the connections
  of a server from each other, and the situations in which the server goes wrong: a
  connection that fails while it is accepted, a repeated handshake, a repeated handshake that
  fails.
\<close>

section \<open>Frames at the server\<close>

lemma on_server_recv_frame:
  assumes "length pad = 3" and "length msg \<le> 65528" and "s_nameinfo env = 0"
  shows "on_server_recv T env w client (frame pad c msg) =
    (if c = COMMAND_DATA then do { c_assert (srv_cb (srv w)); Some (0, None, w, [Ev_server_cb client msg]) }
     else if c = COMMAND_SHAKE_HAND1 then server_shake_hand1 T env w msg
     else if c = COMMAND_SHAKE_HAND2 then server_shake_hand2 T env w msg
     else if c = COMMAND_HEARTBEAT1 then server_heartbeat1 env w client msg
     else if c = COMMAND_HEARTBEAT2 then server_heartbeat2 env w client msg
     else Some (-1, None, w, []))"
proof -
  have u: "unat (of_nat (length msg + 8) :: u64) = length msg + 8" by (rule frame_size(1) [OF assms(2)])
  then have l8: "(8 :: u64) \<le> of_nat (length msg + 8)" by (simp add: word_le_nat_alt del: of_nat_add)
  have h: "header_from_net (frame pad c msg) (of_nat (length msg + 8)) =
      Some (0, Some \<lparr>hd_size = of_nat (length msg + 8), hd_command = c\<rparr>)"
    using header_from_frame [OF assms(1) l8, of c msg "[]"] by simp
  have s: "ucast (of_nat (length msg + 8) :: u32) = (of_nat (length msg + 8) :: u64)"
    using u assms(2) by (simp add: word_unat_eq_iff unat_u64_of_u32 unat_of_nat take_bit_nat_eq_self del: of_nat_add)
  have l: "length (frame pad c msg) = length msg + 8" using assms(1) by simp
  have p: "drop 8 (frame pad c msg) = msg" using frame_payload [OF assms(1), of c msg "[]"] by simp
  show ?thesis
    unfolding on_server_recv_def l Let_def p using l8 h s assms(3) by (simp del: of_nat_add)
qed

section \<open>The UDP socket of a connection\<close>

text \<open>What the calls have to return for \<open>connect_client_udp\<close> to succeed with the socket \<open>n\<close>.\<close>

definition conn_succeeds :: "conn_env \<Rightarrow> int \<Rightarrow> event list \<Rightarrow> bool" where
  "conn_succeeds ce n out \<longleftrightarrow> n \<noteq> 0 \<and> c_connect ce \<ge> 0 \<and> c_kcp_ok ce \<and> c_buf_ok ce \<and>
     (\<exists>ps. c_addrs ce = Some ps \<and> bind_loop True ps = (Some n, out))"

lemma connect_succeeds:
  assumes "conn_succeeds ce n out"
  obtains k' kc where "connect_client_udp ce lp k = (0, k', out)" and "key k' = key k" and "sock (udp k') = n"
    and "status (udp k') = status (udp k)" and "evt (udp k') = evt (udp k)" and "kcp (udp k') = Some kc"
    and "fresh (ucast (key_conv (key k))) kc" and "tcp k' = tcp k" and "server k' = server k"
proof -
  obtain ps where ps: "c_addrs ce = Some ps" "bind_loop True ps = (Some n, out)" "n \<noteq> 0" "c_connect ce \<ge> 0"
      "c_kcp_ok ce" "c_buf_ok ce"
    using assms by (auto simp: conn_succeeds_def)
  let ?u = "(udp k)\<lparr>sock := n\<rparr>"
  have b: "kcpev_bind_socket (c_addrs ce) True (udp k) = (0, ?u, out)" using ps by (simp add: kcpev_bind_socket_def)
  obtain r u where c: "kcpev_create_kcp (c_kcp_ok ce) (c_buf_ok ce) ?u (ucast (key_conv (key k))) 2 = (r, u)"
    by (cases "kcpev_create_kcp (c_kcp_ok ce) (c_buf_ok ce) ?u (ucast (key_conv (key k))) 2") auto
  have "ikcp_create True True (ucast (key_conv (key k))) (udp_at ?u) \<noteq> None" by (simp add: ikcp_create_def)
  then have "r = 0" using c ps(5,6) by (auto simp: kcpev_create_kcp_def Let_def)
  then obtain kc where kc: "u = ?u\<lparr>kcp := Some kc\<rparr>" "fresh (ucast (key_conv (key k))) kc" using create_kcp_fresh [OF c] by auto
  obtain e where i: "kcpev_init_ev True (c_ev_ok ce) lp None (Some Server_udp_recv) (k\<lparr>udp := u\<rparr>) =
      (0, k\<lparr>loop := lp, udp := u\<lparr>evio := e\<rparr>\<rparr>)"
    using init_ev_udp [of "c_ev_ok ce" lp Server_udp_recv "k\<lparr>udp := u\<rparr>"] by auto
  have "connect_client_udp ce lp k = (0, k\<lparr>loop := lp, udp := u\<lparr>evio := e\<rparr>\<rparr>, out)"
    using b c \<open>r = 0\<close> i ps(4) by (simp add: connect_client_udp_def Let_def)
  then show ?thesis by (rule that) (use kc in simp_all)
qed

text \<open>The first datagram of a client: the server answers from a socket of its own.\<close>

lemma server_hand1:
  assumes "uthash_ok T ent" and "server_inv ent w" and "conns w c = Some k" and "conn_succeeds (s_conn env) n out"
    and "\<And>s b. send_ret (s_sys env) s b = int (length b)" and "s_nameinfo env = 0" and "length pad = 3"
  obtains k' kc where "on_server_recv T env w client (frame pad COMMAND_SHAKE_HAND1 (key k)) =
      Some (0, Some c, put_conn c k' w, out @ [Ev_send n (frame (pad_of (s_sys env)) COMMAND_SHAKE_HAND2 (key k)) 24])"
    and "key k' = key k" and "sock (udp k') = n" and "status (udp k') = UDP_SHAKING_HAND" and "evt (udp k') = evt (udp k)"
    and "kcp (udp k') = Some kc" and "fresh (ucast (key_conv (key k))) kc" and "tcp k' = tcp k" and "server k' = server k"
proof -
  have l: "length (key k) = 16" using assms(2,3) by (auto simp: server_inv_def srv_conn_ok_def)
  obtain k' kc where k': "connect_client_udp (s_conn env) (loop (srv w)) k = (0, k', out)" "key k' = key k" "sock (udp k') = n"
    "evt (udp k') = evt (udp k)" "kcp (udp k') = Some kc" "fresh (ucast (key_conv (key k))) kc" "tcp k' = tcp k" "server k' = server k"
    by (rule connect_succeeds [OF assms(4), of "loop (srv w)" k]) auto
  let ?k = "k'\<lparr>udp := (udp k')\<lparr>status := UDP_SHAKING_HAND\<rparr>\<rparr>"
  have "on_server_recv T env w client (frame pad COMMAND_SHAKE_HAND1 (key k)) =
      Some (0, Some c, put_conn c ?k w, out @ [Ev_send n (frame (pad_of (s_sys env)) COMMAND_SHAKE_HAND2 (key k)) 24])"
    using l k' assms(3,5) find_live [OF assms(1-3)]
    by (simp add: on_server_recv_frame [OF assms(7) _ assms(6)] server_shake_hand1_def sock_send_command_ok)
  then show ?thesis by (rule that) (use k' in simp_all)
qed

lemma server_hand2:
  assumes "uthash_ok T ent" and "server_inv ent w" and "conns w c = Some k" and "status (udp k) = UDP_SHAKING_HAND"
    and "evt (udp k) = None" and "evt_ok (s_sys env)" and "evh_ok (s_sys env)" and "s_nameinfo env = 0" and "length pad = 3"
  obtains k' where "on_server_recv T env w client (frame pad COMMAND_SHAKE_HAND2 (key k)) = Some (0, None, put_conn c k' w, [])"
    and "key k' = key k" and "sock (udp k') = sock (udp k)" and "status (udp k') = UDP_READY"
    and "evt (udp k') \<noteq> None" and "kcp (udp k') = kcp (udp k)" and "heart (udp k') = now (s_sys env)"
    and "tcp k' = tcp k" and "server k' = server k"
proof -
  have l: "length (key k) = 16" using assms(2,3) by (auto simp: server_inv_def srv_conn_ok_def)
  let ?k = "k\<lparr>udp := (udp k)\<lparr>evt := Some \<lparr>tm_cb = Kcpev_on_timer, tm_repeat = 10\<rparr>,
      evh := Some \<lparr>tm_cb = On_server_heartbeat_timer, tm_repeat = 10000\<rparr>, heart := now (s_sys env), status := UDP_READY\<rparr>\<rparr>"
  have "on_server_recv T env w client (frame pad COMMAND_SHAKE_HAND2 (key k)) = Some (0, None, put_conn c ?k w, [])"
    using l assms(3-7) find_live [OF assms(1-3)]
    by (simp add: on_server_recv_frame [OF assms(9) _ assms(8)] server_shake_hand2_def check_create_kcp_timer_def)
  then show ?thesis by (rule that) simp_all
qed

section \<open>The handshake\<close>

lemma client_hand1:
  assumes "sock (udp k) \<noteq> 0" and "length ky = 16" and "length pad = 3" and "\<And>s b. send_ret env s b = int (length b)"
  shows "on_client_recv env k (frame pad COMMAND_SHAKE_HAND1 ky) =
    Some (0, k\<lparr>key := ky, udp := (udp k)\<lparr>status := UDP_SHAKING_HAND\<rparr>\<rparr>,
      [Ev_send (sock (udp k)) (frame (pad_of env) COMMAND_SHAKE_HAND1 ky) 24])"
  using assms by (simp add: on_client_recv_frame client_shake_hand1_def sock_send_command_ok)

lemma client_hand2:
  assumes "sock (udp k) \<noteq> 0" and "length (key k) = 16" and "length pad = 3" and "\<And>s b. send_ret env s b = int (length b)"
    and "status (udp k) = UDP_SHAKING_HAND" and "evt (udp k) = None" and "evt_ok env" and "evh_ok env" and "kcp (udp k) = Some kc"
  obtains k' where "on_client_recv env k (frame pad COMMAND_SHAKE_HAND2 (key k)) =
      Some (0, k', [Ev_send (sock (udp k)) (frame (pad_of env) COMMAND_SHAKE_HAND2 (key k)) 24])"
    and "is_kcp_valid k'" and "key k' = key k" and "kcp (udp k') = Some (kc\<lparr>conv := ucast (key_conv (key k))\<rparr>)"
  using assms
  by (simp add: on_client_recv_frame client_shake_hand2_def sock_send_command_ok check_create_kcp_timer_def is_kcp_valid_def)

lemma fresh_conv: "fresh c kc \<Longrightarrow> fresh c' (kc\<lparr>conv := c'\<rparr>)"
  using kcp_inv_conv [of kc c'] by (simp add: fresh_def)

text \<open>Two fresh engines of one conversation deliver in order, whatever the network does.\<close>

definition delivers :: "IKCPCB \<Rightarrow> IKCPCB \<Rightarrow> bool" where
  "delivers a b \<longleftrightarrow> (\<forall>l. link_step\<^sup>*\<^sup>* (link_start a b) l \<and> nseg l < 2 ^ 31 \<longrightarrow> prefix (got l) (msgs l))"

lemma fresh_delivers: "fresh c a \<Longrightarrow> fresh c b \<Longrightarrow> delivers a b"
  unfolding delivers_def using link_inv_prefix link_reachable_inv link_start_inv by blast

text \<open>What the two sides rely on during a handshake.\<close>

definition accept_succeeds :: "accept_env \<Rightarrow> nat \<Rightarrow> bool" where
  "accept_succeeds e c \<longleftrightarrow> a_sock e > 0 \<and> a_nameinfo e = 0 \<and> a_at e = Some c \<and> a_ev_ok e \<and> length (a_uuid e) = 16 \<and>
     send_ret (a_sys e) (a_sock e) (frame (pad_of (a_sys e)) COMMAND_SHAKE_HAND1 (a_uuid e)) = 24"

definition hand_env :: "sysenv \<Rightarrow> bool" where
  "hand_env env \<longleftrightarrow> (\<forall>s b. send_ret env s b = int (length b)) \<and> evt_ok env \<and> evh_ok env"

section \<open>Properties\<close>

text \<open>
  C3: the handshake makes a working connection. Each frame below is what the step before it
  sent: the server accepts and sends its key, the client answers on UDP, the server opens a
  socket for it, both confirm. At the end both sides use KCP with the same conversation
  number, and their two engines deliver in order in both directions over any network that
  loses, repeats, delays and reorders datagrams.
\<close>

theorem handshake_complete:
  assumes "uthash_ok T ent" and "server_inv ent w" and "accept_ok e w" and "accept_succeeds e c"
    and "conn_inv k" and "sock (udp k) \<noteq> 0" and "evt (udp k) = None" and "kcp (udp k) = Some kc" and "fresh cv kc"
    and "hand_env env" and "hand_env (s_sys senv)" and "s_nameinfo senv = 0" and "conn_succeeds (s_conn senv) n out"
  shows "\<exists>w1 k1 w2 k2 w3 ks kcc kcs.
    tcp_accept T e w = Some (w1, [Ev_send (a_sock e) (frame (pad_of (a_sys e)) COMMAND_SHAKE_HAND1 (a_uuid e)) 24]) \<and>
    on_client_recv env k (frame (pad_of (a_sys e)) COMMAND_SHAKE_HAND1 (a_uuid e)) =
      Some (0, k1, [Ev_send (sock (udp k)) (frame (pad_of env) COMMAND_SHAKE_HAND1 (a_uuid e)) 24]) \<and>
    on_server_recv T senv w1 None (frame (pad_of env) COMMAND_SHAKE_HAND1 (a_uuid e)) =
      Some (0, Some c, w2, out @ [Ev_send n (frame (pad_of (s_sys senv)) COMMAND_SHAKE_HAND2 (a_uuid e)) 24]) \<and>
    on_client_recv env k1 (frame (pad_of (s_sys senv)) COMMAND_SHAKE_HAND2 (a_uuid e)) =
      Some (0, k2, [Ev_send (sock (udp k)) (frame (pad_of env) COMMAND_SHAKE_HAND2 (a_uuid e)) 24]) \<and>
    on_server_recv T senv w2 (Some c) (frame (pad_of env) COMMAND_SHAKE_HAND2 (a_uuid e)) = Some (0, None, w3, []) \<and>
    server_inv ent w3 \<and> conns w3 c = Some ks \<and> key ks = a_uuid e \<and> key k2 = a_uuid e \<and>
    is_kcp_valid k2 \<and> is_kcp_valid ks \<and> kcp (udp k2) = Some kcc \<and> kcp (udp ks) = Some kcs \<and>
    conv kcc = conv kcs \<and> delivers kcc kcs \<and> delivers kcs kcc"
proof -
  let ?u = "a_uuid e" and ?cv = "ucast (key_conv (a_uuid e)) :: u32"
  have a: "a_sock e > 0" "a_nameinfo e = 0" "a_at e = Some c" "a_ev_ok e" "length ?u = 16"
    "send_ret (a_sys e) (a_sock e) (frame (pad_of (a_sys e)) COMMAND_SHAKE_HAND1 ?u) = 24"
    using assms(4) by (simp_all add: accept_succeeds_def)
  have s: "\<And>s b. send_ret env s b = int (length b)" "\<And>s b. send_ret (s_sys senv) s b = int (length b)"
    "evt_ok env" "evh_ok env" "evt_ok (s_sys senv)" "evh_ok (s_sys senv)"
    using assms(10,11) by (simp_all add: hand_env_def)
  have p: "length (pad_of x) = 3" for x by simp
  define w1 where "w1 = put_conn c (accepted e c w) (set_hash (ht_add T (hash (srv w)) ?u c) w)"
  have acc: "tcp_accept T e w = Some (w1, [Ev_send (a_sock e) (frame (pad_of (a_sys e)) COMMAND_SHAKE_HAND1 ?u) 24])"
    unfolding w1_def by (rule tcp_accept_new [OF a])
  have inv1: "server_inv ent w1" using tcp_accept_ok [OF assms(1-3)] acc by simp
  have con: "conns w1 c = Some (accepted e c w)" by (simp add: w1_def)
  define k1 where "k1 = k\<lparr>key := ?u, udp := (udp k)\<lparr>status := UDP_SHAKING_HAND\<rparr>\<rparr>"
  have c1: "on_client_recv env k (frame (pad_of (a_sys e)) COMMAND_SHAKE_HAND1 ?u) =
      Some (0, k1, [Ev_send (sock (udp k)) (frame (pad_of env) COMMAND_SHAKE_HAND1 ?u) 24])"
    unfolding k1_def by (rule client_hand1 [OF assms(6) a(5) p s(1)])
  have k1: "sock (udp k1) = sock (udp k)" "key k1 = ?u" "status (udp k1) = 1" "evt (udp k1) = None" "kcp (udp k1) = Some kc"
    using assms(7,8) by (simp_all add: k1_def)
  obtain k' kcs where h1: "on_server_recv T senv w1 None (frame (pad_of env) COMMAND_SHAKE_HAND1 ?u) =
      Some (0, Some c, put_conn c k' w1, out @ [Ev_send n (frame (pad_of (s_sys senv)) COMMAND_SHAKE_HAND2 ?u) 24])"
    "key k' = ?u" "sock (udp k') = n" "status (udp k') = UDP_SHAKING_HAND" "evt (udp k') = None" "kcp (udp k') = Some kcs"
    "fresh ?cv kcs" "tcp k' = tcp (accepted e c w)" "server k'"
    by (rule server_hand1 [OF assms(1) inv1 con assms(13) s(2) assms(12) p [of env], of None]) auto
  define w2 where "w2 = put_conn c k' w1"
  have ok: "srv_conn_ok k'" using h1 a(5) by (simp add: srv_conn_ok_def conn_pending_def eng_ok_def fresh_def)
  have inv2: "server_inv ent w2" unfolding w2_def using server_inv_put [OF inv1 con _ ok] h1(2) by simp
  have con2: "conns w2 c = Some k'" by (simp add: w2_def)
  obtain k2 where c2: "on_client_recv env k1 (frame (pad_of (s_sys senv)) COMMAND_SHAKE_HAND2 ?u) =
      Some (0, k2, [Ev_send (sock (udp k)) (frame (pad_of env) COMMAND_SHAKE_HAND2 ?u) 24])"
    "is_kcp_valid k2" "key k2 = ?u" "kcp (udp k2) = Some (kc\<lparr>conv := ?cv\<rparr>)"
    using client_hand2 [of k1 "pad_of (s_sys senv)" env kc] assms(6) a(5) s k1 by auto
  obtain ks where h2': "on_server_recv T senv w2 (Some c) (frame (pad_of env) COMMAND_SHAKE_HAND2 (key k')) = Some (0, None, put_conn c ks w2, [])"
    "key ks = key k'" "sock (udp ks) = sock (udp k')" "status (udp ks) = UDP_READY" "evt (udp ks) \<noteq> None" "kcp (udp ks) = kcp (udp k')"
    "tcp ks = tcp k'" "server ks = server k'"
    by (rule server_hand2 [OF assms(1) inv2 con2 h1(4,5) s(5,6) assms(12) p [of env], of "Some c"])
  note h2 = h2' [unfolded h1(2,3,6)]
  have valid: "is_kcp_valid ks" using h2(3-6) assms(13) by (simp add: is_kcp_valid_def conn_succeeds_def)
  have "srv_conn_ok ks" using ok h2(2,6-8) h1(2,6) by (simp add: srv_conn_ok_def conn_pending_def eng_ok_def)
  then have inv3: "server_inv ent (put_conn c ks w2)" using server_inv_put [OF inv2 con2] h2(2) h1(2) by simp
  have "fresh ?cv (kc\<lparr>conv := ?cv\<rparr>)" by (rule fresh_conv [OF assms(9)])
  then have d: "conv (kc\<lparr>conv := ?cv\<rparr>) = conv kcs" "delivers (kc\<lparr>conv := ?cv\<rparr>) kcs" "delivers kcs (kc\<lparr>conv := ?cv\<rparr>)"
    using fresh_delivers h1(7) by (auto simp: fresh_def)
  have con3: "conns (put_conn c ks w2) c = Some ks" by simp
  show ?thesis
    by (rule exI [of _ w1], rule exI [of _ k1], rule exI [of _ w2], rule exI [of _ k2], rule exI [of _ "put_conn c ks w2"],
        rule exI [of _ ks], rule exI [of _ "kc\<lparr>conv := ?cv\<rparr>"], rule exI [of _ kcs], intro conjI)
      (rule acc c1 h1(1) [folded w2_def] c2(1) h2(1) inv3 con3 h2(2) c2(3) c2(2) valid c2(4) h2(6) d)+
qed

lemma demo_uthash: "server_inv (\<lambda>h. h) demo_world" "accept_ok demo_accept demo_world" "accept_succeeds demo_accept 1"
    "hand_env demo_env" "conn_succeeds (s_conn demo_srv_env) 8 []"
  using demo_world_inv demo_accept_ok
  by (simp_all add: accept_succeeds_def demo_accept_def demo_env_def hand_env_def conn_succeeds_def demo_srv_env_def)

theorem handshake_complete_witness:
  "\<exists>w1 k1 w2 k2 w3 ks kcc kcs.
    tcp_accept list_table demo_accept demo_world = Some (w1, [Ev_send 7 (frame (pad_of demo_env) COMMAND_SHAKE_HAND1 (a_uuid demo_accept)) 24]) \<and>
    on_client_recv demo_env (kcpev_set_cb demo_made True) (frame (pad_of demo_env) COMMAND_SHAKE_HAND1 (a_uuid demo_accept)) =
      Some (0, k1, [Ev_send 6 (frame (pad_of demo_env) COMMAND_SHAKE_HAND1 (a_uuid demo_accept)) 24]) \<and>
    on_server_recv list_table demo_srv_env w1 None (frame (pad_of demo_env) COMMAND_SHAKE_HAND1 (a_uuid demo_accept)) =
      Some (0, Some 1, w2, [Ev_send 8 (frame (pad_of demo_env) COMMAND_SHAKE_HAND2 (a_uuid demo_accept)) 24]) \<and>
    on_client_recv demo_env k1 (frame (pad_of demo_env) COMMAND_SHAKE_HAND2 (a_uuid demo_accept)) =
      Some (0, k2, [Ev_send 6 (frame (pad_of demo_env) COMMAND_SHAKE_HAND2 (a_uuid demo_accept)) 24]) \<and>
    on_server_recv list_table demo_srv_env w2 (Some 1) (frame (pad_of demo_env) COMMAND_SHAKE_HAND2 (a_uuid demo_accept)) = Some (0, None, w3, []) \<and>
    conns w3 1 = Some ks \<and> is_kcp_valid k2 \<and> is_kcp_valid ks \<and> kcp (udp k2) = Some kcc \<and> kcp (udp ks) = Some kcs \<and> delivers kcc kcs"
proof -
  let ?k = "kcpev_set_cb demo_made True"
  obtain kc where kc: "kcp (udp ?k) = Some kc" "fresh (ucast (key_conv (key demo_made))) kc"
    by (rule create_client_made [OF demo_made_eq]) (simp add: kcpev_set_cb_def)
  have u: "sock (udp ?k) \<noteq> 0" "evt (udp ?k) = None" "sock (udp ?k) = 6" by (simp_all add: kcpev_set_cb_def demo_made_fields)
  have s: "a_sock demo_accept = 7" "a_sys demo_accept = demo_env" by (simp_all add: demo_accept_def)
  have e: "hand_env (s_sys demo_srv_env)" "s_nameinfo demo_srv_env = 0" using demo_uthash(4) by simp_all
  from handshake_complete [OF list_table_ok demo_uthash(1-3) demo_conn_inv u(1,2) kc demo_uthash(4) e demo_uthash(5)]
  show ?thesis unfolding s u(3) demo_srv_env_fields append_Nil by (elim exE conjE) (intro exI conjI)
qed

lemma create_timer_frame: "check_create_kcp_timer env k cb = Some (r, k') \<Longrightarrow> key k' = key k \<and> tcp k' = tcp k"
  by (auto simp: check_create_kcp_timer_def split: if_splits)

text \<open>
  C14: connections are isolated. Whatever arrives on one connection, the server and every other
  connection whose key is not the payload of the frame are left exactly as they were, and
  even that one keeps its TCP part and its key.
\<close>

theorem server_isolation:
  assumes "on_server_recv T env w client d = Some (ret, reb, w', out)" and "client \<noteq> Some c" and "conns w c = Some k"
    and "uthash_ok T ent" and "server_inv ent w"
  shows "srv w' = srv w \<and> (key k \<noteq> drop 8 d \<longrightarrow> conns w' c = Some k) \<and>
    (\<exists>k'. conns w' c = Some k' \<and> key k' = key k \<and> tcp k' = tcp k)"
proof -
  have put: "conns (put_conn c' k' w) c = (if c' = c then Some k' else Some k)" for c' k' using assms(3) by simp
  have hand: "srv w' = srv w \<and> (key k \<noteq> x \<longrightarrow> conns w' c = Some k) \<and> (\<exists>k'. conns w' c = Some k' \<and> key k' = key k \<and> tcp k' = tcp k)"
    if k0: "ht_find T (hash (srv w)) x = Some c'" "w' = w \<or> (\<exists>k0 k'. conns w c' = Some k0 \<and> w' = put_conn c' k' w \<and> key k' = key k0 \<and> tcp k' = tcp k0)"
    for c' x
  proof -
    obtain k1 where "conns w c' = Some k1" "key k1 = x" using find_conn [OF assms(4,5), of x] k0(1) by auto
    then show ?thesis using k0(2) put assms(3) by auto
  qed
  from assms(1) show ?thesis
  proof (cases rule: on_server_recv_cases)
    case 3
    show ?thesis
    proof (cases "ht_find T (hash (srv w)) (drop 8 d)")
      case None
      then show ?thesis using 3 assms(3) by (auto simp: server_shake_hand1_def split: if_splits)
    next
      case (Some c')
      have "w' = w \<or> (\<exists>k0 k'. conns w c' = Some k0 \<and> w' = put_conn c' k' w \<and> key k' = key k0 \<and> tcp k' = tcp k0)"
      proof (cases "length (drop 8 d) = 16")
        case True
        obtain k0 where k0: "conns w c' = Some k0" using find_conn [OF assms(4,5), of "drop 8 d"] Some by auto
        obtain r k1 o1 where r: "connect_client_udp (s_conn env) (loop (srv w)) k0 = (r, k1, o1)"
          by (cases "connect_client_udp (s_conn env) (loop (srv w)) k0") auto
        have "eng_ok (udp k0)" using assms(5) k0 by (auto simp: server_inv_def srv_conn_ok_def)
        from connect_client_udp_ok [OF r this] show ?thesis
          using 3 Some True k0 r by (auto simp: server_shake_hand1_def outcome_simps split: if_splits)
      qed (use 3 in \<open>simp add: server_shake_hand1_def\<close>)
      then show ?thesis by (rule hand [OF Some])
    qed
  next
    case 4
    show ?thesis
    proof (cases "ht_find T (hash (srv w)) (drop 8 d)")
      case None
      then show ?thesis using 4 assms(3) by (auto simp: server_shake_hand2_def split: if_splits)
    next
      case (Some c')
      have "w' = w \<or> (\<exists>k0 k'. conns w c' = Some k0 \<and> w' = put_conn c' k' w \<and> key k' = key k0 \<and> tcp k' = tcp k0)"
      proof (cases "w' = w")
        case False
        obtain k0 where k0: "conns w c' = Some k0" using find_conn [OF assms(4,5), of "drop 8 d"] Some by auto
        then obtain r k1 where "check_create_kcp_timer (s_sys env) k0 On_server_heartbeat_timer = Some (r, k1)"
            "w' = put_conn c' k1 w \<or> w' = put_conn c' (k1\<lparr>udp := (udp k1)\<lparr>status := 2\<rparr>\<rparr>) w"
          using 4 Some False by (auto simp: server_shake_hand2_def outcome_simps split: if_splits)
        then show ?thesis using create_timer_frame k0 by fastforce
      qed simp
      then show ?thesis by (rule hand [OF Some])
    qed
  next
    case 5
    then have "w' = w \<or> (\<exists>c' k'. client = Some c' \<and> w' = put_conn c' k' w)"
      by (cases client) (auto simp: server_heartbeat1_def Let_def outcome_simps split: if_splits)
    then show ?thesis using assms(2,3) put by auto
  next
    case 6
    then have "w' = w \<or> (\<exists>c' k'. client = Some c' \<and> w' = put_conn c' k' w)"
      by (cases client) (auto simp: server_heartbeat2_def Let_def outcome_simps split: if_splits)
    then show ?thesis using assms(2,3) put by auto
  qed (use assms(3) in auto)
qed

theorem server_isolation_witness:
  "on_server_recv list_table demo_srv_env demo_world1 None (frame [0, 0, 0] COMMAND_DATA [5]) =
     Some (0, None, demo_world1, [Ev_server_cb None [5]]) \<and>
   server_inv (\<lambda>h. h) demo_world1 \<and> conns demo_world1 1 = Some (accepted demo_accept 1 demo_world)"
proof -
  have k: "conns demo_world1 1 = Some (accepted demo_accept 1 demo_world)" by (simp add: demo_world1_def)
  have "srv_cb (srv demo_world1)" using demo_world1_inv by (simp add: server_inv_def)
  then have r: "on_server_recv list_table demo_srv_env demo_world1 None (frame [0, 0, 0] 1 [5]) =
      Some (0, None, demo_world1, [Ev_server_cb None [5]])"
    by (simp add: on_server_recv_frame)
  show ?thesis using server_isolation [OF r _ k list_table_ok demo_world1_inv] r k demo_world1_inv by simp
qed

section \<open>Heartbeats\<close>

lemma small_frame:
  assumes "kcp_inv kc" and "length msg \<le> 200" and "\<And>j. send_mem env j \<noteq> None"
  obtains kc' where "ikcp_send (send_mem env) kc (Some (frame (pad_of env) c msg)) (int (length msg + 8)) = Some (0, kc')"
    and "concat (map sg_data (queued kc kc')) = frame (pad_of env) c msg"
proof -
  have m: "0 < unat (mss kc)" using conf_mss [OF kcp_invD(4) [OF assms(1)]] by simp
  have "frag_count (unat (mss kc)) (length msg + 8) \<le> 255" using frag_count_le [OF m, of "length msg + 8"] assms(2) by simp
  from queue_frame [OF assms(1) _ assms(3) this, of c] show ?thesis using that assms(2) by auto
qed

text \<open>What the server puts into a heartbeat, and the clock value it reads out of one.\<close>

definition heart_msg :: "Kcpev \<Rightarrow> byte list" where
  "heart_msg k = key k @ le_store64 (htobe64 (heart (udp k)))"

lemma heart_msg_eq:
  assumes "length d = 24" and "take 16 d = key k"
  shows "htobe64 (le_load (drop 16 d)) = heart (udp k) \<longleftrightarrow> d = heart_msg k"
proof -
  have d: "d = key k @ drop 16 d" using assms(2) by (metis append_take_drop_id)
  have l: "length (drop 16 d) = 8" using assms(1) by simp
  show ?thesis
  proof
    assume "htobe64 (le_load (drop 16 d)) = heart (udp k)"
    then have "le_load (drop 16 d) = htobe64 (heart (udp k))" using htobe64_twice by metis
    then have "drop 16 d = le_store64 (htobe64 (heart (udp k)))" using le_store_load64 [OF l] by metis
    then show "d = heart_msg k" using d unfolding heart_msg_def by metis
  next
    assume "d = heart_msg k"
    moreover have "length (key k) = 16" unfolding assms(2) [symmetric] using assms(1) by simp
    ultimately show "htobe64 (le_load (drop 16 d)) = heart (udp k)"
      by (simp add: heart_msg_def le_load_store64 htobe64_twice)
  qed
qed

text \<open>
  C15: the exchange of heartbeats. The server answers the heartbeat of a client with the key and
  its clock value of the last one; the client takes that as a sign of life and sends the same
  bytes back; the server takes the answer as a sign of life exactly if it carries the value
  it sent, and ignores any other 24 bytes with the key.
\<close>

theorem heartbeat_exchange:
  assumes "server_inv ent w" and "conns w c = Some ks" and "is_kcp_valid ks" and "env_ok (s_sys senv)" and "s_nameinfo senv = 0"
    and "conn_inv k" and "is_kcp_valid k" and "status (udp k) = UDP_READY" and "key k = key ks" and "env_ok env"
    and "length pad = 3" and "length d = 24" and "take 16 d = key ks"
  shows "(\<exists>kcs kcs'. kcp (udp ks) = Some kcs \<and>
      on_server_recv T senv w (Some c) (frame pad COMMAND_HEARTBEAT1 (key k)) =
        Some (0, None, put_conn c (ks\<lparr>udp := (udp ks)\<lparr>kcp := Some kcs'\<rparr>\<rparr>) w, []) \<and>
      concat (map sg_data (queued kcs kcs')) = frame (pad_of (s_sys senv)) COMMAND_HEARTBEAT1 (heart_msg ks)) \<and>
    (\<exists>kcc kcc'. kcp (udp k) = Some kcc \<and>
      on_client_recv env k (frame pad COMMAND_HEARTBEAT1 (heart_msg ks)) =
        Some (0, k\<lparr>udp := (udp k)\<lparr>kcp := Some kcc', heart := now env\<rparr>\<rparr>, []) \<and>
      concat (map sg_data (queued kcc kcc')) = frame (pad_of env) COMMAND_HEARTBEAT2 (heart_msg ks)) \<and>
    on_server_recv T senv w (Some c) (frame pad COMMAND_HEARTBEAT2 d) =
      Some (0, None, if d = heart_msg ks then put_conn c (ks\<lparr>udp := (udp ks)\<lparr>heart := now (s_sys senv)\<rparr>\<rparr>) w else w, [])"
proof (intro conjI)
  have l: "length (key ks) = 16" using assms(1,2) by (auto simp: server_inv_def srv_conn_ok_def)
  then have lm: "length (heart_msg ks) = 24" "take 16 (heart_msg ks) = key ks" by (simp_all add: heart_msg_def)
  have mem: "send_mem (s_sys senv) j \<noteq> None" "send_mem env j \<noteq> None" for j using assms(4,10) by (simp_all add: env_ok_def)
  obtain kcs where kcs: "kcp (udp ks) = Some kcs" "kcp_inv kcs"
    using assms(1,2) valid_kcp [OF assms(3)] by (auto simp: server_inv_def srv_conn_ok_def eng_ok_def)
  obtain kcs' where s: "ikcp_send (send_mem (s_sys senv)) kcs (Some (frame (pad_of (s_sys senv)) 4 (heart_msg ks))) (int (length (heart_msg ks) + 8)) = Some (0, kcs')"
    "concat (map sg_data (queued kcs kcs')) = frame (pad_of (s_sys senv)) 4 (heart_msg ks)"
    by (rule small_frame [OF kcs(2) _ mem(1), of "heart_msg ks" 4]) (use lm in simp_all)
  have "on_server_recv T senv w (Some c) (frame pad 4 (key k)) =
      Some (0, None, put_conn c (ks\<lparr>udp := (udp ks)\<lparr>kcp := Some kcs'\<rparr>\<rparr>) w, [])"
    using l lm assms(2,3,9) kcs(1) s(1)
    by (simp add: on_server_recv_frame [OF assms(11) _ assms(5)] server_heartbeat1_def Let_def heart_msg_def [symmetric]
        kcp_send_command_ok)
  then show "\<exists>kcs kcs'. kcp (udp ks) = Some kcs \<and> on_server_recv T senv w (Some c) (frame pad COMMAND_HEARTBEAT1 (key k)) =
        Some (0, None, put_conn c (ks\<lparr>udp := (udp ks)\<lparr>kcp := Some kcs'\<rparr>\<rparr>) w, []) \<and>
      concat (map sg_data (queued kcs kcs')) = frame (pad_of (s_sys senv)) COMMAND_HEARTBEAT1 (heart_msg ks)"
    using kcs(1) s(2) by blast
  obtain kcc where kcc: "kcp (udp k) = Some kcc" "kcp_inv kcc" using assms(6) by (auto simp: conn_inv_def udp_ok_def)
  obtain kcc' where t: "ikcp_send (send_mem env) kcc (Some (frame (pad_of env) 5 (heart_msg ks))) (int (length (heart_msg ks) + 8)) = Some (0, kcc')"
    "concat (map sg_data (queued kcc kcc')) = frame (pad_of env) 5 (heart_msg ks)"
    by (rule small_frame [OF kcc(2) _ mem(2), of "heart_msg ks" 5]) (use lm in simp_all)
  have "on_client_recv env k (frame pad 4 (heart_msg ks)) = Some (0, k\<lparr>udp := (udp k)\<lparr>kcp := Some kcc', heart := now env\<rparr>\<rparr>, [])"
    using lm assms(7-9) kcc(1) t(1)
    by (simp add: on_client_recv_frame [OF assms(11)] client_heartbeat1_def kcpev_send_command_ok)
  then show "\<exists>kcc kcc'. kcp (udp k) = Some kcc \<and> on_client_recv env k (frame pad COMMAND_HEARTBEAT1 (heart_msg ks)) =
        Some (0, k\<lparr>udp := (udp k)\<lparr>kcp := Some kcc', heart := now env\<rparr>\<rparr>, []) \<and>
      concat (map sg_data (queued kcc kcc')) = frame (pad_of env) COMMAND_HEARTBEAT2 (heart_msg ks)"
    using kcc(1) t(2) by blast
  show "on_server_recv T senv w (Some c) (frame pad COMMAND_HEARTBEAT2 d) =
      Some (0, None, if d = heart_msg ks then put_conn c (ks\<lparr>udp := (udp ks)\<lparr>heart := now (s_sys senv)\<rparr>\<rparr>) w else w, [])"
    using assms(2,3,12,13) heart_msg_eq [OF assms(12,13)]
    by (auto simp: on_server_recv_frame [OF assms(11) _ assms(5)] server_heartbeat2_def Let_def)
qed

text \<open>Both ends of the accepted connection of the examples.\<close>

definition demo_peer :: Kcpev where
  "demo_peer = (accepted demo_accept 1 demo_world)\<lparr>udp := udp demo_shaken\<rparr>"

definition demo_ours :: Kcpev where
  "demo_ours = demo_shaken\<lparr>key := key demo_peer\<rparr>"

lemma demo_peer_ok: "srv_conn_ok demo_peer"
proof -
  have "eng_ok (udp demo_shaken)" using demo_shaken_inv by (auto simp: conn_inv_def udp_ok_def eng_ok_def)
  then show ?thesis
    using srv_conn_udp [OF accepted_ok, of demo_accept] by (simp add: demo_peer_def demo_accept_def)
qed

lemma demo_peer_inv: "server_inv (\<lambda>h. h) (put_conn 1 demo_peer demo_world1)"
proof -
  have "conns demo_world1 1 = Some (accepted demo_accept 1 demo_world)" by (simp add: demo_world1_def)
  moreover have "key demo_peer = key (accepted demo_accept 1 demo_world)" by (simp add: demo_peer_def)
  ultimately show ?thesis by (rule server_inv_put [OF demo_world1_inv]) (rule demo_peer_ok)
qed

lemma demo_peer_valid: "is_kcp_valid demo_peer" "evt (udp demo_peer) \<noteq> None"
  using demo_shaken_valid by (auto simp: demo_peer_def is_kcp_valid_def split: if_splits)

lemma demo_ours_inv: "conn_inv demo_ours" "is_kcp_valid demo_ours" "status (udp demo_ours) = UDP_READY"
proof -
  have "length (key demo_peer) = 16" by (simp add: demo_peer_def demo_accept_def)
  then show "conn_inv demo_ours" using demo_shaken_inv by (simp add: demo_ours_def conn_inv_def conn_pending_def)
  show "is_kcp_valid demo_ours" using demo_shaken_valid(1) by (auto simp: demo_ours_def is_kcp_valid_def split: if_splits)
  show "status (udp demo_ours) = UDP_READY" by (simp add: demo_ours_def demo_shaken_def)
qed

theorem heartbeat_exchange_witness:
  "server_inv (\<lambda>h. h) (put_conn 1 demo_peer demo_world1) \<and> is_kcp_valid demo_peer \<and> is_kcp_valid demo_ours \<and>
   on_server_recv list_table demo_srv_env (put_conn 1 demo_peer demo_world1) (Some 1) (frame [0, 0, 0] COMMAND_HEARTBEAT2 (heart_msg demo_peer)) =
     Some (0, None, put_conn 1 (demo_peer\<lparr>udp := (udp demo_peer)\<lparr>heart := 0\<rparr>\<rparr>) (put_conn 1 demo_peer demo_world1), [])"
proof -
  have c: "conns (put_conn 1 demo_peer demo_world1) 1 = Some demo_peer" by simp
  have e: "env_ok (s_sys demo_srv_env)" "s_nameinfo demo_srv_env = 0" "length [0, 0, 0 :: byte] = 3" "now demo_env = 0"
    using demo_env_ok by (simp_all add: demo_env_def)
  have k: "key demo_ours = key demo_peer" "length (key demo_peer) = 16" by (simp_all add: demo_ours_def demo_peer_def demo_accept_def)
  then have d: "length (heart_msg demo_peer) = 24" "take 16 (heart_msg demo_peer) = key demo_peer" by (simp_all add: heart_msg_def)
  show ?thesis
    using heartbeat_exchange [OF demo_peer_inv c demo_peer_valid(1) e(1,2) demo_ours_inv k(1) demo_env_ok e(3) d, of list_table]
      demo_peer_inv demo_peer_valid(1) demo_ours_inv(2) e(4) by simp
qed

section \<open>Where the server goes wrong\<close>

text \<open>
  C37: a connection whose key could not be sent is freed but stays in the table: a datagram with
  that key, which any host may send to the UDP port of the server, then makes
  \<open>on_server_recv\<close> follow a dangling pointer.
\<close>

theorem accept_dangling:
  assumes "uthash_ok T ent" and "server_inv ent w" and "a_sock e > 0" and "a_nameinfo e = 0" and "a_at e = Some c"
    and "conns w c = None" and "length (a_uuid e) = 16" and "\<And>c k. conns w c = Some k \<Longrightarrow> key k \<noteq> a_uuid e" and "a_ev_ok e"
    and "send_ret (a_sys e) (a_sock e) (frame (pad_of (a_sys e)) COMMAND_SHAKE_HAND1 (a_uuid e)) \<noteq> 24"
    and "s_nameinfo env = 0" and "length pad = 3"
  shows "\<exists>w' out. tcp_accept T e w = Some (w', out) \<and> conns w' = conns w \<and> ht_find T (hash (srv w')) (a_uuid e) = Some c \<and>
    on_server_recv T env w' None (frame pad COMMAND_SHAKE_HAND1 (a_uuid e)) = None"
proof -
  let ?h = "ht_add T (hash (srv w)) (a_uuid e) c"
  have "conns (free_conn c (set_hash ?h w)) = conns w" using assms(6) by (simp add: fun_upd_idem)
  then obtain w' out where w': "tcp_accept T e w = Some (w', out)" "conns w' = conns w" "hash (srv w') = ?h"
    using assms(3-5,7,9,10)
    by (simp add: tcp_accept_def kcpev_create_def kcpev_init_ev_def kcpev_set_ev_def sock_send_command_ok Let_def)
  have ent: "ent ?h = ent (hash (srv w)) @ [(a_uuid e, c)]" using assms(1) by (simp add: uthash_ok_def)
  have old: "(a_uuid e, c') \<notin> set (ent (hash (srv w)))" for c'
    using assms(2,8) by (auto simp: server_inv_def table_ok_def)
  have f: "case ht_find T ?h (a_uuid e) of Some c \<Rightarrow> (a_uuid e, c) \<in> set (ent ?h) | None \<Rightarrow> a_uuid e \<notin> fst ` set (ent ?h)"
    using assms(1) unfolding uthash_ok_def by blast
  then have find: "ht_find T ?h (a_uuid e) = Some c"
    using ent old by (cases "ht_find T ?h (a_uuid e)") auto
  then have "on_server_recv T env w' None (frame pad COMMAND_SHAKE_HAND1 (a_uuid e)) = None"
    using w'(2,3) assms(6,7) by (simp add: on_server_recv_frame [OF assms(12) _ assms(11)] server_shake_hand1_def)
  then show ?thesis using w' find by auto
qed

theorem accept_dangling_witness:
  "\<exists>w' out. tcp_accept list_table (demo_accept\<lparr>a_sys := demo_env\<lparr>send_ret := \<lambda>s b. -1\<rparr>\<rparr>) demo_world = Some (w', out) \<and>
     on_server_recv list_table demo_srv_env w' None (frame [0, 0, 0] COMMAND_SHAKE_HAND1 (a_uuid demo_accept)) = None"
  using accept_dangling [OF list_table_ok demo_world_inv, of "demo_accept\<lparr>a_sys := demo_env\<lparr>send_ret := \<lambda>s b. -1\<rparr>\<rparr>" 1 demo_srv_env "[0, 0, 0]"]
  by (auto simp: demo_accept_def demo_world_def simp del: replicate.simps)

text \<open>
  C38: the server does not check that a connection is new when it gets the first handshake frame
  with its key. For a connection in use the socket and the engine are replaced, so everything
  in flight is lost, and since its timers exist the second handshake frame is refused from
  then on: KCP stays unusable.
\<close>

theorem server_rehandshake:
  assumes "uthash_ok T ent" and "server_inv ent w" and "conns w c = Some k" and "is_kcp_valid k"
    and "conn_succeeds (s_conn env) n out" and "\<And>s b. send_ret (s_sys env) s b = int (length b)"
    and "s_nameinfo env = 0" and "length pad = 3"
  shows "\<exists>k' kc. on_server_recv T env w None (frame pad COMMAND_SHAKE_HAND1 (key k)) =
      Some (0, Some c, put_conn c k' w, out @ [Ev_send n (frame (pad_of (s_sys env)) COMMAND_SHAKE_HAND2 (key k)) 24]) \<and>
    kcp (udp k') = Some kc \<and> fresh (ucast (key_conv (key k))) kc \<and> sock (udp k') = n \<and> \<not> is_kcp_valid k' \<and>
    on_server_recv T env (put_conn c k' w) None (frame pad COMMAND_SHAKE_HAND2 (key k)) = Some (-1, None, put_conn c k' w, [])"
proof -
  obtain k' kc where h: "on_server_recv T env w None (frame pad COMMAND_SHAKE_HAND1 (key k)) =
      Some (0, Some c, put_conn c k' w, out @ [Ev_send n (frame (pad_of (s_sys env)) COMMAND_SHAKE_HAND2 (key k)) 24])"
    "key k' = key k" "sock (udp k') = n" "status (udp k') = UDP_SHAKING_HAND" "evt (udp k') = evt (udp k)"
    "kcp (udp k') = Some kc" "fresh (ucast (key_conv (key k))) kc" "tcp k' = tcp k" "server k' = server k"
    by (rule server_hand1 [OF assms(1-3,5-8), of None])
  have ok: "srv_conn_ok k" using assms(2,3) by (auto simp: server_inv_def)
  then have "srv_conn_ok k'" using h by (simp add: srv_conn_ok_def conn_pending_def eng_ok_def fresh_def)
  then have inv: "server_inv ent (put_conn c k' w)" using server_inv_put [OF assms(2,3)] h(2) by simp
  have f: "ht_find T (hash (srv w)) (key k) = Some c" by (rule find_live [OF assms(1-3)])
  have "put_conn c k' (put_conn c k' w) = put_conn c k' w" by (simp add: put_conn_def)
  then have "on_server_recv T env (put_conn c k' w) None (frame pad COMMAND_SHAKE_HAND2 (key k)) = Some (-1, None, put_conn c k' w, [])"
    using ok h(4,5) f valid_kcp [OF assms(4)]
    by (simp add: on_server_recv_frame [OF assms(8) _ assms(7)] server_shake_hand2_def check_create_kcp_timer_def srv_conn_ok_def)
  moreover have "\<not> is_kcp_valid k'" using h(4) by (simp add: is_kcp_valid_def)
  ultimately show ?thesis using h(1,3,6,7) by blast
qed

theorem server_rehandshake_witness:
  "is_kcp_valid demo_peer \<and> (\<exists>k' out. on_server_recv list_table demo_srv_env (put_conn 1 demo_peer demo_world1) None
      (frame [0, 0, 0] COMMAND_SHAKE_HAND1 (key demo_peer)) = Some (0, Some 1, put_conn 1 k' (put_conn 1 demo_peer demo_world1), out) \<and>
    \<not> is_kcp_valid k')"
proof -
  have c: "conns (put_conn 1 demo_peer demo_world1) 1 = Some demo_peer" by simp
  have s: "send_ret (s_sys demo_srv_env) s b = int (length b)" for s b by (simp add: demo_env_def)
  have "s_nameinfo demo_srv_env = 0" "length [0, 0, 0 :: byte] = 3" by simp_all
  from server_rehandshake [OF list_table_ok demo_peer_inv c demo_peer_valid(1) demo_uthash(5) s this]
  show ?thesis using demo_peer_valid(1) by blast
qed

text \<open>
  C39: when the first handshake frame comes again and the server cannot open a socket for it, the
  connection loses its engine but keeps its status, so the second frame still makes it ready
  and starts the timers: the engine timer then calls \<open>ikcp_recv\<close> with a null pointer, whose
  assertion ends the process. The outcome is undefined in the first round of the loop of \<open>try_kcp_recv\<close>,
  whatever number of rounds the fuel allows.
\<close>

theorem server_timer_null:
  assumes "uthash_ok T ent" and "server_inv ent w" and "conns w c = Some k" and "status (udp k) = UDP_SHAKING_HAND"
    and "c_addrs (s_conn env) = None" and "s_nameinfo env = 0" and "evt_ok (s_sys env)" and "evh_ok (s_sys env)"
    and "length pad = 3"
  shows "\<exists>w1 w2 out. on_server_recv T env w None (frame pad COMMAND_SHAKE_HAND1 (key k)) = Some (-1, Some c, w1, out) \<and>
    on_server_recv T env w1 None (frame pad COMMAND_SHAKE_HAND2 (key k)) = Some (0, None, w2, []) \<and>
    (\<exists>k2 t. conns w2 c = Some k2 \<and> kcp (udp k2) = None \<and> evt (udp k2) = Some t \<and> tm_cb t = Kcpev_on_timer \<and>
      kcpev_timer_repeat (s_sys (envs 0)) k2 = Some (k2, [])) \<and>
    (\<forall>n. server_kcp_recv T (Suc n) 0 envs (-1) c None w2 = None) \<and> server_on_timer T envs c w2 = None"
proof -
  let ?k1 = "k\<lparr>udp := fst (KcpevUdp_destroy (udp k))\<rparr>"
  have ok: "srv_conn_ok k" using assms(2,3) by (auto simp: server_inv_def)
  have f: "ht_find T (hash (srv w)) (key k) = Some c" by (rule find_live [OF assms(1-3)])
  have st: "status (fst (KcpevUdp_destroy (udp k))) = status (udp k)"
    by (auto simp: KcpevUdp_destroy_def KcpevSock_destroy_def Let_def split: prod.splits)
  have "\<exists>out. on_server_recv T env w None (frame pad COMMAND_SHAKE_HAND1 (key k)) = Some (-1, Some c, put_conn c ?k1 w, out)"
    using ok f assms(3,5)
    by (simp add: on_server_recv_frame [OF assms(9) _ assms(6)] server_shake_hand1_def connect_client_udp_def
        kcpev_bind_socket_def srv_conn_ok_def Let_def split_def)
  moreover have "srv_conn_ok ?k1" using srv_conn_udp [OF ok] destroy_udp(1) by (simp add: eng_ok_def)
  then have inv1: "server_inv ent (put_conn c ?k1 w)" using server_inv_put [OF assms(2,3)] by simp
  have c1: "conns (put_conn c ?k1 w) c = Some ?k1" by simp
  have s1: "status (udp ?k1) = UDP_SHAKING_HAND" "evt (udp ?k1) = None" using st assms(4) destroy_udp(3) by simp_all
  let ?u = "(udp ?k1)\<lparr>evt := Some \<lparr>tm_cb = Kcpev_on_timer, tm_repeat = 10\<rparr>,
      evh := Some \<lparr>tm_cb = On_server_heartbeat_timer, tm_repeat = 10000\<rparr>, heart := now (s_sys env), status := UDP_READY\<rparr>"
  let ?k2 = "?k1\<lparr>udp := ?u\<rparr>"
  have "on_server_recv T env (put_conn c ?k1 w) None (frame pad COMMAND_SHAKE_HAND2 (key k)) =
      Some (0, None, put_conn c ?k2 (put_conn c ?k1 w), [])"
    using ok s1 f assms(7,8)
    by (simp add: on_server_recv_frame [OF assms(9) _ assms(6)] server_shake_hand2_def check_create_kcp_timer_def srv_conn_ok_def)
  moreover have n: "kcp (udp ?k2) = None" using destroy_udp(1) by simp
  then have loop: "server_kcp_recv T (Suc n) 0 envs (-1) c None (put_conn c ?k2 (put_conn c ?k1 w)) = None" for n
    by (simp add: c_assert_def)
  then have "server_on_timer T envs c (put_conn c ?k2 (put_conn c ?k1 w)) = None"
    using n by (simp add: server_on_timer_def kcpev_timer_repeat_def server_try_kcp_recv_def kcp_recv_fuel_def c_assert_def)
  moreover have "\<exists>k2 t. conns (put_conn c ?k2 (put_conn c ?k1 w)) c = Some k2 \<and> kcp (udp k2) = None \<and> evt (udp k2) = Some t \<and>
      tm_cb t = Kcpev_on_timer \<and> kcpev_timer_repeat (s_sys (envs 0)) k2 = Some (k2, [])"
    using n by (simp add: kcpev_timer_repeat_def)
  moreover note loop
  ultimately show ?thesis by blast
qed

theorem server_timer_null_witness:
  "\<exists>w1 w2 out. on_server_recv list_table (demo_srv_env\<lparr>s_conn := (s_conn demo_srv_env)\<lparr>c_addrs := None\<rparr>\<rparr>)
      (put_conn 1 (demo_peer\<lparr>udp := (udp demo_peer)\<lparr>status := UDP_SHAKING_HAND\<rparr>\<rparr>) demo_world1) None
      (frame [0, 0, 0] COMMAND_SHAKE_HAND1 (key demo_peer)) = Some (-1, Some 1, w1, out) \<and>
    on_server_recv list_table (demo_srv_env\<lparr>s_conn := (s_conn demo_srv_env)\<lparr>c_addrs := None\<rparr>\<rparr>) w1 None
      (frame [0, 0, 0] COMMAND_SHAKE_HAND2 (key demo_peer)) = Some (0, None, w2, []) \<and>
    server_on_timer list_table (\<lambda>_. demo_srv_env) 1 w2 = None"
proof -
  let ?e = "demo_srv_env\<lparr>s_conn := (s_conn demo_srv_env)\<lparr>c_addrs := None\<rparr>\<rparr>"
  let ?k = "demo_peer\<lparr>udp := (udp demo_peer)\<lparr>status := UDP_SHAKING_HAND\<rparr>\<rparr>"
  have c: "conns demo_world1 1 = Some (accepted demo_accept 1 demo_world)" by (simp add: demo_world1_def)
  have "srv_conn_ok ?k" using demo_peer_ok by (simp add: srv_conn_ok_def conn_pending_def eng_ok_def)
  then have inv: "server_inv (\<lambda>h. h) (put_conn 1 ?k demo_world1)"
    using server_inv_put [OF demo_world1_inv c, of ?k] by (simp add: demo_peer_def)
  have k: "conns (put_conn 1 ?k demo_world1) 1 = Some ?k" "status (udp ?k) = UDP_SHAKING_HAND" "key ?k = key demo_peer" by simp_all
  have e: "c_addrs (s_conn ?e) = None" "s_nameinfo ?e = 0" "evt_ok (s_sys ?e)" "evh_ok (s_sys ?e)" "length [0, 0, 0 :: byte] = 3"
    by (simp_all add: demo_srv_env_def demo_env_def)
  from server_timer_null [OF list_table_ok inv k(1,2) e, of "\<lambda>_. demo_srv_env"] show ?thesis unfolding k(3) by blast
qed

end
