(* ===== verification/Kcpev_Delivery.thy ===== *)
theory Kcpev_Delivery
  imports Kcpev_Handshake Ikcp_Liveness
begin

text \<open>
  From \<open>kcpev_send\<close> of one side to the receive callback of the other, on both transports and
  in both directions: the TCP stream as the server reassembles it, calls of \<open>kcpev_send\<close> over
  TCP followed by what the peer makes of the stream, a \<open>send\<close> that takes only a part of
  a frame, and the loop of \<open>try_kcp_recv\<close> for a connection of the server.
\<close>

section \<open>The TCP stream at the server\<close>

interpretation server_stream: data_stream "\<lambda>w. conns w c" "put_conn c" "server_frame T envs c"
  "\<lambda>w. srv_cb (srv w) \<and> (\<forall>i. s_nameinfo (envs i) = 0)" "Ev_server_cb (Some c)"
  "\<lambda>buf len w. server_tcp_recv T envs mem mem2 buf (int len) c w" mem mem2
  for T :: "'h uthash" and envs mem mem2 c
proof unfold_locales
  show "srv_cb (srv w) \<and> (\<forall>i. s_nameinfo (envs i) = 0) \<Longrightarrow> length pad = 3 \<Longrightarrow> length msg \<le> 65528 \<Longrightarrow>
      server_frame T envs c i (frame pad 1 msg) w = Some (0, w, [Ev_server_cb (Some c) msg])" for w :: "'h world" and pad msg i
    by (simp add: server_frame_def on_server_recv_frame)
  show "srv_cb (srv w) \<and> (\<forall>i. s_nameinfo (envs i) = 0) \<Longrightarrow> conns w c = Some k \<Longrightarrow>
      srv_cb (srv (with_rb (\<lambda>w. conns w c) (put_conn c) r w)) \<and> (\<forall>i. s_nameinfo (envs i) = 0)" for w :: "'h world" and k r
    by (simp add: with_rb_server)
  show "0 < len \<Longrightarrow> tcp_recv (\<lambda>w. conns w c) (put_conn c) (server_frame T envs c) mem mem2 buf len w = Some (True, w', out) \<Longrightarrow>
      server_tcp_recv T envs mem mem2 buf (int len) c w = Some (w', out)" for len buf and w w' :: "'h world" and out
    by (simp add: server_tcp_recv_def)
qed

section \<open>Sending over TCP\<close>

text \<open>A sequence of calls of \<open>kcpev_send\<close>, with what each returned.\<close>

fun send_run :: "sysenv list \<Rightarrow> Kcpev \<Rightarrow> byte list list \<Rightarrow> (int list \<times> Kcpev \<times> event list) option" where
  "send_run (e # es) k (m # ms) =
     do {
       (r, k, out) \<leftarrow> kcpev_send e k m;
       (rs, k, out2) \<leftarrow> send_run es k ms;
       Some (r # rs, k, out @ out2)
     }"
| "send_run _ k _ = Some ([], k, [])"

text \<open>The bytes that the calls of \<open>send\<close> on a socket took.\<close>

fun taken :: "int \<Rightarrow> event \<Rightarrow> byte list" where
  "taken s (Ev_send s' d ret) = (if s' = s then take (nat ret) d else [])"
| "taken s _ = []"

definition wire :: "int \<Rightarrow> event list \<Rightarrow> byte list" where
  "wire s out = concat (map (taken s) out)"

lemma wire_simps [simp]: "wire s [] = []" "wire s (e # out) = taken s e @ wire s out" "wire s (out @ out2) = wire s out @ wire s out2"
  by (simp_all add: wire_def)

lemma send_over_tcp:
  assumes "\<not> is_kcp_valid k" and "length m \<le> 65528"
  shows "kcpev_send e k m = (let ret = send_ret e (sock (tcp k)) (frame (pad_of e) 1 m) in
    Some (if ret = int (length m + 8) then 0 else -1, k, [Ev_send (sock (tcp k)) (frame (pad_of e) 1 m) ret]))"
  using assms by (simp add: kcpev_send_def kcpev_send_command_ok Let_def)

lemma send_run_tcp:
  assumes "\<not> is_kcp_valid k" and "length es = length ms" and "\<forall>m \<in> set ms. length m \<le> 65528"
    and "\<forall>e \<in> set es. \<forall>b. send_ret e (sock (tcp k)) b = int (length b)"
  shows "\<exists>out. send_run es k ms = Some (replicate (length ms) 0, k, out) \<and>
    wire (sock (tcp k)) out = concat (data_frames (zip (map pad_of es) ms))"
  using assms(2-4) by (induction es ms rule: list_induct2) (auto simp: send_over_tcp [OF assms(1)] Let_def)

definition server_run ::
  "'h uthash \<Rightarrow> (nat \<Rightarrow> srv_env) \<Rightarrow> (nat \<Rightarrow> byte) option \<Rightarrow> (nat \<Rightarrow> byte) option \<Rightarrow> nat \<Rightarrow> (byte list \<times> nat) list \<Rightarrow>
   'h world \<Rightarrow> ('h world \<times> event list) option" where
  "server_run T envs mem mem2 c = tcp_run (\<lambda>buf len w. server_tcp_recv T envs mem mem2 buf (int len) c w)"

section \<open>Properties\<close>

text \<open>
  C6: what is sent over TCP is delivered, in both directions, within the capacity of the ring buffer.
  When KCP is not usable, every \<open>send\<close> takes all it is given and no frame is longer than \<open>a\<close> bytes, calls of
  \<open>kcpev_send\<close> return 0 and put a stream on the TCP socket. A server whose connection has nothing pending
  and receives this stream in pieces of at most \<open>b\<close> bytes, cut anywhere, calls its receive callback
  with exactly the messages, in order, changes nothing but the ring buffer of that connection
  and leaves nothing pending in it; a client that receives it does the same. A piece and an
  incomplete frame have to fit the ring buffer together: \<open>a + b\<close> is at most 65537 (C26 shows what
  happens to a piece that does not fit). The callbacks are set, \<open>getnameinfo\<close> succeeds and the
  ring buffer can be allocated.
\<close>

theorem tcp_delivery:
  assumes "\<not> is_kcp_valid k" and "length es = length ms" and "\<forall>e \<in> set es. \<forall>b. send_ret e (sock (tcp k)) b = int (length b)"
    and "\<forall>m \<in> set ms. length m + 8 \<le> a" and "0 < a" and "a + b \<le> 65537" and "a \<le> 65536"
    and "\<forall>(buf, len) \<in> set ps. length buf = 65536 \<and> 0 < len \<and> len \<le> b" and "mem \<noteq> None"
    and "srv_cb (srv w)" and "\<forall>i. s_nameinfo (envs i) = 0" and "conns w c = Some k1" and "conn_pending k1 []"
    and "recv_cb k2" and "conn_pending k2 []"
  shows "\<exists>out. send_run es k ms = Some (replicate (length ms) 0, k, out) \<and>
    (concat (map piece ps) = wire (sock (tcp k)) out \<longrightarrow>
      (\<exists>rb. server_run T envs mem mem2 c ps w = Some (srv_rb c rb w, map (Ev_server_cb (Some c)) ms) \<and> conn_pending (set_rb rb k1) []) \<and>
      (\<exists>rb. client_tcp_run envs' mem mem2 ps k2 = Some (set_rb rb k2, map Ev_recv_cb ms) \<and> conn_pending (set_rb rb k2) []))"
proof -
  let ?z = "zip (map pad_of es) ms"
  have l: "\<forall>m \<in> set ms. length m \<le> 65528" using assms(4,7) by fastforce
  have z: "\<forall>(pad, msg) \<in> set ?z. length pad = 3 \<and> length msg + 8 \<le> a"
    using assms(4) by (fastforce dest: set_zip_leftD set_zip_rightD)
  have m: "map (\<lambda>(pad, msg). f msg) ?z = map f ms" for f :: "byte list \<Rightarrow> event"
    using assms(2) by (induction es ms rule: list_induct2) simp_all
  obtain out where s: "send_run es k ms = Some (replicate (length ms) 0, k, out)" "wire (sock (tcp k)) out = concat (data_frames ?z)"
    using send_run_tcp [OF assms(1,2) l assms(3)] by blast
  have "(\<exists>rb. server_run T envs mem mem2 c ps w = Some (srv_rb c rb w, map (Ev_server_cb (Some c)) ms) \<and> conn_pending (set_rb rb k1) []) \<and>
      (\<exists>rb. client_tcp_run envs' mem mem2 ps k2 = Some (set_rb rb k2, map Ev_recv_cb ms) \<and> conn_pending (set_rb rb k2) [])"
    if p: "concat (map piece ps) = wire (sock (tcp k)) out"
  proof
    note p = p [unfolded s(2)]
    show "\<exists>rb. server_run T envs mem mem2 c ps w = Some (srv_rb c rb w, map (Ev_server_cb (Some c)) ms) \<and> conn_pending (set_rb rb k1) []"
      using server_stream.stream [where envs = envs and T = T, OF assms(12,13) conjI [OF assms(10,11)] assms(9,8) z assms(5-7) p]
      unfolding m by (auto simp: server_run_def with_rb_server)
    show "\<exists>rb. client_tcp_run envs' mem mem2 ps k2 = Some (set_rb rb k2, map Ev_recv_cb ms) \<and> conn_pending (set_rb rb k2) []"
      using client_stream.stream [where envs = envs', OF refl assms(15,14,9,8) z assms(5-7) p]
      unfolding m by (auto simp: client_tcp_run_def with_rb_def)
  qed
  then show ?thesis using s(1) by blast
qed

lemma demo_pad [simp]: "pad_of demo_env = [0, 0, 0]"
proof -
  have "b = 0" if "b \<in> set (pad_of demo_env)" for b
    using in_set_takeD [OF that [unfolded pad_of_def], THEN in_set_dropD] by (auto simp: stack_buf_def demo_env_def)
  then have "pad_of demo_env = replicate 3 0" by (intro replicate_eqI) simp_all
  then show ?thesis by (simp add: numeral_3_eq_3)
qed

lemma demo_frames:
  "frame [0, 0, 0] 1 [7, 9] = [0, 0, 0, 10, 1, 0, 0, 0, 7, 9]" "frame [0, 0, 0] 1 [5] = [0, 0, 0, 9, 1, 0, 0, 0, 5]"
  by (simp_all add: frame_def le_store32_def upt_0_4)

lemma demo_piece [simp]: "length d \<le> 65536 \<Longrightarrow> n = length d \<Longrightarrow> take n (demo_array d) = d"
  by (simp add: demo_array_def)

definition demo_pieces :: "(byte list \<times> nat) list" where
  "demo_pieces = [(demo_array [0, 0, 0], 3), (demo_array [10, 1, 0, 0, 0, 7, 9, 0, 0, 0, 9, 1], 12), (demo_array [0, 0, 0, 5], 4)]"

theorem tcp_delivery_witness:
  "\<exists>out rb. send_run [demo_env, demo_env] demo_client [[7, 9], [5]] = Some ([0, 0], demo_client, out) \<and>
    concat (map piece demo_pieces) = wire (sock (tcp demo_client)) out \<and>
    server_run list_table (\<lambda>_. demo_srv_env) (Some (\<lambda>_. 0)) None 1 demo_pieces demo_world1 =
      Some (srv_rb 1 rb demo_world1, [Ev_server_cb (Some 1) [7, 9], Ev_server_cb (Some 1) [5]])"
proof -
  let ?k = "accepted demo_accept 1 demo_world"
  have c: "conns demo_world1 1 = Some ?k" by (simp add: demo_world1_def)
  have srv: "srv_cb (srv demo_world1)" using demo_world1_inv by (simp add: server_inv_def)
  have p: "conn_pending ?k []" "conn_pending demo_client []" by (simp_all add: conn_pending_def)
  have v: "\<not> is_kcp_valid demo_client" by (simp add: is_kcp_valid_def demo_client_def kcpev_create_def)
  have send: "send_ret demo_env s b = int (length b)" for s b by (simp add: demo_env_def)
  have b: "\<forall>(buf, len) \<in> set demo_pieces. length buf = 65536 \<and> 0 < len \<and> len \<le> 12"
    by (simp add: demo_pieces_def length_demo_array)
  have s: "send_run [demo_env, demo_env] demo_client [[7, 9], [5]] = Some ([0, 0], demo_client,
      [Ev_send (sock (tcp demo_client)) (frame [0, 0, 0] 1 [7, 9]) 10, Ev_send (sock (tcp demo_client)) (frame [0, 0, 0] 1 [5]) 9])"
    by (simp add: send_over_tcp [OF v] send)
  have w: "concat (map piece demo_pieces) = wire (sock (tcp demo_client))
      [Ev_send (sock (tcp demo_client)) (frame [0, 0, 0] 1 [7, 9]) 10, Ev_send (sock (tcp demo_client)) (frame [0, 0, 0] 1 [5]) 9]"
    by (simp add: demo_pieces_def demo_frames)
  have d: "\<exists>out. send_run [demo_env, demo_env] demo_client [[7, 9], [5]] =
      Some (replicate (length [[7, 9], [5 :: byte]]) 0, demo_client, out) \<and>
    (concat (map piece demo_pieces) = wire (sock (tcp demo_client)) out \<longrightarrow>
      (\<exists>rb. server_run list_table (\<lambda>_. demo_srv_env) (Some (\<lambda>_. 0)) None 1 demo_pieces demo_world1 =
        Some (srv_rb 1 rb demo_world1, map (Ev_server_cb (Some 1)) [[7, 9], [5]]) \<and> conn_pending (set_rb rb ?k) []) \<and>
      (\<exists>rb. client_tcp_run (\<lambda>_. demo_env) (Some (\<lambda>_. 0)) None demo_pieces demo_client =
        Some (set_rb rb demo_client, map Ev_recv_cb [[7, 9], [5]]) \<and> conn_pending (set_rb rb demo_client) []))"
    by (rule tcp_delivery [where a = 10, OF v _ _ _ _ _ _ b _ srv _ c p(1) _ p(2)]) (simp_all add: send)
  then show ?thesis unfolding s using w by auto
qed

text \<open>
  C27: a \<open>send\<close> that takes the header of a frame but not all of it breaks the stream. \<open>kcpev_send\<close>
  returns -1 for that message and the rest of its frame is never sent. The calls after it return
  0, but as long as their frames do not exceed the missing part a client that receives the stream
  gets none of these messages: it waits for the rest of the first frame, and once the missing part is filled exactly its callback
  gets one message that nobody sent, the start of the first one followed by the frames of the
  others, headers included. A piece and an incomplete frame fit the ring buffer together.
\<close>

theorem tcp_short_send:
  assumes "\<not> is_kcp_valid k" and "send_ret e1 (sock (tcp k)) (frame (pad_of e1) 1 m1) = int n"
    and "8 \<le> n" and "n < length m1 + 8" and "length es = length ms"
    and "\<forall>e \<in> set es. \<forall>b. send_ret e (sock (tcp k)) b = int (length b)"
    and "n + sum_list (map (\<lambda>m. length m + 8) ms) \<le> length m1 + 8"
    and "length m1 + 8 \<le> a" and "a + b \<le> 65537" and "a \<le> 65536"
    and "\<forall>(buf, len) \<in> set ps. length buf = 65536 \<and> 0 < len \<and> len \<le> b" and "mem \<noteq> None"
    and "recv_cb k2" and "conn_pending k2 []"
  shows "\<exists>out. send_run (e1 # es) k (m1 # ms) = Some (-1 # replicate (length ms) 0, k, out) \<and>
    (concat (map piece ps) = wire (sock (tcp k)) out \<longrightarrow>
      (\<exists>rb. if n + sum_list (map (\<lambda>m. length m + 8) ms) = length m1 + 8
        then client_tcp_run envs mem mem2 ps k2 =
            Some (set_rb rb k2, [Ev_recv_cb (take (n - 8) m1 @ concat (data_frames (zip (map pad_of es) ms)))]) \<and>
          conn_pending (set_rb rb k2) []
        else client_tcp_run envs mem mem2 ps k2 = Some (set_rb rb k2, []) \<and>
          conn_pending (set_rb rb k2) (wire (sock (tcp k)) out)))"
proof -
  let ?s = "sock (tcp k)" and ?F = "concat (data_frames (zip (map pad_of es) ms))"
  have le: "length m + 8 \<le> sum_list (map (\<lambda>m. length m + 8) ms)" if "m \<in> set ms" for m
    using that by (simp add: member_le_sum_list)
  have l: "length m1 \<le> 65528" "\<forall>m \<in> set ms. length m \<le> 65528" using assms(3,7,8,10) le by fastforce+
  obtain out where s: "send_run es k ms = Some (replicate (length ms) 0, k, out)" "wire ?s out = ?F"
    using send_run_tcp [OF assms(1,5) l(2) assms(6)] by blast
  let ?out = "Ev_send ?s (frame (pad_of e1) 1 m1) (int n) # out"
  have run: "send_run (e1 # es) k (m1 # ms) = Some (-1 # replicate (length ms) 0, k, ?out)"
    using assms(2,4) s(1) by (simp add: send_over_tcp [OF assms(1) l(1)] Let_def)
  have F: "length ?F = sum_list (map (\<lambda>m. length m + 8) ms)"
    using assms(5) by (induction es ms rule: list_induct2) simp_all
  define g where "g = length m1 + 8 - (n + length ?F)"
  define m where "m = take (n - 8) m1 @ ?F @ replicate g 0"
  have m: "length m = length m1" using assms(3,4,7) F by (simp add: m_def g_def)
  define h where "h = rev (le_store32 (of_nat (length m1 + 8))) @ [1] @ pad_of e1"
  have f: "frame (pad_of e1) 1 x = h @ x" if "length x = length m1" for x
    using that by (simp add: frame_def h_def del: of_nat_add)
  have h8: "length h = 8" by (simp add: h_def)
  then have w: "wire ?s ?out @ replicate g 0 = concat (data_frames [(pad_of e1, m)])"
    using assms(3) f [OF refl] f [OF m] s(2) by (simp add: m_def)
  have z: "\<forall>(pad, msg) \<in> set [(pad_of e1, m)]. length pad = 3 \<and> length msg + 8 \<le> a" using m assms(8) by simp
  have "\<exists>rb. if n + sum_list (map (\<lambda>m. length m + 8) ms) = length m1 + 8
      then client_tcp_run envs mem mem2 ps k2 = Some (set_rb rb k2, [Ev_recv_cb (take (n - 8) m1 @ ?F)]) \<and> conn_pending (set_rb rb k2) []
      else client_tcp_run envs mem mem2 ps k2 = Some (set_rb rb k2, []) \<and> conn_pending (set_rb rb k2) (wire ?s ?out)"
    if p: "concat (map piece ps) = wire ?s ?out"
  proof -
    have a: "0 < a" using assms(8) by simp
    have "\<exists>ms1 ms2 r rb. [(pad_of e1, m)] = ms1 @ ms2 \<and> \<not> frame_ready r \<and> r @ replicate g 0 = concat (data_frames ms2) \<and>
        tcp_run (\<lambda>buf len k. client_tcp_recv envs mem mem2 buf (int len) k) ps k2 =
          Some (with_rb Some (\<lambda>k _. k) rb k2, map (\<lambda>(pad, msg). Ev_recv_cb msg) ms1) \<and> conn_pending (set_rb rb k2) r"
      by (rule client_stream.stream_part [where envs = envs, OF refl assms(14,13,12,11) z a assms(9,10) w [folded p]])
    then obtain ms1 ms2 r rb where *: "[(pad_of e1, m)] = ms1 @ ms2" "\<not> frame_ready r" "r @ replicate g 0 = concat (data_frames ms2)"
      "client_tcp_run envs mem mem2 ps k2 = Some (set_rb rb k2, map (\<lambda>(pad, msg). Ev_recv_cb msg) ms1)" "conn_pending (set_rb rb k2) r"
      by (auto simp: client_tcp_run_def with_rb_def)
    show ?thesis
    proof (cases "g = 0")
      case True
      have full: "n + sum_list (map (\<lambda>m. length m + 8) ms) = length m1 + 8" using True assms(7) F by (simp add: g_def)
      have "ms2 = []"
      proof (rule ccontr)
        assume "ms2 \<noteq> []"
        then have "ms2 = [(pad_of e1, m)]" using *(1) by (cases ms1) auto
        then have r: "r = frame (pad_of e1) 1 m" using *(3) True by simp
        have "frame_len (frame (pad_of e1) 1 m @ []) = length m + 8" by (rule frame_len_frame) (use m l(1) in simp_all)
        then have "frame_ready r" unfolding r by (simp add: frame_ready_def)
        then show False using *(2) by simp
      qed
      then have "r = []" "ms1 = [(pad_of e1, m)]" using *(1,3) by simp_all
      then show ?thesis using * full True by (intro exI [of _ rb]) (simp add: m_def)
    next
      case False
      then have "n + sum_list (map (\<lambda>m. length m + 8) ms) \<noteq> length m1 + 8" using F by (simp add: g_def)
      moreover have "ms1 = []" "r = wire ?s ?out"
      proof -
        show "ms1 = []"
        proof (rule ccontr)
          assume "ms1 \<noteq> []"
          then have "ms2 = []" using *(1) by (cases ms1) auto
          then show False using *(3) False by simp
        qed
        then show "r = wire ?s ?out" using *(1,3) w by (metis append_Nil append_same_eq)
      qed
      ultimately show ?thesis using * by (intro exI [of _ rb]) simp
    qed
  qed
  then show ?thesis using run by blast
qed

theorem tcp_short_send_witness:
  "\<exists>out rb. send_run [demo_env\<lparr>send_ret := \<lambda>_ _. 8\<rparr>, demo_env] demo_client [[1, 2, 3, 4, 5, 6, 7, 8, 9], [5]] =
      Some ([-1, 0], demo_client, out) \<and>
    client_tcp_run (\<lambda>_. demo_env) (Some (\<lambda>_. 0)) None [(demo_array (wire (sock (tcp demo_client)) out), 17)] demo_client =
      Some (set_rb rb demo_client, [Ev_recv_cb [0, 0, 0, 9, 1, 0, 0, 0, 5]])"
proof -
  let ?e = "demo_env\<lparr>send_ret := \<lambda>_ _. 8\<rparr>"
  let ?m = "[1, 2, 3, 4, 5, 6, 7, 8, 9] :: byte list"
  let ?s = "sock (tcp demo_client)"
  let ?w = "[0, 0, 0, 17, 1, 0, 0, 0, 0, 0, 0, 9, 1, 0, 0, 0, 5] :: byte list"
  have p: "conn_pending demo_client []" by (simp add: conn_pending_def)
  have v: "\<not> is_kcp_valid demo_client" by (simp add: is_kcp_valid_def demo_client_def kcpev_create_def)
  have e: "pad_of ?e = [0, 0, 0]" using demo_pad by (simp add: pad_of_def stack_buf_def)
  have send: "send_ret demo_env s b = int (length b)" for s b by (simp add: demo_env_def)
  have f: "frame [0, 0, 0] 1 ?m = [0, 0, 0, 17, 1, 0, 0, 0, 1, 2, 3, 4, 5, 6, 7, 8, 9]"
    by (simp add: frame_def le_store32_def upt_0_4)
  have b: "\<forall>(buf, len) \<in> set [(demo_array ?w, 17 :: nat)]. length buf = 65536 \<and> 0 < len \<and> len \<le> 17"
    by (simp add: length_demo_array)
  have s: "send_run [?e, demo_env] demo_client [?m, [5]] =
      Some ([-1, 0], demo_client, [Ev_send ?s (frame [0, 0, 0] 1 ?m) 8, Ev_send ?s (frame [0, 0, 0] 1 [5]) 9])"
    by (simp add: send_over_tcp [OF v] send e)
  have w: "wire ?s [Ev_send ?s (frame [0, 0, 0] 1 ?m) 8, Ev_send ?s (frame [0, 0, 0] 1 [5]) 9] = ?w"
    by (simp add: f demo_frames)
  have "\<exists>out. send_run (?e # [demo_env]) demo_client (?m # [[5]]) = Some (-1 # replicate (length [[5 :: byte]]) 0, demo_client, out) \<and>
    (concat (map piece [(demo_array ?w, 17)]) = wire ?s out \<longrightarrow>
      (\<exists>rb. if 8 + sum_list (map (\<lambda>m. length m + 8) [[5 :: byte]]) = length ?m + 8
        then client_tcp_run (\<lambda>_. demo_env) (Some (\<lambda>_. 0)) None [(demo_array ?w, 17)] demo_client =
            Some (set_rb rb demo_client, [Ev_recv_cb (take (8 - 8) ?m @ concat (data_frames (zip (map pad_of [demo_env]) [[5]])))]) \<and>
          conn_pending (set_rb rb demo_client) []
        else client_tcp_run (\<lambda>_. demo_env) (Some (\<lambda>_. 0)) None [(demo_array ?w, 17)] demo_client = Some (set_rb rb demo_client, []) \<and>
          conn_pending (set_rb rb demo_client) (wire ?s out)))"
    by (rule tcp_short_send [where a = 17, OF v _ _ _ _ _ _ _ _ _ b _ _ p]) (simp_all add: send)
  then show ?thesis unfolding s using w by (auto simp: demo_frames s)
qed

text \<open>
  From \<open>kcpev_send\<close> over KCP to the receive callback of the server. Once the fragments one call queued
  are in the receive queue of a connection of the server, \<open>try_kcp_recv\<close> calls the receive callback
  once, with that connection and the same bytes, and changes nothing else but
  the engine; for the largest payload it writes behind the local array as the client does.
\<close>

theorem server_message:
  assumes "conn_inv k" and "is_kcp_valid k" and "length msg \<le> 65528" and "\<And>j. send_mem env j \<noteq> None"
    and "kcp (udp k) = Some kc" and "258 \<le> unat (mss kc)"
    and "kcpev_send env k msg = Some (r, k', out)" and "kcp (udp k') = Some kc'"
    and "conns w c = Some peer" and "kcp (udp peer) = Some kp" and "rcv_inv kp" and "rcv_queue kp = queued kc kc'"
    and "rcv_buf kp = []" and "srv_cb (srv w)" and "s_nameinfo (envs 0) = 0" and "s_peername (envs 0) = 0"
  shows "r = 0 \<and> out = [] \<and>
    (if length msg < 65528
     then \<exists>kp'. server_try_kcp_recv T envs c w =
       Some (0, put_conn c (peer\<lparr>udp := (udp peer)\<lparr>kcp := Some kp'\<rparr>\<rparr>) w, [Ev_server_cb (Some c) msg])
     else server_try_kcp_recv T envs c w = None)"
proof -
  obtain kp' where ro: "r = 0" "out = []" and q: "rcv_queue kp \<noteq> []" "rcv_queue kp' = []"
    and r: "ikcp_recv kp True 65536 = Some (int (length msg + 8), frame (pad_of env) 1 msg, kp')"
    by (rule sent_frame_received [OF assms(1-8,11-13)])
  obtain fuel where f: "kcp_recv_fuel peer = Suc (Suc fuel)" using recv_fuel_two [OF assms(10) q(1)] by blast
  let ?peer = "peer\<lparr>udp := (udp peer)\<lparr>kcp := Some kp'\<rparr>\<rparr>"
  let ?w = "put_conn c ?peer w"
  have l: "loop_kcp None peer kp" "loop_kcp None ?peer kp'" using assms(10) by (simp_all add: loop_kcp_def)
  have p: "loop_put None c peer kp' w = (None, ?w)" "loop_put None c ?peer kp' ?w = (None, ?w)"
    by (simp_all add: loop_put_def put_conn_def)
  have d: "length (frame (pad_of env) 1 msg) \<le> 65536" "conns ?w c = Some ?peer" using assms(3) by (simp_all add: put_conn_def)
  have e: "ikcp_recv kp' True 65536 = Some (-1, [], kp')" using q(2) by (simp add: ikcp_recv_cases)
  have h: "on_server_recv T (envs 0) ?w (Some c) (frame (pad_of env) 1 msg) = Some (0, None, ?w, [Ev_server_cb (Some c) msg])"
    using assms(3,14,15) by (simp add: on_server_recv_frame put_conn_def)
  have n: "server_kcp_recv T (Suc fuel) (Suc 0) envs 0 c None ?w = Some (0, ?w, [])"
    by (subst server_kcp_recv_step [OF d(2) l(2) e p(2)]) simp_all
  have "server_try_kcp_recv T envs c w =
      (if length msg < 65528 then Some (0, ?w, [Ev_server_cb (Some c) msg]) else None)"
    unfolding server_try_kcp_recv_def
    using assms(3,9,16) h n f
    by (simp add: server_kcp_recv_step [OF assms(9) l(1) r p(1) d(1)] c_assert_def del: server_kcp_recv.simps)
  then show ?thesis using ro by auto
qed

theorem server_message_witness:
  "\<exists>peer k' kp'. kcpev_send demo_env demo_shaken [7, 9] = Some (0, k', []) \<and>
    server_try_kcp_recv list_table (\<lambda>_. demo_srv_env) 1 (put_conn 1 peer demo_world1) =
      Some (0, put_conn 1 (peer\<lparr>udp := (udp peer)\<lparr>kcp := Some kp'\<rparr>\<rparr>) (put_conn 1 peer demo_world1), [Ev_server_cb (Some 1) [7, 9]])"
proof -
  obtain kc kc' where kc: "kcp (udp demo_shaken) = Some kc" "rcv_buf kc = []" "258 \<le> unat (mss kc)"
    and send: "kcpev_send demo_env demo_shaken [7, 9] = Some (0, demo_shaken\<lparr>udp := (udp demo_shaken)\<lparr>kcp := Some kc'\<rparr>\<rparr>, [])"
    and inv: "rcv_inv (kc\<lparr>rcv_queue := queued kc kc', nrcv_que := 1\<rparr>)" by (rule demo_sent)
  let ?peer = "demo_shaken\<lparr>udp := (udp demo_shaken)\<lparr>kcp := Some (kc\<lparr>rcv_queue := queued kc kc', nrcv_que := 1\<rparr>)\<rparr>\<rparr>"
  let ?w = "put_conn 1 ?peer demo_world1"
  have m: "send_mem demo_env j \<noteq> None" for j using demo_env_ok by (simp add: env_ok_def)
  have l: "length [7, 9 :: byte] \<le> 65528" by simp
  have w: "conns ?w 1 = Some ?peer" "srv_cb (srv ?w)" using demo_world1_inv by (simp_all add: server_inv_def put_conn_def)
  have "0 = (0 :: int) \<and> [] = ([] :: event list) \<and>
    (if length [7, 9 :: byte] < 65528
     then \<exists>kp'. server_try_kcp_recv list_table (\<lambda>_. demo_srv_env) 1 ?w =
       Some (0, put_conn 1 (?peer\<lparr>udp := (udp ?peer)\<lparr>kcp := Some kp'\<rparr>\<rparr>) ?w, [Ev_server_cb (Some 1) [7, 9]])
     else server_try_kcp_recv list_table (\<lambda>_. demo_srv_env) 1 ?w = None)"
    by (rule server_message [OF demo_shaken_inv demo_shaken_valid(1) l m kc(1,3) send _ w(1) _ inv _ _ w(2)]) (simp_all add: kc(2))
  then obtain kp' where "server_try_kcp_recv list_table (\<lambda>_. demo_srv_env) 1 ?w =
      Some (0, put_conn 1 (?peer\<lparr>udp := (udp ?peer)\<lparr>kcp := Some kp'\<rparr>\<rparr>) ?w, [Ev_server_cb (Some 1) [7, 9]])"
    by (auto split: if_splits)
  with send show ?thesis by blast
qed

text \<open>The windows and the segment size of an engine of \<open>kcpev_create_kcp\<close>.\<close>

lemma create_kcp_conf:
  assumes "kcpev_create_kcp oc ob u cu KCPEV_KCP_MODE = (0, u')" and "kcp u' = Some k"
  shows "fresh c (k\<lparr>conv := c\<rparr>)" "ackcount k = 0" "rcv_wnd k = 128" "snd_wnd k = 128" "mss k = 1376"
proof -
  show "fresh c (k\<lparr>conv := c\<rparr>)" using create_kcp_fresh [OF assms(1)] assms(2) fresh_conv by auto
  have "ackcount k = 0 \<and> rcv_wnd k = 128 \<and> snd_wnd k = 128 \<and> mss k = 1376"
    using assms by (auto simp: kcpev_create_kcp_def ikcp_create_def ikcp_wndsize_def ikcp_nodelay_def Let_def split: if_splits)
  then show "ackcount k = 0" "rcv_wnd k = 128" "snd_wnd k = 128" "mss k = 1376" by blast+
qed

text \<open>
  C4: two engines of \<open>kcpev_create_kcp\<close> are never stuck. Every message of the session layer fits
  its send buffer and so the windows of the engines: at most 48 fragments against a window of 128.
  Hence, in every state they reach over a network that loses, repeats, delays and reorders
  datagrams, some continuation delivers every message accepted so far and acknowledges it.
\<close>

theorem kcp_never_stuck:
  assumes "kcpev_create_kcp oc ob u cu KCPEV_KCP_MODE = (0, u')" and "kcp u' = Some a"
    and "kcpev_create_kcp oc' ob' v cv KCPEV_KCP_MODE = (0, v')" and "kcp v' = Some b"
    and "duplex_step\<^sup>*\<^sup>* (duplex_start (a\<lparr>conv := c\<rparr>) (b\<lparr>conv := c\<rparr>)) s" and "nseg (lk s) < 2 ^ 30"
    and "\<forall>msg \<in> set (msgs (lk s)). length msg \<le> KCPEV_BUFFER_SIZE"
  shows "\<exists>s'. duplex_step\<^sup>*\<^sup>* s s' \<and> msgs (lk s') = msgs (lk s) \<and> nseg (lk s') = nseg (lk s) \<and> got (lk s') = msgs (lk s) \<and>
    snd_buf (tx (lk s')) = [] \<and> snd_queue (tx (lk s')) = []"
proof -
  note A = create_kcp_conf [OF assms(1,2)] and B = create_kcp_conf [OF assms(3,4)]
  have s: "live c s" "rcv_wnd (rx (lk s)) = 128" "mss (tx (lk s)) = 1376" "snd_wnd (tx (lk s)) = 128"
    using live_from_start [OF A(1) B(1) _ _ assms(5)] A(2-5) B(2-5) assms(6) by simp_all
  have "frag_count 1376 (length msg) \<le> 128" if "msg \<in> set (msgs (lk s))" for msg
    using assms(7) that by (fastforce simp: frag_count_def)
  then have "fits s" using s(2-4) by (simp add: fits_def)
  then show ?thesis by (rule live_completes [OF s(1)])
qed

text \<open>An engine of the session layer, and the two of them with one message sent.\<close>

definition demo_engine :: IKCPCB where
  "demo_engine = the (kcp (snd (kcpev_create_kcp True True (udp demo_client) 0 KCPEV_KCP_MODE)))"

definition demo_pair :: duplex where
  "demo_pair = \<lparr>lk = \<lparr>tx = snd (the (ikcp_send demo_mem (demo_engine\<lparr>conv := 9\<rparr>) (Some [1, 2, 3]) 3)), rx = demo_engine\<lparr>conv := 9\<rparr>,
     net = {}, msgs = [[1, 2, 3]], got = [], nseg = 1\<rparr>, echoes = {}\<rparr>"

lemma demo_engine_made:
  "\<exists>u. kcpev_create_kcp True True (udp demo_client) 0 KCPEV_KCP_MODE = (0, u) \<and> kcp u = Some demo_engine"
proof -
  have "fst (kcpev_create_kcp True True (udp demo_client) 0 KCPEV_KCP_MODE) = 0 \<and>
    kcp (snd (kcpev_create_kcp True True (udp demo_client) 0 KCPEV_KCP_MODE)) \<noteq> None"
    by (simp add: kcpev_create_kcp_def ikcp_create_def Let_def)
  then show ?thesis unfolding demo_engine_def
    by (cases "kcpev_create_kcp True True (udp demo_client) 0 KCPEV_KCP_MODE") auto
qed

lemma demo_pair_step: "duplex_step (duplex_start (demo_engine\<lparr>conv := 9\<rparr>) (demo_engine\<lparr>conv := 9\<rparr>)) demo_pair"
proof -
  let ?k = "demo_engine\<lparr>conv := 9\<rparr>"
  define k where "k = snd (the (ikcp_send demo_mem ?k (Some [1, 2, 3]) 3))"
  have q: "length (snd_queue ?k) = 0" using demo_engine_made create_kcp_conf(1) [of True True "udp demo_client" 0 _ demo_engine 9]
    by (auto simp: fresh_def)
  have "map_option (\<lambda>(r, k). (r, length (snd_queue k))) (ikcp_send demo_mem ?k (Some [1, 2, 3]) 3) = Some (0, 1)" by code_simp
  then have s: "ikcp_send demo_mem ?k (Some [1, 2, 3]) 3 = Some (0, k)" "length (snd_queue k) = 1" by (auto simp: k_def)
  show ?thesis
    using duplex_step.send [of demo_mem "[1, 2, 3]" "link_start ?k ?k" 0 k "{}"] s q
    by (simp add: duplex_start_def link_start_def demo_pair_def demo_mem_def k_def)
qed

theorem kcp_never_stuck_witness:
  "\<exists>s'. duplex_step\<^sup>*\<^sup>* demo_pair s' \<and> got (lk s') = [[1, 2, 3]] \<and> snd_buf (tx (lk s')) = []"
proof -
  obtain u where u: "kcpev_create_kcp True True (udp demo_client) 0 KCPEV_KCP_MODE = (0, u)" "kcp u = Some demo_engine"
    using demo_engine_made by blast
  have d: "nseg (lk demo_pair) < 2 ^ 30" "\<forall>msg \<in> set (msgs (lk demo_pair)). length msg \<le> KCPEV_BUFFER_SIZE"
    by (simp_all add: demo_pair_def)
  have "\<exists>s'. duplex_step\<^sup>*\<^sup>* demo_pair s' \<and> msgs (lk s') = msgs (lk demo_pair) \<and> nseg (lk s') = nseg (lk demo_pair) \<and>
      got (lk s') = msgs (lk demo_pair) \<and> snd_buf (tx (lk s')) = [] \<and> snd_queue (tx (lk s')) = []"
    by (rule kcp_never_stuck [OF u u r_into_rtranclp [of duplex_step, OF demo_pair_step] d])
  then show ?thesis by (auto simp: demo_pair_def)
qed

end
