(* ===== verification/Uuid.thy ===== *)
theory Uuid
  imports Kcpev_Prelude
begin

text \<open>
  The text of a key (\<open>src/src/myuuid.c\<close>), which the log messages of \<open>kcpev.c\<close> print: the fields
  of a UUID and their formatting. \<open>sprintf\<close> is modelled for what the two formats use, the
  conversions \<open>%0Nx\<close> and \<open>%0NX\<close> and plain characters.
\<close>

section \<open>Formatting numbers\<close>

definition hex_digit :: "bool \<Rightarrow> nat \<Rightarrow> char" where
  "hex_digit upper n = char_of (if n < 10 then 48 + n else (if upper then 55 else 87) + n)"

fun hex_digits :: "bool \<Rightarrow> nat \<Rightarrow> string" where
  "hex_digits upper n = (if n < 16 then [] else hex_digits upper (n div 16)) @ [hex_digit upper (n mod 16)]"

declare hex_digits.simps [simp del]

definition print_hex :: "bool \<Rightarrow> nat \<Rightarrow> nat \<Rightarrow> string" where
  "print_hex upper width n =
     (let ds = hex_digits upper n in replicate (width - length ds) (CHR ''0'') @ ds)"

fun sprintf :: "string \<Rightarrow> nat list \<Rightarrow> string option" where
  "sprintf [] args = Some []"
| "sprintf (f # fmt) args =
     (if f \<noteq> CHR ''%'' then map_option (\<lambda>s. f # s) (sprintf fmt args)
      else
        (case fmt of
           z # w # x # fmt \<Rightarrow>
             (case args of
                n # args \<Rightarrow>
                  if z = CHR ''0'' \<and> x \<in> {CHR ''x'', CHR ''X''}
                  then map_option (\<lambda>s. print_hex (x = CHR ''X'') (of_char w - 48) n @ s) (sprintf fmt args)
                  else None
              | _ \<Rightarrow> None)
         | _ \<Rightarrow> None))"

section \<open>The source\<close>

record uuid =
  time_low :: u32
  time_mid :: u16
  time_hi_and_version :: u16
  clock_seq :: u16
  node :: "byte list"

definition fmt_lower :: string where
  "fmt_lower = ''%08x-%04x-%04x-%02x%02x-%02x%02x%02x%02x%02x%02x''"

definition fmt_upper :: string where
  "fmt_upper = ''%08X-%04X-%04X-%02X%02X-%02X%02X%02X%02X%02X%02X''"

text \<open>\<open>*ptr++\<close>.\<close>

definition next_byte :: "byte list \<Rightarrow> (u32 \<times> byte list) option" where
  "next_byte ptr = (case ptr of [] \<Rightarrow> None | b # ptr \<Rightarrow> Some (ucast b, ptr))"

definition uuid_unpack :: "byte list \<Rightarrow> uuid option" where
  "uuid_unpack ptr =
     do {
       (tmp, ptr) \<leftarrow> next_byte ptr;
       (b, ptr) \<leftarrow> next_byte ptr; let tmp = push_bit 8 tmp OR b;
       (b, ptr) \<leftarrow> next_byte ptr; let tmp = push_bit 8 tmp OR b;
       (b, ptr) \<leftarrow> next_byte ptr; let tmp = push_bit 8 tmp OR b;
       let low = tmp;
       (tmp, ptr) \<leftarrow> next_byte ptr;
       (b, ptr) \<leftarrow> next_byte ptr; let tmp = push_bit 8 tmp OR b;
       let mid = ucast tmp;
       (tmp, ptr) \<leftarrow> next_byte ptr;
       (b, ptr) \<leftarrow> next_byte ptr; let tmp = push_bit 8 tmp OR b;
       let hi = ucast tmp;
       (tmp, ptr) \<leftarrow> next_byte ptr;
       (b, ptr) \<leftarrow> next_byte ptr; let tmp = push_bit 8 tmp OR b;
       let cs = ucast tmp;
       nd \<leftarrow> fetch ptr 0 6;
       Some \<lparr>time_low = low, time_mid = mid, time_hi_and_version = hi, clock_seq = cs, node = nd\<rparr>
     }"

text \<open>\<open>sprintf\<close> writes the text and a zero into \<open>out\<close>.\<close>

definition uuid_unparse_x :: "byte list \<Rightarrow> string \<Rightarrow> string \<Rightarrow> string option" where
  "uuid_unparse_x uu out fmt =
     do {
       uuid \<leftarrow> uuid_unpack uu;
       s \<leftarrow> sprintf fmt
         [unat (time_low uuid), unat (time_mid uuid), unat (time_hi_and_version uuid),
          unat (drop_bit 8 (clock_seq uuid)), unat (clock_seq uuid AND 0xFF),
          unat (node uuid ! 0), unat (node uuid ! 1), unat (node uuid ! 2),
          unat (node uuid ! 3), unat (node uuid ! 4), unat (node uuid ! 5)];
       blit out 0 (s @ [CHR 0x00])
     }"

definition uuid_unparse_lower :: "byte list \<Rightarrow> string \<Rightarrow> string option" where
  "uuid_unparse_lower uu out = uuid_unparse_x uu out fmt_lower"

definition uuid_unparse_upper :: "byte list \<Rightarrow> string \<Rightarrow> string option" where
  "uuid_unparse_upper uu out = uuid_unparse_x uu out fmt_upper"

text \<open>\<open>UUID_UNPARSE_DEFAULT_UPPER\<close> is not defined.\<close>

definition uuid_unparse :: "byte list \<Rightarrow> string \<Rightarrow> string option" where
  "uuid_unparse uu out = uuid_unparse_x uu out fmt_lower"

section \<open>The text of a key\<close>

text \<open>The reference: two digits for each byte, with dashes after 4, 6, 8 and 10 bytes.\<close>

definition byte_text :: "bool \<Rightarrow> byte \<Rightarrow> string" where
  "byte_text upper b = [hex_digit upper (unat b div 16), hex_digit upper (unat b mod 16)]"

definition bytes_text :: "bool \<Rightarrow> byte list \<Rightarrow> string" where
  "bytes_text upper bs = concat (map (byte_text upper) bs)"

definition uuid_text :: "bool \<Rightarrow> byte list \<Rightarrow> string" where
  "uuid_text upper bs =
     bytes_text upper (take 4 bs) @ ''-'' @ bytes_text upper (take 2 (drop 4 bs)) @ ''-'' @
     bytes_text upper (take 2 (drop 6 bs)) @ ''-'' @ bytes_text upper (take 2 (drop 8 bs)) @ ''-'' @
     bytes_text upper (drop 10 bs)"

text \<open>Printing with zeros up to a width is printing exactly that many digits.\<close>

primrec hex_fixed :: "bool \<Rightarrow> nat \<Rightarrow> nat \<Rightarrow> string" where
  "hex_fixed upper 0 n = []"
| "hex_fixed upper (Suc k) n = hex_fixed upper k (n div 16) @ [hex_digit upper (n mod 16)]"

lemma hex_fixed_0: "hex_fixed upper k 0 = replicate k (CHR ''0'')"
proof (induction k)
  case (Suc k)
  have "hex_digit upper 0 = CHR ''0''" by (simp add: hex_digit_def char_of_def bit_Suc_0_iff)
  then show ?case using Suc by (simp add: replicate_append_same)
qed simp

lemma length_hex_digits: "n < 16 ^ Suc k \<Longrightarrow> length (hex_digits upper n) \<le> Suc k"
proof (induction k arbitrary: n)
  case (Suc k)
  then have "length (hex_digits upper (n div 16)) \<le> Suc k" by (simp add: div_less_iff_less_mult)
  then show ?case by (subst hex_digits.simps) simp
qed (simp add: hex_digits.simps)

lemma print_hex_fixed: "n < 16 ^ Suc k \<Longrightarrow> print_hex upper (Suc k) n = hex_fixed upper (Suc k) n"
proof (induction k arbitrary: n)
  case 0
  then show ?case by (simp add: print_hex_def hex_digits.simps)
next
  case (Suc k)
  show ?case
  proof (cases "n < 16")
    case True
    then show ?thesis using hex_fixed_0 [of upper "Suc k"] by (simp add: print_hex_def hex_digits.simps [of _ n])
  next
    case False
    have "n div 16 < 16 ^ Suc k" using Suc.prems by (simp add: div_less_iff_less_mult)
    from Suc.IH [OF this, unfolded print_hex_def Let_def] length_hex_digits [OF this, of upper] False
    show ?thesis by (simp add: print_hex_def hex_digits.simps [of _ n] Let_def)
  qed
qed

lemma hex_fixed_byte: "n < 256 \<Longrightarrow> hex_fixed upper 2 n = [hex_digit upper (n div 16), hex_digit upper (n mod 16)]"
  by (simp add: numeral_2_eq_2)

lemma hex_fixed_shift:
  assumes "b < 256"
  shows "hex_fixed upper (k + 2) (m * 256 + b) = hex_fixed upper k m @ hex_fixed upper 2 b"
proof -
  have s: "(x * 16 + r) div 16 = x" "(x * 16 + r) mod 16 = r" if "r < 16" for x r :: nat using that by simp_all
  have e: "m * 256 + b = (m * 16 + b div 16) * 16 + b mod 16" by simp
  have "b div 16 < 16" "b mod 16 < 16" using assms by simp_all
  then have d: "(m * 256 + b) div 16 = m * 16 + b div 16" "(m * 256 + b) mod 16 = b mod 16"
      "(m * 16 + b div 16) div 16 = m" "(m * 16 + b div 16) mod 16 = b div 16"
    unfolding e by (simp_all only: s)
  show ?thesis
    unfolding hex_fixed_byte [OF assms] by (simp only: numeral_2_eq_2 add_Suc_right add_0_right hex_fixed.simps d append_assoc append.simps)
qed

text \<open>Shifting a byte in.\<close>

lemma unat_shift_in:
  assumes "unat t < 2 ^ 24"
  shows "unat (push_bit 8 t OR ucast b :: u32) = unat t * 256 + unat (b :: byte)"
proof -
  have "push_bit 8 t + ucast b = (push_bit 8 t OR ucast b :: u32)"
    by (rule disjunctive_add) (auto simp: bit_simps dest: bit_imp_le_length)
  moreover have "unat (push_bit 8 t) = unat t * 256"
    using assms by (simp add: push_bit_eq_mult unat_word_ariths)
  moreover have "unat (ucast b :: u32) = unat b" using unsigned_less [of b, where ?'a = nat] by (simp add: unsigned_ucast_eq take_bit_nat_eq_self)
  ultimately show ?thesis
    using assms unsigned_less [of b, where ?'a = nat] unat_add_lt [of "push_bit 8 t" "ucast b :: u32"] by simp
qed

text \<open>What the two formats print for the fields of a UUID.\<close>

lemma hex_bytes:
  "print_hex upper 2 (unat (b :: byte)) = byte_text upper b"
  "print_hex upper 4 (unat (b :: byte) * 256 + unat (c :: byte)) = byte_text upper b @ byte_text upper c"
  "print_hex upper 8 (((unat (b :: byte) * 256 + unat (c :: byte)) * 256 + unat (d :: byte)) * 256 + unat (e :: byte)) =
     byte_text upper b @ byte_text upper c @ byte_text upper d @ byte_text upper e"
proof -
  have l: "unat (x :: byte) < 256" for x using unsigned_less [of x, where ?'a = nat] by simp
  have two: "hex_fixed upper 2 (unat (x :: byte)) = byte_text upper x" for x
    using hex_fixed_byte [OF l] by (simp add: byte_text_def)
  show "print_hex upper 2 (unat b) = byte_text upper b"
    using print_hex_fixed [of "unat b" 1 upper] l [of b] by (simp add: numeral_2_eq_2 byte_text_def)
  have c: "hex_fixed upper 4 (unat b * 256 + unat c) = byte_text upper b @ byte_text upper c"
    using hex_fixed_shift [OF l [of c], of upper 2 "unat b"] two by simp
  have d: "hex_fixed upper 6 ((unat b * 256 + unat c) * 256 + unat d) = byte_text upper b @ byte_text upper c @ byte_text upper d"
    using hex_fixed_shift [OF l [of d], of upper 4 "unat b * 256 + unat c"] two c by simp
  have e: "hex_fixed upper 8 (((unat b * 256 + unat c) * 256 + unat d) * 256 + unat e) =
      byte_text upper b @ byte_text upper c @ byte_text upper d @ byte_text upper e"
    using hex_fixed_shift [OF l [of e], of upper 6 "(unat b * 256 + unat c) * 256 + unat d"] two d by simp
  show "print_hex upper 4 (unat b * 256 + unat c) = byte_text upper b @ byte_text upper c"
    using print_hex_fixed [of "unat b * 256 + unat c" 3 upper] l [of b] l [of c] c by simp
  show "print_hex upper 8 (((unat b * 256 + unat c) * 256 + unat d) * 256 + unat e) =
      byte_text upper b @ byte_text upper c @ byte_text upper d @ byte_text upper e"
    using print_hex_fixed [of "((unat b * 256 + unat c) * 256 + unat d) * 256 + unat e" 7 upper] l [of b] l [of c] l [of d] l [of e] e
    by simp
qed

lemma unpack_field:
  assumes "unat t < 2 ^ 8"
  shows "unat (ucast (push_bit 8 t OR ucast (b :: byte) :: u32) :: u16) = unat t * 256 + unat b"
proof -
  have l: "unat b < 256" using unsigned_less [of b, where ?'a = nat] by simp
  have "unat (push_bit 8 t OR ucast b :: u32) = unat t * 256 + unat b" using unat_shift_in [of t b] assms by simp
  then show ?thesis using assms l by (simp add: unsigned_ucast_eq take_bit_nat_eq_self)
qed

lemma clock_bytes:
  "unat (drop_bit 8 (w :: u16)) = unat w div 256" "unat (w AND 0xFF) = unat w mod 256"
proof -
  show "unat (drop_bit 8 w) = unat w div 256" by (simp add: drop_bit_eq_div unat_div)
  have "w AND 0xFF = take_bit 8 w" by (simp add: take_bit_eq_mask mask_eq_exp_minus_1)
  then show "unat (w AND 0xFF) = unat w mod 256" by (simp add: take_bit_eq_mod unat_mod)
qed

lemma uuid_unpack_bytes:
  "uuid_unpack [b0, b1, b2, b3, b4, b5, b6, b7, b8, b9, b10, b11, b12, b13, b14, b15] =
     Some \<lparr>time_low = push_bit 8 (push_bit 8 (push_bit 8 (ucast b0) OR ucast b1) OR ucast b2) OR ucast b3,
       time_mid = ucast (push_bit 8 (ucast b4 :: u32) OR ucast b5),
       time_hi_and_version = ucast (push_bit 8 (ucast b6 :: u32) OR ucast b7),
       clock_seq = ucast (push_bit 8 (ucast b8 :: u32) OR ucast b9), node = [b10, b11, b12, b13, b14, b15]\<rparr>"
  by (simp add: uuid_unpack_def next_byte_def fetch_def)

lemma sprintf_uuid:
  assumes "fmt = (if upper then fmt_upper else fmt_lower)"
  shows "sprintf fmt [l, m, h, c, d, n0, n1, n2, n3, n4, n5] =
    Some (print_hex upper 8 l @ ''-'' @ print_hex upper 4 m @ ''-'' @ print_hex upper 4 h @ ''-'' @
      print_hex upper 2 c @ print_hex upper 2 d @ ''-'' @ print_hex upper 2 n0 @ print_hex upper 2 n1 @
      print_hex upper 2 n2 @ print_hex upper 2 n3 @ print_hex upper 2 n4 @ print_hex upper 2 n5)"
  using assms by (cases upper) (simp_all add: fmt_upper_def fmt_lower_def)

lemma list_16:
  assumes "length xs = 16"
  obtains b0 b1 b2 b3 b4 b5 b6 b7 b8 b9 b10 b11 b12 b13 b14 b15
  where "xs = [b0, b1, b2, b3, b4, b5, b6, b7, b8, b9, b10, b11, b12, b13, b14, b15]"
  using assms by (auto simp: numeral_eq_Suc length_Suc_conv)

lemma uuid_sprintf:
  assumes "length uu = 16" and "fmt = (if upper then fmt_upper else fmt_lower)"
  shows "uuid_unparse_x uu out fmt = blit out 0 (uuid_text upper uu @ [CHR 0x00])"
proof -
  obtain b0 b1 b2 b3 b4 b5 b6 b7 b8 b9 b10 b11 b12 b13 b14 b15 where
    uu: "uu = [b0, b1, b2, b3, b4, b5, b6, b7, b8, b9, b10, b11, b12, b13, b14, b15]"
    by (rule list_16 [OF assms(1)])
  have l: "unat (b :: byte) < 256" for b using unsigned_less [of b, where ?'a = nat] by simp
  have w: "unat (ucast b :: u32) = unat b" for b :: byte
    using l [of b] by (simp add: unsigned_ucast_eq take_bit_nat_eq_self)
  have f: "unat (ucast (push_bit 8 (ucast b) OR ucast c :: u32) :: u16) = unat b * 256 + unat c" for b c :: byte
    using unpack_field [of "ucast b" c] l [of b] w [of b] by simp
  have low: "unat (push_bit 8 (push_bit 8 (push_bit 8 (ucast b0) OR ucast b1) OR ucast b2) OR ucast b3 :: u32) =
      ((unat b0 * 256 + unat b1) * 256 + unat b2) * 256 + unat b3"
    using unat_shift_in [of "ucast b0" b1] unat_shift_in [of "push_bit 8 (ucast b0) OR ucast b1" b2]
      unat_shift_in [of "push_bit 8 (push_bit 8 (ucast b0) OR ucast b1) OR ucast b2" b3] w [of b0] l [of b0] l [of b1] l [of b2]
    by simp
  have c: "(unat b8 * 256 + unat b9) div 256 = unat b8" "(unat b8 * 256 + unat b9) mod 256 = unat b9"
    using l [of b9] by simp_all
  show ?thesis
    unfolding uu uuid_unparse_x_def uuid_unpack_bytes bind.bind_lunit uuid.simps f low clock_bytes c sprintf_uuid [OF assms(2)] hex_bytes
    by (simp add: hex_bytes(1) uuid_text_def bytes_text_def)
qed

text \<open>
  C40: \<open>uuid_unparse\<close> and its variants print the sixteen bytes of a key in order, two digits each,
  with dashes after 4, 6, 8 and 10 bytes: 36 characters and the zero, so the arrays of 37 of
  the callers are just large enough, and anything smaller is overrun.
\<close>

theorem uuid_unparse_text:
  assumes "length uu = 16"
  shows "uuid_unparse uu out = (if length out < 37 then None else Some (uuid_text False uu @ CHR 0x00 # drop 37 out)) \<and>
    uuid_unparse_lower uu out = uuid_unparse uu out \<and>
    uuid_unparse_upper uu out = (if length out < 37 then None else Some (uuid_text True uu @ CHR 0x00 # drop 37 out))"
proof -
  obtain b0 b1 b2 b3 b4 b5 b6 b7 b8 b9 b10 b11 b12 b13 b14 b15 where
    "uu = [b0, b1, b2, b3, b4, b5, b6, b7, b8, b9, b10, b11, b12, b13, b14, b15]"
    by (rule list_16 [OF assms])
  then have "length (uuid_text upper uu) = 36" for upper by (simp add: uuid_text_def bytes_text_def byte_text_def)
  then show ?thesis
    using uuid_sprintf [OF assms, of fmt_lower False out] uuid_sprintf [OF assms, of fmt_upper True out]
    by (simp add: uuid_unparse_def uuid_unparse_lower_def uuid_unparse_upper_def blit_def)
qed

theorem uuid_unparse_text_witness:
  "uuid_unparse (map of_nat [0..<16]) (replicate 37 (CHR ''?'')) =
     Some (''00010203-0405-0607-0809-0a0b0c0d0e0f'' @ [CHR 0x00])"
proof -
  have l: "length (map of_nat [0..<16] :: byte list) = 16" by simp
  have "uuid_text False (map of_nat [0..<16]) = ''00010203-0405-0607-0809-0a0b0c0d0e0f''" by code_simp
  then show ?thesis using uuid_unparse_text [OF l, of "replicate 37 (CHR ''?'')"] by (simp del: replicate.simps)
qed

end
