(* ===== verification/Spec2Isabelle.thy ===== *)
theory Spec2Isabelle
  imports Ringbuf Iqueue Ikcp_Liveness Kcpev_Delivery Uuid
begin

text \<open>
  Verification of \<open>kcpev\<close>, a session layer in C that sends messages over UDP with the reliable
  protocol KCP and falls back to TCP.

  \<^bold>\<open>The program.\<close> A connection has a TCP and a UDP socket. Messages are framed with an
  8-byte header. Over TCP the frames are put together again from the byte stream with a ring
  buffer; over UDP they are messages of a KCP engine, which cuts them into segments,
  acknowledges, retransmits and puts them in order. The server sends a key over TCP, both
  sides shake hands over UDP, and when the heartbeats of the peer stop a connection uses only
  TCP. \<open>libev\<close> calls the handlers of sockets and timers.

  \<^bold>\<open>Theories and sources\<close> (paths below \<open>src/src/\<close>).

  \<^item> \<open>Kcpev_Prelude\<close>: C conversions and memory accesses, word and list lemmas.
  \<^item> \<open>Ringbuf\<close>: \<open>kcpev_ringbuf.c\<close>, every operation, with a locale for byte queues.
  \<^item> \<open>Iqueue\<close>: the intrusive list macros of \<open>ikcp.h\<close> on an explicit store of nodes.
  \<^item> \<open>Ikcp_Base\<close>: the structures, constants, byte codecs and the control functions of \<open>ikcp.c\<close>
    (\<open>ikcp_create\<close>, \<open>ikcp_release\<close>, \<open>ikcp_setmtu\<close>, \<open>ikcp_nodelay\<close>, \<open>ikcp_wndsize\<close>, ...).
  \<^item> \<open>Ikcp_Recv\<close>, \<open>Ikcp_Send\<close>, \<open>Ikcp_Ack\<close>: \<open>ikcp_recv\<close>, \<open>ikcp_peeksize\<close>, \<open>ikcp_parse_data\<close>;
    \<open>ikcp_send\<close>; the acknowledgement functions and the round trip estimator.
  \<^item> \<open>Ikcp_Inv\<close>: the invariant \<open>kcp_inv\<close> of the control block.
  \<^item> \<open>Ikcp_Input\<close>, \<open>Ikcp_Flush\<close>, \<open>Ikcp_Update\<close>: \<open>ikcp_input\<close>; \<open>ikcp_flush\<close>; \<open>ikcp_update\<close> and
    \<open>ikcp_check\<close>.
  \<^item> \<open>Ikcp_Transfer\<close>: two engines and a network as an inductive step relation.
  \<^item> \<open>Ikcp_Progress\<close>: one exchange of the two engines without losses.
  \<^item> \<open>Ikcp_Duplex\<close>: two engines connected in both directions, and complete delivery.
  \<^item> \<open>Ikcp_Liveness\<close>: from every state of the two engines the transfer can be completed.
  \<^item> \<open>Kcpev_Header\<close>: \<open>header_to_net\<close>, \<open>header_from_net\<close>, \<open>pack_send_buf\<close> of \<open>kcpev.c\<close>.
  \<^item> \<open>Kcpev_Conn\<close>: the structures of \<open>kcpev.h\<close>, creation, destruction, sockets, watchers, the
    choice of the transport, the sending functions and the timers' common part.
  \<^item> \<open>Kcpev_Tcp\<close>: \<open>on_tcp_recv\<close>, \<open>get_tcp_buf_chunk\<close> and the loop of the TCP watchers, with a locale
    for frame handlers.
  \<^item> \<open>Kcpev_Client\<close>, \<open>Kcpev_Session\<close>, \<open>Kcpev_Link\<close>: the handlers of a client, the client as a
    transition system with its invariant, and what it promises its user.
  \<^item> \<open>Kcpev_Server\<close>: the server, its table of connections, \<open>tcp_accept\<close>, \<open>on_server_recv\<close>, the watchers
    and timers of a connection, creation and destruction.
  \<^item> \<open>Kcpev_Alloc\<close>: failing allocations: a call that returns although an allocation could have failed
    returns the same when none does.
  \<^item> \<open>Kcpev_Registry\<close>: the server as a transition system: the invariant of the table and of every
    connection, and that it holds in every reachable state.
  \<^item> \<open>Kcpev_Handshake\<close>: client and server together: the handshake, the heartbeats, isolation, and
    the cases in which the server goes wrong.
  \<^item> \<open>Kcpev_Delivery\<close>: from \<open>kcpev_send\<close> of one side to the callback of the other, over TCP and
    over KCP.
  \<^item> \<open>Uuid\<close>: \<open>myuuid.c\<close>, the text of a key (for Windows; elsewhere \<open>libuuid\<close> prints it).

  \<^bold>\<open>Conventions.\<close> The C \<open>int\<close> is HOL's \<open>int\<close> with \<open>wrap32\<close> where the build's \<open>-fwrapv\<close> matters;
  unsigned types are words. An operation that can fail an assertion, abort, access memory
  outside an object or use an indeterminate value returns an option, and \<open>None\<close> is that
  outcome. Allocation results, the contents of fresh memory and what system calls return
  are arguments; what the code does to the outside, datagrams, \<open>send\<close>, \<open>close\<close>, callbacks
  and \<open>exit\<close>, is a list in program order. The connections of a server are a store from addresses
  to structures, so that a pointer to freed memory is an address outside of it. The hash table
  is a \<open>uthash\<close> table, whose code is not part of the sources: its operations are a record that the
  server's definitions take as an argument, and \<open>uthash_ok\<close> states what it documents; an
  association list is shown to satisfy it.

  \<^bold>\<open>Loops and fuel.\<close> Loops over queues are structural. The loop that parses a datagram ends since
  each segment takes 24 bytes. The traversals of \<open>Iqueue\<close> have the number of nodes as fuel, shown
  enough for every well-formed queue. \<open>move_chunks\<close> gets one more than the pending bytes,
  \<open>tcp_drain\<close> one more than the capacity of the ring buffer, since every frame taken has a byte;
  \<open>kcp_recv_fuel\<close> is one more than the segments received, since every message takes one; the loop
  of a server's connection, \<open>server_kcp_recv\<close>, gets the same, and one round, in which the assertion of \<open>ikcp_recv\<close>
  fails, when the connection has no engine. For each the lemmas show that the fuel is not used up.

  \<^bold>\<open>What the lemmas show.\<close> Every function of the engine keeps \<open>kcp_inv\<close> and is defined on any
  input; what \<open>ikcp_flush\<close> sends and what \<open>ikcp_input\<close> does with it are described over lists of
  segments, and from that the transfer theory derives in-order delivery of whole messages over
  a network that loses, repeats and reorders. The progress theory adds that from any such state
  one exchange of \<open>ikcp_update\<close> and \<open>ikcp_input\<close> without losses delivers and acknowledges every
  segment that is due and in the window. When the acknowledgements come from the receiver, too,
  nothing is given up before it arrived, so that such an exchange brings every message
  accepted so far to the user once the windows have room. The liveness theory makes no such
  assumption: in every reachable state, with a receive window that the header can announce, a schedule of reads, window probes, retransmissions and
  acknowledgements completes the transfer, exactly when no message has more fragments than the
  receiver's window; the engines of the session layer always meet that. The ring buffer refines a bounded byte queue, from which the TCP theory derives exact
  reassembly, once for the client and the server in the locale \<open>data_stream\<close>. The client theories show that its
  invariant holds in every reachable state, where a step is any call that returns, with any bytes,
  allocations and results of system calls. That a call does return is a theorem of its own: when the
  allocations succeed a handler has no undefined outcome, and those that read messages from the engine
  need that no message received fills the 64 KiB buffer, since such a message does have an undefined outcome.
  The lemmas on the handshake, the heartbeats and the timers show what they achieve. For the server they
  show that its table is exact in every reachable state, as long as no accept fails after it
  inserted its entry, that its handlers are defined under the conditions of the client, for the engine timer
  when the connection has an engine, and that what arrives on one connection does not touch another. For both together they show that
  the handshake ends with two engines of one conversation that deliver in order, what an
  exchange of heartbeats does, and that what \<open>kcpev_send\<close> takes reaches the callback of the peer. Exceptions that the code has are stated as theorems: bytes lost
  when the ring buffer is full, a stream that a partial \<open>send\<close> breaks, a write behind a buffer for the largest message, an entry of
  the table that outlives its connection, an engine replaced while it is in use, a timer
  without an engine.

  \<^bold>\<open>Not modelled.\<close> The text of log lines; \<open>ikcp_qprint\<close>, which is compiled out; address resolution beyond its results;
  \<open>libev\<close> beyond when it calls a handler, in particular the watcher that a repeated handshake
  leaves behind; the hooks of the allocator, which nothing sets; \<open>WSAStartup\<close>; calls of the
  library from inside the user's callbacks. An entry of the table that dangles is noticed when
  the code follows the pointer it finds, not when \<open>uthash\<close> itself walks over it.
\<close>

end
